(* ===== verification/Iiod_Prelude.thy ===== *)
theory Iiod_Prelude
  imports Main "HOL-Library.Word"
begin

text \<open>
  Shared vocabulary of the development: the C integer types as words, the errno numbers the code
  returns, the view of a circular array as a list, and the interface of a bounded first-in
  first-out buffer with its client lemmas.

  A C function that returns an \<open>int\<close> status code is modelled with the same number: 0 for
  success and \<open>- E\<close> for a failure, or the sum type \<open>'a res\<close> where it also fills an
  output argument (\<open>Inl\<close> the negative code, \<open>Inr\<close> the output).
\<close>

subsection \<open>Machine integers\<close>

type_synonym u8 = "8 word"
type_synonym u16 = "16 word"
type_synonym u32 = "32 word"
type_synonym u64 = "64 word"

text \<open>Signed fields are words of their width, compared through \<open>sint\<close>.\<close>

type_synonym i32 = "32 word"
type_synonym i64 = "64 word"

type_synonym 'a res = "int + 'a"

abbreviation (input) UINT64_MAX :: u64 where "UINT64_MAX \<equiv> 0xFFFFFFFFFFFFFFFF"
abbreviation (input) UINT32_MAX :: u32 where "UINT32_MAX \<equiv> 0xFFFFFFFF"

text \<open>The errno numbers of the Linux targets (\<open>asm-generic/errno.h\<close>).\<close>

abbreviation (input) ENOENT :: "'a::numeral" where "ENOENT \<equiv> 2"
abbreviation (input) EIO :: "'a::numeral" where "EIO \<equiv> 5"
abbreviation (input) E2BIG :: "'a::numeral" where "E2BIG \<equiv> 7"
abbreviation (input) EAGAIN :: "'a::numeral" where "EAGAIN \<equiv> 11"
abbreviation (input) ENOMEM :: "'a::numeral" where "ENOMEM \<equiv> 12"
abbreviation (input) EBUSY :: "'a::numeral" where "EBUSY \<equiv> 16"
abbreviation (input) EEXIST :: "'a::numeral" where "EEXIST \<equiv> 17"
abbreviation (input) EINVAL :: "'a::numeral" where "EINVAL \<equiv> 22"
abbreviation (input) ENOSPC :: "'a::numeral" where "ENOSPC \<equiv> 28"
abbreviation (input) EPIPE :: "'a::numeral" where "EPIPE \<equiv> 32"
abbreviation (input) ERANGE :: "'a::numeral" where "ERANGE \<equiv> 34"
abbreviation (input) ENODATA :: "'a::numeral" where "ENODATA \<equiv> 61"
abbreviation (input) ETIME :: "'a::numeral" where "ETIME \<equiv> 62"
abbreviation (input) EBADMSG :: "'a::numeral" where "EBADMSG \<equiv> 74"
abbreviation (input) EOVERFLOW :: "'a::numeral" where "EOVERFLOW \<equiv> 75"
abbreviation (input) EILSEQ :: "'a::numeral" where "EILSEQ \<equiv> 84"
abbreviation (input) EMSGSIZE :: "'a::numeral" where "EMSGSIZE \<equiv> 90"
abbreviation (input) EPROTONOSUPPORT :: "'a::numeral" where "EPROTONOSUPPORT \<equiv> 93"
abbreviation (input) EOPNOTSUPP :: "'a::numeral" where "EOPNOTSUPP \<equiv> 95"
abbreviation (input) ENOBUFS :: "'a::numeral" where "ENOBUFS \<equiv> 105"
abbreviation (input) ESHUTDOWN :: "'a::numeral" where "ESHUTDOWN \<equiv> 108"
abbreviation (input) ETIMEDOUT :: "'a::numeral" where "ETIMEDOUT \<equiv> 110"
abbreviation (input) EALREADY :: "'a::numeral" where "EALREADY \<equiv> 114"
abbreviation (input) ESTALE :: "'a::numeral" where "ESTALE \<equiv> 116"
abbreviation (input) ECANCELED :: "'a::numeral" where "ECANCELED \<equiv> 125"

lemma unat_u64_less [simp]: "unat (x::u64) < 18446744073709551616"
  using unsigned_less [of x] by simp

lemma le_max_minus_iff: "(x::u64) \<le> UINT64_MAX - y \<longleftrightarrow> unat x + unat y < 2 ^ 64"
proof -
  have y: "unat y \<le> 18446744073709551615"
    using unat_u64_less [of y] by linarith
  then have "unat (UINT64_MAX - y) = 18446744073709551615 - unat y"
    by (subst unat_sub) (simp_all add: word_le_nat_alt)
  then have "x \<le> UINT64_MAX - y \<longleftrightarrow> unat x \<le> 18446744073709551615 - unat y"
    by (simp add: word_le_nat_alt)
  also have "\<dots> \<longleftrightarrow> unat x + unat y < 2 ^ 64"
    using y by (simp add: le_diff_conv2) arith
  finally show ?thesis .
qed

lemma max_minus_less_iff: "UINT64_MAX - y < (x::u64) \<longleftrightarrow> 2 ^ 64 \<le> unat x + unat y"
  using le_max_minus_iff [of x y] by (meson linorder_not_le)

lemma unat_add_small: "unat x + unat y < 2 ^ 64 \<Longrightarrow> unat (x + y :: u64) = unat x + unat y"
  by (simp add: unat_word_ariths)

lemma unat_Suc_small: "unat x + 1 < 2 ^ 64 \<Longrightarrow> unat (x + 1 :: u64) = unat x + 1"
  using unat_add_small [of x 1] by simp

lemma power_numeral_u64: "(2::nat) ^ 64 = 18446744073709551616"
  by simp

lemma unat_of_nat_small: "n < 2 ^ 64 \<Longrightarrow> unat (of_nat n :: u64) = n"
  by (simp add: unsigned_of_nat take_bit_nat_eq_self)

lemma unat_inc_le: "unat (x + 1 :: u64) \<le> unat x + 1"
  by (simp add: unat_word_ariths)

lemma unat_diff_small: "y \<le> x \<Longrightarrow> unat (x - y :: u64) = unat x - unat y"
  by (simp add: unat_sub)

lemma u64_add_mono: "unat x + unat y < 2 ^ 64 \<Longrightarrow> (x::u64) \<le> x + y"
  by (simp add: word_le_nat_alt unat_add_small)

lemma unat_ucast_32_64 [simp]: "unat (ucast (w::u32) :: u64) = unat w"
proof -
  have "unat w < 2 ^ 32" using unsigned_less [of w] by simp
  then show ?thesis by (simp add: unsigned_ucast_eq take_bit_nat_eq_self)
qed

text \<open>Signed values: the two's complement reading of a word.\<close>

lemma bit_top_iff:
  fixes k :: int
  assumes "0 \<le> k" and "k < 2 ^ Suc n"
  shows "bit k n \<longleftrightarrow> 2 ^ n \<le> k"
proof (cases "2 ^ n \<le> k")
  case True
  have "k div 2 ^ n = 1"
    using assms True by (intro int_div_pos_eq [of _ _ _ "k - 2 ^ n"]) auto
  then show ?thesis using True by (simp add: bit_iff_odd)
qed (use assms in \<open>simp add: bit_iff_odd div_pos_pos_trivial\<close>)

lemma sint_of_uint:
  "sint (x::'a::len word) = (if uint x < 2 ^ (LENGTH('a) - 1) then uint x else uint x - 2 ^ LENGTH('a))"
proof -
  have n: "Suc (LENGTH('a) - 1) = LENGTH('a)" by simp
  have b: "0 \<le> uint x" "uint x < 2 ^ Suc (LENGTH('a) - 1)"
    unfolding n using uint_bounded [of x] by simp_all
  have "take_bit (LENGTH('a)) (uint x) = uint x"
    using b unfolding n by (intro take_bit_int_eq_self) auto
  then show ?thesis
    using bit_top_iff [OF b] by (simp add: sint_uint signed_take_bit_eq_take_bit_minus n)
qed

lemma sint_u64: "sint (x::64 word) = (if uint x < 2 ^ 63 then uint x else uint x - 2 ^ 64)"
  using sint_of_uint [of x] by simp

lemma sint_u32: "sint (x::32 word) = (if uint x < 2 ^ 31 then uint x else uint x - 2 ^ 32)"
  using sint_of_uint [of x] by simp

subsection \<open>Lists updated by index\<close>

lemma nth_update_if: "xs[i := x] ! j = (if i = j \<and> i < length xs then x else xs ! j)"
  by (cases "i < length xs") (auto simp: nth_list_update list_update_beyond)

subsection \<open>Circular arrays\<close>

text \<open>
  The components keep queues in arrays: a head index, a count, and positions taken modulo the
  array's length. \<open>ring_view\<close> is the list such an array stands for.
\<close>

definition ring_view :: "'a list \<Rightarrow> nat \<Rightarrow> nat \<Rightarrow> 'a list" where
  "ring_view xs head count = map (\<lambda>i. xs ! ((head + i) mod length xs)) [0..<count]"

lemma mod_add_eq_iff:
  assumes "i < n" and "j < n"
  shows "(h + i) mod n = (h + j) mod (n::nat) \<longleftrightarrow> i = j"
proof -
  have *: "k = l" if "k \<le> l" "l < n" "(h + l) mod n = (h + k) mod n" for k l
  proof -
    have "n dvd l - k"
      using mod_eq_dvd_iff_nat [of "h + k" "h + l" n] that(1,3) by simp
    moreover have "l - k < n" using that(2) by simp
    ultimately have "l - k = 0" using nat_dvd_not_less by blast
    with that(1) show "k = l" by simp
  qed
  show ?thesis using * [of i j] * [of j i] assms by (metis nle_le)
qed

lemma length_ring_view [simp]: "length (ring_view xs h c) = c"
  by (simp add: ring_view_def)

lemma nth_ring_view: "i < c \<Longrightarrow> ring_view xs h c ! i = xs ! ((h + i) mod length xs)"
  by (simp add: ring_view_def)

lemma ring_view_0 [simp]: "ring_view xs h 0 = []"
  by (simp add: ring_view_def)

lemma ring_view_eq_Nil [simp]: "ring_view xs h c = [] \<longleftrightarrow> c = 0"
  by (simp add: ring_view_def)

text \<open>Writing behind the last element appends to the view.\<close>

lemma ring_view_enqueue:
  assumes "c < length xs"
  shows "ring_view (xs[(h + c) mod length xs := x]) h (Suc c) = ring_view xs h c @ [x]"
proof (rule nth_equalityI)
  fix i assume "i < length (ring_view (xs[(h + c) mod length xs := x]) h (Suc c))"
  then have i: "i < Suc c" by simp
  then have "(h + c) mod length xs = (h + i) mod length xs \<longleftrightarrow> c = i"
    using assms by (intro mod_add_eq_iff) auto
  moreover have "(h + c) mod length xs < length xs"
    using assms by (intro mod_less_divisor) auto
  ultimately show "ring_view (xs[(h + c) mod length xs := x]) h (Suc c) ! i
      = (ring_view xs h c @ [x]) ! i"
    using i by (cases "i = c") (auto simp: nth_ring_view nth_append nth_list_update)
qed simp

text \<open>Advancing the head drops the first element of the view.\<close>

lemma ring_view_dequeue:
  "ring_view xs h (Suc c) = xs ! (h mod length xs) # ring_view xs (Suc h mod length xs) c"
  by (rule nth_equalityI) (auto simp: nth_ring_view nth_Cons mod_add_left_eq split: nat.splits)

text \<open>An element outside the view may change freely.\<close>

lemma ring_view_update_outside:
  assumes "c \<le> k" and "k < length xs"
  shows "ring_view (xs[(h + k) mod length xs := x]) h c = ring_view xs h c"
proof (rule nth_equalityI)
  fix i assume "i < length (ring_view (xs[(h + k) mod length xs := x]) h c)"
  then have "i < c" by simp
  then have "(h + k) mod length xs \<noteq> (h + i) mod length xs"
    using assms by (subst mod_add_eq_iff) auto
  then show "ring_view (xs[(h + k) mod length xs := x]) h c ! i = ring_view xs h c ! i"
    using \<open>i < c\<close> by (simp add: nth_ring_view nth_list_update)
qed simp

text \<open>Writing inside the view updates it.\<close>

lemma ring_view_update_inside:
  assumes "i < c" and "c \<le> length xs"
  shows "ring_view (xs[(h + i) mod length xs := x]) h c = (ring_view xs h c)[i := x]"
proof (rule nth_equalityI)
  fix j assume "j < length (ring_view (xs[(h + i) mod length xs := x]) h c)"
  then have j: "j < c" by simp
  then have "(h + i) mod length xs = (h + j) mod length xs \<longleftrightarrow> i = j"
    using assms by (intro mod_add_eq_iff) auto
  moreover have "(h + i) mod length xs < length xs"
    using assms by (intro mod_less_divisor) auto
  ultimately show "ring_view (xs[(h + i) mod length xs := x]) h c ! j = (ring_view xs h c)[i := x] ! j"
    using j assms by (auto simp: nth_ring_view nth_list_update)
qed simp

subsection \<open>The interface of a bounded first-in first-out buffer\<close>

text \<open>
  A client of such a buffer offers elements and takes them; a refused offer (full) or take
  (empty) leaves the buffer as it was. \<open>fifo_run\<close> runs a sequence of these operations and
  collects the accepted elements and the elements taken.
\<close>

datatype 'a fifo_op = Offer 'a | Take

fun fifo_run :: "('a \<Rightarrow> 's \<Rightarrow> 's option) \<Rightarrow> ('s \<Rightarrow> ('a \<times> 's) option) \<Rightarrow> 's \<Rightarrow> 'a fifo_op list
    \<Rightarrow> 'a list \<times> 'a list \<times> 's" where
  "fifo_run put get s [] = ([], [], s)"
| "fifo_run put get s (Offer x # ops) =
     (case put x s of
        None \<Rightarrow> fifo_run put get s ops
      | Some s' \<Rightarrow> (let (ins, outs, t) = fifo_run put get s' ops in (x # ins, outs, t)))"
| "fifo_run put get s (Take # ops) =
     (case get s of
        None \<Rightarrow> fifo_run put get s ops
      | Some (x, s') \<Rightarrow> (let (ins, outs, t) = fifo_run put get s' ops in (ins, x # outs, t)))"

locale bounded_fifo =
  fixes invar :: "'s \<Rightarrow> bool"
    and view :: "'s \<Rightarrow> 'a list"
    and capacity :: "'s \<Rightarrow> nat"
    and put :: "'a \<Rightarrow> 's \<Rightarrow> 's option"
    and get :: "'s \<Rightarrow> ('a \<times> 's) option"
  assumes view_bounded: "invar s \<Longrightarrow> length (view s) \<le> capacity s"
    and put_refused: "invar s \<Longrightarrow> put x s = None \<longleftrightarrow> length (view s) = capacity s"
    and put_view: "invar s \<Longrightarrow> put x s = Some s' \<Longrightarrow>
      invar s' \<and> view s' = view s @ [x] \<and> capacity s' = capacity s"
    and get_refused: "invar s \<Longrightarrow> get s = None \<longleftrightarrow> view s = []"
    and get_view: "invar s \<Longrightarrow> get s = Some (x, s') \<Longrightarrow>
      invar s' \<and> view s = x # view s' \<and> capacity s' = capacity s"
begin

text \<open>Whatever the interleaving: what was taken, then what is stored, is what was stored at
  the start followed by what was accepted. Nothing is lost, duplicated or reordered.\<close>

lemma run_order:
  assumes "invar s" and "fifo_run put get s ops = (ins, outs, t)"
  shows "invar t \<and> capacity t = capacity s \<and> outs @ view t = view s @ ins"
  using assms
proof (induction ops arbitrary: s ins outs)
  case Nil
  then show ?case by simp
next
  case (Cons a ops)
  show ?case
  proof (cases a)
    case (Offer x)
    show ?thesis
    proof (cases "put x s")
      case None
      with Offer Cons show ?thesis by simp
    next
      case (Some s')
      with Offer Cons.prems obtain ins' where
        r: "fifo_run put get s' ops = (ins', outs, t)" and ins: "ins = x # ins'"
        by (auto split: prod.splits)
      have p: "invar s'" "view s' = view s @ [x]" "capacity s' = capacity s"
        using put_view [OF Cons.prems(1) Some] by auto
      from Cons.IH [OF p(1) r] show ?thesis by (simp add: p(2,3) ins)
    qed
  next
    case Take
    show ?thesis
    proof (cases "get s")
      case None
      with Take Cons show ?thesis by simp
    next
      case (Some xs)
      obtain x s' where xs: "xs = (x, s')" by (cases xs)
      with Some Take Cons.prems obtain outs' where
        r: "fifo_run put get s' ops = (ins, outs', t)" and outs: "outs = x # outs'"
        by (auto split: prod.splits)
      have g: "invar s'" "view s = x # view s'" "capacity s' = capacity s"
        using get_view [OF Cons.prems(1) Some [unfolded xs]] by auto
      from Cons.IH [OF g(1) r] show ?thesis by (simp add: g(2,3) outs)
    qed
  qed
qed

lemma run_bounded:
  assumes "invar s" and "fifo_run put get s ops = (ins, outs, t)"
  shows "length (view t) \<le> capacity s"
  using run_order [OF assms] view_bounded by metis

lemma run_conservation:
  assumes "invar s" and "fifo_run put get s ops = (ins, outs, t)"
  shows "length outs + length (view t) = length (view s) + length ins"
  using run_order [OF assms] by (metis length_append)

end

end
