(* ===== verification/Ddr_Ring.thy ===== *)
theory Ddr_Ring
  imports Iiod_Prelude
begin

text \<open>
  The control core of the DDR ring (\<open>iiod/ddr-ring-core.c\<close>): a circular array of frame slots
  between one producer (the DMA side) and one consumer (the network side), each of which
  reserves a slot, works on it and then commits or releases it. The memory of the frames is not
  part of the core; \<open>ops.c\<close> finds a frame by its slot number.

  \<open>size_t\<close> values (slot numbers and counts bounded by the allocated array) are natural numbers,
  \<open>uint64_t\<close> counters and sample numbers are 64-bit words. A reference argument that must not
  be NULL is a value here, so only the other half of each argument check appears.
\<close>

datatype slot_state = SLOT_FREE | SLOT_PRODUCER | SLOT_COMMITTED | SLOT_CONSUMER

datatype ring_state = RING_OFF | RING_RESERVED | RING_RUNNING | RING_DRAINING | RING_COMPLETE
  | RING_FAILED | RING_CANCELLED

text \<open>The numbers of \<open>enum spf_ddr_ring_state\<close>; they order the life cycle.\<close>

fun ring_state_code :: "ring_state \<Rightarrow> nat" where
  "ring_state_code RING_OFF = 0"
| "ring_state_code RING_RESERVED = 1"
| "ring_state_code RING_RUNNING = 2"
| "ring_state_code RING_DRAINING = 3"
| "ring_state_code RING_COMPLETE = 4"
| "ring_state_code RING_FAILED = 5"
| "ring_state_code RING_CANCELLED = 6"

lemma ring_state_code_inject: "ring_state_code a = ring_state_code b \<Longrightarrow> a = b"
  by (cases a; cases b) simp_all

instantiation ring_state :: linorder
begin

definition less_eq_ring_state :: "ring_state \<Rightarrow> ring_state \<Rightarrow> bool" where
  "less_eq_ring_state a b \<longleftrightarrow> ring_state_code a \<le> ring_state_code b"

definition less_ring_state :: "ring_state \<Rightarrow> ring_state \<Rightarrow> bool" where
  "less_ring_state a b \<longleftrightarrow> ring_state_code a < ring_state_code b"

instance
  by standard (auto simp: less_eq_ring_state_def less_ring_state_def ring_state_code_inject)

end

text \<open>\<open>enum spf_ddr_ring_terminal_reason\<close>; \<open>fail\<close> and \<open>cancel\<close> take it as a \<open>uint32_t\<close>.\<close>

abbreviation (input) REASON_NONE :: u32 where "REASON_NONE \<equiv> 0"
abbreviation (input) REASON_TARGET_COMPLETE :: u32 where "REASON_TARGET_COMPLETE \<equiv> 1"
abbreviation (input) REASON_CLIENT_CANCELLED :: u32 where "REASON_CLIENT_CANCELLED \<equiv> 2"
abbreviation (input) REASON_CLIENT_DISCONNECTED :: u32 where "REASON_CLIENT_DISCONNECTED \<equiv> 3"
abbreviation (input) REASON_CONSUMER_STALL :: u32 where "REASON_CONSUMER_STALL \<equiv> 4"
abbreviation (input) REASON_INTERNAL_ERROR :: u32 where "REASON_INTERNAL_ERROR \<equiv> 8"

record ring_core =
  slots :: "slot_state list"
  slot_count :: nat
  producer_position :: nat
  consumer_position :: nat
  occupied :: nat
  prefill_frames :: nat
  low_water_frames :: nat
  target_frames :: u64
  produced_frames :: u64
  consumed_frames :: u64
  high_water_frames :: u64
  wrap_count :: u64
  last_contiguous_sample_sequence :: u64
  first_unavailable_sample_sequence :: u64
  expected_sample_sequence :: u64
  rstate :: ring_state
  terminal_reason :: u32
  error_code :: int
  producer_reserved :: bool
  consumer_reserved :: bool
  consumer_started :: bool
  last_contiguous_valid :: bool
  first_unavailable_valid :: bool
  expected_sample_valid :: bool
  continuity_broken :: bool

subsection \<open>The operations\<close>

definition state_allows_drain :: "ring_state \<Rightarrow> bool" where
  "state_allows_drain s \<longleftrightarrow> s = RING_RUNNING \<or> s = RING_DRAINING \<or> s = RING_FAILED"

definition ring_init :: "nat \<Rightarrow> u64 \<Rightarrow> ring_core res" where
  "ring_init count target =
     (if count = 0 then Inl (- EINVAL)
      else Inr \<lparr>slots = replicate count SLOT_FREE, slot_count = count,
        producer_position = 0, consumer_position = 0, occupied = 0,
        prefill_frames = (if target \<noteq> 0 \<and> unat target < count then unat target else count),
        low_water_frames = (if target \<noteq> 0 \<and> unat target \<le> count then 0 else count div 2),
        target_frames = target, produced_frames = 0, consumed_frames = 0,
        high_water_frames = 0, wrap_count = 0, last_contiguous_sample_sequence = 0,
        first_unavailable_sample_sequence = 0, expected_sample_sequence = 0,
        rstate = RING_RESERVED, terminal_reason = REASON_NONE, error_code = 0,
        producer_reserved = False, consumer_reserved = False, consumer_started = False,
        last_contiguous_valid = False, first_unavailable_valid = False,
        expected_sample_valid = False, continuity_broken = False\<rparr>)"

definition ring_start :: "ring_core \<Rightarrow> int \<times> ring_core" where
  "ring_start r =
     (if rstate r \<noteq> RING_RESERVED then (- EINVAL, r)
      else (0, r\<lparr>rstate := RING_RUNNING\<rparr>))"

definition ring_start_extension :: "ring_core \<Rightarrow> int \<times> ring_core" where
  "ring_start_extension r =
     (let (ret, r') = ring_start r in
      if ret \<noteq> 0 then (ret, r')
      else (0, r'\<lparr>prefill_frames := 0, low_water_frames := 0, consumer_started := True\<rparr>))"

definition producer_reserve :: "ring_core \<Rightarrow> nat res \<times> ring_core" where
  "producer_reserve r =
     (if rstate r \<noteq> RING_RUNNING then (Inl (- ESHUTDOWN), r)
      else if producer_reserved r then (Inl (- EBUSY), r)
      else if target_frames r \<noteq> 0 \<and> target_frames r \<le> produced_frames r then (Inl (- ENODATA), r)
      else if slots r ! producer_position r \<noteq> SLOT_FREE then (Inl (- EAGAIN), r)
      else (Inr (producer_position r),
        r\<lparr>slots := (slots r)[producer_position r := SLOT_PRODUCER], producer_reserved := True\<rparr>))"

definition producer_commit :: "ring_core \<Rightarrow> int \<times> ring_core" where
  "producer_commit r =
     (if \<not> producer_reserved r then (- EINVAL, r)
      else let slot = producer_position r in
      if slots r ! slot \<noteq> SLOT_PRODUCER then (- EIO, r)
      else let
        occ = occupied r + 1;
        produced = produced_frames r + 1;
        high = (if unat (high_water_frames r) < occ then of_nat occ else high_water_frames r);
        wrapped = (producer_position r + 1 = slot_count r);
        pos = (if wrapped then 0 else producer_position r + 1);
        wraps = (if wrapped then wrap_count r + 1 else wrap_count r);
        st = (if target_frames r \<noteq> 0 \<and> produced = target_frames r
              then RING_DRAINING else rstate r)
      in (0, r\<lparr>slots := (slots r)[slot := SLOT_COMMITTED], producer_reserved := False,
            occupied := occ, produced_frames := produced, high_water_frames := high,
            producer_position := pos, wrap_count := wraps, rstate := st\<rparr>))"

definition producer_abort :: "ring_core \<Rightarrow> int \<times> ring_core" where
  "producer_abort r =
     (if \<not> producer_reserved r then (- EINVAL, r)
      else if slots r ! producer_position r \<noteq> SLOT_PRODUCER then (- EIO, r)
      else (0, r\<lparr>slots := (slots r)[producer_position r := SLOT_FREE],
                 producer_reserved := False\<rparr>))"

text \<open>The last part of \<open>consumer_reserve\<close>, after its watermark tests.\<close>

definition consumer_take_slot :: "ring_core \<Rightarrow> nat res \<times> ring_core" where
  "consumer_take_slot r =
     (if slots r ! consumer_position r \<noteq> SLOT_COMMITTED then (Inl (- EIO), r)
      else (Inr (consumer_position r),
        r\<lparr>slots := (slots r)[consumer_position r := SLOT_CONSUMER], consumer_reserved := True\<rparr>))"

definition consumer_reserve :: "ring_core \<Rightarrow> nat res \<times> ring_core" where
  "consumer_reserve r =
     (if \<not> state_allows_drain (rstate r)
      then (Inl (if rstate r = RING_COMPLETE then - ENODATA else - ESHUTDOWN), r)
      else if consumer_reserved r then (Inl (- EBUSY), r)
      else if occupied r = 0 then
        (if rstate r = RING_DRAINING then (Inl (- ENODATA), r)
         else if rstate r = RING_FAILED
           then (Inl (if error_code r \<noteq> 0 then error_code r else - EIO), r)
         else (Inl (- EAGAIN), r))
      else if rstate r = RING_RUNNING then
        (if \<not> consumer_started r then
           (if occupied r < prefill_frames r then (Inl (- EAGAIN), r)
            else consumer_take_slot (r\<lparr>consumer_started := True\<rparr>))
         else if occupied r \<le> low_water_frames r then (Inl (- EAGAIN), r)
         else consumer_take_slot r)
      else consumer_take_slot r)"

definition consumer_ready :: "ring_core \<Rightarrow> bool" where
  "consumer_ready r =
     (if \<not> state_allows_drain (rstate r) \<or> occupied r = 0 then False
      else if rstate r \<noteq> RING_RUNNING then True
      else if \<not> consumer_started r then prefill_frames r \<le> occupied r
      else low_water_frames r < occupied r)"

definition prefix_complete :: "ring_core \<Rightarrow> bool" where
  "prefix_complete r \<longleftrightarrow> prefill_frames r \<le> unat (produced_frames r)"

definition mark_unavailable :: "ring_core \<Rightarrow> u64 \<Rightarrow> ring_core" where
  "mark_unavailable r observed =
     (if first_unavailable_valid r then r
      else r\<lparr>first_unavailable_sample_sequence :=
               (if expected_sample_valid r then expected_sample_sequence r else observed),
             first_unavailable_valid := True, continuity_broken := True\<rparr>)"

definition observe_samples :: "ring_core \<Rightarrow> u64 \<Rightarrow> u64 \<Rightarrow> int \<times> ring_core" where
  "observe_samples r first samples =
     (if samples = 0 then (- EINVAL, r)
      else if UINT64_MAX - samples < first then (- EOVERFLOW, r)
      else let
        boundary = first + samples;
        r1 = (if expected_sample_valid r \<and> first \<noteq> expected_sample_sequence r
              then mark_unavailable r first else r);
        r2 = (if \<not> continuity_broken r1
              then r1\<lparr>last_contiguous_sample_sequence := boundary, last_contiguous_valid := True\<rparr>
              else r1)
      in (0, r2\<lparr>expected_sample_sequence := boundary, expected_sample_valid := True\<rparr>))"

definition consumer_release :: "ring_core \<Rightarrow> int \<times> ring_core" where
  "consumer_release r =
     (if \<not> consumer_reserved r \<or> occupied r = 0 then (- EINVAL, r)
      else let slot = consumer_position r in
      if slots r ! slot \<noteq> SLOT_CONSUMER then (- EIO, r)
      else let
        occ = occupied r - 1;
        pos = (if consumer_position r + 1 = slot_count r then 0 else consumer_position r + 1);
        r' = r\<lparr>slots := (slots r)[slot := SLOT_FREE], consumer_reserved := False,
               occupied := occ, consumed_frames := consumed_frames r + 1,
               consumer_position := pos\<rparr>
      in (0, if rstate r = RING_DRAINING \<and> occ = 0
             then r'\<lparr>rstate := RING_COMPLETE, terminal_reason := REASON_TARGET_COMPLETE\<rparr>
             else r'))"

text \<open>The two loops of \<open>discard_pending\<close>, from \<open>position\<close> over \<open>k\<close> slots.\<close>

definition next_position :: "nat \<Rightarrow> nat \<Rightarrow> nat" where
  "next_position count position = (if position + 1 = count then 0 else position + 1)"

fun all_committed :: "slot_state list \<Rightarrow> nat \<Rightarrow> nat \<Rightarrow> nat \<Rightarrow> bool" where
  "all_committed ss count position 0 = True"
| "all_committed ss count position (Suc k) =
     (ss ! position = SLOT_COMMITTED \<and> all_committed ss count (next_position count position) k)"

fun free_slots :: "slot_state list \<Rightarrow> nat \<Rightarrow> nat \<Rightarrow> nat \<Rightarrow> slot_state list" where
  "free_slots ss count position 0 = ss"
| "free_slots ss count position (Suc k) =
     free_slots (ss[position := SLOT_FREE]) count (next_position count position) k"

definition discard_pending :: "ring_core \<Rightarrow> nat res \<times> ring_core" where
  "discard_pending r =
     (if rstate r \<noteq> RING_RUNNING \<or> producer_reserved r then (Inl (- EBUSY), r)
      else let keep = (if consumer_reserved r then 1 else 0) in
      if occupied r < keep then (Inl (- EIO), r)
      else let
        pending = occupied r - keep;
        position = (if keep \<noteq> 0 then next_position (slot_count r) (consumer_position r)
                    else consumer_position r)
      in if \<not> all_committed (slots r) (slot_count r) position pending then (Inl (- EIO), r)
      else (Inr pending,
        r\<lparr>slots := free_slots (slots r) (slot_count r) position pending,
          occupied := keep, producer_position := position\<rparr>))"

definition is_terminal :: "ring_core \<Rightarrow> bool" where
  "is_terminal r \<longleftrightarrow> rstate r = RING_COMPLETE \<or> rstate r = RING_CANCELLED \<or>
     (rstate r = RING_FAILED \<and> occupied r = 0 \<and> \<not> consumer_reserved r)"

definition ring_fail :: "ring_core \<Rightarrow> u32 \<Rightarrow> int \<Rightarrow> int \<times> ring_core" where
  "ring_fail r reason err =
     (if reason < REASON_CONSUMER_STALL \<or> REASON_INTERNAL_ERROR < reason \<or> 0 \<le> err
      then (- EINVAL, r)
      else if is_terminal r then (- ESHUTDOWN, r)
      else let r' = (if producer_reserved r then snd (producer_abort r) else r)
      in (0, r'\<lparr>rstate := RING_FAILED, terminal_reason := reason, error_code := err\<rparr>))"

definition ring_cancel :: "ring_core \<Rightarrow> u32 \<Rightarrow> int \<times> ring_core" where
  "ring_cancel r reason =
     (if reason \<noteq> REASON_CLIENT_CANCELLED \<and> reason \<noteq> REASON_CLIENT_DISCONNECTED
      then (- EINVAL, r)
      else if is_terminal r then (- ESHUTDOWN, r)
      else let r' = (if producer_reserved r then snd (producer_abort r) else r)
      in (0, r'\<lparr>rstate := RING_CANCELLED, terminal_reason := reason,
                 error_code := - ECANCELED\<rparr>))"

definition complete_extension :: "ring_core \<Rightarrow> int \<times> ring_core" where
  "complete_extension r =
     (if rstate r \<noteq> RING_RUNNING then (- EINVAL, r)
      else if occupied r \<noteq> 0 \<or> producer_reserved r \<or> consumer_reserved r then (- EBUSY, r)
      else (0, r\<lparr>rstate := RING_COMPLETE, terminal_reason := REASON_TARGET_COMPLETE,
                 error_code := 0\<rparr>))"

subsection \<open>The invariant of the slot array\<close>

text \<open>
  Counted from the consumer's position, the array holds the occupied slots (the first one marked
  \<open>SLOT_CONSUMER\<close> while the consumer holds it), then the producer's slot while it holds one,
  then free slots.
\<close>

definition expected_slot :: "ring_core \<Rightarrow> nat \<Rightarrow> slot_state" where
  "expected_slot r i =
     (if i < occupied r then (if i = 0 \<and> consumer_reserved r then SLOT_CONSUMER else SLOT_COMMITTED)
      else if i = occupied r \<and> producer_reserved r then SLOT_PRODUCER else SLOT_FREE)"

definition slot_at :: "ring_core \<Rightarrow> nat \<Rightarrow> nat" where
  "slot_at r i = (consumer_position r + i) mod slot_count r"

definition ring_shape :: "ring_core \<Rightarrow> bool" where
  "ring_shape r \<longleftrightarrow> length (slots r) = slot_count r \<and> 0 < slot_count r \<and> slot_count r < 2 ^ 64 \<and>
     consumer_position r < slot_count r \<and> producer_position r = slot_at r (occupied r) \<and>
     occupied r \<le> slot_count r \<and> (consumer_reserved r \<longrightarrow> 0 < occupied r) \<and>
     (producer_reserved r \<longrightarrow> occupied r < slot_count r) \<and>
     prefill_frames r \<le> slot_count r \<and> low_water_frames r < slot_count r"

definition ring_slots_ok :: "ring_core \<Rightarrow> bool" where
  "ring_slots_ok r \<longleftrightarrow> (\<forall>i < slot_count r. slots r ! slot_at r i = expected_slot r i)"

definition ring_ok :: "ring_core \<Rightarrow> bool" where
  "ring_ok r \<longleftrightarrow> ring_shape r \<and> ring_slots_ok r"

lemmas ring_ok_defs = ring_ok_def ring_shape_def ring_slots_ok_def

lemma ring_okD:
  assumes "ring_ok r"
  shows "length (slots r) = slot_count r" "0 < slot_count r" "consumer_position r < slot_count r"
    "producer_position r = slot_at r (occupied r)" "occupied r \<le> slot_count r"
    "consumer_reserved r \<Longrightarrow> 0 < occupied r" "producer_reserved r \<Longrightarrow> occupied r < slot_count r"
    "i < slot_count r \<Longrightarrow> slots r ! slot_at r i = expected_slot r i"
    "prefill_frames r \<le> slot_count r" "low_water_frames r < slot_count r"
  using assms by (auto simp: ring_ok_defs)

lemma slot_at_less: "0 < slot_count r \<Longrightarrow> slot_at r i < slot_count r"
  by (simp add: slot_at_def)

lemma slot_at_eq_iff:
  "i < slot_count r \<Longrightarrow> j < slot_count r \<Longrightarrow> slot_at r i = slot_at r j \<longleftrightarrow> i = j"
  by (simp add: slot_at_def mod_add_eq_iff)

lemma slot_at_0: "ring_ok r \<Longrightarrow> slot_at r 0 = consumer_position r"
  by (simp add: slot_at_def ring_okD)

lemma producer_slot_state:
  "ring_ok r \<Longrightarrow> occupied r < slot_count r \<Longrightarrow>
   slots r ! producer_position r = (if producer_reserved r then SLOT_PRODUCER else SLOT_FREE)"
  using ring_okD(8) [of r "occupied r"] by (simp add: ring_okD(4) expected_slot_def)

lemma producer_slot_full:
  assumes "ring_ok r" and "occupied r = slot_count r"
  shows "slots r ! producer_position r
    = (if consumer_reserved r then SLOT_CONSUMER else SLOT_COMMITTED)"
proof -
  have "slot_at r (occupied r) = slot_at r 0"
    using assms(2) by (simp add: slot_at_def)
  then show ?thesis
    using ring_okD(8) [OF assms(1), of 0] ring_okD(2,4) [OF assms(1)] assms(2)
    by (simp add: expected_slot_def)
qed

lemma producer_slot_free_iff:
  "ring_ok r \<Longrightarrow> slots r ! producer_position r = SLOT_FREE \<longleftrightarrow>
   occupied r < slot_count r \<and> \<not> producer_reserved r"
  using producer_slot_state [of r] producer_slot_full [of r] ring_okD(5) [of r]
  by (cases "occupied r < slot_count r") auto

lemma consumer_slot_state:
  "ring_ok r \<Longrightarrow> 0 < occupied r \<Longrightarrow>
   slots r ! consumer_position r = (if consumer_reserved r then SLOT_CONSUMER else SLOT_COMMITTED)"
  using ring_okD(8) [of r 0] ring_okD(2) [of r] by (simp add: slot_at_0 expected_slot_def)

text \<open>Writing one slot of the array, seen from the consumer's position.\<close>

lemma slots_update_at:
  assumes "ring_ok r" and "j < slot_count r" and "i < slot_count r"
  shows "(slots r)[slot_at r j := x] ! slot_at r i
    = (if i = j then x else expected_slot r i)"
  using assms slot_at_eq_iff [of i r j] slot_at_less [of r] ring_okD(1,2,8) [OF assms(1)]
  by (simp add: nth_list_update eq_commute)

lemma slot_at_Suc:
  assumes "0 < slot_count r"
  shows "slot_at r (Suc i) = (if Suc (slot_at r i) = slot_count r then 0 else Suc (slot_at r i))"
proof -
  have "slot_at r i < slot_count r" using assms by (rule slot_at_less)
  moreover have "slot_at r (Suc i) = Suc (slot_at r i) mod slot_count r"
    by (simp add: slot_at_def mod_Suc_eq)
  ultimately show ?thesis by (simp add: mod_Suc slot_at_def)
qed

text \<open>Every operation keeps the invariant.\<close>

lemma ring_init_ok: "ring_init n target = Inr r \<Longrightarrow> n < 2 ^ 64 \<Longrightarrow> ring_ok r"
  by (auto simp: ring_init_def ring_ok_defs slot_at_def expected_slot_def split: if_splits)

lemma ring_ok_frame:
  assumes "ring_ok r"
    and "slots r' = slots r" "slot_count r' = slot_count r"
    "consumer_position r' = consumer_position r" "producer_position r' = producer_position r"
    "occupied r' = occupied r" "producer_reserved r' = producer_reserved r"
    "consumer_reserved r' = consumer_reserved r"
    "prefill_frames r' \<le> slot_count r" "low_water_frames r' < slot_count r"
  shows "ring_ok r'"
  using assms by (simp add: ring_ok_defs slot_at_def expected_slot_def)

lemma ring_start_ok:
  assumes ok: "ring_ok r"
  shows "ring_ok (snd (ring_start r))"
  using ok by (rule ring_ok_frame) (use ring_okD(9,10) [OF ok] in \<open>auto simp: ring_start_def\<close>)

lemma ring_start_extension_ok:
  assumes ok: "ring_ok r"
  shows "ring_ok (snd (ring_start_extension r))"
  using ok by (rule ring_ok_frame)
    (use ring_okD(2,9,10) [OF ok] in \<open>auto simp: ring_start_extension_def ring_start_def\<close>)

lemma producer_reserve_ok: "ring_ok r \<Longrightarrow> ring_ok (snd (producer_reserve r))"
proof -
  assume ok: "ring_ok r"
  show ?thesis
  proof (cases "slots r ! producer_position r = SLOT_FREE \<and> fst (producer_reserve r) = Inr (producer_position r)")
    case True
    then have less: "occupied r < slot_count r" "\<not> producer_reserved r"
      using ok producer_slot_free_iff by auto
    have "snd (producer_reserve r) = r\<lparr>slots := (slots r)[slot_at r (occupied r) := SLOT_PRODUCER],
        producer_reserved := True\<rparr>"
      using True by (auto simp: producer_reserve_def ring_okD(4) [OF ok] split: if_splits)
    moreover have "ring_slots_ok \<dots>"
      using slots_update_at [OF ok less(1)] less
      by (auto simp: ring_slots_ok_def expected_slot_def slot_at_def)
    moreover have "ring_shape (r\<lparr>slots := (slots r)[slot_at r (occupied r) := SLOT_PRODUCER],
        producer_reserved := True\<rparr>)"
      using ok less by (simp add: ring_ok_defs slot_at_def)
    ultimately show ?thesis by (simp add: ring_ok_def)
  next
    case False
    then have "snd (producer_reserve r) = r" by (auto simp: producer_reserve_def)
    with ok show ?thesis by simp
  qed
qed

text \<open>The other operations: what each does when it succeeds, and that it succeeds exactly then.\<close>

lemma producer_commit_eq:
  assumes ok: "ring_ok r" and res: "producer_reserved r"
  shows "producer_commit r = (0, r\<lparr>slots := (slots r)[slot_at r (occupied r) := SLOT_COMMITTED],
    producer_reserved := False, occupied := occupied r + 1,
    produced_frames := produced_frames r + 1,
    high_water_frames := (if unat (high_water_frames r) < occupied r + 1
      then of_nat (occupied r + 1) else high_water_frames r),
    producer_position := slot_at r (Suc (occupied r)),
    wrap_count := (if slot_at r (occupied r) + 1 = slot_count r then wrap_count r + 1
      else wrap_count r),
    rstate := (if target_frames r \<noteq> 0 \<and> produced_frames r + 1 = target_frames r
      then RING_DRAINING else rstate r)\<rparr>)"
  using producer_slot_state [OF ok] ring_okD(4,7) [OF ok] res
  by (simp add: producer_commit_def Let_def slot_at_Suc [OF ring_okD(2) [OF ok]])

lemma producer_commit_idle: "\<not> producer_reserved r \<Longrightarrow> producer_commit r = (- EINVAL, r)"
  by (simp add: producer_commit_def)

lemma producer_abort_eq:
  assumes "ring_ok r" and "producer_reserved r"
  shows "producer_abort r = (0, r\<lparr>slots := (slots r)[slot_at r (occupied r) := SLOT_FREE],
    producer_reserved := False\<rparr>)"
  using producer_slot_state [OF assms(1)] ring_okD(4,7) [OF assms(1)] assms(2)
  by (simp add: producer_abort_def)

lemma consumer_release_eq:
  assumes ok: "ring_ok r" and res: "consumer_reserved r"
  shows "consumer_release r = (0,
    let r' = r\<lparr>slots := (slots r)[slot_at r 0 := SLOT_FREE], consumer_reserved := False,
      occupied := occupied r - 1, consumed_frames := consumed_frames r + 1,
      consumer_position := slot_at r 1\<rparr>
    in if rstate r = RING_DRAINING \<and> occupied r = 1
       then r'\<lparr>rstate := RING_COMPLETE, terminal_reason := REASON_TARGET_COMPLETE\<rparr> else r')"
proof -
  have "0 < occupied r" using ring_okD(6) [OF ok res] .
  moreover have "slots r ! consumer_position r = SLOT_CONSUMER"
    using consumer_slot_state [OF ok] calculation res by simp
  moreover have "(if consumer_position r + 1 = slot_count r then 0 else consumer_position r + 1)
      = slot_at r 1"
    using slot_at_Suc [OF ring_okD(2) [OF ok], of 0] slot_at_0 [OF ok] by simp
  ultimately show ?thesis
    using res slot_at_0 [OF ok]
    by (auto simp: consumer_release_def Let_def)
qed

lemma consumer_take_slot_eq:
  assumes "ring_ok r" and "0 < occupied r" and "\<not> consumer_reserved r"
  shows "consumer_take_slot r = (Inr (consumer_position r),
    r\<lparr>slots := (slots r)[slot_at r 0 := SLOT_CONSUMER], consumer_reserved := True\<rparr>)"
  using consumer_slot_state [OF assms(1,2)] assms(3) slot_at_0 [OF assms(1)]
  by (simp add: consumer_take_slot_def)

lemma consumer_started_ok:
  assumes ok: "ring_ok r"
  shows "ring_ok (r\<lparr>consumer_started := b\<rparr>)"
  using ok by (rule ring_ok_frame) (use ring_okD(9,10) [OF ok] in simp_all)

lemma consumer_reserve_eq:
  assumes ok: "ring_ok r"
  shows "consumer_reserve r =
    (if consumer_ready r \<and> \<not> consumer_reserved r
     then (Inr (consumer_position r), r\<lparr>slots := (slots r)[slot_at r 0 := SLOT_CONSUMER],
        consumer_reserved := True,
        consumer_started := (consumer_started r \<or> rstate r = RING_RUNNING)\<rparr>)
     else (Inl (if \<not> state_allows_drain (rstate r)
                  then (if rstate r = RING_COMPLETE then - ENODATA else - ESHUTDOWN)
                else if consumer_reserved r then - EBUSY
                else if rstate r = RING_DRAINING then - ENODATA
                else if rstate r = RING_FAILED
                  then (if error_code r \<noteq> 0 then error_code r else - EIO)
                else - EAGAIN), r))"
  using ok by (auto simp: consumer_reserve_def consumer_ready_def consumer_take_slot_eq
      consumer_started_ok slot_at_def state_allows_drain_def)

lemma slots_update_ok:
  assumes ok: "ring_ok r" and j: "j < slot_count r"
    and new: "expected_slot r' j = x"
    and others: "\<And>i. i < slot_count r \<Longrightarrow> i \<noteq> j \<Longrightarrow> expected_slot r' i = expected_slot r i"
    and same: "slots r' = (slots r)[slot_at r j := x]" "slot_count r' = slot_count r"
      "consumer_position r' = consumer_position r"
  shows "ring_slots_ok r'"
proof -
  have "slot_at r' i = slot_at r i" for i by (simp add: slot_at_def same)
  then show ?thesis
    using slots_update_at [OF ok j] new others by (auto simp: ring_slots_ok_def same)
qed

lemma producer_commit_ok: "ring_ok r \<Longrightarrow> ring_ok (snd (producer_commit r))"
proof (cases "producer_reserved r")
  case True
  assume ok: "ring_ok r"
  have less: "occupied r < slot_count r" using ring_okD(7) [OF ok True] .
  have "ring_slots_ok (snd (producer_commit r))"
    by (rule slots_update_ok [OF ok less])
      (use True in \<open>auto simp: producer_commit_eq [OF ok True] expected_slot_def
        dest: ring_okD(6) [OF ok]\<close>)
  moreover have "ring_shape (snd (producer_commit r))"
    using ok less by (simp add: producer_commit_eq [OF ok True] ring_ok_defs slot_at_def)
  ultimately show ?thesis by (simp add: ring_ok_def)
qed (simp add: producer_commit_idle)

lemma producer_abort_ok: "ring_ok r \<Longrightarrow> ring_ok (snd (producer_abort r))"
proof (cases "producer_reserved r")
  case True
  assume ok: "ring_ok r"
  have less: "occupied r < slot_count r" using ring_okD(7) [OF ok True] .
  have "ring_slots_ok (snd (producer_abort r))"
    by (rule slots_update_ok [OF ok less])
      (auto simp: producer_abort_eq [OF ok True] expected_slot_def)
  moreover have "ring_shape (snd (producer_abort r))"
    using ok less by (simp add: producer_abort_eq [OF ok True] ring_ok_defs slot_at_def)
  ultimately show ?thesis by (simp add: ring_ok_def)
qed (simp add: producer_abort_def)

lemma consumer_reserve_ok: "ring_ok r \<Longrightarrow> ring_ok (snd (consumer_reserve r))"
proof (cases "consumer_ready r \<and> \<not> consumer_reserved r")
  case True
  assume ok: "ring_ok r"
  have pos: "0 < occupied r" using True by (auto simp: consumer_ready_def split: if_splits)
  have "ring_slots_ok (snd (consumer_reserve r))"
    by (rule slots_update_ok [OF ok ring_okD(2) [OF ok]])
      (use pos True in \<open>auto simp: consumer_reserve_eq [OF ok] expected_slot_def\<close>)
  moreover have "ring_shape (snd (consumer_reserve r))"
    using ok pos True by (simp add: consumer_reserve_eq [OF ok] ring_ok_defs slot_at_def)
  ultimately show ?thesis by (simp add: ring_ok_def)
next
  case False
  assume "ring_ok r"
  with False show ?thesis by (subst consumer_reserve_eq) auto
qed

lemma slot_at_advance: "slot_at (r\<lparr>consumer_position := slot_at r k\<rparr>) i = slot_at r (k + i)"
  by (simp add: slot_at_def mod_add_left_eq add.assoc)

lemma consumer_release_ok:
  assumes ok: "ring_ok r"
  shows "ring_ok (snd (consumer_release r))"
proof (cases "consumer_reserved r")
  case res: True
  have occ: "0 < occupied r" and n: "0 < slot_count r" "occupied r \<le> slot_count r"
    using ring_okD(2,5,6) [OF ok] res by auto
  define r' where "r' = snd (consumer_release r)"
  have eq: "slots r' = (slots r)[slot_at r 0 := SLOT_FREE]" "slot_count r' = slot_count r"
    "consumer_position r' = slot_at r 1" "occupied r' = occupied r - 1"
    "producer_reserved r' = producer_reserved r" "\<not> consumer_reserved r'"
    "producer_position r' = slot_at r (occupied r)" "prefill_frames r' = prefill_frames r"
    "low_water_frames r' = low_water_frames r"
    using ring_okD(4) [OF ok] by (simp_all add: r'_def consumer_release_eq [OF ok res] Let_def)
  have at: "slot_at r' i = slot_at r (Suc i)" for i
    by (simp add: slot_at_def eq mod_Suc_eq mod_add_left_eq)
  have last: "slot_at r (slot_count r) = slot_at r 0" by (simp add: slot_at_def)
  have "slots r' ! slot_at r' i = expected_slot r' i" if "i < slot_count r" for i
  proof (cases "Suc i = slot_count r")
    case True
    then have "slots r' ! slot_at r' i = SLOT_FREE"
      using slots_update_at [OF ok n(1) n(1)] by (simp add: at eq last)
    then show ?thesis using True occ n ring_okD(7) [OF ok] by (auto simp: expected_slot_def eq)
  next
    case False
    then have "slots r' ! slot_at r' i = expected_slot r (Suc i)"
      using slots_update_at [OF ok n(1), of "Suc i"] that by (simp add: at eq)
    then show ?thesis using occ by (auto simp: expected_slot_def eq)
  qed
  then have "ring_slots_ok r'" by (simp add: ring_slots_ok_def eq)
  moreover have "ring_shape r'"
    using ok occ n at [of "occupied r - 1"] by (auto simp: ring_ok_defs eq slot_at_less)
  ultimately show ?thesis by (simp add: ring_ok_def r'_def)
next
  case False
  then show ?thesis using ok by (simp add: consumer_release_def)
qed

lemma next_position_slot_at:
  "0 < slot_count r \<Longrightarrow> next_position (slot_count r) (slot_at r i) = slot_at r (Suc i)"
  by (simp add: next_position_def slot_at_Suc)

lemma all_committed_iff:
  assumes "0 < slot_count r"
  shows "all_committed ss (slot_count r) (slot_at r i) k \<longleftrightarrow>
    (\<forall>j < k. ss ! slot_at r (i + j) = SLOT_COMMITTED)"
proof (induction k arbitrary: i)
  case (Suc k)
  show ?case
    using Suc.IH [of "Suc i"] assms
    by (auto simp: next_position_slot_at less_Suc_eq_0_disj)
qed simp

lemma length_free_slots [simp]: "length (free_slots ss n p k) = length ss"
  by (induction ss n p k rule: free_slots.induct) auto

lemma free_slots_nth:
  assumes "0 < slot_count r" and "i + k \<le> slot_count r" and "m < slot_count r"
    and "length ss = slot_count r"
  shows "free_slots ss (slot_count r) (slot_at r i) k ! slot_at r m
    = (if i \<le> m \<and> m < i + k then SLOT_FREE else ss ! slot_at r m)"
  using assms(2,4)
proof (induction k arbitrary: i ss)
  case (Suc k)
  have "slot_at r i = slot_at r m \<longleftrightarrow> i = m"
    using slot_at_eq_iff [of i r m] Suc.prems assms by auto
  then show ?case
    using Suc.IH [of "Suc i" "ss[slot_at r i := SLOT_FREE]"] Suc.prems assms
    by (auto simp: next_position_slot_at nth_list_update slot_at_less)
qed auto

abbreviation consumer_keep :: "ring_core \<Rightarrow> nat" where
  "consumer_keep r \<equiv> (if consumer_reserved r then 1 else 0)"

text \<open>In a well-formed ring \<open>discard_pending\<close> never reports a corrupt array.\<close>

lemma discard_pending_eq:
  assumes ok: "ring_ok r" and run: "rstate r = RING_RUNNING" and "\<not> producer_reserved r"
  shows "discard_pending r = (Inr (occupied r - consumer_keep r),
    r\<lparr>slots := free_slots (slots r) (slot_count r) (slot_at r (consumer_keep r))
        (occupied r - consumer_keep r),
      occupied := consumer_keep r, producer_position := slot_at r (consumer_keep r)\<rparr>)"
proof -
  have pos: "(if consumer_keep r \<noteq> 0 then next_position (slot_count r) (consumer_position r)
      else consumer_position r) = slot_at r (consumer_keep r)"
    using next_position_slot_at [OF ring_okD(2) [OF ok], of 0] slot_at_0 [OF ok] by simp
  have "slots r ! slot_at r (consumer_keep r + j) = SLOT_COMMITTED"
    if "j < occupied r - consumer_keep r" for j
    using ring_okD(8) [OF ok, of "consumer_keep r + j"] ring_okD(5) [OF ok] that
    by (auto simp: expected_slot_def split: if_splits)
  then have "all_committed (slots r) (slot_count r) (slot_at r (consumer_keep r))
      (occupied r - consumer_keep r)"
    by (subst all_committed_iff [OF ring_okD(2) [OF ok]]) blast
  moreover have "\<not> occupied r < consumer_keep r" using ring_okD(6) [OF ok] by auto
  ultimately show ?thesis
    using assms(2,3) pos unfolding discard_pending_def Let_def by presburger
qed

lemma discard_pending_ok:
  assumes ok: "ring_ok r"
  shows "ring_ok (snd (discard_pending r))"
proof (cases "rstate r = RING_RUNNING \<and> \<not> producer_reserved r")
  case True
  define k where "k = consumer_keep r"
  have k: "k \<le> occupied r" "occupied r \<le> slot_count r" "0 < slot_count r"
    using ring_okD(2,5,6) [OF ok] by (auto simp: k_def)
  define r' where "r' = snd (discard_pending r)"
  have eq: "slots r' = free_slots (slots r) (slot_count r) (slot_at r k) (occupied r - k)"
    "slot_count r' = slot_count r" "consumer_position r' = consumer_position r"
    "occupied r' = k" "producer_reserved r' = producer_reserved r"
    "consumer_reserved r' = consumer_reserved r"
    "producer_position r' = slot_at r k" "prefill_frames r' = prefill_frames r"
    "low_water_frames r' = low_water_frames r"
    using discard_pending_eq [OF ok] True by (simp_all add: r'_def k_def)
  have at: "slot_at r' i = slot_at r i" for i by (simp add: slot_at_def eq)
  have "slots r' ! slot_at r' m = expected_slot r' m" if "m < slot_count r" for m
    using free_slots_nth [OF k(3), of k "occupied r - k" m "slots r"] ring_okD(1) [OF ok]
      ring_okD(8) [OF ok that] k that True
    by (auto simp: at eq expected_slot_def k_def)
  then have "ring_slots_ok r'" by (simp add: ring_slots_ok_def eq)
  moreover have "ring_shape r'"
    using ok k True by (auto simp: ring_ok_defs eq at k_def)
  ultimately show ?thesis by (simp add: ring_ok_def r'_def)
next
  case False
  then show ?thesis using ok by (auto simp: discard_pending_def)
qed

lemma mark_unavailable_ok: "ring_ok r \<Longrightarrow> ring_ok (mark_unavailable r x)"
  by (auto simp: mark_unavailable_def ring_ok_defs slot_at_def expected_slot_def)

lemma observe_samples_ok: "ring_ok r \<Longrightarrow> ring_ok (snd (observe_samples r x n))"
  by (simp add: observe_samples_def mark_unavailable_def Let_def ring_ok_defs slot_at_def
      expected_slot_def)

text \<open>The abort that \<open>fail\<close> and \<open>cancel\<close> perform first.\<close>

definition released_producer :: "ring_core \<Rightarrow> ring_core" where
  "released_producer r = (if producer_reserved r then snd (producer_abort r) else r)"

lemma released_producer_ok: "ring_ok r \<Longrightarrow> ring_ok (released_producer r)"
  by (simp add: released_producer_def producer_abort_ok)

lemma released_producer_sel:
  assumes "ring_ok r"
  shows "\<not> producer_reserved (released_producer r)"
    "slot_count (released_producer r) = slot_count r"
    "occupied (released_producer r) = occupied r"
    "consumer_reserved (released_producer r) = consumer_reserved r"
    "produced_frames (released_producer r) = produced_frames r"
    "consumed_frames (released_producer r) = consumed_frames r"
    "high_water_frames (released_producer r) = high_water_frames r"
    "target_frames (released_producer r) = target_frames r"
    "rstate (released_producer r) = rstate r"
  using assms by (simp_all add: released_producer_def producer_abort_eq)

lemma ring_ok_status_fields:
  "ring_ok r \<Longrightarrow> ring_ok (r\<lparr>rstate := s, terminal_reason := t, error_code := e\<rparr>)"
  by (simp add: ring_ok_defs slot_at_def expected_slot_def)

lemma ring_fail_ok: "ring_ok r \<Longrightarrow> ring_ok (snd (ring_fail r reason err))"
  by (simp add: ring_fail_def released_producer_def [symmetric] Let_def released_producer_ok
      ring_ok_status_fields)

lemma ring_cancel_ok: "ring_ok r \<Longrightarrow> ring_ok (snd (ring_cancel r reason))"
  by (simp add: ring_cancel_def released_producer_def [symmetric] Let_def released_producer_ok
      ring_ok_status_fields)

lemma complete_extension_ok: "ring_ok r \<Longrightarrow> ring_ok (snd (complete_extension r))"
  by (simp add: complete_extension_def ring_ok_status_fields)

subsection \<open>Runs\<close>

datatype ring_op = Start | StartExtension | ProducerReserve | ProducerCommit | ProducerAbort
  | ConsumerReserve | ConsumerRelease | DiscardPending | MarkUnavailable u64
  | ObserveSamples u64 u64 | Fail u32 int | Cancel u32 | CompleteExtension

fun ring_apply :: "ring_op \<Rightarrow> ring_core \<Rightarrow> ring_core" where
  "ring_apply Start r = snd (ring_start r)"
| "ring_apply StartExtension r = snd (ring_start_extension r)"
| "ring_apply ProducerReserve r = snd (producer_reserve r)"
| "ring_apply ProducerCommit r = snd (producer_commit r)"
| "ring_apply ProducerAbort r = snd (producer_abort r)"
| "ring_apply ConsumerReserve r = snd (consumer_reserve r)"
| "ring_apply ConsumerRelease r = snd (consumer_release r)"
| "ring_apply DiscardPending r = snd (discard_pending r)"
| "ring_apply (MarkUnavailable x) r = mark_unavailable r x"
| "ring_apply (ObserveSamples x n) r = snd (observe_samples r x n)"
| "ring_apply (Fail reason err) r = snd (ring_fail r reason err)"
| "ring_apply (Cancel reason) r = snd (ring_cancel r reason)"
| "ring_apply CompleteExtension r = snd (complete_extension r)"

definition ring_run :: "ring_op list \<Rightarrow> ring_core \<Rightarrow> ring_core" where
  "ring_run ops r = fold ring_apply ops r"

lemmas ring_preserves = ring_start_ok ring_start_extension_ok producer_reserve_ok
  producer_commit_ok producer_abort_ok consumer_reserve_ok consumer_release_ok
  discard_pending_ok mark_unavailable_ok observe_samples_ok ring_fail_ok ring_cancel_ok
  complete_extension_ok

lemma ring_apply_ok: "ring_ok r \<Longrightarrow> ring_ok (ring_apply a r)"
  by (cases a) (simp_all add: ring_preserves)

lemma ring_run_ok: "ring_ok r \<Longrightarrow> ring_ok (ring_run ops r)"
  unfolding ring_run_def by (induction ops arbitrary: r) (auto simp: ring_apply_ok)

subsection \<open>Counters and life cycle\<close>

definition ring_counts :: "ring_core \<Rightarrow> bool" where
  "ring_counts r \<longleftrightarrow>
     unat (consumed_frames r) + occupied r \<le> unat (produced_frames r) \<and>
     unat (high_water_frames r) \<le> unat (produced_frames r) \<and>
     occupied r \<le> unat (high_water_frames r) \<and>
     unat (high_water_frames r) \<le> slot_count r"

definition ring_phase :: "ring_core \<Rightarrow> bool" where
  "ring_phase r \<longleftrightarrow>
     (producer_reserved r \<longrightarrow> rstate r = RING_RUNNING) \<and>
     (rstate r = RING_RESERVED \<longrightarrow> produced_frames r = 0 \<and> occupied r = 0) \<and>
     (rstate r = RING_RUNNING \<longrightarrow> target_frames r = 0 \<or> produced_frames r < target_frames r) \<and>
     (rstate r = RING_DRAINING \<longrightarrow>
        target_frames r \<noteq> 0 \<and> produced_frames r = target_frames r \<and> 0 < occupied r) \<and>
     (rstate r = RING_COMPLETE \<longrightarrow> occupied r = 0)"

lemma ring_init_counts: "ring_init n target = Inr r \<Longrightarrow> ring_counts r \<and> ring_phase r"
  by (auto simp: ring_init_def ring_counts_def ring_phase_def split: if_splits)

lemma ring_counts_frame:
  "ring_counts r \<Longrightarrow> consumed_frames r' = consumed_frames r \<Longrightarrow> occupied r' = occupied r \<Longrightarrow>
   produced_frames r' = produced_frames r \<Longrightarrow> high_water_frames r' = high_water_frames r \<Longrightarrow>
   slot_count r' = slot_count r \<Longrightarrow> ring_counts r'"
  by (simp add: ring_counts_def)

lemma producer_commit_counts:
  assumes ok: "ring_ok r" and c: "ring_counts r" and room: "unat (produced_frames r) + 1 < 2 ^ 64"
  shows "ring_counts (snd (producer_commit r))"
proof (cases "producer_reserved r")
  case True
  have occ: "occupied r < slot_count r" "slot_count r < 2 ^ 64"
    using ring_okD(7) [OF ok True] ok by (auto simp: ring_ok_defs)
  have "unat (produced_frames r + 1) = unat (produced_frames r) + 1"
    using room by (rule unat_Suc_small)
  moreover have "unat (of_nat (occupied r + 1) :: u64) = occupied r + 1"
    using occ by (intro unat_of_nat_small) simp
  ultimately show ?thesis
    using c occ by (auto simp: producer_commit_eq [OF ok True] ring_counts_def)
qed (use c in \<open>simp add: producer_commit_idle\<close>)

lemma consumer_release_counts:
  assumes ok: "ring_ok r" and c: "ring_counts r"
  shows "ring_counts (snd (consumer_release r))"
proof (cases "consumer_reserved r")
  case True
  have pos: "0 < occupied r" using ring_okD(6) [OF ok True] .
  then have "unat (consumed_frames r) + 1 < 2 ^ 64"
    using c unat_u64_less [of "produced_frames r"] unfolding ring_counts_def
    by (simp only: power_numeral_u64) linarith
  then have "unat (consumed_frames r + 1) = unat (consumed_frames r) + 1"
    by (rule unat_Suc_small)
  with pos c show ?thesis
    by (auto simp: consumer_release_eq [OF ok True] Let_def ring_counts_def)
qed (use c in \<open>simp add: consumer_release_def\<close>)

lemma ring_apply_counts:
  assumes ok: "ring_ok r" and c: "ring_counts r" and room: "unat (produced_frames r) + 1 < 2 ^ 64"
  shows "ring_counts (ring_apply a r)"
proof (cases a)
  case DiscardPending
  show ?thesis
  proof (cases "rstate r = RING_RUNNING \<and> \<not> producer_reserved r")
    case True
    then show ?thesis
      using c ring_okD(6) [OF ok]
      by (auto simp: DiscardPending discard_pending_eq [OF ok] ring_counts_def)
  next
    case False
    then show ?thesis using c by (auto simp: DiscardPending discard_pending_def)
  qed
next
  case (Fail reason err)
  then show ?thesis
    using c by (auto simp: ring_fail_def released_producer_def [symmetric] Let_def
        released_producer_sel [OF ok] elim!: ring_counts_frame)
next
  case (Cancel reason)
  then show ?thesis
    using c by (auto simp: ring_cancel_def released_producer_def [symmetric] Let_def
        released_producer_sel [OF ok] elim!: ring_counts_frame)
next
  case ConsumerReserve
  then show ?thesis using c by (auto simp: consumer_reserve_eq [OF ok] elim!: ring_counts_frame)
next
  case ProducerCommit
  then show ?thesis using producer_commit_counts [OF ok c room] by simp
next
  case ConsumerRelease
  then show ?thesis using consumer_release_counts [OF ok c] by simp
qed (use c in \<open>auto simp: ring_start_def ring_start_extension_def producer_reserve_def
  producer_abort_def mark_unavailable_def observe_samples_def complete_extension_def Let_def
  elim!: ring_counts_frame\<close>)

lemma ring_apply_phase:
  assumes ok: "ring_ok r" and c: "ring_counts r" and ph: "ring_phase r"
  shows "ring_phase (ring_apply a r)"
proof (cases a)
  case DiscardPending
  show ?thesis
  proof (cases "rstate r = RING_RUNNING \<and> \<not> producer_reserved r")
    case True
    then show ?thesis using ph by (auto simp: DiscardPending discard_pending_eq [OF ok] ring_phase_def)
  next
    case False
    then show ?thesis using ph by (auto simp: DiscardPending discard_pending_def)
  qed
next
  case (Fail reason err)
  then show ?thesis
    using ph by (auto simp: ring_fail_def released_producer_def [symmetric] Let_def
        released_producer_sel [OF ok] ring_phase_def)
next
  case (Cancel reason)
  then show ?thesis
    using ph by (auto simp: ring_cancel_def released_producer_def [symmetric] Let_def
        released_producer_sel [OF ok] ring_phase_def)
next
  case ConsumerReserve
  then show ?thesis using ph by (auto simp: consumer_reserve_eq [OF ok] ring_phase_def)
next
  case ProducerCommit
  show ?thesis
  proof (cases "producer_reserved r")
    case True
    then have "rstate r = RING_RUNNING" using ph by (simp add: ring_phase_def)
    moreover have "produced_frames r < target_frames r \<Longrightarrow>
        produced_frames r + 1 \<noteq> target_frames r \<Longrightarrow> produced_frames r + 1 < target_frames r"
      by (metis inc_le order_le_imp_less_or_eq)
    ultimately show ?thesis
      using ph by (auto simp: ProducerCommit producer_commit_eq [OF ok True] ring_phase_def)
  qed (use ph in \<open>simp add: ProducerCommit producer_commit_idle\<close>)
next
  case ConsumerRelease
  show ?thesis
  proof (cases "consumer_reserved r")
    case True
    have "rstate r = RING_COMPLETE \<Longrightarrow> False" "rstate r = RING_RESERVED \<Longrightarrow> False"
      using ring_okD(6) [OF ok True] ph by (auto simp: ring_phase_def)
    with ph show ?thesis
      by (auto simp: ConsumerRelease consumer_release_eq [OF ok True] Let_def ring_phase_def)
  qed (use ph in \<open>simp add: ConsumerRelease consumer_release_def\<close>)
qed (use ph in \<open>auto simp: ring_start_def ring_start_extension_def producer_reserve_def
  producer_abort_def mark_unavailable_def observe_samples_def complete_extension_def Let_def
  ring_phase_def word_gt_0\<close>)

text \<open>A run of \<open>k\<close> operations commits at most \<open>k\<close> frames.\<close>

lemmas ring_op_defs = ring_start_def ring_start_extension_def producer_reserve_def
  producer_commit_def producer_abort_def consumer_reserve_def consumer_take_slot_def
  consumer_release_def discard_pending_def mark_unavailable_def observe_samples_def
  ring_fail_def ring_cancel_def complete_extension_def Let_def

lemma ring_apply_produced: "unat (produced_frames (ring_apply a r)) \<le> unat (produced_frames r) + 1"
  using unat_inc_le [of "produced_frames r"] by (cases a) (simp_all add: ring_op_defs)

lemma ring_apply_target: "target_frames (ring_apply a r) = target_frames r"
  by (cases a) (simp_all add: ring_op_defs)

lemma ring_apply_slot_count: "slot_count (ring_apply a r) = slot_count r"
  by (cases a) (simp_all add: ring_op_defs)

lemma ring_run_invariants:
  assumes "ring_ok r" "ring_counts r" "ring_phase r"
    and "unat (produced_frames r) + length ops < 2 ^ 64"
  shows "ring_ok (ring_run ops r) \<and> ring_counts (ring_run ops r) \<and> ring_phase (ring_run ops r)"
  using assms
proof (induction ops arbitrary: r)
  case Nil
  then show ?case by (simp add: ring_run_def)
next
  case (Cons a ops)
  have "unat (produced_frames (ring_apply a r)) + length ops < 2 ^ 64"
    using ring_apply_produced [of a r] Cons.prems(4) by simp
  moreover have "unat (produced_frames r) + 1 < 2 ^ 64 \<or> ops = []"
    using Cons.prems(4) by (cases ops) auto
  moreover have "unat (produced_frames r) + 1 < 2 ^ 64" using Cons.prems(4) by simp
  ultimately show ?case
    using Cons.IH [OF ring_apply_ok ring_apply_counts ring_apply_phase] Cons.prems(1-3)
    by (simp add: ring_run_def)
qed

text \<open>The life cycle only moves forward in the order of the state numbers, and a terminal ring
stays terminal.\<close>

lemma ring_apply_state_mono:
  assumes ok: "ring_ok r" and ph: "ring_phase r"
  shows "rstate r \<le> rstate (ring_apply a r)"
proof (cases a)
  case (Fail reason err)
  have "rstate r \<le> RING_FAILED" if "\<not> is_terminal r"
    using that by (cases "rstate r") (auto simp: is_terminal_def less_eq_ring_state_def)
  then show ?thesis by (auto simp: Fail ring_fail_def Let_def)
next
  case (Cancel reason)
  have "rstate r \<le> RING_CANCELLED"
    by (cases "rstate r") (auto simp: less_eq_ring_state_def)
  then show ?thesis by (auto simp: Cancel ring_cancel_def Let_def)
next
  case ProducerCommit
  then show ?thesis
    using ph by (cases "producer_reserved r")
      (auto simp: producer_commit_def ring_phase_def Let_def less_eq_ring_state_def)
qed (auto simp: ring_op_defs less_eq_ring_state_def)

lemma ring_apply_terminal:
  assumes ok: "ring_ok r" and ph: "ring_phase r" and t: "is_terminal r"
  shows "is_terminal (ring_apply a r) \<and> rstate (ring_apply a r) = rstate r \<and>
    terminal_reason (ring_apply a r) = terminal_reason r \<and>
    error_code (ring_apply a r) = error_code r"
proof -
  have "\<not> producer_reserved r" using ph t by (auto simp: ring_phase_def is_terminal_def)
  then show ?thesis
    using t by (cases a) (auto simp: ring_op_defs is_terminal_def state_allows_drain_def)
qed

subsection \<open>Frames in order\<close>

text \<open>
  \<open>mem\<close> is the frame memory that \<open>ops.c\<close> indexes with the slot numbers it is given. The
  frames stored in the ring, oldest first:
\<close>

definition frames :: "(nat \<Rightarrow> 'a) \<Rightarrow> ring_core \<Rightarrow> 'a list" where
  "frames mem r = map (\<lambda>i. mem (slot_at r i)) [0..<occupied r]"

lemma length_frames [simp]: "length (frames mem r) = occupied r"
  by (simp add: frames_def)

lemma frames_cong:
  "consumer_position r' = consumer_position r \<Longrightarrow> slot_count r' = slot_count r \<Longrightarrow>
   occupied r' = occupied r \<Longrightarrow> frames mem r' = frames mem r"
  by (simp add: frames_def slot_at_def)

lemma frames_update_producer:
  assumes ok: "ring_ok r" and room: "occupied r < slot_count r"
  shows "frames (mem(producer_position r := x)) r = frames mem r"
proof -
  have "slot_at r i \<noteq> producer_position r" if "i < occupied r" for i
    using ring_okD(4) [OF ok] slot_at_eq_iff [of i r "occupied r"] that room by auto
  then show ?thesis by (simp add: frames_def)
qed

lemma producer_reserve_Inr:
  assumes ok: "ring_ok r" and res: "producer_reserve r = (Inr s, r')"
  shows "s = producer_position r \<and> occupied r < slot_count r \<and> producer_reserved r' \<and>
    frames mem r' = frames mem r \<and> producer_position r' = producer_position r \<and>
    occupied r' = occupied r \<and> slot_count r' = slot_count r \<and>
    consumer_reserved r' = consumer_reserved r \<and> consumer_position r' = consumer_position r"
  using res producer_slot_free_iff [OF ok]
  by (auto simp: producer_reserve_def frames_def slot_at_def split: if_splits)

lemma producer_commit_frames:
  assumes ok: "ring_ok r" and res: "producer_reserved r"
  shows "frames mem (snd (producer_commit r)) = frames mem r @ [mem (producer_position r)]"
  using ring_okD(4) [OF ok]
  by (simp add: producer_commit_eq [OF ok res] frames_def slot_at_def)

lemma consumer_reserve_Inr:
  assumes ok: "ring_ok r" and res: "consumer_reserve r = (Inr s, r')"
  shows "frames mem r \<noteq> [] \<and> mem s = hd (frames mem r) \<and> frames mem r' = frames mem r \<and>
    s = consumer_position r' \<and> consumer_reserved r'"
proof -
  have ready: "consumer_ready r" "\<not> consumer_reserved r" and s: "s = consumer_position r"
    and r': "r' = r\<lparr>slots := (slots r)[slot_at r 0 := SLOT_CONSUMER], consumer_reserved := True,
      consumer_started := (consumer_started r \<or> rstate r = RING_RUNNING)\<rparr>"
    using res by (auto simp: consumer_reserve_eq [OF ok] split: if_splits)
  have pos: "0 < occupied r" using ready by (auto simp: consumer_ready_def split: if_splits)
  moreover have "hd (frames mem r) = mem (slot_at r 0)"
    using pos by (subst hd_conv_nth) (auto simp: frames_def)
  moreover have "frames mem r' = frames mem r" by (rule frames_cong) (simp_all add: r')
  moreover have "frames mem r \<noteq> []" using pos by (simp add: frames_def)
  ultimately show ?thesis using s slot_at_0 [OF ok] by (simp add: r')
qed

lemma consumer_release_frames:
  assumes ok: "ring_ok r" and res: "consumer_reserved r"
  shows "frames mem (snd (consumer_release r)) = tl (frames mem r)"
proof -
  define r' where "r' = snd (consumer_release r)"
  have eq: "slot_count r' = slot_count r" "consumer_position r' = slot_at r 1"
    "occupied r' = occupied r - 1"
    by (simp_all add: r'_def consumer_release_eq [OF ok res] Let_def)
  have "slot_at r' i = slot_at r (Suc i)" for i
    by (simp add: slot_at_def eq mod_Suc_eq mod_add_left_eq)
  then have "frames mem r' = tl (frames mem r)"
    by (intro nth_equalityI) (auto simp: frames_def eq nth_tl)
  then show ?thesis by (simp add: r'_def)
qed

lemma discard_pending_frames:
  assumes ok: "ring_ok r" and res: "discard_pending r = (Inr k, r')"
  shows "frames mem r' = take (consumer_keep r) (frames mem r) \<and>
    k = length (frames mem r) - consumer_keep r"
proof -
  have "rstate r = RING_RUNNING" "\<not> producer_reserved r"
    using res by (auto simp: discard_pending_def split: if_splits)
  then have "r' = snd (discard_pending r)" "k = occupied r - consumer_keep r"
    "consumer_position r' = consumer_position r" "slot_count r' = slot_count r"
    "occupied r' = consumer_keep r"
    using res by (auto simp: discard_pending_eq [OF ok])
  then show ?thesis
    using ring_okD(6) [OF ok] by (auto simp: frames_def slot_at_def take_map)
qed

subsection \<open>The extension mode as a bounded first-in first-out buffer\<close>

text \<open>
  In extension mode (\<open>start_extension\<close>) there are no watermarks. \<open>ops.c\<close> stores a frame by
  reserving, filling and committing a slot, and sends one by reserving, reading and releasing it.
\<close>

definition ring_put :: "'a \<Rightarrow> ring_core \<times> (nat \<Rightarrow> 'a) \<Rightarrow> (ring_core \<times> (nat \<Rightarrow> 'a)) option" where
  "ring_put x = (\<lambda>(r, mem).
     case producer_reserve r of
       (Inl e, _) \<Rightarrow> None
     | (Inr s, r1) \<Rightarrow> (let (ret, r2) = producer_commit r1 in
         if ret \<noteq> 0 then None else Some (r2, mem(s := x))))"

definition ring_get :: "ring_core \<times> (nat \<Rightarrow> 'a) \<Rightarrow> ('a \<times> ring_core \<times> (nat \<Rightarrow> 'a)) option" where
  "ring_get = (\<lambda>(r, mem).
     case consumer_reserve r of
       (Inl e, _) \<Rightarrow> None
     | (Inr s, r1) \<Rightarrow> (let (ret, r2) = consumer_release r1 in
         if ret \<noteq> 0 then None else Some (mem s, r2, mem)))"

definition extension_ok :: "ring_core \<times> (nat \<Rightarrow> 'a) \<Rightarrow> bool" where
  "extension_ok = (\<lambda>(r, mem). ring_ok r \<and> rstate r = RING_RUNNING \<and> target_frames r = 0 \<and>
     \<not> producer_reserved r \<and> \<not> consumer_reserved r \<and> consumer_started r \<and>
     low_water_frames r = 0)"

lemma extension_okD:
  assumes "extension_ok (r, mem)"
  shows "ring_ok r" "rstate r = RING_RUNNING" "target_frames r = 0" "\<not> producer_reserved r"
    "\<not> consumer_reserved r" "consumer_started r" "low_water_frames r = 0"
  using assms by (simp_all add: extension_ok_def)

lemma extension_reserve:
  assumes "extension_ok (r, mem)"
  shows "producer_reserve r = (if occupied r < slot_count r
    then (Inr (producer_position r), r\<lparr>slots := (slots r)[producer_position r := SLOT_PRODUCER],
      producer_reserved := True\<rparr>) else (Inl (- EAGAIN), r))"
  using extension_okD [OF assms] producer_slot_free_iff [of r]
  by (simp add: producer_reserve_def)

lemma ring_put_None:
  assumes ok: "extension_ok (r, mem)"
  shows "ring_put x (r, mem) = None \<longleftrightarrow> occupied r = slot_count r"
proof (cases "occupied r < slot_count r")
  case True
  define r1 where "r1 = snd (producer_reserve r)"
  have ok1: "ring_ok r1"
    unfolding r1_def by (rule producer_reserve_ok [OF extension_okD(1) [OF ok]])
  have res: "producer_reserve r = (Inr (producer_position r), r1)" and "producer_reserved r1"
    using extension_reserve [OF ok] True by (simp_all add: r1_def)
  with ok1 show ?thesis using True by (simp add: ring_put_def producer_commit_eq)
next
  case False
  then show ?thesis
    using extension_reserve [OF ok] ring_okD(5) [OF extension_okD(1) [OF ok]]
    by (auto simp: ring_put_def)
qed

lemma ring_put_Some:
  assumes ok: "extension_ok (r, mem)" and put: "ring_put x (r, mem) = Some (r2, mem2)"
  shows "extension_ok (r2, mem2) \<and> frames mem2 r2 = frames mem r @ [x] \<and>
    slot_count r2 = slot_count r"
proof -
  have room: "occupied r < slot_count r"
    using put ring_put_None [OF ok, of x] ring_okD(5) [OF extension_okD(1) [OF ok]] by auto
  define r1 where "r1 = snd (producer_reserve r)"
  have res: "producer_reserve r = (Inr (producer_position r), r1)"
    using extension_reserve [OF ok] room by (simp add: r1_def)
  have ok1: "ring_ok r1"
    using producer_reserve_ok extension_okD(1) [OF ok] by (simp add: r1_def)
  note info = producer_reserve_Inr [OF extension_okD(1) [OF ok] res]
  have r2: "r2 = snd (producer_commit r1)" and mem2: "mem2 = mem(producer_position r := x)"
    using put by (auto simp: ring_put_def res Let_def split: if_splits prod.splits)
  have fr: "frames mem2 r1 = frames mem r"
    using frames_update_producer [OF extension_okD(1) [OF ok] room, of mem x]
      info [of mem2] mem2 by simp
  have "frames mem2 r2 = frames mem r @ [x]"
    using producer_commit_frames [OF ok1, of mem2] info [of mem2] fr
    by (simp add: r2 mem2)
  moreover have "rstate r1 = RING_RUNNING" "target_frames r1 = 0" "\<not> consumer_reserved r1"
    "consumer_started r1" "low_water_frames r1 = 0" "producer_reserved r1"
    using extension_okD [OF ok] extension_reserve [OF ok] room by (simp_all add: r1_def)
  then have "extension_ok (r2, mem2)"
    using producer_commit_ok [OF ok1] producer_commit_eq [OF ok1]
    by (simp add: extension_ok_def r2)
  moreover have "slot_count r2 = slot_count r"
    using ring_apply_slot_count [of ProducerCommit r1] info [of mem] by (simp add: r2)
  ultimately show ?thesis by simp
qed

lemma ring_get_None:
  assumes ok: "extension_ok (r, mem)"
  shows "ring_get (r, mem) = None \<longleftrightarrow> occupied r = 0"
proof (cases "consumer_ready r")
  case True
  define r1 where "r1 = snd (consumer_reserve r)"
  have ok1: "ring_ok r1"
    unfolding r1_def by (rule consumer_reserve_ok [OF extension_okD(1) [OF ok]])
  have res: "consumer_reserve r = (Inr (consumer_position r), r1)" and "consumer_reserved r1"
    using consumer_reserve_eq [OF extension_okD(1) [OF ok]] extension_okD(5) [OF ok] True
    by (simp_all add: r1_def)
  moreover have "occupied r \<noteq> 0" using True by (simp add: consumer_ready_def split: if_splits)
  ultimately show ?thesis
    using ok1 by (simp add: ring_get_def consumer_release_eq Let_def)
next
  case False
  then show ?thesis
    using extension_okD [OF ok]
    by (auto simp: ring_get_def consumer_reserve_eq consumer_ready_def state_allows_drain_def
        split: if_splits)
qed

lemma ring_get_Some:
  assumes ok: "extension_ok (r, mem)" and get: "ring_get (r, mem) = Some (x, r2, mem2)"
  shows "extension_ok (r2, mem2) \<and> frames mem r = x # frames mem2 r2 \<and>
    slot_count r2 = slot_count r"
proof -
  note okr = extension_okD(1) [OF ok]
  obtain s r1 where res: "consumer_reserve r = (Inr s, r1)"
    using get by (auto simp: ring_get_def split: prod.splits sum.splits)
  note info = consumer_reserve_Inr [OF okr res, of mem]
  have ok1: "ring_ok r1" and cr: "consumer_reserved r1"
    using consumer_reserve_ok [OF okr] res info by auto
  have r2: "r2 = snd (consumer_release r1)" and x: "x = mem s" and mem2: "mem2 = mem"
    using get by (auto simp: ring_get_def res Let_def split: if_splits prod.splits)
  have "frames mem2 r2 = tl (frames mem r)"
    using consumer_release_frames [OF ok1 cr, of mem] info by (simp add: r2 mem2)
  then have "frames mem r = x # frames mem2 r2" using info x by (metis list.collapse)
  moreover have r1: "r1 = snd (consumer_reserve r)" and "consumer_ready r"
    using res by (auto simp: consumer_reserve_eq [OF okr] split: if_splits)
  then have "rstate r1 = RING_RUNNING" "target_frames r1 = 0" "\<not> producer_reserved r1"
    "consumer_started r1" "low_water_frames r1 = 0"
    using extension_okD [OF ok] consumer_reserve_eq [OF okr] by simp_all
  then have "extension_ok (r2, mem2)"
    using consumer_release_ok [OF ok1] consumer_release_eq [OF ok1 cr]
    by (simp add: extension_ok_def r2 Let_def)
  moreover have "slot_count r2 = slot_count r"
    using ring_apply_slot_count [of ConsumerRelease r1] ring_apply_slot_count [of ConsumerReserve r]
    by (simp add: r2 r1)
  ultimately show ?thesis by simp
qed

interpretation ring_fifo: bounded_fifo extension_ok "\<lambda>(r, mem). frames mem r"
  "\<lambda>(r, mem). slot_count r" ring_put ring_get
proof (unfold_locales, goal_cases)
  case (1 s)
  then show ?case by (cases s) (auto dest: extension_okD(1) ring_okD(5))
next
  case (2 s x)
  then show ?case by (cases s) (simp add: ring_put_None)
next
  case (3 s x s')
  then show ?case by (cases s; cases s') (auto dest: ring_put_Some)
next
  case (4 s)
  then show ?case by (cases s) (auto simp: ring_get_None frames_def)
next
  case (5 s x s')
  then show ?case by (cases s; cases s') (auto dest: ring_get_Some)
qed

subsection \<open>Draining\<close>

definition consume_one :: "ring_core \<Rightarrow> ring_core" where
  "consume_one r = snd (consumer_release (snd (consumer_reserve r)))"

lemma consume_one_draining:
  assumes ok: "ring_ok r" and st: "rstate r = RING_DRAINING" and pos: "0 < occupied r"
    and free: "\<not> consumer_reserved r"
  shows "ring_ok (consume_one r) \<and> occupied (consume_one r) = occupied r - 1 \<and>
    consumed_frames (consume_one r) = consumed_frames r + 1 \<and>
    \<not> consumer_reserved (consume_one r) \<and> slot_count (consume_one r) = slot_count r \<and>
    (if occupied r = 1 then rstate (consume_one r) = RING_COMPLETE \<and>
       terminal_reason (consume_one r) = REASON_TARGET_COMPLETE
     else rstate (consume_one r) = RING_DRAINING)"
proof -
  define r1 where "r1 = snd (consumer_reserve r)"
  have "consumer_ready r" using st pos by (simp add: consumer_ready_def state_allows_drain_def)
  then have r1: "rstate r1 = RING_DRAINING" "consumer_reserved r1" "occupied r1 = occupied r"
    "consumed_frames r1 = consumed_frames r" "slot_count r1 = slot_count r"
    using st free by (simp_all add: r1_def consumer_reserve_eq [OF ok])
  have ok1: "ring_ok r1" unfolding r1_def by (rule consumer_reserve_ok [OF ok])
  show ?thesis
    using consumer_release_ok [OF ok1] pos r1
    by (auto simp: consume_one_def r1_def [symmetric] consumer_release_eq [OF ok1 r1(2)] Let_def)
qed

lemma drain_run:
  assumes "ring_ok r" "rstate r = RING_DRAINING" "occupied r = Suc k" "\<not> consumer_reserved r"
  shows "rstate ((consume_one ^^ Suc k) r) = RING_COMPLETE \<and>
    terminal_reason ((consume_one ^^ Suc k) r) = REASON_TARGET_COMPLETE \<and>
    occupied ((consume_one ^^ Suc k) r) = 0 \<and>
    consumed_frames ((consume_one ^^ Suc k) r) = consumed_frames r + of_nat (Suc k)"
  using assms
proof (induction k arbitrary: r)
  case 0
  then show ?case using consume_one_draining [of r] by simp
next
  case (Suc k)
  have step: "ring_ok (consume_one r)" "occupied (consume_one r) = Suc k"
    "rstate (consume_one r) = RING_DRAINING" "\<not> consumer_reserved (consume_one r)"
    "consumed_frames (consume_one r) = consumed_frames r + 1"
    using consume_one_draining [of r] Suc.prems by auto
  show ?case
    using Suc.IH [OF step(1,3,2,4)] step(5)
    by (simp only: funpow_Suc_right comp_def) (simp add: algebra_simps)
qed

subsection \<open>Sample continuity\<close>

text \<open>
  The reference: of the frames delivered at \<open>fs\<close> (first samples), each of \<open>n\<close> samples, how
  many follow the frame before without a gap.
\<close>

fun contiguous :: "u64 \<Rightarrow> u64 \<Rightarrow> u64 list \<Rightarrow> nat" where
  "contiguous n next [] = 0"
| "contiguous n next (f # fs) = (if f = next then Suc (contiguous n (next + n) fs) else 0)"

definition observe_all :: "u64 \<Rightarrow> u64 list \<Rightarrow> ring_core \<Rightarrow> ring_core" where
  "observe_all n fs r = fold (\<lambda>f r. snd (observe_samples r f n)) fs r"

lemma observe_broken:
  assumes "first_unavailable_valid r" "continuity_broken r"
  shows "let r' = observe_all n fs r in
    first_unavailable_valid r' \<and> continuity_broken r' \<and>
    first_unavailable_sample_sequence r' = first_unavailable_sample_sequence r \<and>
    last_contiguous_sample_sequence r' = last_contiguous_sample_sequence r \<and>
    last_contiguous_valid r' = last_contiguous_valid r"
  using assms
proof (induction fs arbitrary: r)
  case Nil
  then show ?case by (simp add: observe_all_def)
next
  case (Cons f fs)
  define r1 where "r1 = snd (observe_samples r f n)"
  have "first_unavailable_valid r1" "continuity_broken r1"
    "first_unavailable_sample_sequence r1 = first_unavailable_sample_sequence r"
    "last_contiguous_sample_sequence r1 = last_contiguous_sample_sequence r"
    "last_contiguous_valid r1 = last_contiguous_valid r"
    using Cons.prems by (simp_all add: r1_def observe_samples_def mark_unavailable_def Let_def)
  then show ?case
    using Cons.IH [of r1] by (simp add: observe_all_def r1_def Let_def)
qed

lemma observe_contiguous:
  assumes "n \<noteq> 0" "expected_sample_valid r" "last_contiguous_valid r"
    "\<not> first_unavailable_valid r" "\<not> continuity_broken r"
    "expected_sample_sequence r = last_contiguous_sample_sequence r"
    "\<forall>f \<in> set fs. unat f + unat n < 2 ^ 64"
  shows "let r' = observe_all n fs r; k = contiguous n (expected_sample_sequence r) fs in
    last_contiguous_valid r' \<and>
    last_contiguous_sample_sequence r' = expected_sample_sequence r + of_nat k * n \<and>
    first_unavailable_valid r' = (k < length fs) \<and>
    (k < length fs \<longrightarrow>
      first_unavailable_sample_sequence r' = last_contiguous_sample_sequence r')"
  using assms
proof (induction fs arbitrary: r)
  case Nil
  then show ?case by (simp add: observe_all_def)
next
  case (Cons f fs)
  define r1 where "r1 = snd (observe_samples r f n)"
  have fits: "\<not> UINT64_MAX - n < f"
    using Cons.prems(7) by (simp add: max_minus_less_iff)
  show ?case
  proof (cases "f = expected_sample_sequence r")
    case True
    then have "expected_sample_valid r1" "last_contiguous_valid r1" "\<not> first_unavailable_valid r1"
      "\<not> continuity_broken r1" "expected_sample_sequence r1 = last_contiguous_sample_sequence r1"
      "expected_sample_sequence r1 = expected_sample_sequence r + n"
      using Cons.prems fits by (simp_all add: r1_def observe_samples_def Let_def)
    note r1 = this
    have obs: "observe_all n (f # fs) r = observe_all n fs r1"
      by (simp add: observe_all_def r1_def)
    have k: "contiguous n (expected_sample_sequence r) (f # fs)
        = Suc (contiguous n (expected_sample_sequence r1) fs)"
      using True r1(6) by simp
    have sum: "expected_sample_sequence r + of_nat (Suc m) * n
        = expected_sample_sequence r1 + of_nat m * n" for m
      unfolding r1(6) by (simp add: algebra_simps)
    have "\<forall>f \<in> set fs. unat f + unat n < 2 ^ 64" using Cons.prems(7) by simp
    from Cons.IH [OF Cons.prems(1) r1(1-5) this] show ?thesis
      unfolding Let_def obs k sum by simp
  next
    case False
    then have "first_unavailable_valid r1" "continuity_broken r1"
      "first_unavailable_sample_sequence r1 = expected_sample_sequence r"
      "last_contiguous_sample_sequence r1 = expected_sample_sequence r" "last_contiguous_valid r1"
      using Cons.prems fits
      by (simp_all add: r1_def observe_samples_def mark_unavailable_def Let_def)
    then show ?thesis
      using observe_broken [of r1 n fs] False
      by (simp add: observe_all_def r1_def [symmetric] Let_def)
  qed
qed

subsection \<open>Properties\<close>

text \<open>C1: Ring safety. From initialisation, whatever sequence of fewer than \<open>2 ^ 64\<close> operations
the producer, the consumer and the control side perform (failing calls included), the slot array
stays well formed (exactly the occupied slots are committed or held, in order from the consumer's
position), the counters agree (consumed plus stored frames never exceed produced frames, the high
water mark is between the two and at most the slot count) and the life-cycle state agrees with
them.\<close>

theorem ring_run_safe:
  assumes "ring_init n target = Inr r" and "n < 2 ^ 64" and "length ops < 2 ^ 64"
  shows "ring_ok (ring_run ops r) \<and> ring_counts (ring_run ops r) \<and> ring_phase (ring_run ops r)"
proof -
  have "produced_frames r = 0" using assms(1) by (auto simp: ring_init_def split: if_splits)
  then show ?thesis
    using ring_run_invariants [of r ops] ring_init_ok [OF assms(1,2)] ring_init_counts [OF assms(1)]
      assms(3) by simp
qed

text \<open>A small ring used by the witnesses.\<close>

definition demo_ring :: "nat \<Rightarrow> u64 \<Rightarrow> ring_core" where
  "demo_ring n target = (case ring_init n target of Inr r \<Rightarrow> r | Inl _ \<Rightarrow> undefined)"

lemma demo_ring_init: "0 < n \<Longrightarrow> ring_init n target = Inr (demo_ring n target)"
  by (simp add: demo_ring_def ring_init_def)

lemma demo_ring_produced [simp]: "0 < n \<Longrightarrow> produced_frames (demo_ring n target) = 0"
  by (simp add: demo_ring_def ring_init_def)

theorem ring_run_safe_witness:
  "let r = ring_run [Start, ProducerReserve, ProducerCommit, ConsumerReserve, Fail 5 (- 5)]
             (demo_ring (Suc (Suc 0)) 1)
   in rstate r = RING_FAILED \<and> occupied r = 1 \<and> ring_ok r \<and> ring_counts r \<and> ring_phase r"
  using ring_run_safe [OF demo_ring_init [of "Suc (Suc 0)" 1],
      of "[Start, ProducerReserve, ProducerCommit, ConsumerReserve, Fail 5 (- 5)]"]
  by (simp add: Let_def) (simp add: ring_run_def demo_ring_def ring_init_def ring_op_defs
      state_allows_drain_def is_terminal_def)

text \<open>C6: Extension mode delivers every frame once and in order. Started by
\<open>start_extension\<close>, a ring of \<open>n\<close> slots behaves as a bounded queue: for every interleaving of
frame offers and takes, the frames taken followed by the frames stored are the accepted frames in
the order they were accepted, and at most \<open>n\<close> are stored.\<close>

theorem ring_extension_fifo:
  assumes "ring_init n 0 = Inr r" and "n < 2 ^ 64" and "ring_start_extension r = (0, r1)"
    and "fifo_run ring_put ring_get (r1, mem) ops = (ins, outs, (r2, mem2))"
  shows "outs @ frames mem2 r2 = ins \<and> length (frames mem2 r2) \<le> n"
proof -
  have r: "slot_count r = n" "occupied r = 0" "target_frames r = 0" "\<not> producer_reserved r"
    "\<not> consumer_reserved r" "rstate r = RING_RESERVED"
    using assms(1) by (auto simp: ring_init_def split: if_splits)
  have ok: "extension_ok (r1, mem)"
    using ring_start_extension_ok [OF ring_init_ok [OF assms(1,2)]] r assms(3)
    by (auto simp: extension_ok_def ring_start_extension_def ring_start_def)
  have "occupied r1 = 0" "slot_count r1 = n"
    using r assms(3) by (auto simp: ring_start_extension_def ring_start_def)
  then show ?thesis
    using ring_fifo.run_order [OF ok assms(4)] ring_fifo.run_bounded [OF ok assms(4)]
    by (simp add: frames_def)
qed

theorem ring_extension_fifo_witness:
  "\<exists>r2 mem2. fifo_run ring_put ring_get (snd (ring_start_extension (demo_ring (Suc (Suc 0)) 0)), \<lambda>_. 0)
     [Offer (7::int), Offer 8, Offer 9, Take, Offer 10] = ([7, 8, 10], [7], (r2, mem2)) \<and>
   [7] @ frames mem2 r2 = [7, 8, 10]"
proof -
  define r1 where "r1 = snd (ring_start_extension (demo_ring (Suc (Suc 0)) 0))"
  obtain r2 mem2 where run: "fifo_run ring_put ring_get (r1, \<lambda>_. 0)
      [Offer (7::int), Offer 8, Offer 9, Take, Offer 10] = ([7, 8, 10], [7], (r2, mem2))"
    by (simp add: r1_def demo_ring_def ring_init_def ring_start_extension_def ring_put_def
        ring_get_def ring_op_defs state_allows_drain_def)
  have "ring_start_extension (demo_ring (Suc (Suc 0)) 0) = (0, r1)"
    by (simp add: r1_def demo_ring_def ring_init_def ring_start_extension_def ring_start_def)
  from ring_extension_fifo [OF demo_ring_init _ this run] run show ?thesis
    by (auto simp: r1_def)
qed

text \<open>C17: Producer and consumer never stall each other. While the ring runs and no slot is held,
either the producer can reserve a slot or the consumer can (the watermarks never block a full
ring), so a capture never deadlocks.\<close>

theorem ring_no_deadlock:
  assumes "ring_ok r" and "ring_phase r" and "rstate r = RING_RUNNING"
    and "\<not> producer_reserved r" and "\<not> consumer_reserved r"
  shows "(\<exists>s r'. producer_reserve r = (Inr s, r')) \<or> (\<exists>s r'. consumer_reserve r = (Inr s, r'))"
proof (cases "occupied r < slot_count r")
  case True
  have "target_frames r \<noteq> 0 \<and> target_frames r \<le> produced_frames r \<longleftrightarrow> False"
    using assms(2,3) by (auto simp: ring_phase_def)
  then show ?thesis
    using True assms producer_slot_free_iff [OF assms(1)]
    by (simp add: producer_reserve_def del: not_le de_Morgan_conj)
next
  case False
  then have "occupied r = slot_count r" using ring_okD(5) [OF assms(1)] by simp
  then have "consumer_ready r"
    using ring_okD(2,9,10) [OF assms(1)] assms(3)
    by (auto simp: consumer_ready_def state_allows_drain_def)
  then show ?thesis using assms(5) by (simp add: consumer_reserve_eq [OF assms(1)])
qed

theorem ring_no_deadlock_witness:
  "let r = ring_run [Start, ProducerReserve, ProducerCommit] (demo_ring 1 0)
   in fst (producer_reserve r) = Inl (- EAGAIN) \<and>
      ((\<exists>s r'. producer_reserve r = (Inr s, r')) \<or> (\<exists>s r'. consumer_reserve r = (Inr s, r')))"
proof -
  define r where "r = ring_run [Start, ProducerReserve, ProducerCommit] (demo_ring 1 0)"
  have "ring_ok r \<and> ring_counts r \<and> ring_phase r"
    unfolding r_def
    by (rule ring_run_invariants)
      (auto intro: ring_init_ok [of 1 0] ring_init_counts [of 1 0, THEN conjunct1]
        ring_init_counts [of 1 0, THEN conjunct2] simp: demo_ring_init)
  moreover have "rstate r = RING_RUNNING" "\<not> producer_reserved r" "\<not> consumer_reserved r"
    "fst (producer_reserve r) = Inl (- EAGAIN)"
    by (simp_all add: r_def ring_run_def demo_ring_def ring_init_def ring_op_defs)
  ultimately show ?thesis
    using ring_no_deadlock [of r] unfolding r_def [symmetric] Let_def by blast
qed

text \<open>The status code of an operation (0 for those that return none).\<close>

definition ring_status :: "ring_op \<Rightarrow> ring_core \<Rightarrow> int" where
  "ring_status a r = (case a of
     Start \<Rightarrow> fst (ring_start r)
   | StartExtension \<Rightarrow> fst (ring_start_extension r)
   | ProducerReserve \<Rightarrow> (case fst (producer_reserve r) of Inl e \<Rightarrow> e | Inr _ \<Rightarrow> 0)
   | ProducerCommit \<Rightarrow> fst (producer_commit r)
   | ProducerAbort \<Rightarrow> fst (producer_abort r)
   | ConsumerReserve \<Rightarrow> (case fst (consumer_reserve r) of Inl e \<Rightarrow> e | Inr _ \<Rightarrow> 0)
   | ConsumerRelease \<Rightarrow> fst (consumer_release r)
   | DiscardPending \<Rightarrow> (case fst (discard_pending r) of Inl e \<Rightarrow> e | Inr _ \<Rightarrow> 0)
   | MarkUnavailable x \<Rightarrow> 0
   | ObserveSamples x n \<Rightarrow> fst (observe_samples r x n)
   | Fail reason err \<Rightarrow> fst (ring_fail r reason err)
   | Cancel reason \<Rightarrow> fst (ring_cancel r reason)
   | CompleteExtension \<Rightarrow> fst (complete_extension r))"

lemma discard_pending_Inl:
  assumes ok: "ring_ok r"
  shows "fst (discard_pending r) = Inl e \<Longrightarrow> e = - EBUSY \<and> snd (discard_pending r) = r"
  using discard_pending_eq [OF ok]
  by (cases "rstate r = RING_RUNNING \<and> \<not> producer_reserved r") (auto simp: discard_pending_def)

lemma consumer_reserve_Inl:
  assumes ok: "ring_ok r" and err: "fst (consumer_reserve r) = Inl e"
  shows "snd (consumer_reserve r) = r \<and> (e = - EIO \<longrightarrow> rstate r = RING_FAILED)"
proof (cases "consumer_ready r \<and> \<not> consumer_reserved r")
  case True
  then show ?thesis using err by (simp add: consumer_reserve_eq [OF ok])
next
  case False
  then have "snd (consumer_reserve r) = r"
    and "fst (consumer_reserve r) = Inl (if \<not> state_allows_drain (rstate r)
        then (if rstate r = RING_COMPLETE then - ENODATA else - ESHUTDOWN)
      else if consumer_reserved r then - EBUSY
      else if rstate r = RING_DRAINING then - ENODATA
      else if rstate r = RING_FAILED then (if error_code r \<noteq> 0 then error_code r else - EIO)
      else - EAGAIN)"
    unfolding consumer_reserve_eq [OF ok] by (simp_all only: if_False fst_conv snd_conv)
  then show ?thesis using err by (auto split: if_splits)
qed

text \<open>C21: Failed calls change nothing. In a well-formed ring an operation that reports an error
leaves the ring exactly as it was, and no operation ever reports the corruption code \<open>-EIO\<close>
(but for a consumer of a failed ring that is handed the producer's own error).\<close>

theorem ring_errors_atomic:
  assumes ok: "ring_ok r" and err: "ring_status a r \<noteq> 0"
  shows "ring_apply a r = r \<and> (ring_status a r = - EIO \<longrightarrow> a = ConsumerReserve \<and> rstate r = RING_FAILED)"
proof (cases a)
  case DiscardPending
  then show ?thesis
    using err discard_pending_Inl [OF ok] by (auto simp: ring_status_def split: sum.splits)
next
  case ConsumerReserve
  then show ?thesis
    using err consumer_reserve_Inl [OF ok]
    by (cases "fst (consumer_reserve r)") (auto simp: ring_status_def)
next
  case ProducerCommit
  show ?thesis
  proof (cases "producer_reserved r")
    case True
    then show ?thesis using err by (simp add: ProducerCommit ring_status_def producer_commit_eq [OF ok])
  qed (simp add: ProducerCommit ring_status_def producer_commit_idle)
next
  case ProducerAbort
  show ?thesis
  proof (cases "producer_reserved r")
    case True
    then show ?thesis using err by (simp add: ProducerAbort ring_status_def producer_abort_eq [OF ok])
  qed (simp add: ProducerAbort ring_status_def producer_abort_def)
next
  case ConsumerRelease
  show ?thesis
  proof (cases "consumer_reserved r")
    case True
    then show ?thesis
      using err by (simp add: ConsumerRelease ring_status_def consumer_release_eq [OF ok])
  qed (simp add: ConsumerRelease ring_status_def consumer_release_def)
next
  case (Fail reason e)
  then show ?thesis
    using err by (cases "ring_fail r reason e")
      (auto simp: ring_status_def ring_fail_def Let_def split: if_splits)
next
  case (Cancel reason)
  then show ?thesis
    using err by (cases "ring_cancel r reason")
      (auto simp: ring_status_def ring_cancel_def Let_def split: if_splits)
next
  case (ObserveSamples x n)
  then show ?thesis
    using err by (cases "observe_samples r x n")
      (auto simp: ring_status_def observe_samples_def Let_def split: if_splits)
next
  case Start
  then show ?thesis
    using err by (cases "ring_start r") (auto simp: ring_status_def ring_start_def split: if_splits)
next
  case StartExtension
  then show ?thesis
    using err by (cases "ring_start_extension r")
      (auto simp: ring_status_def ring_start_extension_def ring_start_def split: if_splits)
next
  case ProducerReserve
  then show ?thesis
    using err by (cases "producer_reserve r")
      (auto simp: ring_status_def producer_reserve_def split: if_splits)
next
  case CompleteExtension
  then show ?thesis
    using err by (cases "complete_extension r")
      (auto simp: ring_status_def complete_extension_def split: if_splits)
next
  case (MarkUnavailable x)
  then show ?thesis using err by (simp add: ring_status_def)
qed

theorem ring_errors_atomic_witness:
  "ring_status ProducerCommit (demo_ring 4 0) = - EINVAL \<and>
   ring_apply ProducerCommit (demo_ring 4 0) = demo_ring 4 0"
proof -
  have "\<not> producer_reserved (demo_ring 4 0)" by (simp add: demo_ring_def ring_init_def)
  then have st: "ring_status ProducerCommit (demo_ring 4 0) = - EINVAL"
    by (simp add: ring_status_def producer_commit_def)
  have "ring_ok (demo_ring 4 0)" by (rule ring_init_ok [OF demo_ring_init]) simp_all
  from ring_errors_atomic [OF this, of ProducerCommit] st show ?thesis by simp
qed

text \<open>C18: The life cycle only moves forward, and terminal rings are frozen. Along any run the
state number never decreases; once the ring is terminal (complete, cancelled, or failed and
drained) every later operation leaves the state, the terminal reason and the error code as they
are, so the outcome that is reported to the client is the first one.\<close>

theorem ring_life_cycle:
  assumes "ring_ok r" "ring_counts r" "ring_phase r"
    and "unat (produced_frames r) + length ops < 2 ^ 64"
  shows "rstate r \<le> rstate (ring_run ops r) \<and>
    (is_terminal r \<longrightarrow> is_terminal (ring_run ops r) \<and> rstate (ring_run ops r) = rstate r \<and>
       terminal_reason (ring_run ops r) = terminal_reason r \<and>
       error_code (ring_run ops r) = error_code r)"
  using assms
proof (induction ops arbitrary: r)
  case Nil
  then show ?case by (simp add: ring_run_def)
next
  case (Cons a ops)
  have "unat (produced_frames (ring_apply a r)) + length ops < 2 ^ 64"
    using ring_apply_produced [of a r] Cons.prems(4) by simp
  moreover have "unat (produced_frames r) + 1 < 2 ^ 64" using Cons.prems(4) by simp
  ultimately have ih: "rstate (ring_apply a r) \<le> rstate (ring_run ops (ring_apply a r)) \<and>
      (is_terminal (ring_apply a r) \<longrightarrow> is_terminal (ring_run ops (ring_apply a r)) \<and>
        rstate (ring_run ops (ring_apply a r)) = rstate (ring_apply a r) \<and>
        terminal_reason (ring_run ops (ring_apply a r)) = terminal_reason (ring_apply a r) \<and>
        error_code (ring_run ops (ring_apply a r)) = error_code (ring_apply a r))"
    using Cons.IH [OF ring_apply_ok ring_apply_counts ring_apply_phase] Cons.prems(1-3) by blast
  have run: "ring_run (a # ops) r = ring_run ops (ring_apply a r)" by (simp add: ring_run_def)
  show ?case
    unfolding run using ih ring_apply_state_mono [OF Cons.prems(1,3), of a]
      ring_apply_terminal [OF Cons.prems(1,3), of a] order.trans by metis
qed

theorem ring_life_cycle_witness:
  "rstate (demo_ring 4 0) \<le> rstate (ring_run [Start, Cancel 2, Start, Fail 5 (- 5)] (demo_ring 4 0)) \<and>
   rstate (ring_run [Start, Cancel 2, Start, Fail 5 (- 5)] (demo_ring 4 0)) = RING_CANCELLED"
proof -
  have i: "ring_init 4 0 = Inr (demo_ring 4 0)" by (simp add: demo_ring_init)
  show ?thesis
    using ring_life_cycle [of "demo_ring 4 0" "[Start, Cancel 2, Start, Fail 5 (- 5)]"]
      ring_init_ok [OF i] ring_init_counts [OF i]
    by (simp add: ring_run_def ring_start_def ring_cancel_def ring_fail_def is_terminal_def
        demo_ring_def ring_init_def)
qed

text \<open>C19: A finite capture drains to completion. Once its target is reached, a consumer that
reserves and releases as many frames as are stored succeeds every time, and then the ring is
complete with reason \<open>TARGET_COMPLETE\<close> and every stored frame is counted as consumed.\<close>

theorem ring_drain_completes:
  assumes "ring_ok r" "ring_phase r" "rstate r = RING_DRAINING" "\<not> consumer_reserved r"
  shows "let r' = (consume_one ^^ occupied r) r in
    rstate r' = RING_COMPLETE \<and> terminal_reason r' = REASON_TARGET_COMPLETE \<and>
    occupied r' = 0 \<and> consumed_frames r' = consumed_frames r + of_nat (occupied r)"
proof -
  have "0 < occupied r" using assms(2,3) by (simp add: ring_phase_def)
  then obtain k where k: "occupied r = Suc k" by (cases "occupied r") auto
  from drain_run [OF assms(1,3) k assms(4)] show ?thesis by (simp add: k Let_def)
qed

theorem ring_drain_completes_witness:
  "let r = ring_run [Start, ProducerReserve, ProducerCommit] (demo_ring 1 1) in
   rstate r = RING_DRAINING \<and> rstate ((consume_one ^^ occupied r) r) = RING_COMPLETE"
proof -
  define r where "r = ring_run [Start, ProducerReserve, ProducerCommit] (demo_ring 1 1)"
  have "ring_ok r \<and> ring_counts r \<and> ring_phase r"
    unfolding r_def
    by (rule ring_run_invariants)
      (auto intro: ring_init_ok [of 1 1] ring_init_counts [of 1 1, THEN conjunct1]
        ring_init_counts [of 1 1, THEN conjunct2] simp: demo_ring_init)
  moreover have "rstate r = RING_DRAINING" "\<not> consumer_reserved r"
    by (simp_all add: r_def ring_run_def demo_ring_def ring_init_def ring_op_defs)
  ultimately show ?thesis
    using ring_drain_completes [of r] unfolding r_def [symmetric] Let_def by blast
qed

text \<open>C20: Continuity accounting is exact. Feeding the producer's frames (first sample numbers
\<open>f # fs\<close>, \<open>n\<close> samples each) to a fresh ring, the last contiguous sample number is the end of
the longest gap-free prefix of the frames, and a first unavailable sample is recorded exactly when
a later frame exists, with that same number.\<close>

theorem ring_continuity:
  assumes "ring_init slots_n target = Inr r" and "n \<noteq> 0"
    and "\<forall>x \<in> set (f # fs). unat x + unat n < 2 ^ 64"
  shows "let r' = observe_all n (f # fs) r; k = contiguous n f (f # fs) in
    last_contiguous_valid r' \<and> last_contiguous_sample_sequence r' = f + of_nat k * n \<and>
    first_unavailable_valid r' = (k < length (f # fs)) \<and>
    (k < length (f # fs) \<longrightarrow>
       first_unavailable_sample_sequence r' = last_contiguous_sample_sequence r')"
proof -
  define r1 where "r1 = snd (observe_samples r f n)"
  have "\<not> UINT64_MAX - n < f" using assms(3) by (simp add: max_minus_less_iff)
  then have r1: "expected_sample_valid r1" "last_contiguous_valid r1" "\<not> first_unavailable_valid r1"
    "\<not> continuity_broken r1" "expected_sample_sequence r1 = last_contiguous_sample_sequence r1"
    "expected_sample_sequence r1 = f + n"
    using assms(1,2)
    by (auto simp: r1_def observe_samples_def Let_def ring_init_def split: if_splits)
  have obs: "observe_all n (f # fs) r = observe_all n fs r1"
    by (simp add: observe_all_def r1_def)
  have k: "contiguous n f (f # fs) = Suc (contiguous n (expected_sample_sequence r1) fs)"
    using r1(6) by simp
  have sum: "f + of_nat (Suc m) * n = expected_sample_sequence r1 + of_nat m * n" for m
    unfolding r1(6) by (simp add: algebra_simps)
  have "\<forall>x \<in> set fs. unat x + unat n < 2 ^ 64" using assms(3) by simp
  from observe_contiguous [OF assms(2) r1(1-5) this] show ?thesis
    unfolding Let_def obs k sum by simp
qed

theorem ring_continuity_witness:
  "first_unavailable_valid (observe_all 10 [100, 110, 130] (demo_ring 4 0)) \<and>
   first_unavailable_sample_sequence (observe_all 10 [100, 110, 130] (demo_ring 4 0)) = 120"
  using ring_continuity [OF demo_ring_init, of 4 10 100 "[110, 130]" 0] by (simp add: Let_def)

end
