(* ===== verification/Le_Codec.thy ===== *)
theory Le_Codec
  imports Iiod_Prelude
begin

unbundle bit_operations_syntax

text \<open>
  The little-endian accessors that every wire format of \<open>iiod/\<close> defines for itself
  (\<open>get_le16\<close> to \<open>put_le64\<close>), over a buffer that is a list of bytes; the pointer \<open>p + k\<close> of
  the code is the pair of the buffer and the offset \<open>k\<close>. The lemmas are the algebra the codecs
  rest on: a read sees the write at the same offset, ignores writes elsewhere, and writing back
  what was read copies the bytes. Last, the interface of a wire codec.
\<close>

subsection \<open>The accessors\<close>

definition get_le16 :: "u8 list \<Rightarrow> nat \<Rightarrow> u16" where
  "get_le16 p k = ucast (p ! k) OR push_bit 8 (ucast (p ! (k + 1)))"

definition get_le32 :: "u8 list \<Rightarrow> nat \<Rightarrow> u32" where
  "get_le32 p k = ucast (p ! k) OR push_bit 8 (ucast (p ! (k + 1)))
     OR push_bit 16 (ucast (p ! (k + 2))) OR push_bit 24 (ucast (p ! (k + 3)))"

definition get_le64 :: "u8 list \<Rightarrow> nat \<Rightarrow> u64" where
  "get_le64 p k = ucast (get_le32 p k) OR push_bit 32 (ucast (get_le32 p (k + 4)))"

definition put_u8 :: "u8 list \<Rightarrow> nat \<Rightarrow> u8 \<Rightarrow> u8 list" where
  "put_u8 p k v = p[k := v]"

definition put_le16 :: "u8 list \<Rightarrow> nat \<Rightarrow> u16 \<Rightarrow> u8 list" where
  "put_le16 p k v = p[k := ucast v, k + 1 := ucast (drop_bit 8 v)]"

definition put_le32 :: "u8 list \<Rightarrow> nat \<Rightarrow> u32 \<Rightarrow> u8 list" where
  "put_le32 p k v = p[k := ucast v, k + 1 := ucast (drop_bit 8 v),
     k + 2 := ucast (drop_bit 16 v), k + 3 := ucast (drop_bit 24 v)]"

definition put_le64 :: "u8 list \<Rightarrow> nat \<Rightarrow> u64 \<Rightarrow> u8 list" where
  "put_le64 p k v = put_le32 (put_le32 p k (ucast v)) (k + 4) (ucast (drop_bit 32 v))"

text \<open>\<open>memset\<close> of the first \<open>n\<close> bytes to zero, and the test that a span is zero.\<close>

definition clear_bytes :: "u8 list \<Rightarrow> nat \<Rightarrow> u8 list" where
  "clear_bytes p n = replicate n 0 @ drop n p"

definition all_zero :: "u8 list \<Rightarrow> nat \<Rightarrow> nat \<Rightarrow> bool" where
  "all_zero p k n = list_all (\<lambda>b. b = 0) (take n (drop k p))"

subsection \<open>Reading back\<close>

lemma length_puts [simp]:
  "length (put_u8 p k b) = length p" "length (put_le16 p k v) = length p"
  "length (put_le32 p k w) = length p" "length (put_le64 p k x) = length p"
  by (simp_all add: put_u8_def put_le16_def put_le32_def put_le64_def)

lemma length_clear_bytes [simp]: "n \<le> length p \<Longrightarrow> length (clear_bytes p n) = length p"
  by (simp add: clear_bytes_def)

lemma join16: "ucast (ucast (v::u16) :: u8) OR push_bit 8 (ucast (ucast (drop_bit 8 v) :: u8)) = v"
  by (rule bit_word_eqI) (auto simp: bit_simps)

lemma join32:
  fixes v :: u32
  shows "ucast (ucast v :: u8) OR push_bit 8 (ucast (ucast (drop_bit 8 v) :: u8))
    OR push_bit 16 (ucast (ucast (drop_bit 16 v) :: u8))
    OR push_bit 24 (ucast (ucast (drop_bit 24 v) :: u8)) = v"
proof (rule bit_word_eqI)
  fix n assume "n < LENGTH(32)"
  then consider "n < 8" | "8 \<le> n" "n < 16" | "16 \<le> n" "n < 24" | "24 \<le> n" "n < 32"
    by fastforce
  then show "bit (ucast (ucast v :: u8) OR push_bit 8 (ucast (ucast (drop_bit 8 v) :: u8))
      OR push_bit 16 (ucast (ucast (drop_bit 16 v) :: u8))
      OR push_bit 24 (ucast (ucast (drop_bit 24 v) :: u8)) :: u32) n = bit v n"
    by cases (auto simp: bit_simps)
qed

lemma join64: "ucast (ucast (v::u64) :: u32) OR push_bit 32 (ucast (ucast (drop_bit 32 v) :: u32)) = v"
  by (rule bit_word_eqI) (auto simp: bit_simps)

lemma get_put_same [simp]:
  "k < length p \<Longrightarrow> put_u8 p k b ! k = b"
  "k + 2 \<le> length p \<Longrightarrow> get_le16 (put_le16 p k v) k = v"
  "k + 4 \<le> length p \<Longrightarrow> get_le32 (put_le32 p k w) k = w"
  by (simp_all add: put_u8_def get_le16_def put_le16_def get_le32_def put_le32_def nth_list_update
      join16 join32)

text \<open>Bytes outside the written span keep their value.\<close>

lemma nth_put_outside:
  "i \<noteq> k \<Longrightarrow> put_u8 p k b ! i = p ! i"
  "i < k \<or> k + 2 \<le> i \<Longrightarrow> put_le16 p k v ! i = p ! i"
  "i < k \<or> k + 4 \<le> i \<Longrightarrow> put_le32 p k w ! i = p ! i"
  "i < k \<or> k + 8 \<le> i \<Longrightarrow> put_le64 p k x ! i = p ! i"
  by (auto simp: put_u8_def put_le16_def put_le32_def put_le64_def nth_update_if)

lemma get_le32_put_le32_disjoint:
  "i + 4 \<le> k \<or> k + 4 \<le> i \<Longrightarrow> get_le32 (put_le32 p k w) i = get_le32 p i"
  by (elim disjE) (simp_all add: get_le32_def nth_put_outside)

lemma get_put_le64_same [simp]: "k + 8 \<le> length p \<Longrightarrow> get_le64 (put_le64 p k x) k = x"
  by (simp add: get_le64_def put_le64_def get_le32_put_le32_disjoint join64)

lemma get_put_disjoint:
  "i + 2 \<le> k \<or> k + 1 \<le> i \<Longrightarrow> get_le16 (put_u8 p k b) i = get_le16 p i"
  "i + 2 \<le> k \<or> k + 2 \<le> i \<Longrightarrow> get_le16 (put_le16 p k v) i = get_le16 p i"
  "i + 2 \<le> k \<or> k + 4 \<le> i \<Longrightarrow> get_le16 (put_le32 p k w) i = get_le16 p i"
  "i + 2 \<le> k \<or> k + 8 \<le> i \<Longrightarrow> get_le16 (put_le64 p k x) i = get_le16 p i"
  "i + 4 \<le> k \<or> k + 1 \<le> i \<Longrightarrow> get_le32 (put_u8 p k b) i = get_le32 p i"
  "i + 4 \<le> k \<or> k + 2 \<le> i \<Longrightarrow> get_le32 (put_le16 p k v) i = get_le32 p i"
  "i + 4 \<le> k \<or> k + 4 \<le> i \<Longrightarrow> get_le32 (put_le32 p k w) i = get_le32 p i"
  "i + 4 \<le> k \<or> k + 8 \<le> i \<Longrightarrow> get_le32 (put_le64 p k x) i = get_le32 p i"
  "i + 8 \<le> k \<or> k + 1 \<le> i \<Longrightarrow> get_le64 (put_u8 p k b) i = get_le64 p i"
  "i + 8 \<le> k \<or> k + 2 \<le> i \<Longrightarrow> get_le64 (put_le16 p k v) i = get_le64 p i"
  "i + 8 \<le> k \<or> k + 4 \<le> i \<Longrightarrow> get_le64 (put_le32 p k w) i = get_le64 p i"
  "i + 8 \<le> k \<or> k + 8 \<le> i \<Longrightarrow> get_le64 (put_le64 p k x) i = get_le64 p i"
  by (elim disjE; simp add: get_le16_def get_le32_def get_le64_def nth_put_outside)+

lemma nth_clear_bytes: "i < n \<Longrightarrow> clear_bytes p n ! i = 0"
  by (simp add: clear_bytes_def nth_append)

lemma get_clear_bytes:
  "k + 2 \<le> n \<Longrightarrow> get_le16 (clear_bytes p n) k = 0"
  "k + 4 \<le> n \<Longrightarrow> get_le32 (clear_bytes p n) k = 0"
  "k + 8 \<le> n \<Longrightarrow> get_le64 (clear_bytes p n) k = 0"
  by (simp_all add: get_le16_def get_le32_def get_le64_def nth_clear_bytes)

lemma all_zero_iff: "k + n \<le> length p \<Longrightarrow> all_zero p k n \<longleftrightarrow> (\<forall>i < n. p ! (k + i) = 0)"
  by (auto simp: all_zero_def list_all_length)

text \<open>The collection that evaluates a read of an encoded record.\<close>

lemmas wire_simps = get_put_disjoint nth_put_outside get_clear_bytes nth_clear_bytes

subsection \<open>Copying\<close>

text \<open>
  \<open>agree S p q\<close>: equal lengths, and equal bytes at the offsets in \<open>S\<close>. An encoder that writes
  back what a decoder read extends \<open>S\<close> by the field's span.
\<close>

definition agree :: "nat set \<Rightarrow> u8 list \<Rightarrow> u8 list \<Rightarrow> bool" where
  "agree S p q \<longleftrightarrow> length p = length q \<and> (\<forall>i \<in> S. i < length q \<longrightarrow> p ! i = q ! i)"

lemma agree_mono: "agree S p q \<Longrightarrow> T \<subseteq> S \<Longrightarrow> agree T p q"
  by (auto simp: agree_def)

lemma agree_Un: "agree S p q \<Longrightarrow> agree T p q \<Longrightarrow> agree (S \<union> T) p q"
  by (auto simp: agree_def)

lemma agree_full: "agree {..<n} p q \<Longrightarrow> length p = n \<Longrightarrow> p = q"
  by (auto simp: agree_def intro: nth_equalityI)

lemma split16:
  "ucast (ucast (a::u8) OR push_bit 8 (ucast (b::u8)) :: u16) = a"
  "ucast (drop_bit 8 (ucast (a::u8) OR push_bit 8 (ucast (b::u8)) :: u16)) = b"
  by (rule bit_word_eqI; auto simp: bit_simps dest: bit_imp_le_length)+

lemma split32:
  fixes a b c d :: u8
  defines "w \<equiv> ucast a OR push_bit 8 (ucast b) OR push_bit 16 (ucast c) OR push_bit 24 (ucast d) :: u32"
  shows "ucast w = a" "ucast (drop_bit 8 w) = b" "ucast (drop_bit 16 w) = c"
    "ucast (drop_bit 24 w) = d"
  unfolding w_def by (rule bit_word_eqI; auto simp: bit_simps dest: bit_imp_le_length)+

lemma split64:
  fixes a b :: u32
  shows "ucast (ucast a OR push_bit 32 (ucast b) :: u64) = a"
    "ucast (drop_bit 32 (ucast a OR push_bit 32 (ucast b) :: u64)) = b"
  by (rule bit_word_eqI; auto simp: bit_simps dest: bit_imp_le_length)+

lemma agree_put_u8:
  "agree S p q \<Longrightarrow> agree (insert k S) (put_u8 p k (q ! k)) q"
  by (auto simp: agree_def put_u8_def nth_update_if)

lemma agree_put_le16:
  assumes "agree S p q"
  shows "agree ({k..<k + 2} \<union> S) (put_le16 p k (get_le16 q k)) q"
proof -
  have "put_le16 p k (get_le16 q k) = p[k := q ! k, k + 1 := q ! (k + 1)]"
    unfolding put_le16_def get_le16_def split16 ..
  then show ?thesis
    using assms by (auto simp: agree_def nth_update_if le_less_Suc_eq less_Suc_eq)
qed

lemma agree_put_le32:
  assumes "agree S p q"
  shows "agree ({k..<k + 4} \<union> S) (put_le32 p k (get_le32 q k)) q"
proof -
  have "put_le32 p k (get_le32 q k)
      = p[k := q ! k, k + 1 := q ! (k + 1), k + 2 := q ! (k + 2), k + 3 := q ! (k + 3)]"
    unfolding put_le32_def get_le32_def split32 ..
  then have "put_le32 p k (get_le32 q k) ! i = q ! i"
    if "i \<in> {k..<k + 4} \<union> S" "i < length q" for i
  proof (cases "i \<in> {k..<k + 4}")
    case True
    then have "i = k \<or> i = k + 1 \<or> i = k + 2 \<or> i = k + 3" by auto
    then show ?thesis
      using that(2) assms \<open>put_le32 p k _ = _\<close> by (elim disjE) (simp_all add: agree_def nth_update_if)
  next
    case False
    then show ?thesis using that assms by (subst nth_put_outside) (auto simp: agree_def)
  qed
  then show ?thesis using assms by (simp add: agree_def)
qed

lemma agree_put_le64:
  assumes "agree S p q"
  shows "agree ({k..<k + 8} \<union> S) (put_le64 p k (get_le64 q k)) q"
proof -
  have "put_le64 p k (get_le64 q k)
      = put_le32 (put_le32 p k (get_le32 q k)) (k + 4) (get_le32 q (k + 4))"
    unfolding put_le64_def get_le64_def split64 ..
  moreover have "{k..<k + 8} = {k + 4..<k + 4 + 4} \<union> {k..<k + 4}" by auto
  ultimately show ?thesis
    using agree_put_le32 [OF agree_put_le32 [OF assms, of k], of "k + 4"] by (simp add: Un_assoc)
qed

text \<open>
  The spans written so far, as a list of half-open intervals, and a computable test that they
  cover the message up to \<open>hi\<close>: from \<open>lo\<close>, some span contains \<open>lo\<close>, and so on from its end.
\<close>

definition spans :: "(nat \<times> nat) list \<Rightarrow> nat set" where
  "spans xs = (\<Union>(a, b) \<in> set xs. {a..<b})"

lemma spans_Cons: "spans ((a, b) # xs) = {a..<b} \<union> spans xs"
  by (simp add: spans_def)

lemma agree_spans_put:
  assumes "agree (spans xs) p q"
  shows "agree (spans ((k, k + 1) # xs)) (put_u8 p k (q ! k)) q"
    "agree (spans ((k, k + 2) # xs)) (put_le16 p k (get_le16 q k)) q"
    "agree (spans ((k, k + 4) # xs)) (put_le32 p k (get_le32 q k)) q"
    "agree (spans ((k, k + 8) # xs)) (put_le64 p k (get_le64 q k)) q"
  using agree_put_u8 [OF assms] agree_put_le16 [OF assms] agree_put_le32 [OF assms]
    agree_put_le64 [OF assms] by (simp_all add: spans_Cons)

fun covers :: "nat \<Rightarrow> nat \<Rightarrow> nat \<Rightarrow> (nat \<times> nat) list \<Rightarrow> bool" where
  "covers fuel lo hi xs = (hi \<le> lo \<or> (case fuel of 0 \<Rightarrow> False
     | Suc fuel' \<Rightarrow> (case find (\<lambda>(a, b). a \<le> lo \<and> lo < b) xs of
         None \<Rightarrow> False | Some (a, b) \<Rightarrow> covers fuel' b hi xs)))"

declare covers.simps [simp del]

lemma covers_subset: "covers fuel lo hi xs \<Longrightarrow> {lo..<hi} \<subseteq> spans xs"
proof (induction fuel arbitrary: lo)
  case 0
  then show ?case by (simp add: covers.simps [of 0])
next
  case (Suc fuel)
  show ?case
  proof (cases "hi \<le> lo")
    case False
    then obtain a b where f: "find (\<lambda>(a, b). a \<le> lo \<and> lo < b) xs = Some (a, b)"
      and c: "covers fuel b hi xs"
      using Suc.prems by (auto simp: covers.simps [of "Suc fuel"] split: option.splits)
    from f have "(a, b) \<in> set xs" "a \<le> lo" "lo < b"
      by (auto simp: find_Some_iff) (metis nth_mem)
    then have "{lo..<b} \<subseteq> spans xs"
      by (auto simp: spans_def intro!: bexI [of _ "(a, b)"])
    moreover have "{lo..<hi} \<subseteq> {lo..<b} \<union> {b..<hi}" by auto
    ultimately show ?thesis using Suc.IH [OF c] by blast
  qed simp
qed

lemma agree_covers:
  assumes "agree (spans xs) p q" and "covers n 0 n xs" and "length q = n"
  shows "p = q"
proof (rule agree_full)
  show "agree {..<n} p q"
    using agree_mono [OF assms(1) covers_subset [OF assms(2)]] by (simp add: lessThan_atLeast0)
  show "length p = n" using assms(1,3) by (simp add: agree_def)
qed

text \<open>A zero field has zero bytes.\<close>

lemma get_bytes:
  "ucast (get_le16 p k) = p ! k" "ucast (drop_bit 8 (get_le16 p k)) = p ! (k + 1)"
  "ucast (get_le32 p k) = p ! k" "ucast (drop_bit 8 (get_le32 p k)) = p ! (k + 1)"
  "ucast (drop_bit 16 (get_le32 p k)) = p ! (k + 2)"
  "ucast (drop_bit 24 (get_le32 p k)) = p ! (k + 3)"
  "ucast (get_le64 p k) = get_le32 p k" "ucast (drop_bit 32 (get_le64 p k)) = get_le32 p (k + 4)"
  unfolding get_le16_def get_le32_def get_le64_def by (rule split16 split32 split64)+

lemma get_le16_eq_0: "get_le16 p k = 0 \<Longrightarrow> p ! k = 0 \<and> p ! (k + 1) = 0"
  using get_bytes(1,2) [of p k] by simp

lemma get_le32_eq_0:
  "get_le32 p k = 0 \<Longrightarrow> p ! k = 0 \<and> p ! (k + 1) = 0 \<and> p ! (k + 2) = 0 \<and> p ! (k + 3) = 0"
  using get_bytes(3-6) [of p k] by simp

lemma get_le64_eq_0: "get_le64 p k = 0 \<Longrightarrow> get_le32 p k = 0 \<and> get_le32 p (k + 4) = 0"
  using get_bytes(7,8) [of p k] by simp

text \<open>Where both messages are zero they agree, so reserved fields need not be written.\<close>

lemma agree_spans_zero:
  assumes "agree (spans xs) p q"
  shows "p ! k = 0 \<Longrightarrow> q ! k = 0 \<Longrightarrow> agree (spans ((k, k + 1) # xs)) p q"
    "get_le16 p k = 0 \<Longrightarrow> get_le16 q k = 0 \<Longrightarrow> agree (spans ((k, k + 2) # xs)) p q"
    "get_le32 p k = 0 \<Longrightarrow> get_le32 q k = 0 \<Longrightarrow> agree (spans ((k, k + 4) # xs)) p q"
    "get_le64 p k = 0 \<Longrightarrow> get_le64 q k = 0 \<Longrightarrow> agree (spans ((k, k + 8) # xs)) p q"
proof -
  have 4: "agree {j..<j + 4} p q" if "get_le32 p j = 0" "get_le32 q j = 0" for j
  proof -
    have "i \<in> {j..<j + 4} \<longleftrightarrow> i = j \<or> i = j + 1 \<or> i = j + 2 \<or> i = j + 3" for i by auto
    then show ?thesis
      using assms get_le32_eq_0 [OF that(1)] get_le32_eq_0 [OF that(2)] by (auto simp: agree_def)
  qed
  show "agree (spans ((k, k + 1) # xs)) p q" if "p ! k = 0" "q ! k = 0"
    using assms that by (auto simp: agree_def spans_Cons le_less_Suc_eq)
  show "agree (spans ((k, k + 2) # xs)) p q" if "get_le16 p k = 0" "get_le16 q k = 0"
  proof -
    have "i \<in> {k..<k + 2} \<longleftrightarrow> i = k \<or> i = k + 1" for i by auto
    then show ?thesis
      using assms get_le16_eq_0 [OF that(1)] get_le16_eq_0 [OF that(2)]
      by (auto simp: agree_def spans_Cons)
  qed
  show "agree (spans ((k, k + 4) # xs)) p q" if "get_le32 p k = 0" "get_le32 q k = 0"
    using agree_Un [OF 4 [OF that] assms] by (simp add: spans_Cons)
  show "agree (spans ((k, k + 8) # xs)) p q" if "get_le64 p k = 0" "get_le64 q k = 0"
  proof -
    have "{k..<k + 8} = {k..<k + 4} \<union> {k + 4..<k + 4 + 4}" by auto
    then show ?thesis
      using agree_Un [OF agree_Un [OF 4 [of k] 4 [of "k + 4"]] assms] get_le64_eq_0 [OF that(1)]
        get_le64_eq_0 [OF that(2)] by (simp add: spans_Cons)
  qed
qed

lemma agree_spans_same:
  assumes "agree (spans xs) p q"
  shows "p ! k = q ! k \<Longrightarrow> agree (spans ((k, k + 1) # xs)) p q"
    "get_le16 p k = get_le16 q k \<Longrightarrow> agree (spans ((k, k + 2) # xs)) p q"
    "get_le32 p k = get_le32 q k \<Longrightarrow> agree (spans ((k, k + 4) # xs)) p q"
    "get_le64 p k = get_le64 q k \<Longrightarrow> agree (spans ((k, k + 8) # xs)) p q"
proof -
  have "p[k := p ! k] = p" for k by (cases "k < length p") (auto simp: list_update_beyond)
  then have 32: "put_le32 p k (get_le32 p k) = p" for k
    by (simp add: put_le32_def get_bytes)
  then have put: "put_u8 p k (p ! k) = p" "put_le16 p k (get_le16 p k) = p"
    "put_le64 p k (get_le64 p k) = p" for k
    using \<open>\<And>k. p[k := p ! k] = p\<close> by (simp_all add: put_u8_def put_le16_def put_le64_def get_bytes)
  note copy = agree_spans_put [OF assms, of k]
  show "p ! k = q ! k \<Longrightarrow> agree (spans ((k, k + 1) # xs)) p q"
    using copy(1) put(1) [of k] by simp
  show "get_le16 p k = get_le16 q k \<Longrightarrow> agree (spans ((k, k + 2) # xs)) p q"
    using copy(2) put(2) [of k] by simp
  show "get_le32 p k = get_le32 q k \<Longrightarrow> agree (spans ((k, k + 4) # xs)) p q"
    using copy(3) 32 [of k] by simp
  show "get_le64 p k = get_le64 q k \<Longrightarrow> agree (spans ((k, k + 8) # xs)) p q"
    using copy(4) put(3) [of k] by simp
qed

lemma agree_refl_length: "length p = length q \<Longrightarrow> agree (spans []) p q"
  by (simp add: agree_def spans_def)

subsection \<open>The interface of a wire codec\<close>

text \<open>
  \<open>wf\<close> is what the C type of the record guarantees by itself (array lengths, unused entries
  cleared). The two laws say that the decoder accepts exactly the encoder's outputs.
\<close>

locale wire_codec =
  fixes wf :: "'r \<Rightarrow> bool"
    and encode :: "'r \<Rightarrow> u8 list res"
    and decode :: "u8 list \<Rightarrow> 'r res"
  assumes decode_encode: "wf r \<Longrightarrow> encode r = Inr w \<Longrightarrow> decode w = Inr r"
    and encode_decode: "decode w = Inr r \<Longrightarrow> wf r \<and> encode r = Inr w"
begin

lemma encode_inject: "wf r \<Longrightarrow> wf s \<Longrightarrow> encode r = Inr w \<Longrightarrow> encode s = Inr w \<Longrightarrow> r = s"
  using decode_encode [of r w] decode_encode [of s w] by simp

lemma decode_inject: "decode v = Inr r \<Longrightarrow> decode w = Inr r \<Longrightarrow> v = w"
  using encode_decode [of v r] encode_decode [of w r] by simp

lemma decode_iff: "decode w = Inr r \<longleftrightarrow> wf r \<and> encode r = Inr w"
  using decode_encode encode_decode by blast

text \<open>The accepted messages are exactly the images of the encodable records.\<close>

lemma accepted_image: "{w. \<exists>r. decode w = Inr r} = {w. \<exists>r. wf r \<and> encode r = Inr w}"
  by (auto simp: decode_iff)

end

end
