(* ===== verification/Ddr_Wire.thy ===== *)
theory Ddr_Wire
  imports Ddr_Ring Le_Codec
begin

text \<open>
  The wire formats around the DDR ring: the ring request (\<open>iiod/spf-ddr-ring-request.c\<close>), the
  burst request (\<open>iiod/spf-ddr-burst-request.c\<close>) and the ring status
  (\<open>iiod/spf-ddr-ring-status.c\<close>), and the status that \<open>read_buffer_metadata_status\<close> of
  \<open>iiod/ops.c\<close> reports from a ring.
\<close>

abbreviation (input) RING_REQUEST_MAGIC :: u32 where "RING_REQUEST_MAGIC \<equiv> 0x52524653"
abbreviation (input) BURST_REQUEST_MAGIC :: u32 where "BURST_REQUEST_MAGIC \<equiv> 0x42524653"
abbreviation (input) RING_STATUS_MAGIC :: u32 where "RING_STATUS_MAGIC \<equiv> 0x53524653"
abbreviation (input) RING_FLAG_FINITE :: u32 where "RING_FLAG_FINITE \<equiv> 1"
abbreviation (input) RING_FLAG_CONTINUOUS :: u32 where "RING_FLAG_CONTINUOUS \<equiv> 2"
abbreviation (input) RING_FLAG_DIRECT_EXTENSION :: u32 where "RING_FLAG_DIRECT_EXTENSION \<equiv> 4"
abbreviation (input) VALID_LAST_CONTIGUOUS :: u32 where "VALID_LAST_CONTIGUOUS \<equiv> 1"
abbreviation (input) VALID_FIRST_UNAVAILABLE :: u32 where "VALID_FIRST_UNAVAILABLE \<equiv> 2"

subsection \<open>Requests\<close>

record ring_request =
  rr_required_features :: u32
  rr_flags :: u32
  rr_capacity_iq_bytes :: u64
  rr_capture_frames :: u64

definition ring_request_decode :: "u8 list \<Rightarrow> ring_request res" where
  "ring_request_decode wire =
     (if length wire \<noteq> 48 then Inl (- EINVAL)
      else if get_le32 wire 0 \<noteq> RING_REQUEST_MAGIC \<or> get_le16 wire 4 \<noteq> 1 \<or>
          get_le16 wire 6 \<noteq> 48 then Inl (- EPROTONOSUPPORT)
      else let features = get_le32 wire 8; flags = get_le32 wire 12;
          capacity = get_le64 wire 16; frames = get_le64 wire 24
        in if features \<noteq> 1 then Inl (- EPROTONOSUPPORT)
      else if flags \<noteq> RING_FLAG_FINITE \<and> flags \<noteq> RING_FLAG_CONTINUOUS \<and>
          flags \<noteq> RING_FLAG_DIRECT_EXTENSION then Inl (- EINVAL)
      else if capacity = 0 \<or> get_le64 wire 32 \<noteq> 0 \<or> get_le64 wire 40 \<noteq> 0 then Inl (- EINVAL)
      else if (flags = RING_FLAG_FINITE) \<noteq> (frames \<noteq> 0) then Inl (- EINVAL)
      else Inr \<lparr>rr_required_features = features, rr_flags = flags,
        rr_capacity_iq_bytes = capacity, rr_capture_frames = frames\<rparr>)"

record burst_request =
  br_required_features :: u32
  br_requested_iq_bytes :: u64

definition burst_request_decode :: "u8 list \<Rightarrow> burst_request res" where
  "burst_request_decode wire =
     (if length wire \<noteq> 32 then Inl (- EINVAL)
      else if get_le32 wire 0 \<noteq> BURST_REQUEST_MAGIC \<or> get_le16 wire 4 \<noteq> 1 \<or>
          get_le16 wire 6 \<noteq> 32 then Inl (- EPROTONOSUPPORT)
      else let required_features = get_le32 wire 8
        in if required_features \<noteq> 1 then Inl (- EPROTONOSUPPORT)
      else if get_le32 wire 12 \<noteq> 0 \<or> get_le64 wire 24 \<noteq> 0 then Inl (- EINVAL)
      else let requested = get_le64 wire 16
        in if requested = 0 then Inl (- EINVAL)
      else Inr \<lparr>br_required_features = required_features, br_requested_iq_bytes = requested\<rparr>)"

definition burst_validate_frame_period :: "u32 \<Rightarrow> u32 \<Rightarrow> int" where
  "burst_validate_frame_period samples_per_channel sample_rate_hz =
     (if samples_per_channel = 0 \<or> sample_rate_hz = 0 then - EINVAL
      else let frame_sample_us = (ucast samples_per_channel :: u64) * 1000000;
          minimum_sample_us = (ucast sample_rate_hz :: u64) * 12000
        in if minimum_sample_us \<le> frame_sample_us then 0 else - EOPNOTSUPP)"

lemma unat_mult_small: "unat a * unat b < 2 ^ 64 \<Longrightarrow> unat (a * b :: u64) = unat a * unat b"
  by (simp add: unat_word_ariths)

lemma unat_ucast_u32_mult:
  assumes "unat k \<le> 1000000"
  shows "unat ((ucast (w::u32) :: u64) * k) = unat w * unat k"
proof -
  have "unat w < 2 ^ 32" using unsigned_less [of w] by simp
  then have "unat w * unat k \<le> 2 ^ 32 * 1000000"
    using assms by (intro mult_le_mono) auto
  then show ?thesis by (subst unat_mult_small) simp_all
qed

subsection \<open>Status\<close>

record ddr_ring_status =
  st_state :: u32
  st_terminal_reason :: u32
  st_valid_fields :: u32
  st_error_code :: i32
  st_requested_capacity_iq_bytes :: u64
  st_admitted_capacity_iq_bytes :: u64
  st_target_frames :: u64
  st_produced_frames :: u64
  st_consumed_frames :: u64
  st_high_water_frames :: u64
  st_wrap_count :: u64
  st_producer_position :: u64
  st_consumer_position :: u64
  st_last_contiguous :: u64
  st_first_unavailable :: u64

definition ddr_status_values_valid :: "ddr_ring_status \<Rightarrow> bool" where
  "ddr_status_values_valid s =
     (if 6 < st_state s \<or> REASON_INTERNAL_ERROR < st_terminal_reason s then False
      else if and (st_valid_fields s) (not (or VALID_LAST_CONTIGUOUS VALID_FIRST_UNAVAILABLE)) \<noteq> 0
      then False
      else if st_produced_frames s < st_consumed_frames s \<or>
          st_produced_frames s < st_high_water_frames s then False
      else True)"

definition exclusive_boundary :: "u64 \<Rightarrow> u64 \<Rightarrow> u64 res" where
  "exclusive_boundary first_sample_sequence samples_per_frame =
     (if samples_per_frame = 0 then Inl (- EINVAL)
      else if UINT64_MAX - samples_per_frame < first_sample_sequence then Inl (- EOVERFLOW)
      else Inr (first_sample_sequence + samples_per_frame))"

definition ddr_status_encode :: "u8 list \<Rightarrow> ddr_ring_status \<Rightarrow> u8 list res" where
  "ddr_status_encode wire s =
     (if length wire \<noteq> 128 then Inl (- EINVAL)
      else if \<not> ddr_status_values_valid s then Inl (- EINVAL)
      else let
        w = clear_bytes wire (length wire);
        w = put_le32 w 0 RING_STATUS_MAGIC;
        w = put_le16 w 4 1;
        w = put_le16 w 6 128;
        w = put_le32 w 8 (st_state s);
        w = put_le32 w 12 (st_terminal_reason s);
        w = put_le32 w 16 (st_valid_fields s);
        w = put_le32 w 20 (st_error_code s);
        w = put_le64 w 24 (st_requested_capacity_iq_bytes s);
        w = put_le64 w 32 (st_admitted_capacity_iq_bytes s);
        w = put_le64 w 40 (st_target_frames s);
        w = put_le64 w 48 (st_produced_frames s);
        w = put_le64 w 56 (st_consumed_frames s);
        w = put_le64 w 64 (st_high_water_frames s);
        w = put_le64 w 72 (st_wrap_count s);
        w = put_le64 w 80 (st_producer_position s);
        w = put_le64 w 88 (st_consumer_position s);
        w = put_le64 w 96 (st_last_contiguous s)
      in Inr (put_le64 w 104 (st_first_unavailable s)))"

definition ddr_status_decode :: "u8 list \<Rightarrow> ddr_ring_status res" where
  "ddr_status_decode wire =
     (if length wire \<noteq> 128 then Inl (- EINVAL)
      else if get_le32 wire 0 \<noteq> RING_STATUS_MAGIC \<or> get_le16 wire 4 \<noteq> 1 \<or>
          get_le16 wire 6 \<noteq> 128 then Inl (- EPROTONOSUPPORT)
      else if get_le64 wire 112 \<noteq> 0 \<or> get_le64 wire 120 \<noteq> 0 then Inl (- EINVAL)
      else let s = \<lparr>st_state = get_le32 wire 8, st_terminal_reason = get_le32 wire 12,
          st_valid_fields = get_le32 wire 16, st_error_code = get_le32 wire 20,
          st_requested_capacity_iq_bytes = get_le64 wire 24,
          st_admitted_capacity_iq_bytes = get_le64 wire 32, st_target_frames = get_le64 wire 40,
          st_produced_frames = get_le64 wire 48, st_consumed_frames = get_le64 wire 56,
          st_high_water_frames = get_le64 wire 64, st_wrap_count = get_le64 wire 72,
          st_producer_position = get_le64 wire 80, st_consumer_position = get_le64 wire 88,
          st_last_contiguous = get_le64 wire 96, st_first_unavailable = get_le64 wire 104\<rparr>
        in if \<not> ddr_status_values_valid s then Inl (- EINVAL) else Inr s)"

lemma ddr_status_eta: "\<lparr>st_state = st_state s, st_terminal_reason = st_terminal_reason s,
    st_valid_fields = st_valid_fields s, st_error_code = st_error_code s,
    st_requested_capacity_iq_bytes = st_requested_capacity_iq_bytes s,
    st_admitted_capacity_iq_bytes = st_admitted_capacity_iq_bytes s,
    st_target_frames = st_target_frames s, st_produced_frames = st_produced_frames s,
    st_consumed_frames = st_consumed_frames s, st_high_water_frames = st_high_water_frames s,
    st_wrap_count = st_wrap_count s, st_producer_position = st_producer_position s,
    st_consumer_position = st_consumer_position s, st_last_contiguous = st_last_contiguous s,
    st_first_unavailable = st_first_unavailable s\<rparr> = s"
  by (cases s) simp

lemma ddr_status_decode_encode:
  assumes "ddr_status_encode p s = Inr w"
  shows "ddr_status_decode w = Inr s"
proof -
  have "length p = 128" "ddr_status_values_valid s"
    using assms by (auto simp: ddr_status_encode_def split: if_splits)
  then show ?thesis
    using assms by (auto simp: ddr_status_encode_def ddr_status_decode_def Let_def wire_simps
        ddr_status_eta)
qed

lemma ddr_status_encode_decode:
  assumes dec: "ddr_status_decode q = Inr s"
  shows "ddr_status_encode (replicate 128 0) s = Inr q"
proof -
  have len: "length q = 128" using dec by (simp add: ddr_status_decode_def split: if_splits)
  have const: "RING_STATUS_MAGIC = get_le32 q 0" "1 = get_le16 q 4" "128 = get_le16 q 6"
    and q0: "get_le64 q 112 = 0" "get_le64 q 120 = 0"
    using dec by (simp_all add: ddr_status_decode_def split: if_splits)
  have s: "s = \<lparr>st_state = get_le32 q 8, st_terminal_reason = get_le32 q 12,
          st_valid_fields = get_le32 q 16, st_error_code = get_le32 q 20,
          st_requested_capacity_iq_bytes = get_le64 q 24,
          st_admitted_capacity_iq_bytes = get_le64 q 32, st_target_frames = get_le64 q 40,
          st_produced_frames = get_le64 q 48, st_consumed_frames = get_le64 q 56,
          st_high_water_frames = get_le64 q 64, st_wrap_count = get_le64 q 72,
          st_producer_position = get_le64 q 80, st_consumer_position = get_le64 q 88,
          st_last_contiguous = get_le64 q 96, st_first_unavailable = get_le64 q 104\<rparr>"
    and val: "ddr_status_values_valid s"
    using dec by (auto simp: ddr_status_decode_def Let_def split: if_splits)
  define z where "z = clear_bytes (replicate 128 (0::u8)) 128"
  have "agree (spans []) z q" by (simp add: agree_refl_length z_def len)
  note agree_spans_zero(4) [OF this, of 112]
  then have "agree (spans [(112, 112 + 8)]) z q" by (simp add: q0 z_def wire_simps)
  note agree_spans_zero(4) [OF this, of 120]
  then have z: "agree (spans [(120, 120 + 8), (112, 112 + 8)]) z q"
    by (simp add: q0 z_def wire_simps)
  define e where "e = put_le64 (put_le64 (put_le64 (put_le64 (put_le64 (put_le64 (put_le64
    (put_le64 (put_le64 (put_le64 (put_le64 (put_le32 (put_le32 (put_le32 (put_le32 (put_le16
    (put_le16 (put_le32 z 0 (get_le32 q 0)) 4 (get_le16 q 4)) 6 (get_le16 q 6)) 8 (get_le32 q 8))
      12 (get_le32 q 12)) 16 (get_le32 q 16)) 20 (get_le32 q 20)) 24 (get_le64 q 24))
      32 (get_le64 q 32)) 40 (get_le64 q 40)) 48 (get_le64 q 48)) 56 (get_le64 q 56))
      64 (get_le64 q 64)) 72 (get_le64 q 72)) 80 (get_le64 q 80)) 88 (get_le64 q 88))
      96 (get_le64 q 96)) 104 (get_le64 q 104)"
  have "agree (spans [(104, 104 + 8), (96, 96 + 8), (88, 88 + 8),
      (80, 80 + 8), (72, 72 + 8), (64, 64 + 8), (56, 56 + 8), (48, 48 + 8), (40, 40 + 8),
      (32, 32 + 8), (24, 24 + 8), (20, 20 + 4), (16, 16 + 4), (12, 12 + 4),
      (8, 8 + 4), (6, 6 + 2), (4, 4 + 2), (0, 0 + 4), (120, 120 + 8), (112, 112 + 8)]) e q"
    unfolding e_def by (intro agree_spans_put z)
  then have "e = q"
    by (rule agree_covers [where n = 128]) (simp_all add: covers.simps len)
  moreover have "ddr_status_encode (replicate 128 0) s = Inr e"
    by (simp add: ddr_status_encode_def val e_def z_def const [symmetric])
      (simp add: s const [symmetric])
  ultimately show ?thesis by simp
qed

interpretation ddr_status_codec:
  wire_codec "\<lambda>_. True" "ddr_status_encode (replicate 128 0)" ddr_status_decode
  by unfold_locales (auto intro: ddr_status_decode_encode simp: ddr_status_encode_decode)

subsection \<open>The status of a ring\<close>

text \<open>
  The report of \<open>read_buffer_metadata_status\<close>: the core's fields beside the capacities that
  the request asked for and the server admitted. An \<open>int\<close> error code is stored in 32 bits.
\<close>

definition ring_report :: "ring_core \<Rightarrow> u64 \<Rightarrow> u64 \<Rightarrow> ddr_ring_status" where
  "ring_report r requested admitted =
     \<lparr>st_state = of_nat (ring_state_code (rstate r)), st_terminal_reason = terminal_reason r,
      st_valid_fields = or (if last_contiguous_valid r then VALID_LAST_CONTIGUOUS else 0)
        (if first_unavailable_valid r then VALID_FIRST_UNAVAILABLE else 0),
      st_error_code = word_of_int (error_code r),
      st_requested_capacity_iq_bytes = requested, st_admitted_capacity_iq_bytes = admitted,
      st_target_frames = target_frames r, st_produced_frames = produced_frames r,
      st_consumed_frames = consumed_frames r, st_high_water_frames = high_water_frames r,
      st_wrap_count = wrap_count r, st_producer_position = of_nat (producer_position r),
      st_consumer_position = of_nat (consumer_position r),
      st_last_contiguous = (if last_contiguous_valid r then last_contiguous_sample_sequence r else 0),
      st_first_unavailable =
        (if first_unavailable_valid r then first_unavailable_sample_sequence r else 0)\<rparr>"

lemma terminal_reason_bounded:
  "terminal_reason r \<le> 8 \<Longrightarrow> terminal_reason (ring_apply a r) \<le> 8"
  by (cases a) (auto simp: ring_op_defs mark_unavailable_def observe_samples_def Let_def
      split: if_splits)

lemma ring_run_reason: "terminal_reason r \<le> 8 \<Longrightarrow> terminal_reason (ring_run ops r) \<le> 8"
  unfolding ring_run_def by (induction ops arbitrary: r) (auto simp: terminal_reason_bounded)

lemma ring_state_code_le: "ring_state_code s \<le> 6"
  by (cases s) simp_all

lemma ring_report_valid:
  assumes "ring_counts r" and "terminal_reason r \<le> 8"
  shows "ddr_status_values_valid (ring_report r requested admitted)"
proof -
  have "(of_nat (ring_state_code (rstate r)) :: u32) \<le> 6"
    by (cases "rstate r") simp_all
  moreover have "consumed_frames r \<le> produced_frames r" "high_water_frames r \<le> produced_frames r"
    using assms(1) by (auto simp: ring_counts_def word_le_nat_alt)
  ultimately show ?thesis
    using assms(2) by (simp add: ddr_status_values_valid_def ring_report_def not_less)
qed

subsection \<open>Accepted requests\<close>

lemma ring_request_decodeD:
  assumes "ring_request_decode v = Inr q"
  shows "rr_required_features q = 1"
    "rr_flags q \<in> {RING_FLAG_FINITE, RING_FLAG_CONTINUOUS, RING_FLAG_DIRECT_EXTENSION}"
    "rr_capacity_iq_bytes q \<noteq> 0" "rr_flags q = RING_FLAG_FINITE \<longleftrightarrow> rr_capture_frames q \<noteq> 0"
    "length v = 48" "get_le32 v 0 = RING_REQUEST_MAGIC" "get_le16 v 4 = 1" "get_le16 v 6 = 48"
    "get_le32 v 8 = 1" "get_le32 v 12 = rr_flags q" "get_le64 v 16 = rr_capacity_iq_bytes q"
    "get_le64 v 24 = rr_capture_frames q" "get_le64 v 32 = 0" "get_le64 v 40 = 0"
  using assms by (auto simp: ring_request_decode_def Let_def split: if_split_asm)

lemma ring_request_decode_inject:
  assumes "ring_request_decode v = Inr q" and "ring_request_decode w = Inr q"
  shows "v = w"
proof -
  note v = ring_request_decodeD [OF assms(1)] and w = ring_request_decodeD [OF assms(2)]
  have "agree (spans []) v w" by (simp add: agree_refl_length v w)
  then have "agree (spans [(40, 40 + 8), (32, 32 + 8), (24, 24 + 8), (16, 16 + 8), (12, 12 + 4),
      (8, 8 + 4), (6, 6 + 2), (4, 4 + 2), (0, 0 + 4)]) v w"
    by (intro agree_spans_same) (simp_all only: v w)
  then show ?thesis by (rule agree_covers [where n = 48]) (simp_all add: covers.simps w)
qed

lemma burst_request_decodeD:
  assumes "burst_request_decode v = Inr b"
  shows "br_required_features b = 1" "br_requested_iq_bytes b \<noteq> 0"
    "length v = 32" "get_le32 v 0 = BURST_REQUEST_MAGIC" "get_le16 v 4 = 1" "get_le16 v 6 = 32"
    "get_le32 v 8 = 1" "get_le32 v 12 = 0" "get_le64 v 16 = br_requested_iq_bytes b"
    "get_le64 v 24 = 0"
  using assms by (auto simp: burst_request_decode_def Let_def split: if_split_asm)

lemma burst_request_decode_inject:
  assumes "burst_request_decode v = Inr b" and "burst_request_decode w = Inr b"
  shows "v = w"
proof -
  note v = burst_request_decodeD [OF assms(1)] and w = burst_request_decodeD [OF assms(2)]
  have "agree (spans []) v w" by (simp add: agree_refl_length v w)
  then have "agree (spans [(24, 24 + 8), (16, 16 + 8), (12, 12 + 4),
      (8, 8 + 4), (6, 6 + 2), (4, 4 + 2), (0, 0 + 4)]) v w"
    by (intro agree_spans_same) (simp_all only: v w)
  then show ?thesis by (rule agree_covers [where n = 32]) (simp_all add: covers.simps w)
qed

subsection \<open>Properties\<close>

text \<open>C26: The ring status format is exact. The decoder accepts exactly the messages that the
encoder writes for a valid status, and returns that status: no two statuses share a message, and
no message with a stray reserved byte is accepted.\<close>

theorem ddr_status_wire_exact:
  "ddr_status_decode w = Inr s \<longleftrightarrow> ddr_status_encode (replicate 128 0) s = Inr w"
  using ddr_status_codec.decode_iff by simp

text \<open>C25: A reachable ring always has a report. Whatever operations ran on an initialised ring,
the status message built from it is encodable, and the client decodes the ring's own counters,
positions and life-cycle state from it.\<close>

theorem ring_status_reportable:
  assumes "ring_init n target = Inr r" and "n < 2 ^ 64" and "length ops < 2 ^ 64"
    and "s = ring_report (ring_run ops r) requested admitted"
  shows "\<exists>w. ddr_status_encode (replicate 128 0) s = Inr w \<and> ddr_status_decode w = Inr s"
proof -
  have "produced_frames r = 0" "terminal_reason r \<le> 8"
    using assms(1) by (auto simp: ring_init_def split: if_splits)
  then have "ddr_status_values_valid s"
    using ring_run_invariants [of r ops] ring_init_ok [OF assms(1,2)] ring_init_counts [OF assms(1)]
      assms(3) ring_run_reason unfolding assms(4) by (intro ring_report_valid) auto
  then obtain w where "ddr_status_encode (replicate 128 0) s = Inr w"
    by (auto simp: ddr_status_encode_def Let_def)
  with ddr_status_decode_encode show ?thesis by blast
qed

theorem ring_status_reportable_witness:
  "let s = ring_report (ring_run [Start, ProducerReserve, ProducerCommit, ConsumerReserve]
             (demo_ring (Suc (Suc 0)) 1)) 4096 2048
   in st_state s = 3 \<and> st_produced_frames s = 1 \<and>
      (\<exists>w. ddr_status_encode (replicate 128 0) s = Inr w \<and> ddr_status_decode w = Inr s)"
  using ring_status_reportable [OF demo_ring_init [of "Suc (Suc 0)" 1] _ _ refl,
      of "[Start, ProducerReserve, ProducerCommit, ConsumerReserve]" 4096 2048]
  by (simp add: Let_def) (simp add: ring_report_def ring_run_def demo_ring_def ring_init_def
      ring_op_defs state_allows_drain_def is_terminal_def)

text \<open>C27: The admission checks compute without overflow. The frame period test decides exactly
whether a frame lasts at least 12 ms, and the exclusive boundary of a frame is the integer sum of
its first sample and its length, refused exactly when that sum does not fit 64 bits or the frame
is empty.\<close>

theorem ddr_admission_exact:
  "(burst_validate_frame_period samples rate = 0 \<longleftrightarrow>
      0 < unat samples \<and> 0 < unat rate \<and> unat rate * 12000 \<le> unat samples * 1000000) \<and>
   (exclusive_boundary first n = Inr b \<longleftrightarrow> 0 < unat n \<and> unat b = unat first + unat n)"
proof (rule conjI)
  have z: "w = 0 \<longleftrightarrow> \<not> 0 < unat w" for w :: "'x::len word"
    by (simp add: unat_eq_0 [symmetric])
  show "burst_validate_frame_period samples rate = 0 \<longleftrightarrow>
      0 < unat samples \<and> 0 < unat rate \<and> unat rate * 12000 \<le> unat samples * 1000000"
    by (auto simp: burst_validate_frame_period_def z word_le_nat_alt unat_ucast_u32_mult)
  have "first + n = b \<longleftrightarrow> unat b = unat first + unat n" if "unat first + unat n < 2 ^ 64"
    using that by (metis unat_add_small word_unat_eq_iff)
  moreover have "unat b = unat first + unat n \<Longrightarrow> unat first + unat n < 2 ^ 64"
    using unat_u64_less [of b] by simp
  ultimately show "exclusive_boundary first n = Inr b \<longleftrightarrow> 0 < unat n \<and> unat b = unat first + unat n"
    unfolding exclusive_boundary_def max_minus_less_iff z by auto
qed

text \<open>Requests are canonical. An accepted ring request names the one feature the server
implements, exactly one mode and a positive capacity, with a frame count exactly in the finite
mode; and no other message decodes to the same request, so no byte is ignored. The same holds for
burst requests.\<close>

lemma ddr_requests_canonical:
  assumes "ring_request_decode v = Inr q" and "burst_request_decode u = Inr b"
  shows "rr_required_features q = 1 \<and>
      rr_flags q \<in> {RING_FLAG_FINITE, RING_FLAG_CONTINUOUS, RING_FLAG_DIRECT_EXTENSION} \<and>
      rr_capacity_iq_bytes q \<noteq> 0 \<and> (rr_flags q = RING_FLAG_FINITE \<longleftrightarrow> rr_capture_frames q \<noteq> 0) \<and>
      br_required_features b = 1 \<and> br_requested_iq_bytes b \<noteq> 0 \<and>
      (ring_request_decode w = Inr q \<longrightarrow> w = v) \<and> (burst_request_decode w = Inr b \<longrightarrow> w = u)"
  using ring_request_decodeD [OF assms(1)] burst_request_decodeD [OF assms(2)]
    ring_request_decode_inject [OF _ assms(1)] burst_request_decode_inject [OF _ assms(2)] by simp

text \<open>A request for one frame in the finite mode.\<close>

definition demo_ring_request :: "u8 list" where
  "demo_ring_request = [0x53, 0x46, 0x52, 0x52, 1, 0, 48, 0, 1, 0, 0, 0, 1, 0, 0, 0,
     0, 16, 0, 0, 0, 0, 0, 0, 1, 0, 0, 0, 0, 0, 0, 0] @ replicate 16 0"

definition demo_burst_request :: "u8 list" where
  "demo_burst_request = [0x53, 0x46, 0x52, 0x42, 1, 0, 32, 0, 1, 0, 0, 0, 0, 0, 0, 0,
     0, 16, 0, 0, 0, 0, 0, 0] @ replicate 8 0"

lemma demo_requests_decode:
  "ring_request_decode demo_ring_request = Inr \<lparr>rr_required_features = 1, rr_flags = 1,
     rr_capacity_iq_bytes = 4096, rr_capture_frames = 1\<rparr>"
  "burst_request_decode demo_burst_request = Inr \<lparr>br_required_features = 1,
     br_requested_iq_bytes = 4096\<rparr>"
  by code_simp+

lemma ddr_requests_canonical_witness:
  "ring_request_decode demo_ring_request = Inr \<lparr>rr_required_features = 1, rr_flags = 1,
     rr_capacity_iq_bytes = 4096, rr_capture_frames = 1\<rparr> \<and>
   {w. ring_request_decode w = ring_request_decode demo_ring_request} = {demo_ring_request}"
  using ddr_requests_canonical [OF demo_requests_decode] by (auto simp: demo_requests_decode)

end
