(* ===== verification/Hop_Protocol.thy ===== *)
theory Hop_Protocol
  imports Le_Codec
begin

unbundle bit_operations_syntax

text \<open>
  The hop protocol of \<open>iiod/spf-hop-protocol.c\<close>: a client's hop plan (request), the events that
  accompany each sample block (sidecar) and the session status, with their validation, encoders
  and decoders. Offsets, magic numbers and error codes are the code's; a decoder's output is
  modelled when it succeeds. The arrays of the C structures are lists; \<open>request_wf\<close> and
  \<open>sidecar_wf\<close> state their fixed lengths.
\<close>

subsection \<open>Constants and records\<close>

abbreviation (input) HOP_PROFILE_COUNT :: "'a::numeral" where "HOP_PROFILE_COUNT \<equiv> 8"
abbreviation (input) HOP_EVENT_CAPACITY :: "'a::numeral" where "HOP_EVENT_CAPACITY \<equiv> 8"
abbreviation (input) HOP_REQUEST_MAGIC :: u32 where "HOP_REQUEST_MAGIC \<equiv> 0x52504f48"
abbreviation (input) HOP_SIDECAR_MAGIC :: u32 where "HOP_SIDECAR_MAGIC \<equiv> 0x53504f48"
abbreviation (input) HOP_STATUS_MAGIC :: u32 where "HOP_STATUS_MAGIC \<equiv> 0x54504f48"
abbreviation (input) HOP_PROTOCOL_VERSION :: u16 where "HOP_PROTOCOL_VERSION \<equiv> 1"
abbreviation (input) HOP_REQUEST_BYTES :: "'a::numeral" where "HOP_REQUEST_BYTES \<equiv> 288"
abbreviation (input) HOP_SIDECAR_HEADER_BYTES :: "'a::numeral" where "HOP_SIDECAR_HEADER_BYTES \<equiv> 64"
abbreviation (input) HOP_EVENT_BYTES :: "'a::numeral" where "HOP_EVENT_BYTES \<equiv> 80"
abbreviation (input) HOP_STATUS_BYTES :: "'a::numeral" where "HOP_STATUS_BYTES \<equiv> 160"
abbreviation (input) HOP_REQUIRED_FEATURES :: u32 where "HOP_REQUIRED_FEATURES \<equiv> 0x1f"
abbreviation (input) HOP_REQUEST_FLAGS :: u32 where "HOP_REQUEST_FLAGS \<equiv> 0x03"

abbreviation (input) STATUS_TERMINAL :: u32 where "STATUS_TERMINAL \<equiv> 0x01"
abbreviation (input) STATUS_DEVICE_EVENT_OVERFLOW :: u32 where "STATUS_DEVICE_EVENT_OVERFLOW \<equiv> 0x02"
abbreviation (input) STATUS_CONTINUITY_FAULT :: u32 where "STATUS_CONTINUITY_FAULT \<equiv> 0x04"
abbreviation (input) STATUS_RESTORE_ATTEMPTED :: u32 where "STATUS_RESTORE_ATTEMPTED \<equiv> 0x08"
abbreviation (input) STATUS_RESTORE_SUCCEEDED :: u32 where "STATUS_RESTORE_SUCCEEDED \<equiv> 0x10"
abbreviation (input) STATUS_RESTORE_REQUIRED :: u32 where "STATUS_RESTORE_REQUIRED \<equiv> 0x20"
abbreviation (input) STATUS_FLAGS :: u32 where "STATUS_FLAGS \<equiv> 0x3f"

abbreviation (input) EVENT_NO_RECALL :: u8 where "EVENT_NO_RECALL \<equiv> 0x04"
abbreviation (input) EVENT_FLAGS :: u8 where "EVENT_FLAGS \<equiv> 0x03"
abbreviation (input) EVENT_FLAGS_ALLOWED :: u8 where "EVENT_FLAGS_ALLOWED \<equiv> 0x07"
abbreviation (input) PROFILE_NONE :: u8 where "PROFILE_NONE \<equiv> 0xff"
abbreviation (input) EVENT_STARTUP :: u8 where "EVENT_STARTUP \<equiv> 1"
abbreviation (input) EVENT_RETUNE :: u8 where "EVENT_RETUNE \<equiv> 2"

abbreviation (input) HOP_IDLE :: u16 where "HOP_IDLE \<equiv> 0"
abbreviation (input) HOP_ARMED :: u16 where "HOP_ARMED \<equiv> 1"
abbreviation (input) HOP_RUNNING :: u16 where "HOP_RUNNING \<equiv> 2"
abbreviation (input) HOP_COMPLETED :: u16 where "HOP_COMPLETED \<equiv> 3"
abbreviation (input) HOP_CANCELLED :: u16 where "HOP_CANCELLED \<equiv> 4"
abbreviation (input) HOP_FAILED :: u16 where "HOP_FAILED \<equiv> 5"

abbreviation (input) HOP_REASON_NONE :: u16 where "HOP_REASON_NONE \<equiv> 0"
abbreviation (input) HOP_REASON_PLAN_COMPLETE :: u16 where "HOP_REASON_PLAN_COMPLETE \<equiv> 1"
abbreviation (input) HOP_REASON_CLIENT_CLOSE :: u16 where "HOP_REASON_CLIENT_CLOSE \<equiv> 2"
abbreviation (input) HOP_REASON_CLIENT_DISCONNECT :: u16 where "HOP_REASON_CLIENT_DISCONNECT \<equiv> 3"
abbreviation (input) HOP_REASON_DEVICE_ERROR :: u16 where "HOP_REASON_DEVICE_ERROR \<equiv> 4"
abbreviation (input) HOP_REASON_EVENT_OVERFLOW :: u16 where "HOP_REASON_EVENT_OVERFLOW \<equiv> 5"
abbreviation (input) HOP_REASON_EVENT_SEQUENCE :: u16 where "HOP_REASON_EVENT_SEQUENCE \<equiv> 6"
abbreviation (input) HOP_REASON_COUNTER_DISCONTINUITY :: u16 where
  "HOP_REASON_COUNTER_DISCONTINUITY \<equiv> 7"
abbreviation (input) HOP_REASON_PROTOCOL_ERROR :: u16 where "HOP_REASON_PROTOCOL_ERROR \<equiv> 8"
abbreviation (input) HOP_REASON_RESTORE_ERROR :: u16 where "HOP_REASON_RESTORE_ERROR \<equiv> 9"

record hop_profile =
  profile_id :: u8
  fastlock_slot :: u8
  center_frequency_hz :: u64
  lo_frequency_hz :: u64
  profile_crc32 :: u32

record hop_request =
  required_features :: u32
  request_flags :: u32
  request_session_id :: u64
  sample_rate_hz :: u64
  rf_bandwidth_hz :: u64
  if_offset_hz :: i64
  dwell_samples :: u64
  transition_guard_samples :: u64
  dwell_count :: u64
  capture_span_samples :: u64
  initial_profile :: u8
  profiles :: "hop_profile list"

record hop_device_event =
  event_sequence :: u64
  dwell_index :: u64
  transition_before :: u64
  transition_after :: u64
  actual_lo_frequency_hz :: u64
  actual_if_offset_hz :: i64
  device_event_id :: u64
  from_profile :: u8
  to_profile :: u8
  event_kind :: u8
  event_flags :: u8
  event_fastlock_slot :: u16

record hop_event =
  device :: hop_device_event
  invalid_start :: u64
  invalid_end :: u64

record hop_sidecar =
  sidecar_flags :: u32
  sidecar_session_id :: u64
  buffer_sequence :: u64
  block_first_sample :: u64
  block_end_sample :: u64
  sidecar_state :: u16
  sidecar_reason :: u16
  sidecar_error :: i32
  event_count :: u16
  events :: "hop_event list"

record hop_status =
  hop_state :: u16
  hop_reason :: u16
  hop_error :: i32
  hop_flags :: u32
  hop_session_id :: u64
  planned_dwells :: u64
  visits_started :: u64
  events_emitted :: u64
  next_event_sequence :: u64
  last_block_sequence :: u64
  last_block_end :: u64
  first_counter :: u64
  final_counter :: u64
  restore_before :: u64
  restore_after :: u64
  restored_lo_frequency_hz :: u64
  restore_error :: i32
  active_profile :: u8
  restored_profile :: u8
  startup_invalid_start :: u64
  startup_invalid_end :: u64
  device_dropped_events :: u64

definition request_wf :: "hop_request \<Rightarrow> bool" where
  "request_wf r \<longleftrightarrow> length (profiles r) = HOP_PROFILE_COUNT"

text \<open>The zero structures that \<open>memset\<close> leaves.\<close>

definition zero_device_event :: hop_device_event where
  "zero_device_event = \<lparr>event_sequence = 0, dwell_index = 0, transition_before = 0,
     transition_after = 0, actual_lo_frequency_hz = 0, actual_if_offset_hz = 0,
     device_event_id = 0, from_profile = 0, to_profile = 0, event_kind = 0, event_flags = 0,
     event_fastlock_slot = 0\<rparr>"

definition zero_event :: hop_event where
  "zero_event = \<lparr>device = zero_device_event, invalid_start = 0, invalid_end = 0\<rparr>"

definition sidecar_wf :: "hop_sidecar \<Rightarrow> bool" where
  "sidecar_wf s \<longleftrightarrow> length (events s) = HOP_EVENT_CAPACITY \<and>
     drop (unat (event_count s)) (events s)
       = replicate (HOP_EVENT_CAPACITY - unat (event_count s)) zero_event"

subsection \<open>Requests\<close>

definition center_matches_lo :: "u64 \<Rightarrow> u64 \<Rightarrow> i64 \<Rightarrow> bool" where
  "center_matches_lo center lo offset =
     (if 0 \<le> sint offset
      then lo \<le> UINT64_MAX - offset \<and> center = lo + offset
      else let magnitude = - (offset + 1) + 1
           in magnitude \<le> lo \<and> center = lo - magnitude)"

text \<open>The loop over the profiles: \<open>None\<close> for the early return, else the slots seen.\<close>

fun validate_profiles :: "i64 \<Rightarrow> nat \<Rightarrow> u16 \<Rightarrow> hop_profile list \<Rightarrow> u16 option" where
  "validate_profiles offset i slots [] = Some slots"
| "validate_profiles offset i slots (f # fs) =
     (if profile_id f \<noteq> of_nat i \<or> HOP_PROFILE_COUNT \<le> fastlock_slot f \<or>
         slots AND push_bit (unat (fastlock_slot f)) 1 \<noteq> 0 \<or>
         center_frequency_hz f = 0 \<or> lo_frequency_hz f = 0 \<or> profile_crc32 f = 0 \<or>
         \<not> center_matches_lo (center_frequency_hz f) (lo_frequency_hz f) offset
      then None
      else validate_profiles offset (Suc i) (slots OR push_bit (unat (fastlock_slot f)) 1) fs)"

definition validate_request :: "hop_request \<Rightarrow> int" where
  "validate_request r =
     (if required_features r \<noteq> HOP_REQUIRED_FEATURES \<or> request_flags r \<noteq> HOP_REQUEST_FLAGS \<or>
         request_session_id r = 0 \<or> sample_rate_hz r = 0 \<or> rf_bandwidth_hz r = 0 \<or>
         sample_rate_hz r < rf_bandwidth_hz r \<or> dwell_samples r = 0 \<or> dwell_count r = 0 \<or>
         capture_span_samples r < dwell_samples r \<or>
         UINT64_MAX div dwell_samples r < dwell_count r \<or>
         dwell_count r * dwell_samples r < capture_span_samples r \<or>
         dwell_samples r \<le> transition_guard_samples r \<or> initial_profile r \<noteq> 0
      then - EINVAL
      else case validate_profiles (if_offset_hz r) 0 0 (profiles r) of
        None \<Rightarrow> - EINVAL
      | Some slots \<Rightarrow> if slots = 0xff then 0 else - EINVAL)"

fun decode_profiles :: "u8 list \<Rightarrow> nat \<Rightarrow> nat \<Rightarrow> hop_profile list res" where
  "decode_profiles p i 0 = Inr []"
| "decode_profiles p i (Suc n) =
     (let entry = 96 + i * 24 in
      if get_le16 p (entry + 2) \<noteq> 0 then Inl (- EBADMSG)
      else case decode_profiles p (Suc i) n of
        Inl e \<Rightarrow> Inl e
      | Inr fs \<Rightarrow> Inr (\<lparr>profile_id = p ! entry, fastlock_slot = p ! (entry + 1),
          center_frequency_hz = get_le64 p (entry + 4), lo_frequency_hz = get_le64 p (entry + 12),
          profile_crc32 = get_le32 p (entry + 20)\<rparr> # fs))"

definition request_decode :: "u8 list \<Rightarrow> hop_request res" where
  "request_decode p =
     (if length p \<noteq> HOP_REQUEST_BYTES then Inl (- EMSGSIZE)
      else if get_le32 p 0 \<noteq> HOP_REQUEST_MAGIC \<or> get_le16 p 4 \<noteq> HOP_PROTOCOL_VERSION \<or>
          get_le16 p 6 \<noteq> HOP_REQUEST_BYTES then Inl (- EPROTONOSUPPORT)
      else if get_le16 p 72 \<noteq> HOP_PROFILE_COUNT \<or> p ! 75 \<noteq> 0 \<or>
          get_le16 p 76 \<noteq> HOP_EVENT_BYTES \<or> get_le16 p 78 \<noteq> HOP_STATUS_BYTES \<or>
          \<not> all_zero p 80 8 then Inl (- EBADMSG)
      else case decode_profiles p 0 HOP_PROFILE_COUNT of
        Inl e \<Rightarrow> Inl e
      | Inr fs \<Rightarrow>
          (let r = \<lparr>required_features = get_le32 p 8, request_flags = get_le32 p 12,
             request_session_id = get_le64 p 16, sample_rate_hz = get_le64 p 24,
             rf_bandwidth_hz = get_le64 p 32, if_offset_hz = get_le64 p 40,
             dwell_samples = get_le64 p 48, transition_guard_samples = get_le64 p 56,
             dwell_count = get_le64 p 64, capture_span_samples = get_le64 p 88,
             initial_profile = p ! 74, profiles = fs\<rparr>;
             ret = validate_request r
           in if ret \<noteq> 0 then Inl ret else Inr r))"

definition put_profile :: "u8 list \<Rightarrow> nat \<Rightarrow> hop_profile \<Rightarrow> u8 list" where
  "put_profile p entry f =
     put_le32 (put_le64 (put_le64 (put_u8 (put_u8 p entry (profile_id f))
       (entry + 1) (fastlock_slot f))
       (entry + 4) (center_frequency_hz f))
       (entry + 12) (lo_frequency_hz f))
       (entry + 20) (profile_crc32 f)"

fun put_profiles :: "u8 list \<Rightarrow> nat \<Rightarrow> hop_profile list \<Rightarrow> u8 list" where
  "put_profiles p i [] = p"
| "put_profiles p i (f # fs) = put_profiles (put_profile p (96 + i * 24) f) (Suc i) fs"

definition request_encode :: "u8 list \<Rightarrow> hop_request \<Rightarrow> u8 list res" where
  "request_encode p r =
     (if length p < HOP_REQUEST_BYTES then Inl (- ENOSPC)
      else let ret = validate_request r in
      if ret \<noteq> 0 then Inl ret
      else let
        p = clear_bytes p HOP_REQUEST_BYTES;
        p = put_le32 p 0 HOP_REQUEST_MAGIC;
        p = put_le16 p 4 HOP_PROTOCOL_VERSION;
        p = put_le16 p 6 HOP_REQUEST_BYTES;
        p = put_le32 p 8 (required_features r);
        p = put_le32 p 12 (request_flags r);
        p = put_le64 p 16 (request_session_id r);
        p = put_le64 p 24 (sample_rate_hz r);
        p = put_le64 p 32 (rf_bandwidth_hz r);
        p = put_le64 p 40 (if_offset_hz r);
        p = put_le64 p 48 (dwell_samples r);
        p = put_le64 p 56 (transition_guard_samples r);
        p = put_le64 p 64 (dwell_count r);
        p = put_le64 p 88 (capture_span_samples r);
        p = put_le16 p 72 HOP_PROFILE_COUNT;
        p = put_u8 p 74 (initial_profile r);
        p = put_le16 p 76 HOP_EVENT_BYTES;
        p = put_le16 p 78 HOP_STATUS_BYTES
      in Inr (put_profiles p 0 (profiles r)))"

subsection \<open>Requests: decoding what was encoded\<close>

lemma length_put_profile [simp]: "length (put_profile p e f) = length p"
  by (simp add: put_profile_def)

lemma length_put_profiles [simp]: "length (put_profiles p i fs) = length p"
  by (induction p i fs rule: put_profiles.induct) simp_all

lemma nth_put_profile_outside: "j < e \<or> e + 24 \<le> j \<Longrightarrow> put_profile p e f ! j = p ! j"
  by (auto simp: put_profile_def nth_put_outside)

lemma put_profile_reads:
  assumes "e + 24 \<le> length p"
  shows "put_profile p e f ! e = profile_id f" "put_profile p e f ! (e + 1) = fastlock_slot f"
    "get_le64 (put_profile p e f) (e + 4) = center_frequency_hz f"
    "get_le64 (put_profile p e f) (e + 12) = lo_frequency_hz f"
    "get_le32 (put_profile p e f) (e + 20) = profile_crc32 f"
  using assms by (simp_all add: put_profile_def wire_simps)

lemma profile_eta: "\<lparr>profile_id = profile_id f, fastlock_slot = fastlock_slot f,
    center_frequency_hz = center_frequency_hz f, lo_frequency_hz = lo_frequency_hz f,
    profile_crc32 = profile_crc32 f\<rparr> = f"
  by (cases f) simp

lemma request_eta: "\<lparr>required_features = required_features r, request_flags = request_flags r,
    request_session_id = request_session_id r, sample_rate_hz = sample_rate_hz r,
    rf_bandwidth_hz = rf_bandwidth_hz r, if_offset_hz = if_offset_hz r,
    dwell_samples = dwell_samples r, transition_guard_samples = transition_guard_samples r,
    dwell_count = dwell_count r, capture_span_samples = capture_span_samples r,
    initial_profile = initial_profile r, profiles = profiles r\<rparr> = r"
  by (cases r) simp

lemma nth_put_profiles_below: "j < 96 + i * 24 \<Longrightarrow> put_profiles p i fs ! j = p ! j"
proof (induction p i fs rule: put_profiles.induct)
  case (2 p i f fs)
  then show ?case by (simp add: nth_put_profile_outside)
qed simp

lemma get_put_profiles_below:
  "j + 2 \<le> 96 + i * 24 \<Longrightarrow> get_le16 (put_profiles p i fs) j = get_le16 p j"
  "j + 4 \<le> 96 + i * 24 \<Longrightarrow> get_le32 (put_profiles p i fs) j = get_le32 p j"
  "j + 8 \<le> 96 + i * 24 \<Longrightarrow> get_le64 (put_profiles p i fs) j = get_le64 p j"
  by (simp_all add: get_le16_def get_le32_def get_le64_def nth_put_profiles_below)

text \<open>The reserved half word of a profile entry, which only a cleared buffer leaves zero.\<close>

definition profile_pads_zero :: "u8 list \<Rightarrow> nat \<Rightarrow> nat \<Rightarrow> bool" where
  "profile_pads_zero p i n \<longleftrightarrow> (\<forall>j. i \<le> j \<and> j < i + n \<longrightarrow> get_le16 p (96 + j * 24 + 2) = 0)"

lemma profile_pads_zero_put_profile:
  "profile_pads_zero p i n \<Longrightarrow> profile_pads_zero (put_profile p (96 + k * 24) f) i n"
  unfolding profile_pads_zero_def
proof (intro allI impI)
  fix j assume *: "\<forall>j. i \<le> j \<and> j < i + n \<longrightarrow> get_le16 p (96 + j * 24 + 2) = 0"
    and j: "i \<le> j \<and> j < i + n"
  have "get_le16 (put_profile p (96 + k * 24) f) (96 + j * 24 + 2) = get_le16 p (96 + j * 24 + 2)"
  proof (cases j k rule: linorder_cases)
    case less
    then have "j * 24 + 24 \<le> k * 24" by simp
    then show ?thesis by (simp add: get_le16_def nth_put_profile_outside)
  next
    case equal
    then show ?thesis by (simp add: put_profile_def get_put_disjoint)
  next
    case greater
    then have "k * 24 + 24 \<le> j * 24" by simp
    then show ?thesis by (simp add: get_le16_def nth_put_profile_outside)
  qed
  with * j show "get_le16 (put_profile p (96 + k * 24) f) (96 + j * 24 + 2) = 0" by simp
qed

lemma decode_put_profiles:
  assumes "96 + (i + length fs) * 24 \<le> length p" and "profile_pads_zero p i (length fs)"
  shows "decode_profiles (put_profiles p i fs) i (length fs) = Inr fs"
  using assms
proof (induction p i fs rule: put_profiles.induct)
  case (2 p i f fs)
  let ?e = "96 + i * 24" and ?p = "put_profile p (96 + i * 24) f"
  have len: "?e + 24 \<le> length p" using "2.prems"(1) by simp
  have "profile_pads_zero ?p (Suc i) (length fs)"
    using profile_pads_zero_put_profile [OF "2.prems"(2)] by (simp add: profile_pads_zero_def)
  then have ih: "decode_profiles (put_profiles ?p (Suc i) fs) (Suc i) (length fs) = Inr fs"
    using "2.IH" "2.prems"(1) by (simp add: algebra_simps)
  have pad: "get_le16 (put_profiles ?p (Suc i) fs) (?e + 2) = 0"
    using profile_pads_zero_put_profile [OF "2.prems"(2), of i f]
    by (simp add: get_put_profiles_below profile_pads_zero_def)
  show ?case
    using pad put_profile_reads [OF len, of f]
    by (simp add: Let_def ih get_put_profiles_below nth_put_profiles_below profile_eta)
qed simp

lemma decode_profiles_length: "decode_profiles p i n = Inr fs \<Longrightarrow> length fs = n"
  by (induction p i n arbitrary: fs rule: decode_profiles.induct)
    (auto simp: Let_def split: if_splits sum.splits)

lemma request_decode_encode:
  assumes wf: "request_wf r" and enc: "request_encode p r = Inr w" and len: "length p = 288"
  shows "request_decode w = Inr r"
proof -
  have val: "validate_request r = 0"
    using enc by (auto simp: request_encode_def Let_def split: if_splits)
  define q where "q = put_le16 (put_le16 (put_u8 (put_le16 (put_le64 (put_le64 (put_le64 (put_le64
    (put_le64 (put_le64 (put_le64 (put_le64 (put_le32 (put_le32
      (put_le16 (put_le16 (put_le32 (clear_bytes p 288) 0 HOP_REQUEST_MAGIC) 4 1) 6 288)
      8 (required_features r)) 12 (request_flags r)) 16 (request_session_id r))
      24 (sample_rate_hz r)) 32 (rf_bandwidth_hz r)) 40 (if_offset_hz r)) 48 (dwell_samples r))
      56 (transition_guard_samples r)) 64 (dwell_count r)) 88 (capture_span_samples r))
      72 8) 74 (initial_profile r)) 76 80) 78 160"
  have w: "w = put_profiles q 0 (profiles r)"
    using enc val len by (simp add: request_encode_def Let_def q_def)
  have lq: "length q = 288" using len by (simp add: q_def)
  have pads: "profile_pads_zero q 0 8"
    by (auto simp: profile_pads_zero_def q_def wire_simps)
  have dec: "decode_profiles w 0 8 = Inr (profiles r)"
    using decode_put_profiles [of 0 "profiles r" q] wf lq pads by (simp add: w request_wf_def)
  have z: "all_zero w 80 8"
    using lq by (auto simp: all_zero_iff w nth_put_profiles_below q_def wire_simps)
  have byte: "w ! 75 = 0" "w ! 74 = initial_profile r"
    using len by (simp_all add: w nth_put_profiles_below q_def wire_simps)
  have get: "get_le32 w 0 = HOP_REQUEST_MAGIC" "get_le16 w 4 = 1" "get_le16 w 6 = 288"
    "get_le16 w 72 = 8" "get_le16 w 76 = 80" "get_le16 w 78 = 160"
    "get_le32 w 8 = required_features r" "get_le32 w 12 = request_flags r"
    "get_le64 w 16 = request_session_id r" "get_le64 w 24 = sample_rate_hz r"
    "get_le64 w 32 = rf_bandwidth_hz r" "get_le64 w 40 = if_offset_hz r"
    "get_le64 w 48 = dwell_samples r" "get_le64 w 56 = transition_guard_samples r"
    "get_le64 w 64 = dwell_count r" "get_le64 w 88 = capture_span_samples r"
    using len by (simp_all add: w get_put_profiles_below q_def wire_simps)
  show ?thesis
    using lq by (simp add: request_decode_def get byte z dec val Let_def request_eta) (simp add: w)
qed

subsection \<open>Requests: encoding what was decoded\<close>

lemma decode_profiles_pads: "decode_profiles q i n = Inr fs \<Longrightarrow> profile_pads_zero q i n"
proof (induction q i n arbitrary: fs rule: decode_profiles.induct)
  case (2 q i n)
  then obtain fs' where "get_le16 q (96 + i * 24 + 2) = 0" "profile_pads_zero q (Suc i) n"
    by (auto simp: Let_def split: if_splits sum.splits)
  then show ?case
    unfolding profile_pads_zero_def by (metis add_Suc_right add_Suc le_antisym not_less_eq_eq)
qed (auto simp: profile_pads_zero_def)

lemma agree_spans_profile:
  assumes "agree (spans xs) p q" and "get_le16 p (e + 2) = 0" "get_le16 q (e + 2) = 0"
  shows "agree (spans ((e, e + 24) # xs)) (put_profile p e \<lparr>profile_id = q ! e,
    fastlock_slot = q ! (e + 1), center_frequency_hz = get_le64 q (e + 4),
    lo_frequency_hz = get_le64 q (e + 12), profile_crc32 = get_le32 q (e + 20)\<rparr>) q"
proof -
  let ?ys = "(e + 20, e + 20 + 4) # (e + 12, e + 12 + 8) # (e + 4, e + 4 + 8)
    # (e + 1, e + 1 + 1) # (e, e + 1) # (e + 2, e + 2 + 2) # xs"
  have "spans ((e, e + 24) # xs) \<subseteq> spans ?ys"
    by (auto simp: spans_Cons)
  moreover have "agree (spans ?ys) (put_profile p e \<lparr>profile_id = q ! e,
    fastlock_slot = q ! (e + 1), center_frequency_hz = get_le64 q (e + 4),
    lo_frequency_hz = get_le64 q (e + 12), profile_crc32 = get_le32 q (e + 20)\<rparr>) q"
    unfolding put_profile_def hop_profile.simps
    by (intro agree_spans_put agree_spans_zero(2) assms)
  ultimately show ?thesis by (rule agree_mono [rotated])
qed

lemma agree_spans_profiles:
  assumes "decode_profiles q i n = Inr fs" and "agree (spans xs) p q"
    and "profile_pads_zero p i n"
  shows "agree (spans ((96 + i * 24, 96 + (i + n) * 24) # xs)) (put_profiles p i fs) q"
  using assms
proof (induction q i n arbitrary: fs p xs rule: decode_profiles.induct)
  case (1 q i)
  then show ?case by (simp add: spans_Cons)
next
  case (2 q i n)
  let ?e = "96 + i * 24"
  let ?f = "\<lparr>profile_id = q ! ?e, fastlock_slot = q ! (?e + 1),
    center_frequency_hz = get_le64 q (?e + 4), lo_frequency_hz = get_le64 q (?e + 12),
    profile_crc32 = get_le32 q (?e + 20)\<rparr>"
  have q0: "get_le16 q (?e + 2) = 0"
    using "2.prems"(1) by (simp add: Let_def split: if_splits)
  obtain fs' where dec: "decode_profiles q (Suc i) n = Inr fs'" and fs: "fs = ?f # fs'"
    using "2.prems"(1) by (auto simp: Let_def split: if_splits sum.splits)
  have p0: "get_le16 p (?e + 2) = 0"
    using "2.prems"(3) by (simp add: profile_pads_zero_def)
  have ag: "agree (spans ((?e, ?e + 24) # xs)) (put_profile p ?e ?f) q"
    using "2.prems"(2) p0 q0 by (rule agree_spans_profile)
  have pads: "profile_pads_zero (put_profile p ?e ?f) (Suc i) n"
    using profile_pads_zero_put_profile [OF "2.prems"(3)] by (simp add: profile_pads_zero_def)
  have "agree (spans ((96 + Suc i * 24, 96 + (Suc i + n) * 24) # (?e, ?e + 24) # xs))
      (put_profiles (put_profile p ?e ?f) (Suc i) fs') q"
    using "2.IH" [OF refl _ dec ag pads] q0 by simp
  moreover have "spans ((?e, 96 + (i + Suc n) * 24) # xs)
      \<subseteq> spans ((96 + Suc i * 24, 96 + (Suc i + n) * 24) # (?e, ?e + 24) # xs)"
    by (auto simp: spans_Cons)
  ultimately have "agree (spans ((?e, 96 + (i + Suc n) * 24) # xs))
      (put_profiles (put_profile p ?e ?f) (Suc i) fs') q"
    by (rule agree_mono)
  then show ?case by (simp add: fs)
qed

lemma request_encode_decode:
  assumes dec: "request_decode q = Inr r"
  shows "request_wf r \<and> request_encode (replicate 288 0) r = Inr q"
proof -
  have len: "length q = 288" using dec by (simp add: request_decode_def split: if_splits)
  have const: "HOP_REQUEST_MAGIC = get_le32 q 0" "1 = get_le16 q 4" "288 = get_le16 q 6"
    "8 = get_le16 q 72" "80 = get_le16 q 76" "160 = get_le16 q 78"
    and byte: "q ! 75 = 0" and zero: "all_zero q 80 8"
    using dec by (simp_all add: request_decode_def split: if_splits)
  obtain fs where fs: "decode_profiles q 0 8 = Inr fs"
    and r: "r = \<lparr>required_features = get_le32 q 8, request_flags = get_le32 q 12,
             request_session_id = get_le64 q 16, sample_rate_hz = get_le64 q 24,
             rf_bandwidth_hz = get_le64 q 32, if_offset_hz = get_le64 q 40,
             dwell_samples = get_le64 q 48, transition_guard_samples = get_le64 q 56,
             dwell_count = get_le64 q 64, capture_span_samples = get_le64 q 88,
             initial_profile = q ! 74, profiles = fs\<rparr>"
    and val: "validate_request r = 0"
    using dec by (auto simp: request_decode_def Let_def split: if_splits sum.splits)
  define z where "z = clear_bytes (replicate 288 (0::u8)) 288"
  have q0: "get_le64 q 80 = 0"
    using zero len by (simp add: all_zero_iff get_le64_def get_le32_def numeral_eq_Suc All_less_Suc2)
  have "agree (spans []) z q" by (simp add: agree_refl_length z_def len)
  note this [THEN agree_spans_zero(1), of 75] this [THEN agree_spans_zero(1), THEN agree_spans_zero(4), of 75 80]
  then have z: "agree (spans [(80, 80 + 8), (75, 75 + 1)]) z q"
    by (simp add: byte q0 z_def wire_simps)
  define e where "e = put_le16 (put_le16 (put_u8 (put_le16 (put_le64 (put_le64 (put_le64 (put_le64
    (put_le64 (put_le64 (put_le64 (put_le64 (put_le32 (put_le32
      (put_le16 (put_le16 (put_le32 z 0 (get_le32 q 0)) 4 (get_le16 q 4)) 6 (get_le16 q 6))
      8 (get_le32 q 8)) 12 (get_le32 q 12)) 16 (get_le64 q 16)) 24 (get_le64 q 24))
      32 (get_le64 q 32)) 40 (get_le64 q 40)) 48 (get_le64 q 48)) 56 (get_le64 q 56))
      64 (get_le64 q 64)) 88 (get_le64 q 88)) 72 (get_le16 q 72)) 74 (q ! 74))
      76 (get_le16 q 76)) 78 (get_le16 q 78)"
  have e: "agree (spans [(78, 78 + 2), (76, 76 + 2), (74, 74 + 1), (72, 72 + 2), (88, 88 + 8),
      (64, 64 + 8), (56, 56 + 8), (48, 48 + 8), (40, 40 + 8), (32, 32 + 8), (24, 24 + 8),
      (16, 16 + 8), (12, 12 + 4), (8, 8 + 4), (6, 6 + 2), (4, 4 + 2), (0, 0 + 4),
      (80, 80 + 8), (75, 75 + 1)]) e q"
    unfolding e_def by (intro agree_spans_put z)
  have "profile_pads_zero e 0 8"
    by (auto simp: profile_pads_zero_def e_def z_def wire_simps)
  from agree_spans_profiles [OF fs e this] have "put_profiles e 0 fs = q"
    by (rule agree_covers [where n = 288]) (simp_all add: covers.simps len)
  moreover have "request_encode (replicate 288 0) r = Inr (put_profiles e 0 fs)"
    by (simp add: request_encode_def val e_def z_def const [symmetric]) (simp add: r const [symmetric])
  moreover have "request_wf r"
    using decode_profiles_length [OF fs] by (simp add: request_wf_def r)
  ultimately show ?thesis by simp
qed

interpretation hop_request_codec:
  wire_codec request_wf "request_encode (replicate 288 0)" request_decode
  by unfold_locales (auto intro: request_decode_encode simp: request_encode_decode)

subsection \<open>What an accepted plan satisfies\<close>

text \<open>The contract of a plan over the integers, with no wrap-around.\<close>

definition profile_consistent :: "i64 \<Rightarrow> hop_profile \<Rightarrow> bool" where
  "profile_consistent offset f \<longleftrightarrow> unat (fastlock_slot f) < 8 \<and> 0 < unat (center_frequency_hz f) \<and>
     0 < unat (lo_frequency_hz f) \<and> profile_crc32 f \<noteq> 0 \<and>
     int (unat (center_frequency_hz f)) = int (unat (lo_frequency_hz f)) + sint offset"

definition plan_consistent :: "hop_request \<Rightarrow> bool" where
  "plan_consistent r \<longleftrightarrow>
     required_features r = HOP_REQUIRED_FEATURES \<and> request_flags r = HOP_REQUEST_FLAGS \<and>
     request_session_id r \<noteq> 0 \<and> 0 < unat (rf_bandwidth_hz r) \<and>
     unat (rf_bandwidth_hz r) \<le> unat (sample_rate_hz r) \<and>
     unat (transition_guard_samples r) < unat (dwell_samples r) \<and>
     unat (dwell_samples r) \<le> unat (capture_span_samples r) \<and>
     unat (capture_span_samples r) \<le> unat (dwell_count r) * unat (dwell_samples r) \<and>
     unat (dwell_count r) * unat (dwell_samples r) < 2 ^ 64 \<and> initial_profile r = 0 \<and>
     map (\<lambda>f. unat (profile_id f)) (profiles r) = [0..<8] \<and>
     distinct (map (\<lambda>f. unat (fastlock_slot f)) (profiles r)) \<and>
     (\<forall>f \<in> set (profiles r). profile_consistent (if_offset_hz r) f)"

lemma center_matches_lo_iff:
  "center_matches_lo c lo offset \<longleftrightarrow> int (unat c) = int (unat lo) + sint offset"
proof -
  have u: "int (unat c) = uint c" "int (unat lo) = uint lo" "int (unat offset) = uint offset" by simp_all
  have neg: "- (offset + 1) + 1 = - offset" by simp
  have b: "0 \<le> uint c" "uint c < 2 ^ 64" "0 \<le> uint lo" "uint lo < 2 ^ 64" "0 \<le> uint offset" "uint offset < 2 ^ 64"
    using uint_bounded [of c] uint_bounded [of lo] uint_bounded [of offset] by simp_all
  show ?thesis
  proof (cases "0 \<le> sint offset")
    case True
    then have s: "sint offset = uint offset" using b by (auto simp: sint_u64 split: if_splits)
    have "c = lo + offset \<longleftrightarrow> unat c = unat lo + unat offset" if "unat lo + unat offset < 2 ^ 64"
      using that by (metis unat_add_small word_unat_eq_iff)
    moreover have "unat c = unat lo + unat offset \<Longrightarrow> unat lo + unat offset < 2 ^ 64"
      using unat_u64_less [of c] by simp
    moreover have "int (unat c) = int (unat lo) + sint offset \<longleftrightarrow> unat c = unat lo + unat offset"
      unfolding s u(3) [symmetric] by (metis of_nat_add of_nat_eq_iff)
    ultimately show ?thesis using True
      unfolding center_matches_lo_def le_max_minus_iff by auto
  next
    case False
    then have s: "sint offset = uint offset - 2 ^ 64" "2 ^ 63 \<le> uint offset" using b by (auto simp: sint_u64 split: if_splits)
    then have m: "uint (- offset) = 2 ^ 64 - uint offset"
      using b by (simp add: uint_word_ariths)  (simp add: zmod_zminus1_eq_if)
    have "center_matches_lo c lo offset \<longleftrightarrow> uint (- offset) \<le> uint lo \<and> c = lo - (- offset)"
      using False by (simp add: center_matches_lo_def Let_def neg word_le_def del: diff_minus_eq_add)
    also have "\<dots> \<longleftrightarrow> uint (- offset) \<le> uint lo \<and> uint c = uint lo - uint (- offset)"
      by (metis uint_sub_lem word_uint_eq_iff)
    finally show ?thesis
      unfolding u m s(1) using b(1) by linarith
  qed
qed
lemma unat_eq_iff_u8: "i < 256 \<Longrightarrow> (w::u8) = of_nat i \<longleftrightarrow> unat w = i"
  by (auto simp: word_unat_eq_iff unsigned_of_nat take_bit_nat_eq_self)

lemma not_zero_unat: "(w::'a::len word) = 0 \<longleftrightarrow> \<not> 0 < unat w"
  by (simp add: unat_eq_0 [symmetric])

definition slot_bits :: "u16 \<Rightarrow> hop_profile list \<Rightarrow> u16" where
  "slot_bits s fs = fold (\<lambda>f s. s OR push_bit (unat (fastlock_slot f)) 1) fs s"

lemma bit_slot_bits:
  "bit (slot_bits s fs) n \<longleftrightarrow> bit s n \<or> n < 16 \<and> (\<exists>f \<in> set fs. unat (fastlock_slot f) = n)"
  by (induction fs arbitrary: s) (auto simp: slot_bits_def bit_simps)

lemma validate_profiles_iff:
  "i + length fs \<le> 256 \<Longrightarrow> validate_profiles offset i s fs = Some t \<longleftrightarrow>
     (\<forall>f \<in> set fs. profile_consistent offset f \<and> \<not> bit s (unat (fastlock_slot f))) \<and>
     map (\<lambda>f. unat (profile_id f)) fs = [i..<i + length fs] \<and>
     distinct (map (\<lambda>f. unat (fastlock_slot f)) fs) \<and> t = slot_bits s fs"
proof (induction offset i s fs rule: validate_profiles.induct)
  case (1 offset i slots)
  then show ?case by (auto simp: slot_bits_def)
next
  case (2 offset i slots f fs)
  let ?k = "unat (fastlock_slot f)"
  let ?ok = "unat (profile_id f) = i \<and> profile_consistent offset f \<and> \<not> bit slots ?k"
  have guard: "\<not> (profile_id f \<noteq> of_nat i \<or> HOP_PROFILE_COUNT \<le> fastlock_slot f \<or>
         slots AND push_bit ?k 1 \<noteq> 0 \<or>
         center_frequency_hz f = 0 \<or> lo_frequency_hz f = 0 \<or> profile_crc32 f = 0 \<or>
         \<not> center_matches_lo (center_frequency_hz f) (lo_frequency_hz f) offset) \<longleftrightarrow> ?ok"
    unfolding bit_iff_and_push_bit_not_eq_0 [symmetric] center_matches_lo_iff profile_consistent_def
      not_zero_unat [of "center_frequency_hz f"] not_zero_unat [of "lo_frequency_hz f"]
    using "2.prems" by (auto simp: unat_eq_iff_u8 word_le_nat_alt not_le)
  have step: "validate_profiles offset i slots (f # fs)
      = (if ?ok then validate_profiles offset (Suc i) (slots OR push_bit ?k 1) fs else None)"
    using guard by (simp only: validate_profiles.simps split: if_splits) blast
  have up: "[i..<i + length (f # fs)] = i # [Suc i..<Suc i + length fs]"
    by (simp add: upt_rec)
  show ?case
  proof (cases ?ok)
    case True
    have k: "?k < 8" using True by (simp add: profile_consistent_def)
    have bits: "bit (slots OR push_bit ?k (1::u16)) n \<longleftrightarrow> bit slots n \<or> n = ?k" if "n < 8" for n
      using that k by (auto simp: bit_simps)
    have small: "profile_consistent offset g \<Longrightarrow> unat (fastlock_slot g) < 8" for g
      by (simp add: profile_consistent_def)
    show ?thesis
      unfolding step up
      using "2.IH" "2.prems" True small bits guard
      by (auto simp: slot_bits_def image_iff)
  next
    case False
    then show ?thesis unfolding step up by auto
  qed
qed

lemma slot_bits_full:
  assumes "length fs = 8" "distinct (map (\<lambda>f. unat (fastlock_slot f)) fs)"
    and "\<forall>f \<in> set fs. unat (fastlock_slot f) < 8"
  shows "slot_bits 0 fs = 0xff"
proof -
  have "set (map (\<lambda>f. unat (fastlock_slot f)) fs) = {..<8}"
    using assms(1,3) distinct_card [OF assms(2)] by (intro card_subset_eq) auto
  then have "n \<in> set (map (\<lambda>f. unat (fastlock_slot f)) fs) \<longleftrightarrow> n < 8" for n
    by simp
  then have ex: "(\<exists>f \<in> set fs. unat (fastlock_slot f) = n) \<longleftrightarrow> n < 8" for n
    unfolding set_map image_iff by metis
  have m: "(0xff::u16) = mask 8" by (simp add: mask_eq_exp_minus_1)
  show ?thesis
    unfolding m by (rule bit_word_eqI) (auto simp: bit_slot_bits ex bit_mask_iff)
qed

lemma validate_request_0_iff:
  assumes "request_wf r"
  shows "validate_request r = 0 \<longleftrightarrow> plan_consistent r"
proof -
  let ?d = "dwell_samples r" and ?c = "dwell_count r" and ?s = "capture_span_samples r"
  have len: "length (profiles r) = 8" using assms by (simp add: request_wf_def)
  let ?list = "map (\<lambda>f. unat (profile_id f)) (profiles r) = [0..<8] \<and>
     distinct (map (\<lambda>f. unat (fastlock_slot f)) (profiles r)) \<and>
     (\<forall>f \<in> set (profiles r). profile_consistent (if_offset_hz r) f)"
  have list: "(case validate_profiles (if_offset_hz r) 0 0 (profiles r) of None \<Rightarrow> - EINVAL
      | Some slots \<Rightarrow> if slots = 0xff then 0 else - EINVAL) = (0::int) \<longleftrightarrow> ?list"
    (is "?lhs \<longleftrightarrow> _")
  proof -
    have "?lhs \<longleftrightarrow> validate_profiles (if_offset_hz r) 0 0 (profiles r) = Some 0xff"
      by (auto split: option.splits)
    also have "\<dots> \<longleftrightarrow> ?list"
      using slot_bits_full [OF len]
      by (subst validate_profiles_iff) (auto simp: len profile_consistent_def)
    finally show ?thesis .
  qed
  have mult: "(UINT64_MAX div ?d < ?c) \<longleftrightarrow> 2 ^ 64 \<le> unat ?c * unat ?d" if "0 < unat ?d"
  proof -
    have "UINT64_MAX div ?d < ?c \<longleftrightarrow> 18446744073709551615 div unat ?d < unat ?c"
      by (simp add: word_less_nat_alt unat_div)
    also have "\<dots> \<longleftrightarrow> 18446744073709551615 < unat ?c * unat ?d"
      using that by (rule div_less_iff_less_mult)
    finally show ?thesis by auto
  qed
  have prod: "unat (?c * ?d) = unat ?c * unat ?d" if "unat ?c * unat ?d < 2 ^ 64"
    using that by (simp add: unat_word_ariths)
  show ?thesis
    unfolding validate_request_def plan_consistent_def
    using list mult prod
    by (auto simp: word_less_nat_alt word_le_nat_alt not_zero_unat not_less not_le)
qed

subsection \<open>Properties\<close>

text \<open>C23: The hop plan format is exact. The decoder accepts exactly the messages the encoder
writes for a valid plan, and returns that plan, so a plan has one message and no reserved byte is
ignored.\<close>

theorem hop_request_wire_exact:
  "request_decode w = Inr r \<longleftrightarrow> request_wf r \<and> request_encode (replicate 288 0) r = Inr w"
  by (rule hop_request_codec.decode_iff)

text \<open>C22: What the plan check accepts. A plan can be encoded exactly when it is consistent over
the integers: the bandwidth fits the sample rate, the guard is shorter than the dwell, the capture
span lies between one dwell and all of them (a product that fits 64 bits), the eight profiles are
numbered in order, use eight different Fast Lock slots, and every centre frequency is its LO
frequency plus the signed IF offset, with no wrap-around. Every other plan is refused with
EINVAL.\<close>

theorem hop_plan_accepted:
  assumes "request_wf r" and "288 \<le> length p"
  shows "if plan_consistent r then \<exists>w. request_encode p r = Inr w
         else request_encode p r = Inl (- EINVAL)"
proof -
  have "validate_request r = 0 \<or> validate_request r = - EINVAL"
    by (auto simp: validate_request_def split: option.splits)
  then show ?thesis
    using validate_request_0_iff [OF assms(1)] assms(2)
    by (auto simp: request_encode_def Let_def not_less)
qed

definition demo_plan :: "u64 \<Rightarrow> hop_request" where
  "demo_plan span = \<lparr>required_features = 0x1f, request_flags = 3, request_session_id = 9,
     sample_rate_hz = 1000, rf_bandwidth_hz = 800, if_offset_hz = - 5, dwell_samples = 100,
     transition_guard_samples = 10, dwell_count = 16, capture_span_samples = span,
     initial_profile = 0,
     profiles = map (\<lambda>i. \<lparr>profile_id = of_nat i, fastlock_slot = of_nat (7 - i),
       center_frequency_hz = of_nat (95 + i), lo_frequency_hz = of_nat (100 + i),
       profile_crc32 = 7\<rparr>) [0..<8]\<rparr>"

lemma demo_plan_wf: "request_wf (demo_plan n)"
  by (simp add: request_wf_def demo_plan_def)

lemma demo_plan_checks: "plan_consistent (demo_plan 1600)" "\<not> plan_consistent (demo_plan 1601)"
proof -
  have "validate_request (demo_plan 1600) = 0" "validate_request (demo_plan 1601) = - EINVAL"
    by code_simp+
  then show "plan_consistent (demo_plan 1600)" "\<not> plan_consistent (demo_plan 1601)"
    unfolding validate_request_0_iff [OF demo_plan_wf, symmetric] by simp_all
qed

theorem hop_plan_accepted_witness:
  "(\<exists>w. request_encode (replicate 288 0) (demo_plan 1600) = Inr w) \<and>
   request_encode (replicate 288 0) (demo_plan 1601) = Inl (- EINVAL)"
  using hop_plan_accepted [OF demo_plan_wf, of "replicate 288 0" 1600]
    hop_plan_accepted [OF demo_plan_wf, of "replicate 288 0" 1601]
  by (simp add: demo_plan_checks)

end
