(* ===== verification/Hop_Records.thy ===== *)
theory Hop_Records
  imports Hop_Protocol
begin

unbundle bit_operations_syntax

text \<open>
  The server's messages of the hop protocol (\<open>iiod/spf-hop-protocol.c\<close>): the events and the
  sidecar that accompany a block, and the session status.
\<close>

subsection \<open>Events\<close>

definition validate_event :: "hop_event \<Rightarrow> int" where
  "validate_event e =
     (let d = device e; no_recall = (event_flags d AND EVENT_NO_RECALL \<noteq> 0) in
      if event_flags d AND NOT EVENT_FLAGS_ALLOWED \<noteq> 0 \<or>
         event_flags d AND EVENT_FLAGS \<noteq> EVENT_FLAGS \<or>
         (event_kind d \<noteq> EVENT_STARTUP \<and> event_kind d \<noteq> EVENT_RETUNE) \<or>
         HOP_PROFILE_COUNT \<le> to_profile d \<or> HOP_PROFILE_COUNT \<le> event_fastlock_slot d \<or>
         transition_after d < transition_before d \<or>
         (\<not> no_recall \<and> (device_event_id d = 0 \<or> transition_before d < invalid_start e \<or>
           invalid_end e < transition_after d)) \<or>
         (no_recall \<and> (event_kind d \<noteq> EVENT_RETUNE \<or> from_profile d \<noteq> to_profile d \<or>
           device_event_id d \<noteq> 0 \<or> transition_before d \<noteq> transition_after d \<or>
           invalid_start e \<noteq> invalid_end e))
      then - EINVAL else 0)"

definition decode_event :: "u8 list \<Rightarrow> nat \<Rightarrow> hop_event res" where
  "decode_event p k =
     (if get_le16 p (k + 54) \<noteq> 0 then Inl (- EBADMSG)
      else let e = \<lparr>device = \<lparr>event_sequence = get_le64 p k, dwell_index = get_le64 p (k + 8),
              transition_before = get_le64 p (k + 16), transition_after = get_le64 p (k + 24),
              actual_lo_frequency_hz = get_le64 p (k + 56),
              actual_if_offset_hz = get_le64 p (k + 64), device_event_id = get_le64 p (k + 72),
              from_profile = p ! (k + 48), to_profile = p ! (k + 49), event_kind = p ! (k + 50),
              event_flags = p ! (k + 51), event_fastlock_slot = get_le16 p (k + 52)\<rparr>,
            invalid_start = get_le64 p (k + 32), invalid_end = get_le64 p (k + 40)\<rparr>;
          ret = validate_event e
        in if ret \<noteq> 0 then Inl ret else Inr e)"

definition encode_event :: "u8 list \<Rightarrow> nat \<Rightarrow> hop_event \<Rightarrow> u8 list" where
  "encode_event p k e =
     (let d = device e;
        p = put_le64 p k (event_sequence d);
        p = put_le64 p (k + 8) (dwell_index d);
        p = put_le64 p (k + 16) (transition_before d);
        p = put_le64 p (k + 24) (transition_after d);
        p = put_le64 p (k + 32) (invalid_start e);
        p = put_le64 p (k + 40) (invalid_end e);
        p = put_u8 p (k + 48) (from_profile d);
        p = put_u8 p (k + 49) (to_profile d);
        p = put_u8 p (k + 50) (event_kind d);
        p = put_u8 p (k + 51) (event_flags d);
        p = put_le16 p (k + 52) (event_fastlock_slot d);
        p = put_le64 p (k + 56) (actual_lo_frequency_hz d);
        p = put_le64 p (k + 64) (actual_if_offset_hz d)
      in put_le64 p (k + 72) (device_event_id d))"

text \<open>The two loops over the events of a sidecar.\<close>

fun validate_events :: "hop_event list \<Rightarrow> int" where
  "validate_events [] = 0"
| "validate_events (e # es) =
     (let ret = validate_event e in if ret \<noteq> 0 then ret else validate_events es)"

fun decode_events :: "u8 list \<Rightarrow> nat \<Rightarrow> nat \<Rightarrow> hop_event list res" where
  "decode_events p i 0 = Inr []"
| "decode_events p i (Suc n) =
     (case decode_event p (HOP_SIDECAR_HEADER_BYTES + i * HOP_EVENT_BYTES) of
        Inl e \<Rightarrow> Inl e
      | Inr e \<Rightarrow> (case decode_events p (Suc i) n of Inl x \<Rightarrow> Inl x | Inr es \<Rightarrow> Inr (e # es)))"

fun encode_events :: "u8 list \<Rightarrow> nat \<Rightarrow> hop_event list \<Rightarrow> u8 list" where
  "encode_events p i [] = p"
| "encode_events p i (e # es) =
     encode_events (encode_event p (HOP_SIDECAR_HEADER_BYTES + i * HOP_EVENT_BYTES) e) (Suc i) es"

subsection \<open>Sidecars\<close>

definition validate_state :: "u16 \<Rightarrow> u16 \<Rightarrow> i32 \<Rightarrow> u32 \<Rightarrow> int" where
  "validate_state st reason err flags =
     (if HOP_FAILED < st \<or> HOP_REASON_RESTORE_ERROR < reason \<or> flags AND NOT STATUS_FLAGS \<noteq> 0 \<or>
         flags AND STATUS_RESTORE_REQUIRED = 0 \<or>
         (flags AND STATUS_RESTORE_SUCCEEDED \<noteq> 0 \<and> flags AND STATUS_RESTORE_ATTEMPTED = 0)
      then - EINVAL
      else if (HOP_COMPLETED \<le> st) \<noteq> (flags AND STATUS_TERMINAL \<noteq> 0) then - EINVAL
      else if st < HOP_COMPLETED \<and> (reason \<noteq> HOP_REASON_NONE \<or> err \<noteq> 0) then - EINVAL
      else if st = HOP_COMPLETED \<and> (reason \<noteq> HOP_REASON_PLAN_COMPLETE \<or> err \<noteq> 0) then - EINVAL
      else if st = HOP_CANCELLED \<and>
          (reason \<noteq> HOP_REASON_CLIENT_CLOSE \<and> reason \<noteq> HOP_REASON_CLIENT_DISCONNECT) then - EINVAL
      else if st = HOP_CANCELLED \<and> err \<noteq> 0 then - EINVAL
      else if st = HOP_FAILED \<and>
          (reason = HOP_REASON_NONE \<or> reason = HOP_REASON_PLAN_COMPLETE \<or>
           reason = HOP_REASON_CLIENT_CLOSE \<or> reason = HOP_REASON_CLIENT_DISCONNECT \<or>
           0 \<le> sint err) then - EINVAL
      else 0)"

definition sidecar_record_bytes :: "u16 \<Rightarrow> nat" where
  "sidecar_record_bytes count = HOP_SIDECAR_HEADER_BYTES + unat count * HOP_EVENT_BYTES"

text \<open>The code's \<open>memset\<close> of the output leaves the unused entries of \<open>events\<close> zero.\<close>

definition sidecar_decode :: "u8 list \<Rightarrow> hop_sidecar res" where
  "sidecar_decode p =
     (if length p < HOP_SIDECAR_HEADER_BYTES then Inl (- EMSGSIZE)
      else if get_le32 p 0 \<noteq> HOP_SIDECAR_MAGIC \<or> get_le16 p 4 \<noteq> HOP_PROTOCOL_VERSION \<or>
          get_le16 p 6 \<noteq> HOP_SIDECAR_HEADER_BYTES then Inl (- EPROTONOSUPPORT)
      else if unat (get_le32 p 8) \<noteq> length p \<or> get_le32 p 12 \<noteq> HOP_REQUIRED_FEATURES \<or>
          HOP_EVENT_CAPACITY < get_le16 p 20 \<or> get_le16 p 22 \<noteq> HOP_EVENT_CAPACITY \<or>
          get_le32 p 8 \<noteq> HOP_SIDECAR_HEADER_BYTES + ucast (get_le16 p 20) * HOP_EVENT_BYTES
      then Inl (- EBADMSG)
      else let count = get_le16 p 20;
          ret = validate_state (get_le16 p 56) (get_le16 p 58) (get_le32 p 60) (get_le32 p 16)
        in if ret \<noteq> 0 \<or> get_le64 p 24 = 0 \<or> get_le64 p 48 \<le> get_le64 p 40 then Inl (- EBADMSG)
      else case decode_events p 0 (unat count) of
        Inl e \<Rightarrow> Inl e
      | Inr es \<Rightarrow> Inr \<lparr>sidecar_flags = get_le32 p 16, sidecar_session_id = get_le64 p 24,
          buffer_sequence = get_le64 p 32, block_first_sample = get_le64 p 40,
          block_end_sample = get_le64 p 48, sidecar_state = get_le16 p 56,
          sidecar_reason = get_le16 p 58, sidecar_error = get_le32 p 60, event_count = count,
          events = es @ replicate (HOP_EVENT_CAPACITY - unat count) zero_event\<rparr>)"

text \<open>The encoder returns the record's length beside the bytes it writes.\<close>

definition sidecar_encode :: "u8 list \<Rightarrow> hop_sidecar \<Rightarrow> (nat \<times> u8 list) res" where
  "sidecar_encode p s =
     (if HOP_EVENT_CAPACITY < event_count s then Inl (- EINVAL)
      else let record_bytes = sidecar_record_bytes (event_count s) in
      if length p < record_bytes then Inl (- ENOSPC)
      else let ret = validate_state (sidecar_state s) (sidecar_reason s) (sidecar_error s)
             (sidecar_flags s) in
      if ret \<noteq> 0 \<or> sidecar_session_id s = 0 \<or> block_end_sample s \<le> block_first_sample s
      then Inl (if ret \<noteq> 0 then ret else - EINVAL)
      else let used = take (unat (event_count s)) (events s); ret = validate_events used in
      if ret \<noteq> 0 then Inl ret
      else let
        p = clear_bytes p record_bytes;
        p = put_le32 p 0 HOP_SIDECAR_MAGIC;
        p = put_le16 p 4 HOP_PROTOCOL_VERSION;
        p = put_le16 p 6 HOP_SIDECAR_HEADER_BYTES;
        p = put_le32 p 8 (of_nat record_bytes);
        p = put_le32 p 12 HOP_REQUIRED_FEATURES;
        p = put_le32 p 16 (sidecar_flags s);
        p = put_le16 p 20 (event_count s);
        p = put_le16 p 22 HOP_EVENT_CAPACITY;
        p = put_le64 p 24 (sidecar_session_id s);
        p = put_le64 p 32 (buffer_sequence s);
        p = put_le64 p 40 (block_first_sample s);
        p = put_le64 p 48 (block_end_sample s);
        p = put_le16 p 56 (sidecar_state s);
        p = put_le16 p 58 (sidecar_reason s);
        p = put_le32 p 60 (sidecar_error s)
      in Inr (record_bytes, encode_events p 0 used))"

subsection \<open>Statuses\<close>

definition status_values_ok :: "hop_status \<Rightarrow> int" where
  "status_values_ok s =
     (let ret = validate_state (hop_state s) (hop_reason s) (hop_error s) (hop_flags s) in
      if ret = 0 \<and> (hop_session_id s = 0 \<or> planned_dwells s = 0 \<or>
          (active_profile s \<noteq> PROFILE_NONE \<and> HOP_PROFILE_COUNT \<le> active_profile s) \<or>
          (restored_profile s \<noteq> PROFILE_NONE \<and> HOP_PROFILE_COUNT \<le> restored_profile s))
      then - EINVAL else ret)"

definition hop_status_decode :: "u8 list \<Rightarrow> hop_status res" where
  "hop_status_decode p =
     (if length p \<noteq> HOP_STATUS_BYTES then Inl (- EMSGSIZE)
      else if get_le32 p 0 \<noteq> HOP_STATUS_MAGIC \<or> get_le16 p 4 \<noteq> HOP_PROTOCOL_VERSION \<or>
          get_le16 p 6 \<noteq> HOP_STATUS_BYTES then Inl (- EPROTONOSUPPORT)
      else if get_le32 p 8 \<noteq> HOP_REQUIRED_FEATURES \<or> get_le16 p 126 \<noteq> 0 \<or> get_le64 p 152 \<noteq> 0
      then Inl (- EBADMSG)
      else let s = \<lparr>hop_state = get_le16 p 12, hop_reason = get_le16 p 14,
          hop_error = get_le32 p 16, hop_flags = get_le32 p 20, hop_session_id = get_le64 p 24,
          planned_dwells = get_le64 p 32, visits_started = get_le64 p 40,
          events_emitted = get_le64 p 48, next_event_sequence = get_le64 p 56,
          last_block_sequence = get_le64 p 64, last_block_end = get_le64 p 72,
          first_counter = get_le64 p 80, final_counter = get_le64 p 88,
          restore_before = get_le64 p 96, restore_after = get_le64 p 104,
          restored_lo_frequency_hz = get_le64 p 112, restore_error = get_le32 p 120,
          active_profile = p ! 124, restored_profile = p ! 125,
          startup_invalid_start = get_le64 p 128, startup_invalid_end = get_le64 p 136,
          device_dropped_events = get_le64 p 144\<rparr>
        in if status_values_ok s \<noteq> 0 then Inl (- EBADMSG) else Inr s)"

definition hop_status_encode :: "u8 list \<Rightarrow> hop_status \<Rightarrow> u8 list res" where
  "hop_status_encode p s =
     (if length p < HOP_STATUS_BYTES then Inl (- ENOSPC)
      else let ret = status_values_ok s in
      if ret \<noteq> 0 then Inl ret
      else let
        p = clear_bytes p HOP_STATUS_BYTES;
        p = put_le32 p 0 HOP_STATUS_MAGIC;
        p = put_le16 p 4 HOP_PROTOCOL_VERSION;
        p = put_le16 p 6 HOP_STATUS_BYTES;
        p = put_le32 p 8 HOP_REQUIRED_FEATURES;
        p = put_le16 p 12 (hop_state s);
        p = put_le16 p 14 (hop_reason s);
        p = put_le32 p 16 (hop_error s);
        p = put_le32 p 20 (hop_flags s);
        p = put_le64 p 24 (hop_session_id s);
        p = put_le64 p 32 (planned_dwells s);
        p = put_le64 p 40 (visits_started s);
        p = put_le64 p 48 (events_emitted s);
        p = put_le64 p 56 (next_event_sequence s);
        p = put_le64 p 64 (last_block_sequence s);
        p = put_le64 p 72 (last_block_end s);
        p = put_le64 p 80 (first_counter s);
        p = put_le64 p 88 (final_counter s);
        p = put_le64 p 96 (restore_before s);
        p = put_le64 p 104 (restore_after s);
        p = put_le64 p 112 (restored_lo_frequency_hz s);
        p = put_le32 p 120 (restore_error s);
        p = put_u8 p 124 (active_profile s);
        p = put_u8 p 125 (restored_profile s);
        p = put_le64 p 128 (startup_invalid_start s);
        p = put_le64 p 136 (startup_invalid_end s)
      in Inr (put_le64 p 144 (device_dropped_events s)))"

subsection \<open>Sidecars: decoding what was encoded\<close>

lemma length_encode_event [simp]: "length (encode_event p k e) = length p"
  by (simp add: encode_event_def Let_def)

lemma length_encode_events [simp]: "length (encode_events p i es) = length p"
  by (induction p i es rule: encode_events.induct) simp_all

lemma nth_encode_event_outside: "j < k \<or> k + 80 \<le> j \<Longrightarrow> encode_event p k e ! j = p ! j"
  by (auto simp: encode_event_def Let_def nth_put_outside)

lemma nth_encode_events_below: "j < 64 + i * 80 \<Longrightarrow> encode_events p i es ! j = p ! j"
proof (induction p i es rule: encode_events.induct)
  case (2 p i e es)
  then show ?case by (simp add: nth_encode_event_outside)
qed simp

lemma get_encode_events_below:
  "j + 2 \<le> 64 + i * 80 \<Longrightarrow> get_le16 (encode_events p i es) j = get_le16 p j"
  "j + 4 \<le> 64 + i * 80 \<Longrightarrow> get_le32 (encode_events p i es) j = get_le32 p j"
  "j + 8 \<le> 64 + i * 80 \<Longrightarrow> get_le64 (encode_events p i es) j = get_le64 p j"
  by (simp_all add: get_le16_def get_le32_def get_le64_def nth_encode_events_below)

text \<open>Decoding an event reads its 80 bytes only.\<close>

lemma decode_event_cong:
  assumes "\<And>j. k \<le> j \<Longrightarrow> j < k + 80 \<Longrightarrow> p ! j = q ! j"
  shows "decode_event p k = decode_event q k"
proof -
  have g: "get_le16 p (k + i) = get_le16 q (k + i)" if "i + 2 \<le> 80" for i
    using that assms by (simp add: get_le16_def)
  have h: "get_le64 p (k + i) = get_le64 q (k + i)" if "i + 8 \<le> 80" for i
    using that assms by (simp add: get_le64_def get_le32_def)
  show ?thesis
    using h [of 0] by (simp add: decode_event_def g h assms)
qed

lemma hop_event_eta: "\<lparr>device = \<lparr>event_sequence = event_sequence (device e),
    dwell_index = dwell_index (device e), transition_before = transition_before (device e),
    transition_after = transition_after (device e),
    actual_lo_frequency_hz = actual_lo_frequency_hz (device e),
    actual_if_offset_hz = actual_if_offset_hz (device e),
    device_event_id = device_event_id (device e), from_profile = from_profile (device e),
    to_profile = to_profile (device e), event_kind = event_kind (device e),
    event_flags = event_flags (device e), event_fastlock_slot = event_fastlock_slot (device e)\<rparr>,
    invalid_start = invalid_start e, invalid_end = invalid_end e\<rparr> = e"
  by (cases e, cases "device e") simp

lemma decode_encode_event:
  assumes "validate_event e = 0" and "k + 80 \<le> length p" and "get_le16 p (k + 54) = 0"
  shows "decode_event (encode_event p k e) k = Inr e"
  using assms
  by (simp add: decode_event_def encode_event_def Let_def wire_simps hop_event_eta)

definition event_pads_zero :: "u8 list \<Rightarrow> nat \<Rightarrow> nat \<Rightarrow> bool" where
  "event_pads_zero p i n \<longleftrightarrow> (\<forall>j. i \<le> j \<and> j < i + n \<longrightarrow> get_le16 p (64 + j * 80 + 54) = 0)"

lemma event_pads_zero_encode_event:
  assumes "event_pads_zero p i n"
  shows "event_pads_zero (encode_event p (64 + k * 80) e) i n"
proof -
  have "get_le16 (encode_event p (64 + k * 80) e) (64 + j * 80 + 54) = get_le16 p (64 + j * 80 + 54)"
    for j
  proof (cases j k rule: linorder_cases)
    case less
    then have "j * 80 + 80 \<le> k * 80" by simp
    then show ?thesis by (simp add: get_le16_def nth_encode_event_outside)
  next
    case equal
    then show ?thesis by (simp add: encode_event_def Let_def get_put_disjoint)
  next
    case greater
    then have "k * 80 + 80 \<le> j * 80" by simp
    then show ?thesis by (simp add: get_le16_def nth_encode_event_outside)
  qed
  then show ?thesis using assms by (simp add: event_pads_zero_def)
qed

lemma validate_events_0_iff: "validate_events es = 0 \<longleftrightarrow> (\<forall>e \<in> set es. validate_event e = 0)"
  by (induction es) (auto simp: Let_def)

lemma decode_encode_events:
  assumes "64 + (i + length es) * 80 \<le> length p" and "event_pads_zero p i (length es)"
    and "\<forall>e \<in> set es. validate_event e = 0"
  shows "decode_events (encode_events p i es) i (length es) = Inr es"
  using assms
proof (induction p i es rule: encode_events.induct)
  case (2 p i e es)
  let ?k = "64 + i * 80" and ?p = "encode_event p (64 + i * 80) e"
  have "event_pads_zero ?p (Suc i) (length es)"
    using event_pads_zero_encode_event [OF "2.prems"(2)] by (simp add: event_pads_zero_def)
  then have ih: "decode_events (encode_events ?p (Suc i) es) (Suc i) (length es) = Inr es"
    using "2.IH" "2.prems"(1,3) by (simp add: algebra_simps)
  have "decode_event (encode_events ?p (Suc i) es) ?k = decode_event ?p ?k"
    by (rule decode_event_cong) (simp add: nth_encode_events_below)
  also have "\<dots> = Inr e"
    using "2.prems" by (intro decode_encode_event) (auto simp: event_pads_zero_def)
  finally show ?case by (simp add: ih)
qed simp

lemma decode_events_length: "decode_events p i n = Inr es \<Longrightarrow> length es = n"
  by (induction p i n arbitrary: es rule: decode_events.induct) (auto split: sum.splits)

lemma take_drop_events:
  "sidecar_wf s \<Longrightarrow> take (unat (event_count s)) (events s)
     @ replicate (8 - unat (event_count s)) zero_event = events s"
  unfolding sidecar_wf_def by (metis append_take_drop_id)

lemma sidecar_eta: "\<lparr>sidecar_flags = sidecar_flags s, sidecar_session_id = sidecar_session_id s,
    buffer_sequence = buffer_sequence s, block_first_sample = block_first_sample s,
    block_end_sample = block_end_sample s, sidecar_state = sidecar_state s,
    sidecar_reason = sidecar_reason s, sidecar_error = sidecar_error s,
    event_count = event_count s, events = events s\<rparr> = s"
  by (cases s) simp

lemma record_bytes_u32:
  "c \<le> 8 \<Longrightarrow> (of_nat (sidecar_record_bytes c) :: u32) = 64 + ucast c * 80"
  "c \<le> 8 \<Longrightarrow> unat (of_nat (sidecar_record_bytes c) :: u32) = sidecar_record_bytes c"
  by (simp_all add: sidecar_record_bytes_def word_le_nat_alt word_unat_eq_iff unat_word_ariths
      unsigned_of_nat take_bit_nat_eq_self unsigned_ucast_eq)

text \<open>An encoder that is given exactly the record's space; \<open>decode\<close> inverts it.\<close>

definition sidecar_record :: "hop_sidecar \<Rightarrow> u8 list res" where
  "sidecar_record s = (case sidecar_encode (replicate (sidecar_record_bytes (event_count s)) 0) s of
     Inl e \<Rightarrow> Inl e | Inr (n, w) \<Rightarrow> Inr w)"

lemma sidecar_decode_encode:
  assumes wf: "sidecar_wf s" and rec: "sidecar_record s = Inr w"
  shows "sidecar_decode w = Inr s"
proof -
  let ?n = "unat (event_count s)" and ?r = "sidecar_record_bytes (event_count s)"
  let ?es = "take (unat (event_count s)) (events s)"
  have count: "event_count s \<le> 8" and val: "validate_state (sidecar_state s) (sidecar_reason s)
      (sidecar_error s) (sidecar_flags s) = 0" "sidecar_session_id s \<noteq> 0"
      "block_first_sample s < block_end_sample s" and evs: "validate_events ?es = 0"
    using rec by (auto simp: sidecar_record_def sidecar_encode_def Let_def not_le not_less
        split: if_splits)
  define z where "z = clear_bytes (replicate ?r (0::u8)) ?r"
  define q where "q = put_le32 (put_le16 (put_le16 (put_le64 (put_le64 (put_le64 (put_le64
    (put_le16 (put_le16 (put_le32 (put_le32 (put_le32 (put_le16 (put_le16 (put_le32 z
      0 HOP_SIDECAR_MAGIC) 4 1) 6 64) 8 (of_nat ?r)) 12 HOP_REQUIRED_FEATURES)
      16 (sidecar_flags s)) 20 (event_count s)) 22 8) 24 (sidecar_session_id s))
      32 (buffer_sequence s)) 40 (block_first_sample s)) 48 (block_end_sample s))
      56 (sidecar_state s)) 58 (sidecar_reason s)) 60 (sidecar_error s)"
  have w: "w = encode_events q 0 ?es"
    using rec count val evs
    by (auto simp: sidecar_record_def sidecar_encode_def Let_def q_def z_def split: if_splits)
  have n8: "?n \<le> 8" using count by (simp add: word_le_nat_alt)
  have r: "64 \<le> ?r" "?r = 64 + ?n * 80" by (simp_all add: sidecar_record_bytes_def)
  have lq: "length q = ?r" by (simp add: q_def z_def)
  have les: "length ?es = ?n" using wf n8 by (simp add: sidecar_wf_def)
  have "event_pads_zero q 0 ?n"
    by (auto simp: event_pads_zero_def q_def z_def r wire_simps)
  then have dec: "decode_events w 0 ?n = Inr ?es"
    using decode_encode_events [of 0 ?es q] evs les lq r
    by (simp add: w validate_events_0_iff)
  have get: "get_le32 w 0 = HOP_SIDECAR_MAGIC" "get_le16 w 4 = 1" "get_le16 w 6 = 64"
    "get_le32 w 8 = of_nat ?r" "get_le32 w 12 = HOP_REQUIRED_FEATURES"
    "get_le32 w 16 = sidecar_flags s" "get_le16 w 20 = event_count s" "get_le16 w 22 = 8"
    "get_le64 w 24 = sidecar_session_id s" "get_le64 w 32 = buffer_sequence s"
    "get_le64 w 40 = block_first_sample s" "get_le64 w 48 = block_end_sample s"
    "get_le16 w 56 = sidecar_state s" "get_le16 w 58 = sidecar_reason s"
    "get_le32 w 60 = sidecar_error s"
    using r(1) by (simp_all add: w get_encode_events_below q_def z_def wire_simps)
  have lw: "length w = ?r" by (simp add: w lq)
  have sc: "\<not> 8 < event_count s" "\<not> length w < 64"
    using count r(1) lw by auto
  show ?thesis
    using val record_bytes_u32 [OF count] sc take_drop_events [OF wf]
    by (simp add: sidecar_decode_def get dec Let_def lw sidecar_eta not_le)
qed

lemma hop_status_eta: "\<lparr>hop_state = hop_state s, hop_reason = hop_reason s,
    hop_error = hop_error s, hop_flags = hop_flags s, hop_session_id = hop_session_id s,
    planned_dwells = planned_dwells s, visits_started = visits_started s,
    events_emitted = events_emitted s, next_event_sequence = next_event_sequence s,
    last_block_sequence = last_block_sequence s, last_block_end = last_block_end s,
    first_counter = first_counter s, final_counter = final_counter s,
    restore_before = restore_before s, restore_after = restore_after s,
    restored_lo_frequency_hz = restored_lo_frequency_hz s, restore_error = restore_error s,
    active_profile = active_profile s, restored_profile = restored_profile s,
    startup_invalid_start = startup_invalid_start s, startup_invalid_end = startup_invalid_end s,
    device_dropped_events = device_dropped_events s\<rparr> = s"
  by (cases s) simp

lemma hop_status_decode_encode:
  assumes "hop_status_encode p s = Inr w" and "length p = 160"
  shows "hop_status_decode w = Inr s"
proof -
  have val: "status_values_ok s = 0"
    using assms by (auto simp: hop_status_encode_def Let_def split: if_splits)
  show ?thesis
    using assms val
    by (auto simp: hop_status_encode_def hop_status_decode_def Let_def wire_simps hop_status_eta)
qed

subsection \<open>Statuses and sidecars: encoding what was decoded\<close>

lemma hop_status_encode_decode:
  assumes dec: "hop_status_decode q = Inr s"
  shows "hop_status_encode (replicate 160 0) s = Inr q"
proof -
  have len: "length q = 160" using dec by (simp add: hop_status_decode_def split: if_splits)
  have const: "HOP_STATUS_MAGIC = get_le32 q 0" "1 = get_le16 q 4" "160 = get_le16 q 6"
    "HOP_REQUIRED_FEATURES = get_le32 q 8"
    and q0: "get_le16 q 126 = 0" "get_le64 q 152 = 0"
    using dec by (simp_all add: hop_status_decode_def split: if_splits)
  have s: "s = \<lparr>hop_state = get_le16 q 12, hop_reason = get_le16 q 14,
          hop_error = get_le32 q 16, hop_flags = get_le32 q 20, hop_session_id = get_le64 q 24,
          planned_dwells = get_le64 q 32, visits_started = get_le64 q 40,
          events_emitted = get_le64 q 48, next_event_sequence = get_le64 q 56,
          last_block_sequence = get_le64 q 64, last_block_end = get_le64 q 72,
          first_counter = get_le64 q 80, final_counter = get_le64 q 88,
          restore_before = get_le64 q 96, restore_after = get_le64 q 104,
          restored_lo_frequency_hz = get_le64 q 112, restore_error = get_le32 q 120,
          active_profile = q ! 124, restored_profile = q ! 125,
          startup_invalid_start = get_le64 q 128, startup_invalid_end = get_le64 q 136,
          device_dropped_events = get_le64 q 144\<rparr>" and val: "status_values_ok s = 0"
    using dec by (auto simp: hop_status_decode_def Let_def split: if_splits)
  define z where "z = clear_bytes (replicate 160 (0::u8)) 160"
  have "agree (spans []) z q" by (simp add: agree_refl_length z_def len)
  note agree_spans_zero(2) [OF this, of 126]
  then have "agree (spans [(126, 126 + 2)]) z q" by (simp add: q0 z_def wire_simps)
  note agree_spans_zero(4) [OF this, of 152]
  then have z: "agree (spans [(152, 152 + 8), (126, 126 + 2)]) z q"
    by (simp add: q0 z_def wire_simps)
  define e where "e = put_le64 (put_le64 (put_le64 (put_u8 (put_u8 (put_le32 (put_le64 (put_le64
    (put_le64 (put_le64 (put_le64 (put_le64 (put_le64 (put_le64 (put_le64 (put_le64 (put_le64
    (put_le64 (put_le32 (put_le32 (put_le16 (put_le16 (put_le32 (put_le16 (put_le16 (put_le32 z
      0 (get_le32 q 0)) 4 (get_le16 q 4)) 6 (get_le16 q 6)) 8 (get_le32 q 8)) 12 (get_le16 q 12))
      14 (get_le16 q 14)) 16 (get_le32 q 16)) 20 (get_le32 q 20)) 24 (get_le64 q 24))
      32 (get_le64 q 32)) 40 (get_le64 q 40)) 48 (get_le64 q 48)) 56 (get_le64 q 56))
      64 (get_le64 q 64)) 72 (get_le64 q 72)) 80 (get_le64 q 80)) 88 (get_le64 q 88))
      96 (get_le64 q 96)) 104 (get_le64 q 104)) 112 (get_le64 q 112)) 120 (get_le32 q 120))
      124 (q ! 124)) 125 (q ! 125)) 128 (get_le64 q 128)) 136 (get_le64 q 136))
      144 (get_le64 q 144)"
  have "agree (spans [(144, 144 + 8), (136, 136 + 8), (128, 128 + 8), (125, 125 + 1),
      (124, 124 + 1), (120, 120 + 4), (112, 112 + 8), (104, 104 + 8), (96, 96 + 8), (88, 88 + 8),
      (80, 80 + 8), (72, 72 + 8), (64, 64 + 8), (56, 56 + 8), (48, 48 + 8), (40, 40 + 8),
      (32, 32 + 8), (24, 24 + 8), (20, 20 + 4), (16, 16 + 4), (14, 14 + 2), (12, 12 + 2),
      (8, 8 + 4), (6, 6 + 2), (4, 4 + 2), (0, 0 + 4), (152, 152 + 8), (126, 126 + 2)]) e q"
    unfolding e_def by (intro agree_spans_put z)
  then have "e = q"
    by (rule agree_covers [where n = 160]) (simp_all add: covers.simps len)
  moreover have "hop_status_encode (replicate 160 0) s = Inr e"
    by (simp add: hop_status_encode_def val e_def z_def const [symmetric])
      (simp add: s const [symmetric])
  ultimately show ?thesis by simp
qed

interpretation hop_status_codec:
  wire_codec "\<lambda>_. True" "hop_status_encode (replicate 160 0)" hop_status_decode
  by unfold_locales (auto intro: hop_status_decode_encode simp: hop_status_encode_decode)

lemma agree_spans_event:
  assumes "agree (spans xs) p q" and "get_le16 p (k + 54) = 0" and dec: "decode_event q k = Inr e"
  shows "agree (spans ((k, k + 80) # xs)) (encode_event p k e) q"
proof -
  let ?ys = "(k + 72, k + 72 + 8) # (k + 64, k + 64 + 8) # (k + 56, k + 56 + 8)
    # (k + 52, k + 52 + 2) # (k + 51, k + 51 + 1) # (k + 50, k + 50 + 1) # (k + 49, k + 49 + 1)
    # (k + 48, k + 48 + 1) # (k + 40, k + 40 + 8) # (k + 32, k + 32 + 8) # (k + 24, k + 24 + 8)
    # (k + 16, k + 16 + 8) # (k + 8, k + 8 + 8) # (k, k + 8) # (k + 54, k + 54 + 2) # xs"
  have q0: "get_le16 q (k + 54) = 0" and e: "e = \<lparr>device = \<lparr>event_sequence = get_le64 q k,
              dwell_index = get_le64 q (k + 8),
              transition_before = get_le64 q (k + 16), transition_after = get_le64 q (k + 24),
              actual_lo_frequency_hz = get_le64 q (k + 56),
              actual_if_offset_hz = get_le64 q (k + 64), device_event_id = get_le64 q (k + 72),
              from_profile = q ! (k + 48), to_profile = q ! (k + 49), event_kind = q ! (k + 50),
              event_flags = q ! (k + 51), event_fastlock_slot = get_le16 q (k + 52)\<rparr>,
            invalid_start = get_le64 q (k + 32), invalid_end = get_le64 q (k + 40)\<rparr>"
    using dec by (auto simp: decode_event_def Let_def split: if_splits)
  have "spans ((k, k + 80) # xs) \<subseteq> spans ?ys"
    by (auto simp: spans_Cons)
  moreover have "agree (spans ?ys) (encode_event p k e) q"
    unfolding encode_event_def Let_def e hop_event.simps hop_device_event.simps
    by (intro agree_spans_put agree_spans_zero(2) assms q0)
  ultimately show ?thesis by (rule agree_mono [rotated])
qed

lemma agree_spans_events:
  assumes "decode_events q i n = Inr es" and "agree (spans xs) p q"
    and "event_pads_zero p i n"
  shows "agree (spans ((64 + i * 80, 64 + (i + n) * 80) # xs)) (encode_events p i es) q"
  using assms
proof (induction q i n arbitrary: es p xs rule: decode_events.induct)
  case (1 q i)
  then show ?case by (simp add: spans_Cons)
next
  case (2 q i n)
  let ?k = "64 + i * 80"
  obtain e es' where e: "decode_event q ?k = Inr e" and dec: "decode_events q (Suc i) n = Inr es'"
    and es: "es = e # es'"
    using "2.prems"(1) by (auto split: sum.splits)
  have ag: "agree (spans ((?k, ?k + 80) # xs)) (encode_event p ?k e) q"
    using "2.prems"(2,3) e by (intro agree_spans_event) (auto simp: event_pads_zero_def)
  have pads: "event_pads_zero (encode_event p ?k e) (Suc i) n"
    using event_pads_zero_encode_event [OF "2.prems"(3)] by (simp add: event_pads_zero_def)
  have "agree (spans ((64 + Suc i * 80, 64 + (Suc i + n) * 80) # (?k, ?k + 80) # xs))
      (encode_events (encode_event p ?k e) (Suc i) es') q"
    by (rule "2.IH" [OF e dec ag pads])
  moreover have "spans ((?k, 64 + (i + Suc n) * 80) # xs)
      \<subseteq> spans ((64 + Suc i * 80, 64 + (Suc i + n) * 80) # (?k, ?k + 80) # xs)"
    by (auto simp: spans_Cons)
  ultimately have "agree (spans ((?k, 64 + (i + Suc n) * 80) # xs))
      (encode_events (encode_event p ?k e) (Suc i) es') q"
    by (rule agree_mono)
  then show ?case by (simp add: es)
qed

lemma decode_events_valid:
  "decode_events q i n = Inr es \<Longrightarrow> validate_events es = 0"
  by (induction q i n arbitrary: es rule: decode_events.induct)
    (auto simp: decode_event_def Let_def split: sum.splits if_splits)

lemma sidecar_encode_decode:
  assumes dec: "sidecar_decode q = Inr s"
  shows "sidecar_wf s \<and> sidecar_record s = Inr q"
proof -
  define c where "c = get_le16 q 20"
  let ?r = "sidecar_record_bytes c"
  have const: "HOP_SIDECAR_MAGIC = get_le32 q 0" "1 = get_le16 q 4" "64 = get_le16 q 6"
    "HOP_REQUIRED_FEATURES = get_le32 q 12" "8 = get_le16 q 22"
    and bytes: "unat (get_le32 q 8) = length q" "get_le32 q 8 = 64 + ucast c * 80"
    and c: "c \<le> 8"
    using dec by (auto simp: sidecar_decode_def c_def not_less simp del: One_nat_def split: if_splits)
  obtain es where es: "decode_events q 0 (unat c) = Inr es"
    and s: "s = \<lparr>sidecar_flags = get_le32 q 16, sidecar_session_id = get_le64 q 24,
          buffer_sequence = get_le64 q 32, block_first_sample = get_le64 q 40,
          block_end_sample = get_le64 q 48, sidecar_state = get_le16 q 56,
          sidecar_reason = get_le16 q 58, sidecar_error = get_le32 q 60, event_count = c,
          events = es @ replicate (8 - unat c) zero_event\<rparr>"
    and val: "validate_state (get_le16 q 56) (get_le16 q 58) (get_le32 q 60) (get_le32 q 16) = 0"
      "get_le64 q 24 \<noteq> 0" "get_le64 q 40 < get_le64 q 48"
    using dec by (auto simp: sidecar_decode_def Let_def c_def split: if_splits sum.splits)
  have r: "of_nat ?r = get_le32 q 8" "length q = ?r"
    using record_bytes_u32 [OF c] bytes by simp_all
  have r64: "?r = 64 + unat c * 80" by (simp add: sidecar_record_bytes_def)
  have les: "length es = unat c" using decode_events_length [OF es] .
  have c8: "unat c \<le> 8" using c by (simp add: word_le_nat_alt)
  define z where "z = clear_bytes (replicate ?r (0::u8)) ?r"
  have z: "agree (spans []) z q" by (simp add: agree_refl_length z_def r)
  define e where "e = put_le32 (put_le16 (put_le16 (put_le64 (put_le64 (put_le64 (put_le64
    (put_le16 (put_le16 (put_le32 (put_le32 (put_le32 (put_le16 (put_le16 (put_le32 z
      0 (get_le32 q 0)) 4 (get_le16 q 4)) 6 (get_le16 q 6)) 8 (get_le32 q 8)) 12 (get_le32 q 12))
      16 (get_le32 q 16)) 20 (get_le16 q 20)) 22 (get_le16 q 22)) 24 (get_le64 q 24))
      32 (get_le64 q 32)) 40 (get_le64 q 40)) 48 (get_le64 q 48))
      56 (get_le16 q 56)) 58 (get_le16 q 58)) 60 (get_le32 q 60)"
  let ?header = "[(60, 60 + 4), (58, 58 + 2), (56, 56 + 2), (48, 48 + 8), (40, 40 + 8), (32, 32 + 8),
      (24, 24 + 8), (22, 22 + 2), (20, 20 + 2), (16, 16 + 4), (12, 12 + 4), (8, 8 + 4), (6, 6 + 2),
      (4, 4 + 2), (0::nat, 0 + 4)]"
  have e: "agree (spans ?header) e q"
    unfolding e_def by (intro agree_spans_put z)
  have "covers 64 0 64 ?header" by (simp add: covers.simps)
  from covers_subset [OF this] have "spans [(0, 64)] \<subseteq> spans ?header"
    by (simp only: spans_def) simp
  with e have e64: "agree (spans [(0, 64)]) e q" by (rule agree_mono)
  have "event_pads_zero e 0 (unat c)"
    by (auto simp: event_pads_zero_def e_def z_def r64 wire_simps)
  from agree_spans_events [OF es e64 this] have ag: "agree (spans [(64, ?r), (0, 64)])
      (encode_events e 0 es) q"
    by (simp add: r64)
  have "encode_events e 0 es = q"
    by (rule agree_full [OF agree_mono [OF ag]])
      (auto simp: spans_Cons e_def z_def r(2))
  moreover have "sidecar_record s = Inr (encode_events e 0 es)"
  proof -
    have "take (unat c) (es @ replicate (8 - unat c) zero_event) = es" using les by simp
    then show ?thesis
      using c val decode_events_valid [OF es]
      by (simp add: sidecar_record_def sidecar_encode_def s Let_def e_def z_def const [symmetric]
          r(1) not_less not_le c_def [symmetric])
  qed
  moreover have "sidecar_wf s"
    using les c8 by (simp add: sidecar_wf_def s)
  ultimately show ?thesis by simp
qed

interpretation hop_sidecar_codec: wire_codec sidecar_wf sidecar_record sidecar_decode
  by unfold_locales (auto intro: sidecar_decode_encode simp: sidecar_encode_decode)

subsection \<open>Properties\<close>

text \<open>The sidecar format is exact. The decoder accepts exactly the records that the encoder
writes for a valid sidecar with at most eight events (64 bytes and 80 for each event), and returns
that sidecar with its unused event entries cleared.\<close>

lemma hop_sidecar_wire_exact:
  "sidecar_decode w = Inr s \<longleftrightarrow> sidecar_wf s \<and> sidecar_record s = Inr w"
  by (rule hop_sidecar_codec.decode_iff)

text \<open>The hop status format is exact. The decoder accepts exactly the messages that the
encoder writes for a valid status, and returns that status.\<close>

lemma hop_status_wire_exact:
  "hop_status_decode w = Inr s \<longleftrightarrow> hop_status_encode (replicate 160 0) s = Inr w"
  using hop_status_codec.decode_iff by simp

text \<open>C24: The sidecar and status formats of the hop protocol are exact. Each decoder accepts exactly the
messages that the encoder writes for a valid value (a sidecar of at most eight events takes 64 bytes
and 80 for each event, a status 160 bytes) and returns that value, so no byte of an accepted message
is ignored and no two messages mean the same.\<close>

theorem hop_reports_wire_exact:
  "(sidecar_decode w = Inr s \<longleftrightarrow> sidecar_wf s \<and> sidecar_record s = Inr w) \<and>
   (hop_status_decode w = Inr st \<longleftrightarrow> hop_status_encode (replicate 160 0) st = Inr w)"
  by (simp add: hop_sidecar_wire_exact hop_status_wire_exact)

end
