(* ===== verification/Scan_Policy.thy ===== *)
theory Scan_Policy
  imports Iiod_Prelude "HOL-Library.Multiset"
begin

unbundle bit_operations_syntax

text \<open>
  The scan policy (\<open>iiod/spf-scan-policy.c\<close>): which of up to eight target frequencies the radio
  visits next. Targets are drawn at random in proportion to their weights among those whose choice
  leaves an earliest-deadline-first order in which every target is revisited in time; the client's
  feedback raises or lowers a weight, and every accepted feedback gets one acknowledgement.

  Counters and times are 64-bit words. The C arrays are lists of the same length; a value of type
  \<open>unsigned\<close> that counts entries of an array is a natural number below \<open>2 ^ 32\<close>.
\<close>

subsection \<open>Constants and records\<close>

abbreviation (input) SCAN_TARGETS :: "'a::numeral" where "SCAN_TARGETS \<equiv> 8"
abbreviation (input) SCAN_MAX_VISITS :: "'a::numeral" where "SCAN_MAX_VISITS \<equiv> 16384"
abbreviation (input) ACK_CAPACITY :: "'a::numeral" where "ACK_CAPACITY \<equiv> 64"
abbreviation (input) WEIGHT_ONE :: "'a::numeral" where "WEIGHT_ONE \<equiv> 65536"
abbreviation (input) SCAN_PROTOCOL_VERSION :: u16 where "SCAN_PROTOCOL_VERSION \<equiv> 1"
abbreviation (input) RUNTIME_RATE_VERSION :: u16 where "RUNTIME_RATE_VERSION \<equiv> 2"
abbreviation (input) RANDOM_DWELL_VERSION :: u16 where "RANDOM_DWELL_VERSION \<equiv> 3"
abbreviation (input) FIXED_DWELL_VERSION :: u16 where "FIXED_DWELL_VERSION \<equiv> 4"
abbreviation (input) CONTINUOUS_VERSION :: u16 where "CONTINUOUS_VERSION \<equiv> 5"
abbreviation (input) CONTINUOUS_HISTORY :: "'a::numeral" where "CONTINUOUS_HISTORY \<equiv> 128"
abbreviation (input) OUTCOME_UNKNOWN :: u32 where "OUTCOME_UNKNOWN \<equiv> 0"
abbreviation (input) OUTCOME_ACTIVE :: u32 where "OUTCOME_ACTIVE \<equiv> 1"
abbreviation (input) OUTCOME_QUIET :: u32 where "OUTCOME_QUIET \<equiv> 2"

datatype feedback_result = FB_ACCEPTED | FB_DUPLICATE | FB_EXPIRED | FB_WRONG_SESSION
  | FB_REJECTED | FB_SUPERSEDED | FB_MAILBOX_FULL | FB_APPLIED | FB_CANCELLED

record policy_config =
  session :: u64
  generation :: u64
  seed :: u64
  protocol_version :: u16
  source_rate_hz :: u32
  targets :: u32
  duration_ms :: u32
  dwell_ms :: u32
  transition_budget_ms :: u32
  maximum_revisit_ms :: u32
  feedback_age_ms :: u32
  application_delay_ms :: u32
  decay_ms :: u32
  maximum_boost :: u32
  baseline :: "u32 list"
  analysis_digest :: "u8 list"

record scan_feedback =
  fb_session :: u64
  fb_generation :: u64
  fb_sequence :: u64
  fb_visit :: u64
  fb_valid_start :: u64
  fb_valid_end :: u64
  fb_target :: u32
  fb_outcome :: u32
  fb_digest :: "u8 list"

record scan_ack =
  ack_sequence :: u64
  ack_source_visit :: u64
  ack_first_visit :: u64
  ack_received :: u64
  ack_application :: u64
  ack_target :: nat
  ack_result :: feedback_result
  ack_old_boost :: u32
  ack_new_boost :: u32

record scan_choice =
  choice_visit :: u64
  selection_counter :: u64
  choice_target :: nat
  eligible_mask :: u32
  effective_weight :: u32
  choice_dwell_ms :: u32
  deadline_forced :: bool

record scan_visit =
  visit_start :: u64
  visit_end :: u64
  visit_target :: nat
  finished :: bool
  intact :: bool

record pending_feedback =
  pf_value :: scan_feedback
  pf_received :: u64
  pf_occupied :: bool

record scan_policy =
  config :: policy_config
  visits :: "scan_visit list"
  pol_start :: u64
  pol_end :: u64
  dwell :: u64
  transition :: u64
  revisit :: u64
  age :: u64
  delay :: u64
  decay :: u64
  rng :: u64
  last_now :: u64
  visit_count :: u64
  max_visits :: u64
  last_start :: "u64 list"
  boost_time :: "u64 list"
  boost :: "u32 list"
  target_active :: "bool list"
  channel_sequence :: "u64 list"
  highest_sequence :: u64
  seen :: u64
  pending :: "pending_feedback list"
  acks :: "scan_ack list"
  ack_head :: nat
  ack_count :: nat
  pending_count :: nat
  selection :: scan_choice
  selected :: bool
  stopped :: bool

text \<open>The zeroed structures that \<open>calloc\<close> returns.\<close>

definition zero_feedback :: scan_feedback where
  "zero_feedback = \<lparr>fb_session = 0, fb_generation = 0, fb_sequence = 0, fb_visit = 0,
     fb_valid_start = 0, fb_valid_end = 0, fb_target = 0, fb_outcome = 0,
     fb_digest = replicate 32 0\<rparr>"

definition zero_ack :: scan_ack where
  "zero_ack = \<lparr>ack_sequence = 0, ack_source_visit = 0, ack_first_visit = 0, ack_received = 0,
     ack_application = 0, ack_target = 0, ack_result = FB_ACCEPTED, ack_old_boost = 0,
     ack_new_boost = 0\<rparr>"

definition zero_choice :: scan_choice where
  "zero_choice = \<lparr>choice_visit = 0, selection_counter = 0, choice_target = 0, eligible_mask = 0,
     effective_weight = 0, choice_dwell_ms = 0, deadline_forced = False\<rparr>"

definition zero_visit :: scan_visit where
  "zero_visit = \<lparr>visit_start = 0, visit_end = 0, visit_target = 0, finished = False,
     intact = False\<rparr>"

definition zero_pending :: pending_feedback where
  "zero_pending = \<lparr>pf_value = zero_feedback, pf_received = 0, pf_occupied = False\<rparr>"

text \<open>Decrement of an \<open>unsigned\<close> counter, with its wrap-around.\<close>

definition uint_dec :: "nat \<Rightarrow> nat" where
  "uint_dec n = (if n = 0 then 4294967295 else n - 1)"

lemma uint_dec: "0 < n \<Longrightarrow> uint_dec n = n - 1"
  by (simp add: uint_dec_def)

subsection \<open>Creation\<close>

definition scan_rate_valid :: "u32 \<Rightarrow> bool" where
  "scan_rate_valid rate \<longleftrightarrow> 520833 \<le> rate \<and> rate \<le> 61440000"

definition scan_ticks :: "u32 \<Rightarrow> u32 \<Rightarrow> u64" where
  "scan_ticks rate ms = (ucast rate :: u64) * ucast ms div 1000"

definition ticks :: "policy_config \<Rightarrow> u32 \<Rightarrow> u64" where
  "ticks c ms = scan_ticks (source_rate_hz c) ms"

definition policy_validate :: "policy_config \<Rightarrow> int" where
  "policy_validate c =
     (let v = protocol_version c; rate = source_rate_hz c in
      if session c = 0 \<or> generation c = 0 \<or> seed c = 0 \<or> targets c = 0 \<or>
         SCAN_TARGETS < targets c \<or>
         (if v = CONTINUOUS_VERSION
          then duration_ms c \<noteq> 0 \<or> dwell_ms c \<noteq> 20 \<or> targets c \<noteq> 8 \<or>
            (rate \<noteq> 1250000 \<and> rate \<noteq> 2500000 \<and> rate \<noteq> 5000000 \<and> rate \<noteq> 7500000 \<and>
             rate \<noteq> 10000000) \<or> maximum_boost c \<noteq> 1
          else duration_ms c = 0 \<or> 300000 < duration_ms c) \<or>
         (if v = RANDOM_DWELL_VERSION \<or> v = FIXED_DWELL_VERSION
          then dwell_ms c \<noteq> 120 \<and> dwell_ms c \<noteq> 240 \<and> dwell_ms c \<noteq> 360
          else dwell_ms c < 20 \<or> 240 < dwell_ms c) \<or>
         transition_budget_ms c = 0 \<or> 100 < transition_budget_ms c \<or>
         maximum_revisit_ms c = 0 \<or> 10000 < maximum_revisit_ms c \<or>
         feedback_age_ms c = 0 \<or> 10000 < feedback_age_ms c \<or>
         application_delay_ms c = 0 \<or> 10000 < application_delay_ms c \<or>
         decay_ms c = 0 \<or> 60000 < decay_ms c \<or>
         maximum_boost c < 1 \<or> 16 < maximum_boost c
      then - EINVAL
      else if (v \<noteq> 0 \<and> v \<noteq> SCAN_PROTOCOL_VERSION \<and> v \<noteq> RUNTIME_RATE_VERSION \<and>
          v \<noteq> RANDOM_DWELL_VERSION \<and> v \<noteq> FIXED_DWELL_VERSION \<and> v \<noteq> CONTINUOUS_VERSION) \<or>
          (v = FIXED_DWELL_VERSION \<and> rate \<noteq> 2500000) \<or>
          (v = RANDOM_DWELL_VERSION \<and> rate \<noteq> 1250000 \<and> rate \<noteq> 2500000 \<and> rate \<noteq> 5000000 \<and>
           rate \<noteq> 7500000 \<and> rate \<noteq> 10000000) \<or>
          (v \<noteq> RANDOM_DWELL_VERSION \<and> v \<noteq> FIXED_DWELL_VERSION \<and> \<not> scan_rate_valid rate)
      then - EOPNOTSUPP
      else if foldl (OR) 0 (analysis_digest c) = 0 then - EINVAL
      else if \<exists>i \<in> set [0..<SCAN_TARGETS].
          (i < unat (targets c) \<and> (baseline c ! i = 0 \<or> 1024 < baseline c ! i \<or>
             (v = CONTINUOUS_VERSION \<and> baseline c ! i \<noteq> 1))) \<or>
          (unat (targets c) \<le> i \<and> baseline c ! i \<noteq> 0)
      then - EINVAL
      else let slot = (ucast (dwell_ms c) :: u64) + ucast (transition_budget_ms c) in
      if ucast (maximum_revisit_ms c) < slot * ucast (targets c) \<or>
         ucast (application_delay_ms c) < slot \<or>
         (v \<noteq> CONTINUOUS_VERSION \<and> ucast (duration_ms c) < slot)
      then - ERANGE
      else 0)"

text \<open>The two allocations may fail; \<open>mem\<close> and \<open>visits_mem\<close> say whether they succeed.\<close>

definition policy_create :: "bool \<Rightarrow> bool \<Rightarrow> policy_config \<Rightarrow> u64 \<Rightarrow> scan_policy res" where
  "policy_create mem visits_mem c start =
     (let ret = policy_validate c in
      if ret \<noteq> 0 then Inl ret
      else if UINT64_MAX - ticks c (duration_ms c) - ticks c (maximum_revisit_ms c) < start
      then Inl (- EOVERFLOW)
      else if \<not> mem then Inl (- ENOMEM)
      else let continuous = (protocol_version c = CONTINUOUS_VERSION);
          max = (if continuous then CONTINUOUS_HISTORY
             else ucast (duration_ms c div
               (if protocol_version c = RANDOM_DWELL_VERSION then 120 else dwell_ms c) + 1)) :: u64
        in if SCAN_MAX_VISITS < max then Inl (- E2BIG)
      else if \<not> visits_mem then Inl (- ENOMEM)
      else let n = unat (targets c); rest = SCAN_TARGETS - n in
      Inr \<lparr>config = c, visits = replicate (unat max) zero_visit, pol_start = start,
        pol_end = (if continuous then UINT64_MAX else start + ticks c (duration_ms c)),
        dwell = ticks c (dwell_ms c), transition = ticks c (transition_budget_ms c),
        revisit = ticks c (maximum_revisit_ms c), age = ticks c (feedback_age_ms c),
        delay = ticks c (application_delay_ms c), decay = ticks c (decay_ms c),
        rng = seed c, last_now = start, visit_count = 0, max_visits = max,
        last_start = replicate n start @ replicate rest 0,
        boost_time = replicate n start @ replicate rest 0,
        boost = replicate n WEIGHT_ONE @ replicate rest 0,
        target_active = replicate SCAN_TARGETS False,
        channel_sequence = replicate SCAN_TARGETS 0, highest_sequence = 0, seen = 0,
        pending = replicate SCAN_TARGETS zero_pending,
        acks = replicate ACK_CAPACITY zero_ack, ack_head = 0, ack_count = 0, pending_count = 0,
        selection = zero_choice, selected = False, stopped = False\<rparr>)"

subsection \<open>Weights, acknowledgements and deadlines\<close>

definition decayed :: "scan_policy \<Rightarrow> nat \<Rightarrow> u64 \<Rightarrow> u32" where
  "decayed p i now =
     (let elapsed = now - boost_time p ! i in
      if decay p \<le> elapsed then WEIGHT_ONE
      else WEIGHT_ONE + ucast ((ucast (boost p ! i - WEIGHT_ONE) :: u64) * (decay p - elapsed)
             div decay p))"

definition terminal_ack :: "scan_policy \<Rightarrow> nat \<Rightarrow> feedback_result \<Rightarrow> u64 \<Rightarrow> u32 \<Rightarrow> u32 \<Rightarrow> scan_policy" where
  "terminal_ack p i result now prior after =
     (let f = pending p ! i;
          a = \<lparr>ack_sequence = fb_sequence (pf_value f), ack_source_visit = fb_visit (pf_value f),
            ack_first_visit = (if result = FB_APPLIED then visit_count p else UINT64_MAX),
            ack_received = pf_received f, ack_application = now, ack_target = i,
            ack_result = result, ack_old_boost = prior, ack_new_boost = after\<rparr>
      in p\<lparr>acks := (acks p)[(ack_head p + ack_count p) mod ACK_CAPACITY := a],
           ack_count := ack_count p + 1, pending_count := uint_dec (pending_count p),
           pending := (pending p)[i := f\<lparr>pf_occupied := False\<rparr>]\<rparr>)"

text \<open>
  The insertion of a deadline into the sorted array: from the end, larger deadlines shift up.
  \<open>edf_insert_back\<close> works on the reversed array, the largest deadline first.
\<close>

fun edf_insert_back :: "u64 \<Rightarrow> u64 list \<Rightarrow> u64 list" where
  "edf_insert_back d [] = [d]"
| "edf_insert_back d (x # xs) = (if d < x then x # edf_insert_back d xs else d # x # xs)"

definition edf_insert :: "u64 \<Rightarrow> u64 list \<Rightarrow> u64 list" where
  "edf_insert d ds = rev (edf_insert_back d (rev ds))"

text \<open>The sorted deadlines of the other targets.\<close>

definition other_deadlines :: "scan_policy \<Rightarrow> nat \<Rightarrow> u64 list" where
  "other_deadlines p candidate =
     fold (\<lambda>i ds. if i = candidate then ds else edf_insert (last_start p ! i + revisit p) ds)
       [0..<unat (targets (config p))] []"

fun edf_meets :: "u64 \<Rightarrow> u64 \<Rightarrow> u64 list \<Rightarrow> bool" where
  "edf_meets slot t [] = True"
| "edf_meets slot t (d # ds) =
     (let t = t + slot in if d < t then False else edf_meets slot t ds)"

definition feasible :: "scan_policy \<Rightarrow> nat \<Rightarrow> u64 \<Rightarrow> bool" where
  "feasible p candidate now =
     (let t = now + transition p in
      if last_start p ! candidate + revisit p < t then False
      else edf_meets (dwell p + transition p) t (other_deadlines p candidate))"

subsection \<open>Random draws\<close>

definition random64 :: "u64 \<Rightarrow> u64 \<times> u64" where
  "random64 r =
     (let x = r; x = x XOR drop_bit 12 x; x = x XOR push_bit 25 x; x = x XOR drop_bit 27 x
      in (x * 2685821657736338717, x))"

text \<open>The rejection loop returns the accepted draw and the generator's state; whether it ends
  depends on the generator, so it is a partial function.\<close>

partial_function (option) draw_from :: "u64 \<Rightarrow> u64 \<Rightarrow> (u64 \<times> u64) option" where
  "draw_from threshold r =
     (let (draw, r') = random64 r in
      if draw < threshold then draw_from threshold r' else Some (draw, r'))"

declare draw_from.simps [code]

fun pick_target :: "nat \<Rightarrow> u64 list \<Rightarrow> u64 \<Rightarrow> nat" where
  "pick_target i [] draw = 0"
| "pick_target i (w # ws) draw = (if draw < w then i else pick_target (Suc i) ws (draw - w))"

subsection \<open>Selection\<close>

text \<open>What a selection does with the pending feedback of one target.\<close>

definition apply_pending :: "scan_policy \<Rightarrow> u64 \<Rightarrow> nat \<Rightarrow> scan_policy" where
  "apply_pending p now i =
     (let f = pending p ! i; v = pf_value f; prior = decayed p i now in
      if \<not> pf_occupied f then p
      else if delay p < now - pf_received f \<or> age p < now - fb_valid_end v
      then terminal_ack p i FB_EXPIRED now prior prior
      else let
        after = (if fb_outcome v = OUTCOME_ACTIVE then maximum_boost (config p) * WEIGHT_ONE
                 else if fb_outcome v = OUTCOME_QUIET
                 then WEIGHT_ONE + (prior - WEIGHT_ONE) div 2
                 else prior);
        p = (if protocol_version (config p) = RANDOM_DWELL_VERSION \<and>
                fb_outcome v \<noteq> OUTCOME_UNKNOWN
             then p\<lparr>target_active := (target_active p)[i := (fb_outcome v = OUTCOME_ACTIVE)]\<rparr>
             else p);
        p = (if fb_outcome v \<noteq> OUTCOME_UNKNOWN
             then p\<lparr>boost := (boost p)[i := after], boost_time := (boost_time p)[i := now]\<rparr>
             else p)
      in terminal_ack p i FB_APPLIED now prior after)"

fun weigh_targets :: "u32 \<Rightarrow> u64 \<Rightarrow> nat list \<Rightarrow> scan_policy \<times> u64 list \<times> u64
    \<Rightarrow> scan_policy \<times> u64 list \<times> u64" where
  "weigh_targets emask now [] (p, weights, sum_w) = (p, weights, sum_w)"
| "weigh_targets emask now (i # is) (p, weights, sum_w) =
     (let p = apply_pending p now i in
      if emask AND push_bit i 1 \<noteq> 0
      then let w = ucast (baseline (config p) ! i) * ucast (decayed p i now)
        in weigh_targets emask now is (p, weights[i := w], sum_w + w)
      else weigh_targets emask now is (p, weights, sum_w))"

definition eligible :: "scan_policy \<Rightarrow> u64 \<Rightarrow> u32" where
  "eligible p now = fold (\<lambda>i mask. if feasible p i now then mask OR push_bit i 1 else mask)
     [0..<unat (targets (config p))] 0"

text \<open>The strictly ordered mode of the continuous protocol.\<close>

definition select_ordered :: "scan_policy \<Rightarrow> u64 \<Rightarrow> scan_choice res \<times> scan_policy" where
  "select_ordered p now =
     (let chosen = unat (visit_count p mod ucast (targets (config p))) in
      if visit_count p = UINT64_MAX \<or> UINT64_MAX - now < dwell p + transition p
      then (Inl (- EOVERFLOW), p)
      else if revisit p < now + transition p - last_start p ! chosen then (Inl (- ETIME), p)
      else let s = \<lparr>choice_visit = visit_count p, selection_counter = now,
          choice_target = chosen, eligible_mask = push_bit chosen 1,
          effective_weight = WEIGHT_ONE, choice_dwell_ms = 20, deadline_forced = True\<rparr>
        in (Inr s, p\<lparr>selection := s, last_now := now, selected := True\<rparr>))"

text \<open>The weighted draw, once the eligible targets are known.\<close>

definition select_drawn :: "scan_policy \<Rightarrow> u64 \<Rightarrow> u32 \<Rightarrow> (scan_choice res \<times> scan_policy) option" where
  "select_drawn p now emask =
     (let n = unat (targets (config p));
          (p, weights, total) = weigh_targets emask now [0..<n] (p, replicate SCAN_TARGETS 0, 0)
      in case draw_from ((0 - total) mod total) (rng p) of
        None \<Rightarrow> None
      | Some (draw, r) \<Rightarrow>
          (let chosen = pick_target 0 (take n weights) (draw mod total);
               s = \<lparr>choice_visit = visit_count p, selection_counter = now,
                 choice_target = chosen, eligible_mask = emask,
                 effective_weight = ucast (weights ! chosen),
                 choice_dwell_ms = (if protocol_version (config p) = RANDOM_DWELL_VERSION \<and>
                     \<not> target_active p ! chosen then 120 else dwell_ms (config p)),
                 deadline_forced = (emask AND (emask - 1) = 0 \<and> 1 < targets (config p))\<rparr>;
               p = p\<lparr>rng := r, selection := s\<rparr>
           in if pol_end p - now < ticks (config p) (choice_dwell_ms s) + transition p
              then Some (Inl (- ENODATA), p)
              else Some (Inr s, p\<lparr>last_now := now, selected := True\<rparr>)))"

definition policy_select :: "scan_policy \<Rightarrow> u64 \<Rightarrow> (scan_choice res \<times> scan_policy) option" where
  "policy_select p now =
     (if stopped p then Some (Inl (- ESHUTDOWN), p)
      else if selected p then Some (Inl (- EBUSY), p)
      else if now < last_now p \<or> (visit_count p \<noteq> 0 \<and>
          now < visit_end (visits p ! unat ((visit_count p - 1) mod max_visits p)))
      then Some (Inl (- ERANGE), p)
      else if protocol_version (config p) = CONTINUOUS_VERSION then Some (select_ordered p now)
      else if pol_end p \<le> now \<or> pol_end p - now <
          (if protocol_version (config p) = RANDOM_DWELL_VERSION then ticks (config p) 120
           else dwell p) + transition p
      then Some (Inl (- ENODATA), p)
      else if max_visits p \<le> visit_count p then Some (Inl (- EOVERFLOW), p)
      else let mask = eligible p now in
      if mask = 0 then Some (Inl (- ETIME), p) else select_drawn p now mask)"

subsection \<open>Visits and feedback\<close>

definition policy_commit :: "scan_policy \<Rightarrow> u64 \<Rightarrow> int \<times> scan_policy" where
  "policy_commit p start =
     (let s = selection p; length_ticks = ticks (config p) (choice_dwell_ms s) in
      if \<not> selected p \<or> stopped p then (- EINVAL, p)
      else if start < selection_counter s then (- ETIME, p)
      else if pol_end p < start \<or> pol_end p - start < length_ticks then (- ENODATA, p)
      else if protocol_version (config p) = CONTINUOUS_VERSION \<and>
          revisit p < start - last_start p ! choice_target s
      then (- ETIME, p)
      else (0, p\<lparr>visits := (visits p)[unat (visit_count p mod max_visits p) :=
             \<lparr>visit_start = start, visit_end = start + length_ticks,
              visit_target = choice_target s, finished = False, intact = False\<rparr>],
           visit_count := visit_count p + 1,
           last_start := (last_start p)[choice_target s := start],
           selected := False, last_now := start\<rparr>))"

definition policy_finish_visit :: "scan_policy \<Rightarrow> u64 \<Rightarrow> bool \<Rightarrow> int \<times> scan_policy" where
  "policy_finish_visit p visit ok =
     (let k = unat (visit mod max_visits p); v = visits p ! k in
      if visit_count p \<le> visit \<or> max_visits p < visit_count p - visit then (- EINVAL, p)
      else if finished v then (- EALREADY, p)
      else (0, p\<lparr>visits := (visits p)[k := v\<lparr>finished := True, intact := ok\<rparr>]\<rparr>))"

definition policy_feedback :: "scan_policy \<Rightarrow> scan_feedback \<Rightarrow> u64 \<Rightarrow> feedback_result \<times> scan_policy" where
  "policy_feedback p f now =
     (let v = visits p ! unat (fb_visit f); t = unat (fb_target f); sq = fb_sequence f;
          distance = highest_sequence p - sq in
      if stopped p \<or> protocol_version (config p) = CONTINUOUS_VERSION then (FB_REJECTED, p)
      else if fb_session f \<noteq> session (config p) \<or> fb_generation f \<noteq> generation (config p)
      then (FB_WRONG_SESSION, p)
      else if sq = 0 \<or> targets (config p) \<le> fb_target f \<or> OUTCOME_QUIET < fb_outcome f \<or>
          visit_count p \<le> fb_visit f \<or> fb_digest f \<noteq> analysis_digest (config p)
      then (FB_REJECTED, p)
      else if \<not> finished v \<or> \<not> intact v \<or> t \<noteq> visit_target v \<or> fb_valid_start f \<noteq> visit_start v \<or>
          fb_valid_end f \<noteq> visit_end v \<or> now < visit_end v \<or> now < last_now p
      then (FB_REJECTED, p)
      else if age p < now - visit_end v then (FB_EXPIRED, p)
      else if sq \<le> highest_sequence p \<and> 64 \<le> distance then (FB_EXPIRED, p)
      else if sq \<le> highest_sequence p \<and> seen p AND push_bit (unat distance) 1 \<noteq> 0
      then (FB_DUPLICATE, p)
      else if sq \<le> channel_sequence p ! t then (FB_SUPERSEDED, p)
      else if ACK_CAPACITY \<le> ack_count p + pending_count p then (FB_MAILBOX_FULL, p)
      else let
        p = (if pf_occupied (pending p ! t)
             then let weight = decayed p t now in terminal_ack p t FB_SUPERSEDED now weight weight
             else p);
        p = (if highest_sequence p < sq
             then let distance = sq - highest_sequence p in
               p\<lparr>seen := (if 64 \<le> distance then 0 else push_bit (unat distance) (seen p)),
                 highest_sequence := sq\<rparr>
             else p)
      in (FB_ACCEPTED,
          p\<lparr>seen := seen p OR push_bit (unat (highest_sequence p - sq)) 1,
            channel_sequence := (channel_sequence p)[t := sq],
            pending := (pending p)[t := \<lparr>pf_value = f, pf_received = now, pf_occupied = True\<rparr>],
            pending_count := pending_count p + 1, last_now := now\<rparr>))"

definition policy_take_ack :: "scan_policy \<Rightarrow> scan_ack res \<times> scan_policy" where
  "policy_take_ack p =
     (if ack_count p = 0 then (Inl (- EAGAIN), p)
      else (Inr (acks p ! ack_head p),
        p\<lparr>ack_head := (ack_head p + 1) mod ACK_CAPACITY, ack_count := uint_dec (ack_count p)\<rparr>))"

definition cancel_pending :: "u64 \<Rightarrow> nat \<Rightarrow> scan_policy \<Rightarrow> scan_policy" where
  "cancel_pending now i p =
     (if pf_occupied (pending p ! i)
      then let weight = decayed p i now in terminal_ack p i FB_CANCELLED now weight weight
      else p)"

definition policy_stop :: "scan_policy \<Rightarrow> u64 \<Rightarrow> scan_policy" where
  "policy_stop p now =
     (if stopped p then p
      else let now = (if now < last_now p then last_now p else now) in
        (fold (cancel_pending now) [0..<unat (targets (config p))] p)\<lparr>stopped := True\<rparr>)"

end
