(* ===== verification/Scan_Feedback.thy ===== *)
theory Scan_Feedback
  imports Scan_Policy
begin

unbundle bit_operations_syntax

text \<open>
  Feedback and acknowledgements of the scan policy: what a validated configuration guarantees,
  the shape of the policy's arrays, the conservation of accepted feedback (pending, queued as an
  acknowledgement, or taken), and the bounds of the weights.
\<close>

subsection \<open>Validated configurations\<close>

definition config_ok :: "policy_config \<Rightarrow> bool" where
  "config_ok c \<longleftrightarrow> 0 < unat (targets c) \<and> unat (targets c) \<le> 8 \<and>
     (protocol_version c = CONTINUOUS_VERSION \<longrightarrow> duration_ms c = 0) \<and>
     unat (duration_ms c) \<le> 300000 \<and> 20 \<le> unat (dwell_ms c) \<and> unat (dwell_ms c) \<le> 360 \<and>
     (protocol_version c = CONTINUOUS_VERSION \<longrightarrow> dwell_ms c = 20) \<and>
     (protocol_version c = RANDOM_DWELL_VERSION \<longrightarrow> 120 \<le> unat (dwell_ms c)) \<and>
     unat (transition_budget_ms c) \<le> 100 \<and> 0 < unat (maximum_revisit_ms c) \<and>
     unat (maximum_revisit_ms c) \<le> 10000 \<and> 0 < unat (decay_ms c) \<and> unat (decay_ms c) \<le> 60000 \<and>
     0 < unat (maximum_boost c) \<and> unat (maximum_boost c) \<le> 16 \<and>
     520833 \<le> unat (source_rate_hz c) \<and> unat (source_rate_hz c) \<le> 61440000 \<and>
     (\<forall>i < unat (targets c). 0 < unat (baseline c ! i) \<and> unat (baseline c ! i) \<le> 1024) \<and>
     (unat (dwell_ms c) + unat (transition_budget_ms c)) * unat (targets c)
       \<le> unat (maximum_revisit_ms c)"

lemma u32_zero_iff: "(w::u32) = 0 \<longleftrightarrow> \<not> 0 < unat w"
  by (simp add: unat_eq_0 [symmetric])

lemma error_ladder:
  "(if a then - EINVAL else if b then - EOPNOTSUPP else if c then - EINVAL else if d then - EINVAL
    else if e then - ERANGE else 0) = (0::int) \<longleftrightarrow> \<not> a \<and> \<not> b \<and> \<not> c \<and> \<not> d \<and> \<not> e"
  by simp

lemmas policy_validate_0 = iffD1 [OF arg_cong [where f = "\<lambda>x. x = 0", OF policy_validate_def,
  unfolded Let_def error_ladder de_Morgan_disj]]

lemma policy_validate_early:
  assumes "policy_validate c = 0"
  shows "targets c \<noteq> 0" "\<not> 8 < targets c"
    "if protocol_version c = CONTINUOUS_VERSION
     then duration_ms c = 0 \<and> dwell_ms c = 20
     else \<not> 300000 < duration_ms c"
    "if protocol_version c = RANDOM_DWELL_VERSION \<or> protocol_version c = FIXED_DWELL_VERSION
     then dwell_ms c = 120 \<or> dwell_ms c = 240 \<or> dwell_ms c = 360
     else \<not> dwell_ms c < 20 \<and> \<not> 240 < dwell_ms c"
    "\<not> 100 < transition_budget_ms c" "maximum_revisit_ms c \<noteq> 0" "\<not> 10000 < maximum_revisit_ms c"
    "decay_ms c \<noteq> 0" "\<not> 60000 < decay_ms c" "\<not> maximum_boost c < 1" "\<not> 16 < maximum_boost c"
    "\<not> (if protocol_version c = CONTINUOUS_VERSION
     then duration_ms c \<noteq> 0 \<or> dwell_ms c \<noteq> 20 \<or> targets c \<noteq> 8 \<or>
            (source_rate_hz c \<noteq> 1250000 \<and> source_rate_hz c \<noteq> 2500000 \<and> source_rate_hz c \<noteq> 5000000 \<and>
             source_rate_hz c \<noteq> 7500000 \<and> source_rate_hz c \<noteq> 10000000) \<or> maximum_boost c \<noteq> 1
     else duration_ms c = 0 \<or> 300000 < duration_ms c)"
  using policy_validate_0 [OF assms] by (simp_all split: if_split_asm) (elim conjE disjE; simp)

lemma policy_validate_rate:
  assumes "policy_validate c = 0"
  shows "520833 \<le> source_rate_hz c \<and> source_rate_hz c \<le> 61440000"
proof -
  let ?v = "protocol_version c" and ?r = "source_rate_hz c"
  note l = policy_validate_0 [OF assms]
  have "?v = 4 \<longrightarrow> ?r = 2500000" "?v \<noteq> 3 \<longrightarrow> ?v \<noteq> 4 \<longrightarrow> scan_rate_valid ?r"
    "?v = 3 \<longrightarrow> ?r = 1250000 \<or> ?r = 2500000 \<or> ?r = 5000000 \<or> ?r = 7500000 \<or> ?r = 10000000"
    using l by blast+
  then show ?thesis
    by (cases "?v = 3"; cases "?v = 4") (auto simp: scan_rate_valid_def)
qed

lemma policy_validate_late:
  assumes "policy_validate c = 0"
  shows "\<forall>i \<in> set [0..<8]. i < unat (targets c) \<longrightarrow> baseline c ! i \<noteq> 0 \<and> \<not> 1024 < baseline c ! i"
    "\<not> ucast (maximum_revisit_ms c)
       < ((ucast (dwell_ms c) :: u64) + ucast (transition_budget_ms c)) * ucast (targets c)"
  using policy_validate_0 [OF assms] by blast+

lemma policy_validate_config_ok:
  assumes "policy_validate c = 0"
  shows "config_ok c"
proof -
  note e = policy_validate_early [OF assms] and r = policy_validate_rate [OF assms]
    and l = policy_validate_late [OF assms]
  have nums: "unat (targets c) \<le> 8" "unat (transition_budget_ms c) \<le> 100"
    "unat (maximum_revisit_ms c) \<le> 10000" "unat (decay_ms c) \<le> 60000"
    "1 \<le> unat (maximum_boost c)" "unat (maximum_boost c) \<le> 16"
    using e(2,5,7,9-11) by (simp_all add: not_less word_le_nat_alt Suc_le_eq unat_gt_0)
  have dw: "20 \<le> unat (dwell_ms c) \<and> unat (dwell_ms c) \<le> 360"
    using e(4) by (auto simp: not_less word_le_nat_alt split: if_split_asm)
  have dur: "unat (duration_ms c) \<le> 300000"
    using e(3) by (auto simp: not_less word_le_nat_alt split: if_split_asm)
  have slot: "unat ((ucast (dwell_ms c) :: u64) + ucast (transition_budget_ms c))
      = unat (dwell_ms c) + unat (transition_budget_ms c)"
    using dw nums by (subst unat_add_small) simp_all
  have "(unat (dwell_ms c) + unat (transition_budget_ms c)) * unat (targets c) \<le> 460 * 8"
    using dw nums by (intro mult_le_mono) simp_all
  then have "unat (((ucast (dwell_ms c) :: u64) + ucast (transition_budget_ms c)) * ucast (targets c))
      = (unat (dwell_ms c) + unat (transition_budget_ms c)) * unat (targets c)"
    by (simp add: unat_word_ariths(2) slot)
  then have rev: "(unat (dwell_ms c) + unat (transition_budget_ms c)) * unat (targets c)
      \<le> unat (maximum_revisit_ms c)"
    using l(2) by (simp add: not_less word_le_nat_alt)
  have base: "0 < unat (baseline c ! i) \<and> unat (baseline c ! i) \<le> 1024"
    if "i < unat (targets c)" for i
  proof -
    have "i \<in> set [0..<8]" using that nums(1) by simp
    with l(1) that have "baseline c ! i \<noteq> 0" "\<not> 1024 < baseline c ! i" by blast+
    then show ?thesis by (simp add: not_less word_le_nat_alt u32_zero_iff)
  qed
  have "protocol_version c = RANDOM_DWELL_VERSION \<longrightarrow> 120 \<le> unat (dwell_ms c)"
    using e(4) by auto
  then show ?thesis
    unfolding config_ok_def
    using nums dw dur rev base r e(1,3,6,8)
    by (simp add: u32_zero_iff word_le_nat_alt)
qed

subsection \<open>Ticks\<close>

lemma unat_ticks:
  "unat (source_rate_hz c) * unat ms < 2 ^ 64 \<Longrightarrow>
   unat (ticks c ms) = unat (source_rate_hz c) * unat ms div 1000"
  by (simp add: ticks_def scan_ticks_def unat_div unat_word_ariths(2))

lemma unat_ticks_u32: "unat (ticks c ms) = unat (source_rate_hz c) * unat ms div 1000"
proof (rule unat_ticks)
  have "unat (source_rate_hz c) * unat ms < 2 ^ 32 * 2 ^ 32"
    using unsigned_less [of "source_rate_hz c"] unsigned_less [of ms]
    by (intro mult_strict_mono) simp_all
  then show "unat (source_rate_hz c) * unat ms < 2 ^ 64" by simp
qed

lemma ticks_mono: "unat a \<le> unat b \<Longrightarrow> unat (ticks c a) \<le> unat (ticks c b)"
  by (simp add: unat_ticks_u32 div_le_mono)

lemma ticks_pos: "config_ok c \<Longrightarrow> 2 \<le> unat ms \<Longrightarrow> 0 < unat (ticks c ms)"
proof -
  assume "config_ok c" "2 \<le> unat ms"
  then have "520833 * 2 \<le> unat (source_rate_hz c) * unat ms"
    by (intro mult_le_mono) (simp_all add: config_ok_def)
  then show ?thesis by (simp add: unat_ticks_u32 div_greater_zero_iff)
qed

text \<open>Rounding down never makes the slots of all targets exceed the revisit bound.\<close>

lemma slots_fit_revisit:
  assumes "config_ok c"
  shows "unat (targets c) * (unat (ticks c (dwell_ms c)) + unat (ticks c (transition_budget_ms c)))
    \<le> unat (ticks c (maximum_revisit_ms c))"
proof -
  let ?r = "unat (source_rate_hz c)" and ?d = "unat (dwell_ms c)"
    and ?t = "unat (transition_budget_ms c)" and ?n = "unat (targets c)"
  have floor: "x div k + y div k \<le> (x + y) div k" for x y k :: nat
    using div_add1_eq [of x y k] by linarith
  have mult: "n * (x div k) \<le> n * x div k" for n x k :: nat
  proof (cases "k = 0")
    case False
    have "n * (x div k) * k \<le> n * x" using div_times_less_eq_dividend [of x k]
      by (metis mult.assoc mult_le_mono2)
    then show ?thesis using False by (simp add: less_eq_div_iff_mult_less_eq)
  qed simp
  have "?n * (?r * ?d div 1000 + ?r * ?t div 1000) \<le> ?n * ((?r * ?d + ?r * ?t) div 1000)"
    by (intro mult_le_mono2 floor)
  also have "\<dots> \<le> ?n * (?r * ?d + ?r * ?t) div 1000" by (rule mult)
  also have "?n * (?r * ?d + ?r * ?t) = ?r * ((?d + ?t) * ?n)" by (simp add: algebra_simps)
  also have "\<dots> div 1000 \<le> ?r * unat (maximum_revisit_ms c) div 1000"
    using assms by (intro div_le_mono mult_le_mono2) (simp add: config_ok_def)
  finally show ?thesis unfolding unat_ticks_u32 .
qed

subsection \<open>Shape of the arrays\<close>

definition pending_items :: "scan_policy \<Rightarrow> pending_feedback list" where
  "pending_items p = filter pf_occupied (pending p)"

definition ack_queue :: "scan_policy \<Rightarrow> scan_ack list" where
  "ack_queue p = ring_view (acks p) (ack_head p) (ack_count p)"

definition policy_shape :: "scan_policy \<Rightarrow> bool" where
  "policy_shape p \<longleftrightarrow> length (pending p) = 8 \<and> length (acks p) = 64 \<and> ack_head p < 64 \<and>
     length (channel_sequence p) = 8 \<and>
     ack_count p + pending_count p \<le> 64 \<and> pending_count p = length (pending_items p) \<and>
     0 < unat (targets (config p)) \<and> unat (targets (config p)) \<le> 8 \<and>
     (\<forall>i < 8. unat (targets (config p)) \<le> i \<longrightarrow> \<not> pf_occupied (pending p ! i))"

text \<open>The sequence numbers of feedback that was accepted and whose acknowledgement was not taken.\<close>

definition pending_seqs :: "scan_policy \<Rightarrow> u64 multiset" where
  "pending_seqs p = mset (map (\<lambda>f. fb_sequence (pf_value f)) (pending_items p))"

definition queued_seqs :: "scan_policy \<Rightarrow> u64 multiset" where
  "queued_seqs p = mset (map ack_sequence (ack_queue p))"

definition outstanding :: "scan_policy \<Rightarrow> u64 multiset" where
  "outstanding p = pending_seqs p + queued_seqs p"

lemma size_outstanding:
  "policy_shape p \<Longrightarrow> size (outstanding p) = pending_count p + ack_count p"
  by (simp add: outstanding_def pending_seqs_def queued_seqs_def ack_queue_def policy_shape_def)

text \<open>Replacing an entry of the list changes the filtered entries by that entry.\<close>

lemma mset_filter_update:
  assumes "i < length xs"
  shows "mset (filter P (xs[i := x])) + (if P (xs ! i) then {#xs ! i#} else {#})
    = mset (filter P xs) + (if P x then {#x#} else {#})"
proof -
  have "mset (xs[i := x]) + {#xs ! i#} = mset xs + {#x#}"
    using assms by (simp add: mset_update)
  then have "filter_mset P (mset (xs[i := x]) + {#xs ! i#}) = filter_mset P (mset xs + {#x#})"
    by simp
  then show ?thesis by (auto split: if_splits)
qed

lemma filter_update_drop:
  assumes "i < length xs" "P (xs ! i)" "\<not> P x"
  shows "add_mset (f (xs ! i)) (image_mset f (mset (filter P (xs[i := x]))))
      = image_mset f (mset (filter P xs))"
    "Suc (length (filter P (xs[i := x]))) = length (filter P xs)"
proof -
  have eq: "add_mset (xs ! i) (mset (filter P (xs[i := x]))) = mset (filter P xs)"
    using mset_filter_update [OF assms(1), of P x] assms(2,3) by simp
  from arg_cong [OF eq, of "image_mset f"]
  show "add_mset (f (xs ! i)) (image_mset f (mset (filter P (xs[i := x]))))
      = image_mset f (mset (filter P xs))"
    by (simp only: image_mset_add_mset)
  from arg_cong [OF eq, of size]
  show "Suc (length (filter P (xs[i := x]))) = length (filter P xs)"
    by (simp only: size_add_mset size_mset)
qed

lemma filter_update_add:
  assumes "i < length xs" "\<not> P (xs ! i)" "P x"
  shows "image_mset f (mset (filter P (xs[i := x])))
      = add_mset (f x) (image_mset f (mset (filter P xs)))"
    "length (filter P (xs[i := x])) = Suc (length (filter P xs))"
proof -
  have eq: "mset (filter P (xs[i := x])) = add_mset x (mset (filter P xs))"
    using mset_filter_update [OF assms(1), of P x] assms(2,3) by simp
  show "image_mset f (mset (filter P (xs[i := x])))
      = add_mset (f x) (image_mset f (mset (filter P xs)))"
    by (simp only: eq image_mset_add_mset)
  from arg_cong [OF eq, of size]
  show "length (filter P (xs[i := x])) = Suc (length (filter P xs))"
    by (simp only: size_add_mset size_mset)
qed

lemma pending_count_pos:
  assumes "policy_shape p" and "i < 8" and "pf_occupied (pending p ! i)"
  shows "0 < pending_count p"
proof -
  have "pending p ! i \<in> set (pending_items p)"
    using assms by (simp add: policy_shape_def pending_items_def)
  then show ?thesis using assms(1) by (auto simp: policy_shape_def)
qed

lemma terminal_ack_simps [simp]:
  "config (terminal_ack p i res now b a) = config p"
  "boost (terminal_ack p i res now b a) = boost p"
  "boost_time (terminal_ack p i res now b a) = boost_time p"
  "decay (terminal_ack p i res now b a) = decay p"
  "stopped (terminal_ack p i res now b a) = stopped p"
  "highest_sequence (terminal_ack p i res now b a) = highest_sequence p"
  "seen (terminal_ack p i res now b a) = seen p"
  "channel_sequence (terminal_ack p i res now b a) = channel_sequence p"
  "last_start (terminal_ack p i res now b a) = last_start p"
  "last_now (terminal_ack p i res now b a) = last_now p"
  "visits (terminal_ack p i res now b a) = visits p"
  "visit_count (terminal_ack p i res now b a) = visit_count p"
  "max_visits (terminal_ack p i res now b a) = max_visits p"
  "pol_start (terminal_ack p i res now b a) = pol_start p"
  "pol_end (terminal_ack p i res now b a) = pol_end p"
  "dwell (terminal_ack p i res now b a) = dwell p"
  "transition (terminal_ack p i res now b a) = transition p"
  "revisit (terminal_ack p i res now b a) = revisit p"
  "rng (terminal_ack p i res now b a) = rng p"
  "age (terminal_ack p i res now b a) = age p"
  "delay (terminal_ack p i res now b a) = delay p"
  "selection (terminal_ack p i res now b a) = selection p"
  "selected (terminal_ack p i res now b a) = selected p"
  "target_active (terminal_ack p i res now b a) = target_active p"
  by (simp_all add: terminal_ack_def Let_def)

text \<open>A terminal acknowledgement moves one item from the pending array to the queue.\<close>

lemma terminal_ack_moves:
  assumes shape: "policy_shape p" and i: "i < 8" and occ: "pf_occupied (pending p ! i)"
    and p'_def: "p' = terminal_ack p i res now b a"
  shows "policy_shape p'" "outstanding p' = outstanding p" "\<not> pf_occupied (pending p' ! i)"
    "j \<noteq> i \<Longrightarrow> pending p' ! j = pending p ! j" "ack_count p' = Suc (ack_count p)"
    "Suc (pending_count p') = pending_count p"
proof -
  have pos: "0 < pending_count p" by (rule pending_count_pos [OF shape i occ])
  have len: "length (pending p) = 8" "length (acks p) = 64" "ack_head p < 64"
    "ack_count p + pending_count p \<le> 64" and pc: "pending_count p = length (pending_items p)"
    using shape by (auto simp: policy_shape_def)
  have dec: "uint_dec (pending_count p) = pending_count p - 1"
    using pos len(4) by (intro uint_dec) auto
  let ?f = "pending p ! i"
  let ?q = "\<lparr>ack_sequence = fb_sequence (pf_value ?f), ack_source_visit = fb_visit (pf_value ?f),
            ack_first_visit = (if res = FB_APPLIED then visit_count p else UINT64_MAX),
            ack_received = pf_received ?f, ack_application = now, ack_target = i,
            ack_result = res, ack_old_boost = b, ack_new_boost = a\<rparr>"
  have fields: "acks p' = (acks p)[(ack_head p + ack_count p) mod 64 := ?q]"
    "ack_count p' = Suc (ack_count p)" "ack_head p' = ack_head p"
    "pending_count p' = pending_count p - 1"
    "pending p' = (pending p)[i := ?f\<lparr>pf_occupied := False\<rparr>]"
    unfolding p'_def terminal_ack_def Let_def by (simp_all add: dec)
  have drop: "\<not> pf_occupied (?f\<lparr>pf_occupied := False\<rparr>)" "i < length (pending p)"
    using i len by simp_all
  note upd = filter_update_drop [of i "pending p" pf_occupied, OF drop(2) occ drop(1)]
  have items: "Suc (length (pending_items p')) = length (pending_items p)"
    using upd(2) by (simp add: pending_items_def fields)
  have queue: "ack_queue p' = ack_queue p @ [?q]"
    using ring_view_enqueue [of "ack_count p" "acks p" "ack_head p" ?q] len(2,4) pos
    by (simp add: ack_queue_def fields)
  have seqs: "add_mset (fb_sequence (pf_value ?f)) (pending_seqs p') = pending_seqs p"
    using upd(1) [of "\<lambda>f. fb_sequence (pf_value f)"]
    by (simp add: pending_seqs_def pending_items_def fields)
  have same: "config p' = config p" "channel_sequence p' = channel_sequence p"
    by (simp_all add: p'_def)
  show "outstanding p' = outstanding p"
    using queue seqs by (simp add: outstanding_def queued_seqs_def)
  show "\<not> pf_occupied (pending p' ! i)" "j \<noteq> i \<Longrightarrow> pending p' ! j = pending p ! j"
    "ack_count p' = Suc (ack_count p)" "Suc (pending_count p') = pending_count p"
    using i len pos by (simp_all add: fields)
  show "policy_shape p'"
    using shape items pos i same unfolding policy_shape_def
    by (auto simp: fields nth_list_update)
qed

subsection \<open>Every operation accounts for every accepted feedback\<close>

text \<open>\<open>same_books p p'\<close>: the accounting fields are as they were, up to moving items from the
  pending array to the acknowledgement queue.\<close>

definition same_books :: "scan_policy \<Rightarrow> scan_policy \<Rightarrow> bool" where
  "same_books p p' \<longleftrightarrow> (policy_shape p \<longrightarrow> policy_shape p' \<and> outstanding p' = outstanding p) \<and>
     highest_sequence p' = highest_sequence p \<and> seen p' = seen p \<and> config p' = config p \<and>
     stopped p' = stopped p"

lemma same_books_refl [simp]: "same_books p p"
  by (simp add: same_books_def)

lemma same_books_trans: "same_books p q \<Longrightarrow> same_books q r \<Longrightarrow> same_books p r"
  by (auto simp: same_books_def)

lemma same_books_fields:
  assumes "pending p' = pending p" "acks p' = acks p" "ack_head p' = ack_head p"
    "ack_count p' = ack_count p" "pending_count p' = pending_count p" "config p' = config p"
    "channel_sequence p' = channel_sequence p" "highest_sequence p' = highest_sequence p"
    "seen p' = seen p" "stopped p' = stopped p"
  shows "same_books p p'"
  using assms by (simp add: same_books_def policy_shape_def outstanding_def pending_seqs_def
      queued_seqs_def pending_items_def ack_queue_def)

lemma same_books_terminal_ack:
  "i < 8 \<Longrightarrow> pf_occupied (pending p ! i) \<Longrightarrow> same_books p (terminal_ack p i res now b a)"
  using terminal_ack_moves(1,2) [of p i _ res now b a] by (auto simp: same_books_def)

text \<open>\<open>terminal_ack\<close> after updates of other fields.\<close>

lemma same_books_apply_pending:
  assumes "i < 8"
  shows "same_books p (apply_pending p now i)"
proof (cases "pf_occupied (pending p ! i)")
  case True
  have step: "same_books q (terminal_ack r i res now b a)"
    if "pending r = pending q" "same_books q r" "pf_occupied (pending q ! i)" for q r res b a
    using that assms by (metis same_books_trans same_books_terminal_ack)
  show ?thesis
    unfolding apply_pending_def Let_def
    by (auto intro!: step same_books_terminal_ack assms True same_books_fields)
qed (simp add: apply_pending_def Let_def)

lemma same_books_weigh:
  "\<forall>i \<in> set is. i < 8 \<Longrightarrow> same_books p (fst (weigh_targets m now is (p, ws, t)))"
proof (induction m now "is" "(p, ws, t)" arbitrary: p ws t rule: weigh_targets.induct)
  case (2 m now i "is" p ws t)
  then show ?case
    by (auto simp: Let_def intro: same_books_trans [OF same_books_apply_pending])
qed simp

lemma same_books_select:
  assumes "policy_select p now = Some (ret, p')" and "policy_shape p"
  shows "same_books p p'"
proof -
  have n: "unat (targets (config p)) \<le> 8" using assms(2) by (simp add: policy_shape_def)
  have ordered: "same_books p (snd (select_ordered p now))"
    by (simp add: select_ordered_def Let_def same_books_fields)
  have drawn: "same_books p p'" if "select_drawn p now m = Some (ret, p')" for m
  proof -
    obtain q ws t where w: "weigh_targets m now [0..<unat (targets (config p))]
        (p, replicate 8 0, 0) = (q, ws, t)"
      by (metis prod_cases3)
    have "same_books p q"
      using same_books_weigh [of "[0..<unat (targets (config p))]" p m now "replicate 8 0" 0] n w
      by simp
    moreover have "same_books q p'"
      using that w by (auto simp: select_drawn_def Let_def same_books_fields
          split: option.splits prod.splits if_splits)
    ultimately show ?thesis by (rule same_books_trans)
  qed
  show ?thesis
    using assms(1) ordered drawn
    by (auto simp: policy_select_def Let_def split: if_split_asm)
qed

lemma same_books_commit: "same_books p (snd (policy_commit p start))"
  by (auto simp: policy_commit_def Let_def intro: same_books_fields)

lemma same_books_finish: "same_books p (snd (policy_finish_visit p visit ok))"
  by (auto simp: policy_finish_visit_def Let_def intro: same_books_fields)

lemma take_ack_books:
  assumes shape: "policy_shape p" and "policy_take_ack p = (Inr a, p')"
  shows "policy_shape p'" "outstanding p = add_mset (ack_sequence a) (outstanding p')"
    "highest_sequence p' = highest_sequence p" "seen p' = seen p" "config p' = config p"
    "stopped p' = stopped p" "pending p' = pending p" "ack_queue p = a # ack_queue p'"
proof -
  have pos: "ack_count p \<noteq> 0" and p': "p' = p\<lparr>ack_head := (ack_head p + 1) mod 64,
      ack_count := uint_dec (ack_count p)\<rparr>" and a: "a = acks p ! ack_head p"
    using assms(2) by (auto simp: policy_take_ack_def split: if_split_asm)
  have len: "length (acks p) = 64" "ack_head p < 64" "ack_count p \<le> 64"
    using shape by (auto simp: policy_shape_def)
  have dec: "uint_dec (ack_count p) = ack_count p - 1" using pos len by (intro uint_dec) auto
  then have "ack_count p = Suc (ack_count p')" using pos by (simp add: p')
  then show q: "ack_queue p = a # ack_queue p'"
    using ring_view_dequeue [of "acks p" "ack_head p" "ack_count p'"] len
    by (simp add: ack_queue_def p' a)
  show "policy_shape p'"
    using shape dec by (auto simp: policy_shape_def p' pending_items_def)
  show "outstanding p = add_mset (ack_sequence a) (outstanding p')"
    using q by (simp add: outstanding_def queued_seqs_def pending_seqs_def pending_items_def p')
  show "highest_sequence p' = highest_sequence p" "seen p' = seen p" "config p' = config p"
    "stopped p' = stopped p" "pending p' = pending p"
    by (simp_all add: p')
qed

text \<open>The window of the last 64 sequence numbers: every accepted one is at or below the highest
  and, when it is in the window, its bit is set.\<close>

definition window_ok :: "u64 \<Rightarrow> u64 \<Rightarrow> u64 set \<Rightarrow> bool" where
  "window_ok h w A \<longleftrightarrow> (\<forall>s \<in> A. s \<le> h \<and> (h - s < 64 \<longrightarrow> bit w (unat (h - s))))"

lemma window_ok_slide:
  assumes ok: "window_ok h w A" and less: "h < sq"
  shows "window_ok sq ((if 64 \<le> sq - h then 0 else push_bit (unat (sq - h)) w) OR 1)
    (insert sq A)"
  unfolding window_ok_def
proof (intro ballI conjI impI)
  fix s assume s: "s \<in> insert sq A"
  show "s \<le> sq" using s ok less by (auto simp: window_ok_def intro: less_imp_le order_trans)
  assume d: "sq - s < 64"
  show "bit ((if 64 \<le> sq - h then 0 else push_bit (unat (sq - h)) w) OR 1) (unat (sq - s))"
  proof (cases "s = sq")
    case True
    then show ?thesis by (simp add: bit_simps)
  next
    case False
    then have sh: "s \<le> h" and b: "h - s < 64 \<longrightarrow> bit w (unat (h - s))"
      using s ok by (auto simp: window_ok_def)
    have u: "unat (sq - s) = unat sq - unat s" "unat (sq - h) = unat sq - unat h"
      "unat (h - s) = unat h - unat s" "unat s \<le> unat h" "unat h < unat sq"
      using sh less by (auto simp: unat_diff_small word_le_nat_alt word_less_nat_alt)
    then have d': "unat (sq - s) < 64" "unat (sq - h) < 64" "unat (h - s) < 64"
      "unat (sq - s) = unat (sq - h) + unat (h - s)"
      using d by (auto simp: word_less_nat_alt)
    then have "bit w (unat (h - s))" using b by (simp add: word_less_nat_alt)
    then show ?thesis
      using d' by (simp add: bit_simps word_le_nat_alt)
  qed
qed

lemma window_ok_mark:
  assumes ok: "window_ok h w A" and "sq \<le> h" "h - sq < 64"
  shows "window_ok h (w OR push_bit (unat (h - sq)) 1) (insert sq A)"
  using assms by (auto simp: window_ok_def bit_simps word_less_nat_alt)

lemma window_ok_fresh:
  "window_ok h w A \<Longrightarrow> h < sq \<or> (h - sq < 64 \<and> \<not> bit w (unat (h - sq))) \<Longrightarrow> sq \<notin> A"
  by (auto simp: window_ok_def)

lemma put_pending:
  assumes shape: "policy_shape q" and t: "t < unat (targets (config q))"
    and free: "\<not> pf_occupied (pending q ! t)" and room: "ack_count q + pending_count q < 64"
    and p': "pending p' = (pending q)[t := \<lparr>pf_value = f, pf_received = now, pf_occupied = True\<rparr>]"
      "pending_count p' = pending_count q + 1" "acks p' = acks q" "ack_head p' = ack_head q"
      "ack_count p' = ack_count q" "config p' = config q"
      "length (channel_sequence p') = 8"
  shows "policy_shape p' \<and> outstanding p' = add_mset (fb_sequence f) (outstanding q)"
proof -
  have t8: "t < length (pending q)" using t shape by (simp add: policy_shape_def)
  note upd = filter_update_add [OF t8, of pf_occupied
      "\<lparr>pf_value = f, pf_received = now, pf_occupied = True\<rparr>", OF free]
  have "length (pending_items p') = Suc (length (pending_items q))"
    using upd(2) by (simp add: pending_items_def p')
  then have "policy_shape p'"
    using shape t room by (auto simp: policy_shape_def p' nth_list_update)
  moreover have "pending_seqs p' = add_mset (fb_sequence f) (pending_seqs q)"
    using upd(1) [of "\<lambda>f. fb_sequence (pf_value f)"]
    by (simp add: pending_seqs_def pending_items_def p')
  ultimately show ?thesis
    by (simp add: outstanding_def queued_seqs_def ack_queue_def p')
qed

lemma feedback_accepted:
  assumes shape: "policy_shape p" and acc: "policy_feedback p f now = (FB_ACCEPTED, p')"
  shows "policy_shape p'" "outstanding p' = add_mset (fb_sequence f) (outstanding p)"
    "window_ok (highest_sequence p) (seen p) A \<Longrightarrow> fb_sequence f \<notin> A \<and>
       window_ok (highest_sequence p') (seen p') (insert (fb_sequence f) A)"
    "stopped p' = stopped p" "\<not> stopped p" "config p' = config p"
proof -
  let ?t = "unat (fb_target f)" and ?sq = "fb_sequence f" and ?h = "highest_sequence p"
  define q where "q = (if pf_occupied (pending p ! ?t)
    then terminal_ack p ?t FB_SUPERSEDED now (decayed p ?t now) (decayed p ?t now) else p)"
  define w where "w = (if ?h < ?sq
    then (if 64 \<le> ?sq - ?h then 0 else push_bit (unat (?sq - ?h)) (seen p)) else seen p)"
  define h where "h = (if ?h < ?sq then ?sq else ?h)"
  have g: "\<not> stopped p" "fb_target f < targets (config p)"
    "?sq \<le> ?h \<Longrightarrow> ?h - ?sq < 64 \<and> \<not> bit (seen p) (unat (?h - ?sq))"
    "ack_count p + pending_count p < 64"
    and p': "p' = q\<lparr>seen := w OR push_bit (unat (h - ?sq)) 1, highest_sequence := h,
      channel_sequence := (channel_sequence p)[?t := ?sq],
      pending := (pending q)[?t := \<lparr>pf_value = f, pf_received = now, pf_occupied = True\<rparr>],
      pending_count := pending_count q + 1, last_now := now\<rparr>"
    using acc by (auto simp: policy_feedback_def Let_def q_def w_def h_def not_le not_less
        bit_iff_and_push_bit_not_eq_0 split: if_split_asm)
  show "stopped p' = stopped p" "\<not> stopped p" "config p' = config p"
    using g(1) by (simp_all add: p' q_def)
  have tn: "?t < unat (targets (config p))" using g(2) by (simp add: word_less_nat_alt)
  then have t: "?t < 8" using shape by (simp add: policy_shape_def)
  have q: "policy_shape q \<and> outstanding q = outstanding p \<and> \<not> pf_occupied (pending q ! ?t) \<and>
    ack_count q + pending_count q = ack_count p + pending_count p \<and> config q = config p"
  proof (cases "pf_occupied (pending p ! ?t)")
    case True
    then have "q = terminal_ack p ?t FB_SUPERSEDED now (decayed p ?t now) (decayed p ?t now)"
      by (simp add: q_def)
    from terminal_ack_moves [OF shape t True this] this show ?thesis by simp
  qed (simp add: q_def shape)
  have "policy_shape p' \<and> outstanding p' = add_mset (fb_sequence f) (outstanding q)"
    using q g(4) tn shape by (intro put_pending [of q "?t" p' f now]) (auto simp: p' policy_shape_def)
  then show "policy_shape p'" "outstanding p' = add_mset (fb_sequence f) (outstanding p)"
    using q by simp_all
  show "window_ok ?h (seen p) A \<Longrightarrow> ?sq \<notin> A \<and>
       window_ok (highest_sequence p') (seen p') (insert ?sq A)"
    using window_ok_fresh [of ?h "seen p" A ?sq] window_ok_slide [of ?h "seen p" A ?sq]
      window_ok_mark [of ?h "seen p" A ?sq] g(3)
    by (cases "?h < ?sq") (auto simp: p' h_def w_def not_less)
qed

lemma feedback_refused:
  assumes "policy_feedback p f now = (res, p')" and "res \<noteq> FB_ACCEPTED"
  shows "p' = p"
  using assms unfolding policy_feedback_def Let_def prod.inject
  by (simp only: split: if_split_asm) simp_all

lemma same_books_cancel: "i < 8 \<Longrightarrow> same_books p (cancel_pending now i p)"
  by (simp add: cancel_pending_def Let_def same_books_terminal_ack)

lemma cancel_pending_clears:
  assumes "policy_shape p" and "i < 8"
  shows "\<not> pf_occupied (pending (cancel_pending now i p) ! i)"
    "\<not> pf_occupied (pending p ! j) \<Longrightarrow> \<not> pf_occupied (pending (cancel_pending now i p) ! j)"
proof -
  show "\<not> pf_occupied (pending (cancel_pending now i p) ! i)"
    using terminal_ack_moves(3) [OF assms _ refl] by (simp add: cancel_pending_def Let_def)
  show "\<not> pf_occupied (pending p ! j) \<Longrightarrow> \<not> pf_occupied (pending (cancel_pending now i p) ! j)"
    using terminal_ack_moves(3,4) [OF assms _ refl]
    by (cases "j = i") (simp_all add: cancel_pending_def Let_def)
qed

lemma cancel_all:
  assumes "policy_shape p" and "\<forall>i \<in> set is. i < 8"
  shows "same_books p (fold (cancel_pending now) is p) \<and>
    (\<forall>j. (j \<in> set is \<or> \<not> pf_occupied (pending p ! j)) \<longrightarrow>
         \<not> pf_occupied (pending (fold (cancel_pending now) is p) ! j))"
  using assms
proof (induction "is" arbitrary: p)
  case (Cons i "is")
  let ?q = "cancel_pending now i p"
  have sb: "same_books p ?q" using Cons.prems by (simp add: same_books_cancel)
  then have "policy_shape ?q" using Cons.prems(1) by (simp add: same_books_def)
  from Cons.IH [OF this] Cons.prems(2)
  have ih: "same_books ?q (fold (cancel_pending now) is ?q)"
    "j \<in> set is \<or> \<not> pf_occupied (pending ?q ! j) \<Longrightarrow>
       \<not> pf_occupied (pending (fold (cancel_pending now) is ?q) ! j)" for j
    by auto
  then show ?case
    using same_books_trans [OF sb ih(1)] cancel_pending_clears [OF Cons.prems(1), of i]
      Cons.prems(2) by auto
qed simp

lemma stop_books:
  assumes shape: "policy_shape p" and run: "\<not> stopped p"
  shows "policy_shape (policy_stop p now)" "outstanding (policy_stop p now) = outstanding p"
    "pending_items (policy_stop p now) = []"
    "highest_sequence (policy_stop p now) = highest_sequence p"
    "seen (policy_stop p now) = seen p" "config (policy_stop p now) = config p"
proof -
  let ?n = "unat (targets (config p))" and ?now = "if now < last_now p then last_now p else now"
  define q where "q = fold (cancel_pending ?now) [0..<?n] p"
  have n8: "?n \<le> 8" using shape by (simp add: policy_shape_def)
  have c: "same_books p q" "\<forall>j. (j < ?n \<or> \<not> pf_occupied (pending p ! j)) \<longrightarrow> \<not> pf_occupied (pending q ! j)"
    using cancel_all [OF shape, of "[0..<?n]" ?now] n8 by (simp_all add: q_def)
  then have q: "policy_shape q" "outstanding q = outstanding p" "config q = config p"
    "highest_sequence q = highest_sequence p" "seen q = seen p"
    using shape by (simp_all add: same_books_def)
  have clear: "\<not> pf_occupied (pending q ! j)" if "j < 8" for j
    using c(2) shape that by (cases "j < ?n") (auto simp: policy_shape_def)
  then have "pending_items q = []"
    using q(1) by (auto simp: pending_items_def filter_empty_conv policy_shape_def in_set_conv_nth)
  moreover have st: "policy_stop p now = q\<lparr>stopped := True\<rparr>"
    using run unfolding policy_stop_def Let_def q_def by simp
  ultimately show "pending_items (policy_stop p now) = []" by (simp add: pending_items_def)
  show "policy_shape (policy_stop p now)" "outstanding (policy_stop p now) = outstanding p"
    "highest_sequence (policy_stop p now) = highest_sequence p"
    "seen (policy_stop p now) = seen p" "config (policy_stop p now) = config p"
    using q unfolding st by (simp_all add: policy_shape_def outstanding_def pending_seqs_def
        queued_seqs_def pending_items_def ack_queue_def)
qed

subsection \<open>Runs\<close>

datatype policy_op = Select u64 | Commit u64 | FinishVisit u64 bool
  | Feedback scan_feedback u64 | TakeAck | StopPolicy u64

text \<open>
  One call, with the history of accepted sequence numbers and taken acknowledgements beside the
  state. \<open>None\<close> only when the draw of a selection does not end.
\<close>

type_synonym policy_history = "u64 list \<times> scan_ack list \<times> scan_policy"

fun policy_exec :: "policy_op \<Rightarrow> policy_history \<Rightarrow> policy_history option" where
  "policy_exec (Select now) (acc, taken, p) =
     (case policy_select p now of None \<Rightarrow> None | Some (ret, p') \<Rightarrow> Some (acc, taken, p'))"
| "policy_exec (Commit start) (acc, taken, p) = Some (acc, taken, snd (policy_commit p start))"
| "policy_exec (FinishVisit v ok) (acc, taken, p) =
     Some (acc, taken, snd (policy_finish_visit p v ok))"
| "policy_exec (Feedback f now) (acc, taken, p) =
     (let (res, p') = policy_feedback p f now
      in Some (if res = FB_ACCEPTED then acc @ [fb_sequence f] else acc, taken, p'))"
| "policy_exec TakeAck (acc, taken, p) =
     (case policy_take_ack p of (Inl e, p') \<Rightarrow> Some (acc, taken, p')
      | (Inr a, p') \<Rightarrow> Some (acc, taken @ [a], p'))"
| "policy_exec (StopPolicy now) (acc, taken, p) = Some (acc, taken, policy_stop p now)"

fun policy_run :: "policy_op list \<Rightarrow> policy_history \<Rightarrow> policy_history option" where
  "policy_run [] h = Some h"
| "policy_run (a # as) h = (case policy_exec a h of None \<Rightarrow> None | Some h' \<Rightarrow> policy_run as h')"

definition books_ok :: "policy_history \<Rightarrow> bool" where
  "books_ok = (\<lambda>(acc, taken, p). policy_shape p \<and> distinct acc \<and>
     window_ok (highest_sequence p) (seen p) (set acc) \<and>
     mset acc = mset (map ack_sequence taken) + outstanding p \<and>
     (stopped p \<longrightarrow> pending_items p = []))"

lemma books_ok_same:
  assumes "books_ok (acc, taken, p)" and "same_books p p'" and "stopped p \<Longrightarrow> pending p' = pending p"
  shows "books_ok (acc, taken, p')"
  using assms by (auto simp: books_ok_def same_books_def pending_items_def)

lemma select_stopped: "stopped p \<Longrightarrow> policy_select p now = Some (Inl (- ESHUTDOWN), p)"
  by (simp add: policy_select_def)

lemma books_ok_exec:
  assumes ok: "books_ok (acc, taken, p)" and ex: "policy_exec a (acc, taken, p) = Some h"
  shows "books_ok h"
proof -
  have shape: "policy_shape p" using ok by (simp add: books_ok_def)
  show ?thesis
  proof (cases a)
    case (Select now)
    then obtain ret p' where s: "policy_select p now = Some (ret, p')" "h = (acc, taken, p')"
      using ex by (auto split: option.splits)
    have "stopped p \<Longrightarrow> pending p' = pending p" using s(1) by (simp add: select_stopped)
    then show ?thesis
      using books_ok_same [OF ok same_books_select [OF s(1) shape]] s(2) by simp
  next
    case (Commit start)
    have "pending (snd (policy_commit p start)) = pending p"
      by (simp add: policy_commit_def Let_def)
    with books_ok_same [OF ok same_books_commit [of p start]] ex Commit show ?thesis by simp
  next
    case (FinishVisit v i)
    have "pending (snd (policy_finish_visit p v i)) = pending p"
      by (simp add: policy_finish_visit_def Let_def)
    with books_ok_same [OF ok same_books_finish [of p v i]] ex FinishVisit show ?thesis by simp
  next
    case (Feedback f now)
    obtain res p' where f: "policy_feedback p f now = (res, p')" by fastforce
    show ?thesis
    proof (cases "res = FB_ACCEPTED")
      case True
      from feedback_accepted [OF shape f [unfolded True]] ok ex Feedback f True
      show ?thesis by (auto simp: books_ok_def)
    next
      case False
      with feedback_refused [OF f] ok ex Feedback f show ?thesis by simp
    qed
  next
    case TakeAck
    show ?thesis
    proof (cases "policy_take_ack p")
      case (Pair r p')
      show ?thesis
      proof (cases r)
        case (Inl e)
        then have "p' = p" using Pair by (auto simp: policy_take_ack_def split: if_split_asm)
        with ok ex TakeAck Pair Inl show ?thesis by simp
      next
        case (Inr b)
        from take_ack_books [OF shape Pair [unfolded Inr]] ok ex TakeAck Pair Inr
        show ?thesis by (auto simp: books_ok_def pending_items_def)
      qed
    qed
  next
    case (StopPolicy now)
    show ?thesis
    proof (cases "stopped p")
      case True
      then show ?thesis using ok ex StopPolicy by (simp add: policy_stop_def)
    next
      case False
      from stop_books [OF shape this, of now] ok ex StopPolicy show ?thesis
        by (auto simp: books_ok_def)
    qed
  qed
qed

lemma books_ok_run: "policy_run as h = Some h' \<Longrightarrow> books_ok h \<Longrightarrow> books_ok h'"
proof (induction as arbitrary: h)
  case (Cons a as)
  obtain acc taken p where h: "h = (acc, taken, p)" by (metis prod_cases3)
  from Cons.prems(1) obtain h1 where "policy_exec a h = Some h1" "policy_run as h1 = Some h'"
    by (auto split: option.splits)
  with Cons.IH books_ok_exec Cons.prems(2) h show ?case by blast
qed simp

lemma policy_create_fields:
  assumes "policy_create m v c start = Inr p"
  shows "policy_validate c = 0" "config p = c" "pol_start p = start" "last_now p = start"
    "\<not> UINT64_MAX - ticks c (duration_ms c) - ticks c (maximum_revisit_ms c) < start"
    "pol_end p = (if protocol_version c = CONTINUOUS_VERSION then UINT64_MAX
       else start + ticks c (duration_ms c))"
    "dwell p = ticks c (dwell_ms c)" "transition p = ticks c (transition_budget_ms c)"
    "revisit p = ticks c (maximum_revisit_ms c)" "decay p = ticks c (decay_ms c)"
    "max_visits p = (if protocol_version c = CONTINUOUS_VERSION then CONTINUOUS_HISTORY
       else ucast (duration_ms c div
         (if protocol_version c = RANDOM_DWELL_VERSION then 120 else dwell_ms c) + 1))"
    "length (visits p) = unat (max_visits p)" "visit_count p = 0" "rng p = seed c"
    "last_start p = replicate (unat (targets c)) start @ replicate (8 - unat (targets c)) 0"
    "boost_time p = replicate (unat (targets c)) start @ replicate (8 - unat (targets c)) 0"
    "boost p = replicate (unat (targets c)) WEIGHT_ONE @ replicate (8 - unat (targets c)) 0"
    "channel_sequence p = replicate 8 0" "highest_sequence p = 0" "seen p = 0"
    "pending p = replicate 8 zero_pending" "acks p = replicate 64 zero_ack" "ack_head p = 0"
    "ack_count p = 0" "pending_count p = 0" "\<not> selected p" "\<not> stopped p"
  using assms unfolding policy_create_def Let_def by (simp_all split: if_split_asm) auto

lemma books_ok_create:
  assumes "policy_create m v c start = Inr p"
  shows "books_ok ([], [], p)"
proof -
  note f = policy_create_fields [OF assms]
  have c: "config_ok c" by (rule policy_validate_config_ok [OF f(1)])
  have items: "pending_items p = []"
    unfolding pending_items_def f by (simp add: zero_pending_def)
  have "policy_shape p"
    using c by (simp add: policy_shape_def items f zero_pending_def config_ok_def)
  then show ?thesis
    by (simp add: books_ok_def items outstanding_def pending_seqs_def queued_seqs_def
        ack_queue_def f window_ok_def)
qed

subsection \<open>Properties\<close>

text \<open>C5: Every accepted feedback is acknowledged once. Over any sequence of calls on a created
policy, no sequence number is accepted twice, the accepted sequence numbers are exactly those
acknowledged to the client, those queued in the acknowledgement array and those still pending (so
no acknowledgement is lost or duplicated, superseding and cancelling included), the array never
holds more than its 64 entries, and once the policy is stopped nothing is pending.\<close>

theorem scan_feedback_acknowledged:
  assumes "policy_create mem vmem c start = Inr p" and "policy_run ops ([], [], p) = Some (acc, taken, q)"
  shows "distinct acc \<and>
    mset acc = mset (map ack_sequence taken) + mset (map ack_sequence (ack_queue q))
      + mset (map (\<lambda>f. fb_sequence (pf_value f)) (pending_items q)) \<and>
    length (ack_queue q) + length (pending_items q) \<le> 64 \<and>
    (stopped q \<longrightarrow> pending_items q = [])"
proof -
  have "books_ok (acc, taken, q)"
    using books_ok_run [OF assms(2)] books_ok_create [OF assms(1)] by simp
  then show ?thesis
    by (auto simp: books_ok_def outstanding_def pending_seqs_def queued_seqs_def policy_shape_def
        ack_queue_def ac_simps)
qed

definition demo_config :: "u16 \<Rightarrow> policy_config" where
  "demo_config v = \<lparr>session = 7, generation = 1, seed = 42, protocol_version = v,
     source_rate_hz = 2500000, targets = 2, duration_ms = 4000, dwell_ms = 120,
     transition_budget_ms = 10, maximum_revisit_ms = 1000, feedback_age_ms = 1000,
     application_delay_ms = 1000, decay_ms = 1000, maximum_boost = 4,
     baseline = [3, 1, 0, 0, 0, 0, 0, 0], analysis_digest = replicate 31 0 @ [1]\<rparr>"

definition demo_policy :: scan_policy where
  "demo_policy = (case policy_create True True (demo_config 1) 1000 of
     Inr p \<Rightarrow> p | Inl _ \<Rightarrow> undefined)"

definition demo_feedback :: "u64 \<Rightarrow> scan_feedback" where
  "demo_feedback k = \<lparr>fb_session = 7, fb_generation = 1, fb_sequence = k, fb_visit = 0,
     fb_valid_start = 26000, fb_valid_end = 326000, fb_target = 1, fb_outcome = 1,
     fb_digest = replicate 31 0 @ [1]\<rparr>"

definition demo_calls :: "policy_op list" where
  "demo_calls = [Select 1000, Commit 26000, FinishVisit 0 True, Feedback (demo_feedback 5) 326000,
     Feedback (demo_feedback 5) 326001, Feedback (demo_feedback 6) 326002, TakeAck, Select 330000,
     StopPolicy 400000]"

lemma demo_policy_create: "policy_create True True (demo_config 1) 1000 = Inr demo_policy"
proof -
  have "\<not> (case policy_create True True (demo_config 1) 1000 of Inl _ \<Rightarrow> True | Inr _ \<Rightarrow> False)"
    by code_simp
  then show ?thesis by (auto simp: demo_policy_def split: sum.splits)
qed

definition demo_run_end :: "(u64 list \<times> (u64 \<times> feedback_result) list \<times> u64 list) option" where
  "demo_run_end = map_option (\<lambda>(acc, taken, q). (acc,
     map (\<lambda>a. (ack_sequence a, ack_result a)) taken, map ack_sequence (ack_queue q)))
     (policy_run demo_calls ([], [], demo_policy))"

lemma demo_run_end_eq: "demo_run_end = Some ([5, 6], [(5, FB_SUPERSEDED)], [6])"
  by code_simp

theorem scan_feedback_acknowledged_witness:
  "\<exists>taken q. policy_run demo_calls ([], [], demo_policy) = Some ([5, 6], taken, q) \<and>
     map ack_sequence taken = [5] \<and> map ack_sequence (ack_queue q) = [6] \<and> pending_items q = []"
proof -
  obtain taken q where run: "policy_run demo_calls ([], [], demo_policy) = Some ([5, 6], taken, q)"
    and t: "map (\<lambda>a. (ack_sequence a, ack_result a)) taken = [(5, FB_SUPERSEDED)]"
    and k: "map ack_sequence (ack_queue q) = [6]"
    using demo_run_end_eq by (auto simp: demo_run_end_def)
  have "map ack_sequence taken = [5]"
    using arg_cong [OF t, of "map fst"] by (simp add: comp_def)
  moreover from scan_feedback_acknowledged [OF demo_policy_create run] this k
  have "mset (map (\<lambda>f. fb_sequence (pf_value f)) (pending_items q)) = {#}"
    by simp
  ultimately show ?thesis using run k by auto
qed

end
