(* ===== verification/Scan_Select.thy ===== *)
theory Scan_Select
  imports Scan_Feedback
begin

unbundle bit_operations_syntax

text \<open>
  Selection in the scan policy: the weights stay within their bounds, the drawn target is one
  whose choice keeps every deadline reachable, and the accepted draws hit every residue equally
  often.
\<close>

subsection \<open>Weights\<close>

text \<open>The fields that creation derives from the configuration and nothing changes.\<close>

definition static_ok :: "scan_policy \<Rightarrow> bool" where
  "static_ok p \<longleftrightarrow> config_ok (config p) \<and> dwell p = ticks (config p) (dwell_ms (config p)) \<and>
     transition p = ticks (config p) (transition_budget_ms (config p)) \<and>
     revisit p = ticks (config p) (maximum_revisit_ms (config p)) \<and>
     decay p = ticks (config p) (decay_ms (config p))"

text \<open>A boost is a fixed-point factor between one and the configured maximum.\<close>

definition boosts_ok :: "scan_policy \<Rightarrow> bool" where
  "boosts_ok p \<longleftrightarrow> static_ok p \<and> length (boost p) = 8 \<and> length (boost_time p) = 8 \<and>
     (\<forall>i < unat (targets (config p)). WEIGHT_ONE \<le> unat (boost p ! i) \<and>
        unat (boost p ! i) \<le> unat (maximum_boost (config p)) * WEIGHT_ONE)"

lemma decay_bounds:
  assumes "static_ok p"
  shows "0 < unat (decay p)" "unat (decay p) < 2 ^ 32"
proof -
  let ?c = "config p"
  have c: "520833 \<le> unat (source_rate_hz ?c)" "unat (source_rate_hz ?c) \<le> 61440000"
    "0 < unat (decay_ms ?c)" "unat (decay_ms ?c) \<le> 60000"
    using assms by (auto simp: static_ok_def config_ok_def)
  have "520833 * 1 \<le> unat (source_rate_hz ?c) * unat (decay_ms ?c)"
    using c by (intro mult_le_mono) simp_all
  moreover have "unat (source_rate_hz ?c) * unat (decay_ms ?c) \<le> 61440000 * 60000"
    using c by (intro mult_le_mono) simp_all
  moreover have "unat (decay p) = unat (source_rate_hz ?c) * unat (decay_ms ?c) div 1000"
    using assms by (simp add: static_ok_def unat_ticks_u32)
  ultimately show "0 < unat (decay p)" "unat (decay p) < 2 ^ 32"
    by (simp_all add: div_greater_zero_iff)
qed

lemma unat_ucast_64_32: "unat x < 2 ^ 32 \<Longrightarrow> unat (ucast (x::u64) :: u32) = unat x"
  by (simp add: unsigned_ucast_eq take_bit_nat_eq_self)

lemma unat_u32_add: "unat (a::u32) + unat b < 2 ^ 32 \<Longrightarrow> unat (a + b) = unat a + unat b"
  by (simp add: unat_word_ariths)

lemma unat_max_boost:
  "config_ok c \<Longrightarrow> unat (maximum_boost c * WEIGHT_ONE) = unat (maximum_boost c) * WEIGHT_ONE"
  by (simp add: unat_word_ariths config_ok_def)

text \<open>The decayed weight over the natural numbers: linear interpolation down to one.\<close>

lemma unat_decayed:
  assumes ok: "boosts_ok p" and i: "i < unat (targets (config p))"
    and e_def: "e = unat (now - boost_time p ! i)" and d_def: "d = unat (decay p)"
  shows "unat (decayed p i now)
    = (if d \<le> e then WEIGHT_ONE else WEIGHT_ONE + (unat (boost p ! i) - WEIGHT_ONE) * (d - e) div d)"
proof (cases "d \<le> e")
  case True
  then show ?thesis by (simp add: decayed_def Let_def word_le_nat_alt e_def d_def)
next
  case False
  let ?b = "boost p ! i"
  have c: "config_ok (config p)" and st: "static_ok p"
    using ok by (simp_all add: boosts_ok_def static_ok_def)
  have "unat ?b \<le> unat (maximum_boost (config p)) * 65536" "65536 \<le> unat ?b"
    using ok i by (auto simp: boosts_ok_def)
  moreover have "unat (maximum_boost (config p)) * 65536 \<le> 16 * 65536"
    using c by (simp add: config_ok_def)
  ultimately have b: "65536 \<le> unat ?b" "unat ?b - 65536 \<le> 15 * 65536" by simp_all
  have sub: "unat (?b - 65536) = unat ?b - 65536"
    using b by (subst unat_sub) (simp_all add: word_le_nat_alt)
  have el: "unat (decay p - (now - boost_time p ! i)) = d - e"
    using False by (simp add: e_def d_def unat_diff_small word_le_nat_alt)
  have d: "0 < d" "d < 2 ^ 32" using decay_bounds [OF st] by (simp_all add: d_def)
  let ?x = "(unat ?b - 65536) * (d - e)"
  have "?x \<le> 15 * 65536 * 2 ^ 32" using b d by (intro mult_le_mono) simp_all
  then have prod: "unat ((ucast (?b - 65536) :: u64) * (decay p - (now - boost_time p ! i))) = ?x"
    by (simp add: unat_word_ariths(2) sub el)
  have "?x \<le> (unat ?b - 65536) * d" by (intro mult_le_mono2) simp
  then have "?x div d \<le> (unat ?b - 65536) * d div d" by (rule div_le_mono)
  then have q: "?x div d \<le> 15 * 65536" using b d by simp
  have "unat (ucast ((ucast (?b - 65536) :: u64) * (decay p - (now - boost_time p ! i)) div decay p)
      :: u32) = ?x div d"
    using q by (subst unat_ucast_64_32) (simp_all add: unat_div prod d_def)
  then show ?thesis
    using False q by (simp add: decayed_def Let_def word_le_nat_alt e_def d_def unat_u32_add)
qed

lemma decayed_bounds:
  assumes ok: "boosts_ok p" and i: "i < unat (targets (config p))"
  shows "WEIGHT_ONE \<le> unat (decayed p i now)"
    "unat (decayed p i now) \<le> unat (maximum_boost (config p)) * WEIGHT_ONE"
proof -
  let ?b = "unat (boost p ! i)" and ?d = "unat (decay p)"
    and ?e = "unat (now - boost_time p ! i)" and ?m = "unat (maximum_boost (config p))"
  have b: "65536 \<le> ?b" "?b \<le> ?m * 65536" "0 < ?m"
    using ok i by (auto simp: boosts_ok_def static_ok_def config_ok_def)
  have "(?b - 65536) * (?d - ?e) div ?d \<le> (?b - 65536) * ?d div ?d"
    by (intro div_le_mono mult_le_mono2) simp
  also have "\<dots> \<le> ?b - 65536" by (cases "?d = 0") simp_all
  finally have "(?b - 65536) * (?d - ?e) div ?d \<le> ?b - 65536" .
  then show "WEIGHT_ONE \<le> unat (decayed p i now)"
    "unat (decayed p i now) \<le> ?m * WEIGHT_ONE"
    using unat_decayed [OF ok i refl refl, of now] b by auto
qed

lemma boosts_ok_fields:
  assumes "boosts_ok p" "config p' = config p" "boost p' = boost p" "boost_time p' = boost_time p"
    "dwell p' = dwell p" "transition p' = transition p" "revisit p' = revisit p" "decay p' = decay p"
  shows "boosts_ok p'"
  using assms by (simp add: boosts_ok_def static_ok_def)

text \<open>The fields the pending feedback of a target does not touch.\<close>

lemma apply_pending_simps [simp]:
  "config (apply_pending p now i) = config p" "dwell (apply_pending p now i) = dwell p"
  "transition (apply_pending p now i) = transition p" "revisit (apply_pending p now i) = revisit p"
  "decay (apply_pending p now i) = decay p" "last_start (apply_pending p now i) = last_start p"
  "last_now (apply_pending p now i) = last_now p" "pol_end (apply_pending p now i) = pol_end p"
  "pol_start (apply_pending p now i) = pol_start p" "visits (apply_pending p now i) = visits p"
  "visit_count (apply_pending p now i) = visit_count p" "rng (apply_pending p now i) = rng p"
  "max_visits (apply_pending p now i) = max_visits p" "selected (apply_pending p now i) = selected p"
  "stopped (apply_pending p now i) = stopped p" "selection (apply_pending p now i) = selection p"
  by (simp_all add: apply_pending_def Let_def)

lemma boosts_ok_set_boost:
  assumes "boosts_ok p" and "WEIGHT_ONE \<le> unat b"
    and "unat b \<le> unat (maximum_boost (config p)) * WEIGHT_ONE"
  shows "boosts_ok (p\<lparr>boost := (boost p)[i := b], boost_time := (boost_time p)[i := now]\<rparr>)"
  using assms by (simp add: boosts_ok_def static_ok_def nth_update_if)

lemma quiet_bounds:
  assumes "65536 \<le> unat (d::u32)" and "unat d \<le> m * 65536" and "m \<le> 16"
  shows "65536 \<le> unat (65536 + (d - 65536) div 2 :: u32)"
    "unat (65536 + (d - 65536) div 2 :: u32) \<le> m * 65536"
proof -
  have "unat (d - 65536) = unat d - 65536"
    using assms(1) by (subst unat_sub) (simp_all add: word_le_nat_alt)
  then have h: "unat ((d - 65536) div 2) = (unat d - 65536) div 2" by (simp add: unat_div)
  have "unat d \<le> 16 * 65536" using assms(2,3) by linarith
  then have "unat (65536 + (d - 65536) div 2 :: u32) = 65536 + (unat d - 65536) div 2"
    by (subst unat_u32_add) (simp_all add: h)
  then show "65536 \<le> unat (65536 + (d - 65536) div 2 :: u32)"
    "unat (65536 + (d - 65536) div 2 :: u32) \<le> m * 65536"
    using assms by auto
qed

lemma boosts_ok_apply_pending:
  assumes ok: "boosts_ok p" and i: "i < unat (targets (config p))"
  shows "boosts_ok (apply_pending p now i)"
proof -
  let ?m = "unat (maximum_boost (config p))" and ?d = "decayed p i now"
  have c: "config_ok (config p)" using ok by (simp add: boosts_ok_def static_ok_def)
  then have m: "0 < ?m" "?m \<le> 16" by (auto simp: config_ok_def)
  note d = decayed_bounds [OF ok i, of now]
  have active: "65536 \<le> unat (maximum_boost (config p) * 65536)"
    using m by (simp add: unat_max_boost [OF c])
  have active': "unat (maximum_boost (config p) * 65536) \<le> ?m * 65536"
    by (simp add: unat_max_boost [OF c])
  have act: "boosts_ok (p\<lparr>target_active := x\<rparr>)" for x
    using ok by (simp add: boosts_ok_def static_ok_def)
  have set: "boosts_ok (p\<lparr>boost := (boost p)[i := b], boost_time := (boost_time p)[i := now]\<rparr>)"
    "boosts_ok (p\<lparr>target_active := x, boost := (boost p)[i := b],
      boost_time := (boost_time p)[i := now]\<rparr>)"
    if "65536 \<le> unat b" "unat b \<le> ?m * 65536" for b x
    using boosts_ok_set_boost [OF ok that] boosts_ok_set_boost [OF act, of b x] that by simp_all
  have ackd: "boosts_ok q \<Longrightarrow> boosts_ok (terminal_ack q i r now a b)" for q r a b
    by (erule boosts_ok_fields) simp_all
  note quiet = quiet_bounds [OF d m(2)]
  show ?thesis
    unfolding apply_pending_def Let_def
    using set [OF active active'] set [OF quiet] set [OF d] ok act
    by (auto intro!: ackd)
qed

lemma apply_pending_other:
  assumes "j \<noteq> i"
  shows "boost (apply_pending p now i) ! j = boost p ! j"
    "boost_time (apply_pending p now i) ! j = boost_time p ! j"
  using assms by (simp_all add: apply_pending_def Let_def)

lemma decayed_cong:
  "boost q ! i = boost p ! i \<Longrightarrow> boost_time q ! i = boost_time p ! i \<Longrightarrow> decay q = decay p \<Longrightarrow>
   decayed q i now = decayed p i now"
  by (simp add: decayed_def Let_def)

subsection \<open>The weights of a selection\<close>

text \<open>\<open>same_plan p q\<close>: the configuration, the derived durations and the visits so far agree.\<close>

definition same_plan :: "scan_policy \<Rightarrow> scan_policy \<Rightarrow> bool" where
  "same_plan p q \<longleftrightarrow> config q = config p \<and> dwell q = dwell p \<and> transition q = transition p \<and>
     revisit q = revisit p \<and> decay q = decay p \<and> pol_start q = pol_start p \<and>
     pol_end q = pol_end p \<and> max_visits q = max_visits p \<and> visits q = visits p \<and>
     visit_count q = visit_count p \<and> last_start q = last_start p \<and> stopped q = stopped p"

lemma same_plan_refl [simp]: "same_plan p p"
  by (simp add: same_plan_def)

lemma same_plan_trans: "same_plan p q \<Longrightarrow> same_plan q r \<Longrightarrow> same_plan p r"
  by (simp add: same_plan_def)

lemma same_plan_apply_pending: "same_plan p (apply_pending p now i)"
  by (simp add: same_plan_def)

definition target_weight :: "scan_policy \<Rightarrow> u64 \<Rightarrow> nat \<Rightarrow> u64" where
  "target_weight p now i = ucast (baseline (config p) ! i) * ucast (decayed p i now)"

lemma weigh_targets_spec:
  assumes "weigh_targets m now is (p, ws, t) = (q, ws', t')" and "distinct is"
    and "\<forall>i \<in> set is. i < unat (targets (config p))" and "boosts_ok p" and "length ws = 8"
  shows "boosts_ok q \<and> same_plan p q \<and> length ws' = 8 \<and> rng q = rng p \<and>
    (\<forall>j. j \<notin> set is \<longrightarrow> ws' ! j = ws ! j \<and> boost q ! j = boost p ! j \<and>
       boost_time q ! j = boost_time p ! j) \<and>
    (\<forall>i \<in> set is. ws' ! i = (if bit m i then target_weight q now i else ws ! i)) \<and>
    t' = t + sum_list (map (\<lambda>i. if bit m i then ws' ! i else 0) is)"
  using assms
proof (induction m now "is" "(p, ws, t)" arbitrary: p ws t rule: weigh_targets.induct)
  case (2 m now i "is" p ws t)
  let ?p = "apply_pending p now i"
  have i: "i < unat (targets (config p))" "unat (targets (config p)) \<le> 8" "i \<notin> set is"
    "distinct is" "\<forall>j \<in> set is. j < unat (targets (config ?p))"
    using "2.prems" by (auto simp: boosts_ok_def static_ok_def config_ok_def)
  have bo: "boosts_ok ?p" using "2.prems"(4) i(1) by (rule boosts_ok_apply_pending)
  have bits: "(m AND push_bit i 1 \<noteq> 0) = bit m i"
    by (simp add: bit_iff_and_push_bit_not_eq_0)
  have plan: "same_plan p ?p" by (rule same_plan_apply_pending)
  have tw: "target_weight q now i = target_weight ?p now i"
    if "same_plan ?p q" "boost q ! i = boost ?p ! i" "boost_time q ! i = boost_time ?p ! i" for q
    using that decayed_cong [of q i ?p now] by (simp add: target_weight_def same_plan_def)
  show ?case
  proof (cases "bit m i")
    case True
    have rec: "weigh_targets m now is (?p, ws[i := target_weight ?p now i],
        t + target_weight ?p now i) = (q, ws', t')"
      using "2.prems"(1) True bits by (simp add: Let_def target_weight_def)
    have ih: "boosts_ok q \<and> same_plan ?p q \<and> length ws' = 8 \<and> rng q = rng ?p \<and>
      (\<forall>j. j \<notin> set is \<longrightarrow> ws' ! j = ws[i := target_weight ?p now i] ! j \<and>
         boost q ! j = boost ?p ! j \<and> boost_time q ! j = boost_time ?p ! j) \<and>
      (\<forall>j \<in> set is. ws' ! j = (if bit m j then target_weight q now j
         else ws[i := target_weight ?p now i] ! j)) \<and>
      t' = t + target_weight ?p now i + sum_list (map (\<lambda>i. if bit m i then ws' ! i else 0) is)"
      using "2.hyps"(1) [OF refl iffD2 [OF bits True] refl, folded target_weight_def,
          OF rec i(4,5) bo] "2.prems"(5) by simp
    then have "ws' ! i = target_weight ?p now i" using i "2.prems"(5) by simp
    then show ?thesis
      using ih i True plan apply_pending_other [of _ i p now] tw [of q]
      by (auto simp: same_plan_trans [OF plan] nth_update_if)
  next
    case False
    have rec: "weigh_targets m now is (?p, ws, t) = (q, ws', t')"
      using "2.prems"(1) False bits by (simp add: Let_def)
    have ih: "boosts_ok q \<and> same_plan ?p q \<and> length ws' = 8 \<and> rng q = rng ?p \<and>
      (\<forall>j. j \<notin> set is \<longrightarrow> ws' ! j = ws ! j \<and>
         boost q ! j = boost ?p ! j \<and> boost_time q ! j = boost_time ?p ! j) \<and>
      (\<forall>j \<in> set is. ws' ! j = (if bit m j then target_weight q now j else ws ! j)) \<and>
      t' = t + sum_list (map (\<lambda>i. if bit m i then ws' ! i else 0) is)"
      using "2.hyps"(2) [OF refl False [folded bits] rec i(4,5) bo "2.prems"(5)] .
    then show ?thesis
      using i False plan apply_pending_other [of _ i p now]
      by (auto simp: same_plan_trans [OF plan])
  qed
qed simp

lemma bit_fold_mask:
  fixes m :: u32
  assumes "\<forall>i \<in> set is. i < 32"
  shows "bit (fold (\<lambda>i m. if P i then m OR push_bit i 1 else m) is m) j
    \<longleftrightarrow> bit m j \<or> j \<in> set is \<and> P j"
  using assms by (induction "is" arbitrary: m) (auto simp: bit_simps)

lemma bit_eligible:
  assumes "config_ok (config p)"
  shows "bit (eligible p now) i \<longleftrightarrow> i < unat (targets (config p)) \<and> feasible p i now"
  using assms unfolding eligible_def by (subst bit_fold_mask) (auto simp: config_ok_def)

lemma unat_target_weight:
  assumes ok: "boosts_ok p" and i: "i < unat (targets (config p))"
  shows "unat (target_weight p now i) = unat (baseline (config p) ! i) * unat (decayed p i now)"
    "0 < unat (target_weight p now i)" "unat (target_weight p now i) \<le> 2 ^ 30"
proof -
  have c: "config_ok (config p)" using ok by (simp add: boosts_ok_def static_ok_def)
  have b: "0 < unat (baseline (config p) ! i)" "unat (baseline (config p) ! i) \<le> 1024"
    "unat (maximum_boost (config p)) \<le> 16"
    using c i by (auto simp: config_ok_def)
  note d = decayed_bounds [OF ok i, of now]
  have d': "unat (decayed p i now) \<le> 16 * 65536"
    using d(2) b(3) by linarith
  then have "unat (baseline (config p) ! i) * unat (decayed p i now) \<le> 1024 * (16 * 65536)"
    using b by (intro mult_le_mono)
  then show eq: "unat (target_weight p now i) = unat (baseline (config p) ! i) * unat (decayed p i now)"
    and "unat (target_weight p now i) \<le> 2 ^ 30"
    by (simp_all add: target_weight_def unat_word_ariths(2))
  show "0 < unat (target_weight p now i)" unfolding eq using b(1) d(1) by simp
qed

lemma unat_sum_list:
  "sum_list (map unat xs) < 2 ^ 64 \<Longrightarrow> unat (sum_list xs :: u64) = sum_list (map unat xs)"
  by (induction xs) (simp_all add: unat_add_small)

lemma sum_list_le: "\<forall>x \<in> set xs. x \<le> b \<Longrightarrow> sum_list xs \<le> length xs * (b::nat)"
  by (induction xs) auto

text \<open>The draw falls into the interval of the target that is picked.\<close>

lemma pick_target_interval:
  "unat d < sum_list (map unat ws) \<Longrightarrow> \<exists>j < length ws. pick_target k ws d = k + j \<and>
     sum_list (map unat (take j ws)) \<le> unat d \<and> unat d < sum_list (map unat (take (Suc j) ws))"
proof (induction k ws d rule: pick_target.induct)
  case (2 k w ws d)
  show ?case
  proof (cases "d < w")
    case True
    then show ?thesis by (intro exI [of _ 0]) (simp add: word_less_nat_alt)
  next
    case False
    then have u: "unat (d - w) = unat d - unat w" "unat w \<le> unat d"
      by (simp_all add: unat_diff_small not_less word_le_nat_alt)
    with "2.prems" have "unat (d - w) < sum_list (map unat ws)" by simp
    with "2.IH" [OF False] obtain j where "j < length ws" "pick_target (Suc k) ws (d - w) = Suc k + j"
      "sum_list (map unat (take j ws)) \<le> unat (d - w)"
      "unat (d - w) < sum_list (map unat (take (Suc j) ws))" by blast
    then show ?thesis using u False by (intro exI [of _ "Suc j"]) auto
  qed
qed simp

lemma pick_target_weight:
  assumes "unat d < sum_list (map unat ws)" and "j = pick_target 0 ws d"
  shows "j < length ws \<and> 0 < unat (ws ! j)"
proof -
  obtain i where "i < length ws" "j = i" "sum_list (map unat (take i ws)) \<le> unat d"
    "unat d < sum_list (map unat (take (Suc i) ws))"
    using pick_target_interval [OF assms(1), of 0] assms(2) by auto
  then show ?thesis by (simp add: take_Suc_conv_app_nth)
qed

text \<open>Weights and total of a selection with eligible targets \<open>m\<close>.\<close>

lemma selection_weights:
  assumes ok: "boosts_ok p"
    and w: "weigh_targets m now [0..<unat (targets (config p))] (p, replicate 8 0, 0) = (q, ws, t)"
  shows "boosts_ok q" "same_plan p q" "rng q = rng p" "length ws = 8"
    "i < unat (targets (config p)) \<Longrightarrow> ws ! i = (if bit m i then target_weight q now i else 0)"
    "unat t = sum_list (map unat (take (unat (targets (config p))) ws))"
    "i < unat (targets (config p)) \<Longrightarrow> bit m i \<Longrightarrow> t \<noteq> 0"
proof -
  let ?n = "unat (targets (config p))"
  have n: "?n \<le> 8" using ok by (simp add: boosts_ok_def static_ok_def config_ok_def)
  note spec = weigh_targets_spec [OF w distinct_upt _ ok]
  have s: "boosts_ok q" "same_plan p q" "length ws = 8" "rng q = rng p"
    "\<And>i. i < ?n \<Longrightarrow> ws ! i = (if bit m i then target_weight q now i else 0)"
    "t = sum_list (map (\<lambda>i. if bit m i then ws ! i else 0) [0..<?n])"
    using spec n by auto
  show "boosts_ok q" "same_plan p q" "rng q = rng p" "length ws = 8"
    "i < ?n \<Longrightarrow> ws ! i = (if bit m i then target_weight q now i else 0)"
    by (rule s; simp)+
  have cfg: "config q = config p" using s(2) by (simp add: same_plan_def)
  have tk: "take ?n ws = map (\<lambda>i. if bit m i then ws ! i else 0) [0..<?n]"
    using n s(3,5) by (intro nth_equalityI) auto
  have le: "unat (ws ! i) \<le> 2 ^ 30" if "i < ?n" for i
    using s(5) [OF that] unat_target_weight(3) [OF s(1), of i now] that cfg by simp
  have "sum_list (map unat (take ?n ws)) \<le> length (map unat (take ?n ws)) * 2 ^ 30"
    using le s(3) n by (intro sum_list_le) (auto simp: in_set_conv_nth)
  also have "\<dots> \<le> 8 * 2 ^ 30" using s(3) n by simp
  finally have small: "sum_list (map unat (take ?n ws)) < 2 ^ 64" by simp
  show t: "unat t = sum_list (map unat (take ?n ws))"
    using unat_sum_list [OF small] s(6) tk by simp
  show "t \<noteq> 0" if i: "i < ?n" "bit m i"
  proof -
    have "0 < unat (ws ! i)"
      using s(5) [OF i(1)] unat_target_weight(2) [OF s(1), of i now] i cfg by simp
    also have "\<dots> \<le> sum_list (map unat (take ?n ws))"
      using i(1) s(3) n nth_mem [of i "take ?n ws"] by (intro member_le_sum_list) simp_all
    finally have "0 < unat t" unfolding t .
    then show ?thesis by auto
  qed
qed

subsection \<open>Draws\<close>

text \<open>The states of the generator after \<open>k\<close> draws.\<close>

definition draw_state :: "nat \<Rightarrow> u64 \<Rightarrow> u64" where
  "draw_state k r = ((\<lambda>r. snd (random64 r)) ^^ k) r"

lemma draw_from_SomeD:
  assumes "draw_from threshold r = Some y"
  shows "threshold \<le> fst y \<and> (\<exists>k. random64 (draw_state k r) = y \<and>
    (\<forall>j < k. fst (random64 (draw_state j r)) < threshold))"
  using assms
proof (rule draw_from.raw_induct [rotated])
  fix f :: "u64 \<Rightarrow> u64 \<Rightarrow> (u64 \<times> u64) option" and t r y
  assume hyp: "\<And>t r y. f t r = Some y \<Longrightarrow> t \<le> fst y \<and>
      (\<exists>k. random64 (draw_state k r) = y \<and> (\<forall>j < k. fst (random64 (draw_state j r)) < t))"
    and eq: "(let (draw, r') = random64 r in if draw < t then f t r' else Some (draw, r')) = Some y"
  obtain d s where ds: "random64 r = (d, s)" by fastforce
  show "t \<le> fst y \<and> (\<exists>k. random64 (draw_state k r) = y \<and>
      (\<forall>j < k. fst (random64 (draw_state j r)) < t))"
  proof (cases "d < t")
    case True
    have st: "draw_state (Suc k) r = draw_state k s" for k
      by (simp add: draw_state_def funpow_Suc_right ds del: funpow.simps)
    have "f t s = Some y" using eq True ds by simp
    from hyp [OF this] obtain k where "t \<le> fst y" "random64 (draw_state k s) = y"
      "\<forall>j < k. fst (random64 (draw_state j s)) < t" by blast
    then show ?thesis
      using True ds by (auto simp: st less_Suc_eq_0_disj draw_state_def [of 0] intro!: exI [of _ "Suc k"])
  next
    case False
    then show ?thesis
      using eq ds by (auto simp: draw_state_def intro!: exI [of _ 0] leI)
  qed
qed

text \<open>The loop ends exactly when some draw reaches the threshold.\<close>

lemma draw_from_returns:
  "threshold \<le> fst (random64 (draw_state k r)) \<Longrightarrow> draw_from threshold r \<noteq> None"
proof (induction k arbitrary: r)
  case 0
  then show ?case
    by (subst draw_from.simps) (auto simp: draw_state_def not_less split: prod.splits)
next
  case (Suc k)
  obtain d s where ds: "random64 r = (d, s)" by fastforce
  have "draw_state (Suc k) r = draw_state k s"
    by (simp add: draw_state_def funpow_Suc_right ds del: funpow.simps)
  then show ?case
    using Suc by (subst draw_from.simps) (simp add: ds)
qed

lemma draw_from_None_iff:
  "draw_from threshold r = None \<longleftrightarrow> (\<forall>k. fst (random64 (draw_state k r)) < threshold)"
proof
  show "draw_from threshold r = None \<Longrightarrow> \<forall>k. fst (random64 (draw_state k r)) < threshold"
    using draw_from_returns not_less by metis
  assume *: "\<forall>k. fst (random64 (draw_state k r)) < threshold"
  show "draw_from threshold r = None"
  proof (rule ccontr)
    assume "draw_from threshold r \<noteq> None"
    then obtain y where "draw_from threshold r = Some y" by blast
    with draw_from_SomeD [OF this] * show False by (metis leD)
  qed
qed

text \<open>The threshold is \<open>2 ^ 64 mod total\<close>, so the accepted draws are whole multiples of it.\<close>

lemma unat_threshold:
  assumes "w \<noteq> 0"
  shows "unat ((0 - w) mod w :: u64) = 2 ^ 64 mod unat w"
proof -
  have t: "0 < unat w" "unat w < 2 ^ 64" using assms unsigned_less [of w]
    by (simp_all add: unat_gt_0)
  have "unat (0 - w + w) = (unat (0 - w) + unat w) mod 2 ^ 64"
    by (simp only: unat_word_ariths(1) len_num1 len_bit0 mult_numeral_1_right) simp
  then have "(unat (0 - w) + unat w) mod 2 ^ 64 = 0" by simp
  then obtain k where k: "unat (0 - w) + unat w = 18446744073709551616 * k"
    unfolding power_numeral_u64 by (blast dest: mod_0_imp_dvd elim: dvdE)
  have "0 < k" using k t by (cases k) auto
  moreover have "k < 2" using k t(2) unat_u64_less [of "0 - w"] unfolding power_numeral_u64 by linarith
  ultimately have "k = 1" by linarith
  then have "unat (0 - w) = 2 ^ 64 - unat w" using k unfolding power_numeral_u64 by linarith
  then have "unat ((0 - w) mod w) = (2 ^ 64 - unat w) mod unat w"
    by (simp add: unat_mod)
  also have "\<dots> = (2 ^ 64 - unat w + unat w) mod unat w" by (simp only: mod_add_self2)
  also have "2 ^ 64 - unat w + unat w = 2 ^ 64" using t by linarith
  finally show ?thesis .
qed

lemma card_residue_block:
  assumes "r < (t::nat)"
  shows "card {x \<in> {a..<a + t}. x mod t = r} = 1"
proof -
  define j where "j = (r + (t - a mod t)) mod t"
  have t: "0 < t" using assms by simp
  have j: "j < t" using t by (simp add: j_def)
  have "(a + j) mod t = (a mod t + (r + (t - a mod t))) mod t"
    by (simp only: j_def mod_add_left_eq mod_add_right_eq)
  also have "a mod t + (r + (t - a mod t)) = r + t"
    using mod_less_divisor [OF t, of a] by linarith
  finally have aj: "(a + j) mod t = r" using assms by simp
  have "{x \<in> {a..<a + t}. x mod t = r} = {a + j}"
  proof (intro set_eqI iffI)
    fix x assume x: "x \<in> {x \<in> {a..<a + t}. x mod t = r}"
    then obtain i where i: "x = a + i" "i < t" using le_Suc_ex [of a x] by auto
    then have "(a + i) mod t = (a + j) mod t" using x aj by simp
    then show "x \<in> {a + j}" using mod_add_eq_iff [OF i(2) j, of a] i by simp
  qed (use j aj in auto)
  then show ?thesis by simp
qed

lemma card_residue_blocks:
  assumes "r < (t::nat)"
  shows "card {x \<in> {a..<a + q * t}. x mod t = r} = q"
proof (induction q)
  case (Suc q)
  let ?A = "{x \<in> {a..<a + q * t}. x mod t = r}"
  let ?B = "{x \<in> {a + q * t..<a + q * t + t}. x mod t = r}"
  have "{x \<in> {a..<a + Suc q * t}. x mod t = r} = ?A \<union> ?B" by auto
  moreover have "?A \<inter> ?B = {}" by auto
  moreover have "card ?B = 1" using assms by (rule card_residue_block)
  moreover have "finite ?A" "finite ?B" by simp_all
  ultimately show ?case using Suc by (simp add: card_Un_disjoint)
qed simp

lemma card_accepted_draws:
  assumes w: "w \<noteq> 0" and r: "r < unat w"
  shows "card {x :: u64. (0 - w) mod w \<le> x \<and> unat (x mod w) = r} = 2 ^ 64 div unat w"
proof -
  let ?S = "{x :: u64. (0 - w) mod w \<le> x \<and> unat (x mod w) = r}"
  define N T where "N = (2::nat) ^ 64" and "T = unat w"
  have th: "unat ((0 - w) mod w) = N mod T" unfolding N_def T_def by (rule unat_threshold [OF w])
  have mem: "x \<in> ?S \<longleftrightarrow> N mod T \<le> unat x \<and> unat x mod T = r" for x :: u64
    by (simp only: mem_Collect_eq word_le_nat_alt th) (simp only: unat_mod T_def)
  have lt: "unat x < N" for x :: u64 unfolding N_def using unsigned_less [of x] by simp
  have surj: "unat (of_nat k :: u64) = k" if "k < N" for k
    using that unfolding N_def by (rule unat_of_nat_small)
  have "unat ` ?S = {x \<in> {N mod T..<N}. x mod T = r}"
  proof (intro set_eqI iffI)
    fix k assume "k \<in> unat ` ?S"
    then obtain x where k: "k = unat x" "x \<in> ?S" by blast
    then show "k \<in> {x \<in> {N mod T..<N}. x mod T = r}"
      unfolding mem k(1) mem_Collect_eq atLeastLessThan_iff using lt by blast
  next
    fix k assume k: "k \<in> {x \<in> {N mod T..<N}. x mod T = r}"
    then have u: "unat (of_nat k :: u64) = k"
      by (intro surj) (simp only: mem_Collect_eq atLeastLessThan_iff)
    have "of_nat k \<in> ?S"
      unfolding mem u using k by (simp only: mem_Collect_eq atLeastLessThan_iff)
    then have "unat (of_nat k :: u64) \<in> unat ` ?S" by (rule imageI)
    then show "k \<in> unat ` ?S" unfolding u .
  qed
  moreover have "inj_on unat ?S" by (rule inj_onI) (simp only: word_unat_eq_iff)
  ultimately have "card ?S = card {x \<in> {N mod T..<N}. x mod T = r}"
    by (simp only: card_image [symmetric])
  also have "\<dots> = card {x \<in> {N mod T..<N mod T + (N div T) * T}. x mod T = r}"
    by (simp only: mod_div_mult_eq)
  also have "\<dots> = N div T" using r by (intro card_residue_blocks) (simp add: T_def)
  finally show ?thesis by (simp only: N_def T_def)
qed

end
