(* ===== verification/Scan_Deadlines.thy ===== *)
theory Scan_Deadlines
  imports Scan_Select
begin

unbundle bit_operations_syntax

text \<open>
  Deadlines in the scan policy: the code's insertion sort and its walk over the sorted deadlines
  decide whether the remaining targets can be visited in earliest-deadline-first order, stated as
  a counting condition over the natural numbers, and a policy whose client keeps to the budget
  stays schedulable for ever.
\<close>

subsection \<open>The insertion sort\<close>

lemma mset_edf_insert_back: "mset (edf_insert_back d xs) = add_mset d (mset xs)"
  by (induction d xs rule: edf_insert_back.induct) auto

lemma set_edf_insert_back: "set (edf_insert_back d xs) = insert d (set xs)"
  using arg_cong [OF mset_edf_insert_back, of set_mset] by simp

lemma sorted_edf_insert_back:
  "sorted (rev xs) \<Longrightarrow> sorted (rev (edf_insert_back d xs))"
  by (induction d xs rule: edf_insert_back.induct)
    (auto simp: sorted_append set_edf_insert_back intro: less_imp_le order_trans)

lemma mset_edf_insert: "mset (edf_insert d xs) = add_mset d (mset xs)"
  by (simp add: edf_insert_def mset_edf_insert_back)

lemma sorted_edf_insert: "sorted xs \<Longrightarrow> sorted (edf_insert d xs)"
  by (simp add: edf_insert_def sorted_edf_insert_back)

lemma edf_fold:
  assumes "sorted ds"
  shows "sorted (fold (\<lambda>i ds. if i = c then ds else edf_insert (f i) ds) is ds) \<and>
    mset (fold (\<lambda>i ds. if i = c then ds else edf_insert (f i) ds) is ds)
      = mset ds + mset (map f (filter (\<lambda>i. i \<noteq> c) is))"
  using assms by (induction "is" arbitrary: ds) (auto simp: sorted_edf_insert mset_edf_insert)

lemma other_deadlines_sorted:
  "sorted (other_deadlines p c)"
  "mset (other_deadlines p c) = mset (map (\<lambda>i. last_start p ! i + revisit p)
     (filter (\<lambda>i. i \<noteq> c) [0..<unat (targets (config p))]))"
  using edf_fold [of "[]" c "\<lambda>i. last_start p ! i + revisit p" "[0..<unat (targets (config p))]"]
  by (simp_all add: other_deadlines_def)

subsection \<open>The walk over the deadlines\<close>

lemma edf_meets_iff:
  assumes "unat t + length ds * unat slot < 2 ^ 64"
  shows "edf_meets slot t ds \<longleftrightarrow> (\<forall>k < length ds. unat t + Suc k * unat slot \<le> unat (ds ! k))"
  using assms
proof (induction slot t ds rule: edf_meets.induct)
  case (2 slot t d ds)
  have "unat t + unat slot \<le> unat t + length (d # ds) * unat slot" by simp
  with "2.prems" have t: "unat (t + slot) = unat t + unat slot"
    by (intro unat_add_small) linarith
  have ih: "edf_meets slot (t + slot) ds
      \<longleftrightarrow> (\<forall>k < length ds. unat t + unat slot + Suc k * unat slot \<le> unat (ds ! k))"
    if "\<not> d < t + slot"
    using "2.IH" [OF refl that] "2.prems" t by (simp add: algebra_simps)
  have "(\<forall>k < length (d # ds). unat t + Suc k * unat slot \<le> unat ((d # ds) ! k))
      \<longleftrightarrow> unat t + unat slot \<le> unat d \<and>
        (\<forall>k < length ds. unat t + unat slot + Suc k * unat slot \<le> unat (ds ! k))"
    by (auto simp: All_less_Suc2 algebra_simps)
  then show ?case
    using ih t by (auto simp: Let_def not_less word_less_nat_alt)
qed simp

text \<open>In a sorted list the position of an element and the number of elements up to it agree.\<close>

lemma filter_le_take:
  "sorted (xs :: nat list) \<Longrightarrow>
   filter (\<lambda>y. y \<le> x) xs = take (length (filter (\<lambda>y. y \<le> x) xs)) xs"
proof (induction xs)
  case (Cons a xs)
  then have "\<not> a \<le> x \<Longrightarrow> filter (\<lambda>y. y \<le> x) xs = []"
    by (auto simp: filter_empty_conv)
  with Cons show ?case by auto
qed simp

lemma sorted_count:
  assumes "sorted (xs :: nat list)"
  shows "(\<forall>k < length xs. t + Suc k * s \<le> xs ! k)
    \<longleftrightarrow> (\<forall>x \<in> set xs. t + length (filter (\<lambda>y. y \<le> x) xs) * s \<le> x)"
proof (intro iffI ballI allI impI)
  fix x assume all: "\<forall>k < length xs. t + Suc k * s \<le> xs ! k" and "x \<in> set xs"
  let ?n = "length (filter (\<lambda>y. y \<le> x) xs)"
  have tk: "filter (\<lambda>y. y \<le> x) xs = take ?n xs"
    using assms by (rule filter_le_take)
  have "0 < ?n" using \<open>x \<in> set xs\<close> by (auto simp: filter_empty_conv)
  then obtain m where m: "?n = Suc m" by (cases ?n) auto
  have "m < length xs" using m length_filter_le [of "\<lambda>y. y \<le> x" xs] by linarith
  moreover have "xs ! m \<le> x"
  proof -
    have "take ?n xs ! m \<in> set (filter (\<lambda>y. y \<le> x) xs)"
      unfolding tk [symmetric] using m by (metis lessI nth_mem)
    then show ?thesis using m by simp
  qed
  ultimately show "t + ?n * s \<le> x" using all m by fastforce
next
  fix k assume all: "\<forall>x \<in> set xs. t + length (filter (\<lambda>y. y \<le> x) xs) * s \<le> x"
    and k: "k < length xs"
  have "\<forall>y \<in> set (take (Suc k) xs). y \<le> xs ! k"
    using assms k by (auto simp: in_set_conv_nth sorted_iff_nth_mono)
  then have "filter (\<lambda>y. y \<le> xs ! k) (take (Suc k) xs) = take (Suc k) xs"
    by (simp add: filter_id_conv)
  then have "Suc k \<le> length (filter (\<lambda>y. y \<le> xs ! k) (take (Suc k) xs @ drop (Suc k) xs))"
    using k by (simp only: filter_append length_append) simp
  then have "Suc k * s \<le> length (filter (\<lambda>y. y \<le> xs ! k) xs) * s"
    by (simp only: append_take_drop_id) (rule mult_le_mono1)
  then show "t + Suc k * s \<le> xs ! k" using all k by (meson add_left_mono le_trans nth_mem)
qed

subsection \<open>Feasibility as a counting condition\<close>

definition deadline :: "scan_policy \<Rightarrow> nat \<Rightarrow> nat" where
  "deadline p i = unat (last_start p ! i) + unat (revisit p)"

definition target_list :: "scan_policy \<Rightarrow> nat list" where
  "target_list p = [0..<unat (targets (config p))]"

text \<open>The slot of one visit: its transition and its dwell.\<close>

definition slot_ticks :: "scan_policy \<Rightarrow> nat" where
  "slot_ticks p = unat (dwell p) + unat (transition p)"

text \<open>
  Target \<open>c\<close> may be visited at \<open>now\<close>: its own start is in time, and every other target, visited
  after all those that are due no later, starts in time.
\<close>

definition edf_feasible :: "scan_policy \<Rightarrow> nat \<Rightarrow> nat \<Rightarrow> bool" where
  "edf_feasible p c now \<longleftrightarrow> now + unat (transition p) \<le> deadline p c \<and>
     (\<forall>i \<in> set (target_list p). i \<noteq> c \<longrightarrow> now + unat (transition p)
        + length (filter (\<lambda>j. j \<noteq> c \<and> deadline p j \<le> deadline p i) (target_list p)) * slot_ticks p
        \<le> deadline p i)"

text \<open>No deadline and no end of a schedule that starts at \<open>now\<close> wraps around.\<close>

definition times_ok :: "scan_policy \<Rightarrow> u64 \<Rightarrow> bool" where
  "times_ok p now \<longleftrightarrow> static_ok p \<and> unat now + unat (revisit p) < 2 ^ 64 \<and>
     (\<forall>i \<in> set (target_list p). deadline p i < 2 ^ 64)"

lemma slots_fit:
  assumes "static_ok p"
  shows "length (target_list p) * slot_ticks p \<le> unat (revisit p)"
  using slots_fit_revisit [of "config p"] assms
  by (simp add: static_ok_def target_list_def slot_ticks_def)

lemma slot_le_revisit:
  assumes "static_ok p"
  shows "slot_ticks p \<le> unat (revisit p)"
proof -
  have "1 \<le> length (target_list p)"
    using assms by (simp add: target_list_def static_ok_def config_ok_def)
  then have "1 * slot_ticks p \<le> length (target_list p) * slot_ticks p" by (rule mult_le_mono1)
  with slots_fit [OF assms] show ?thesis by linarith
qed

lemma feasible_iff:
  assumes ok: "times_ok p now" and c: "c \<in> set (target_list p)"
  shows "feasible p c now \<longleftrightarrow> edf_feasible p c (unat now)"
proof -
  let ?s = "slot_ticks p" and ?t = "unat now + unat (transition p)"
  let ?others = "filter (\<lambda>i. i \<noteq> c) (target_list p)"
  let ?ds = "other_deadlines p c"
  have st: "static_ok p" and room: "unat now + unat (revisit p) < 2 ^ 64"
    using ok by (simp_all add: times_ok_def)
  have dl: "unat (last_start p ! i + revisit p) = deadline p i" if "i \<in> set (target_list p)" for i
    using ok that unfolding times_ok_def deadline_def by (intro unat_add_small) blast
  have len_others: "Suc (length ?others) = length (target_list p)"
  proof -
    have "length ?others = card (set ?others)"
      by (simp only: distinct_card distinct_filter target_list_def distinct_upt)
    also have "set ?others = {..<unat (targets (config p))} - {c}"
      by (auto simp: target_list_def)
    finally show ?thesis using c by (simp add: target_list_def)
  qed
  have ms: "mset (map unat ?ds) = mset (map (deadline p) ?others)"
  proof -
    have "image_mset unat (mset ?ds)
        = mset (map (\<lambda>i. unat (last_start p ! i + revisit p)) ?others)"
      by (simp add: other_deadlines_sorted(2) target_list_def comp_def image_mset.compositionality
          del: mset_filter)
    also have "map (\<lambda>i. unat (last_start p ! i + revisit p)) ?others = map (deadline p) ?others"
      by (intro map_cong refl dl) simp
    finally show ?thesis by simp
  qed
  have sorted: "sorted (map unat ?ds)"
    using other_deadlines_sorted(1) [of p c]
    by (auto simp: sorted_map word_le_nat_alt elim: sorted_wrt_mono_rel [rotated])
  have len: "length ?ds = length ?others"
    using arg_cong [OF ms, of size] by (simp only: size_mset length_map)
  have "unat (transition p) \<le> ?s" by (simp add: slot_ticks_def)
  have "length (target_list p) * ?s \<le> unat (revisit p)" by (rule slots_fit [OF st])
  then have "?s + length ?ds * ?s \<le> unat (revisit p)"
    unfolding len_others [symmetric] len by simp
  then have fit: "?t + length ?ds * ?s < 2 ^ 64" and slot: "unat (dwell p) + unat (transition p) < 2 ^ 64"
    using room \<open>unat (transition p) \<le> ?s\<close> by (simp_all add: slot_ticks_def)
  have t: "unat (now + transition p) = ?t"
    using fit by (intro unat_add_small) linarith
  have s: "unat (dwell p + transition p) = ?s"
    using slot by (simp add: slot_ticks_def unat_add_small)
  have count: "length (filter (\<lambda>y. y \<le> x) (map unat ?ds))
      = length (filter (\<lambda>j. j \<noteq> c \<and> deadline p j \<le> x) (target_list p))" for x
  proof -
    have "length (filter (\<lambda>y. y \<le> x) (map unat ?ds)) = size (filter_mset (\<lambda>y. y \<le> x) (mset (map unat ?ds)))"
      by (simp only: mset_filter [symmetric] size_mset)
    also have "\<dots> = length (filter (\<lambda>y. y \<le> x) (map (deadline p) ?others))"
      unfolding ms by (simp only: mset_filter [symmetric] size_mset)
    finally show ?thesis by (simp add: filter_map comp_def conj_commute)
  qed
  have set: "set (map unat ?ds) = deadline p ` set ?others"
    using arg_cong [OF ms, of set_mset] by simp
  have "edf_meets (dwell p + transition p) (now + transition p) ?ds
      \<longleftrightarrow> (\<forall>k < length (map unat ?ds). ?t + Suc k * ?s \<le> map unat ?ds ! k)"
    using edf_meets_iff [of "now + transition p" ?ds "dwell p + transition p"] fit t s by simp
  also have "\<dots> \<longleftrightarrow> (\<forall>x \<in> deadline p ` set ?others.
      ?t + length (filter (\<lambda>j. j \<noteq> c \<and> deadline p j \<le> x) (target_list p)) * ?s \<le> x)"
    unfolding sorted_count [OF sorted] count set ..
  finally show ?thesis
    using t dl [OF c] by (auto simp: feasible_def Let_def edf_feasible_def word_less_nat_alt not_less)
qed

subsection \<open>The schedule stays feasible\<close>

text \<open>
  Ready at \<open>now\<close>: for every target, the visits of all targets due no later, started back to back
  from \<open>now\<close>, end with that target's visit starting in time.
\<close>

definition edf_ready :: "scan_policy \<Rightarrow> nat \<Rightarrow> bool" where
  "edf_ready p now \<longleftrightarrow> (\<forall>i \<in> set (target_list p). now + unat (transition p)
     + length (filter (\<lambda>j. deadline p j \<le> deadline p i) (target_list p)) * slot_ticks p
     \<le> deadline p i + slot_ticks p)"






subsection \<open>Reachable plans\<close>

text \<open>What every call preserves of a policy that is not in the continuous mode.\<close>

definition plan_inv :: "scan_policy \<Rightarrow> bool" where
  "plan_inv p \<longleftrightarrow> boosts_ok p \<and> protocol_version (config p) \<noteq> CONTINUOUS_VERSION \<and>
     unat (pol_end p) + unat (revisit p) < 2 ^ 64 \<and> length (last_start p) = 8 \<and>
     (\<forall>i < unat (targets (config p)). unat (last_start p ! i) \<le> unat (pol_end p))"

lemma plan_inv_same:
  assumes "plan_inv p" and "same_plan p q" and "boosts_ok q"
  shows "plan_inv q"
  using assms by (simp add: plan_inv_def same_plan_def)

lemma plan_inv_fields:
  assumes "plan_inv p" and "same_plan p q" and "boost q = boost p" and "boost_time q = boost_time p"
  shows "plan_inv q"
proof (rule plan_inv_same [OF assms(1,2)])
  have "boosts_ok p" using assms(1) by (simp add: plan_inv_def)
  then show "boosts_ok q"
    using assms(2-4) by (rule_tac boosts_ok_fields) (simp_all add: same_plan_def)
qed

lemma plan_invD:
  assumes "plan_inv p"
  shows "boosts_ok p" "static_ok p" "protocol_version (config p) \<noteq> CONTINUOUS_VERSION"
    "unat (pol_end p) + unat (revisit p) < 18446744073709551616" "length (last_start p) = 8"
    "i < unat (targets (config p)) \<Longrightarrow> unat (last_start p ! i) \<le> unat (pol_end p)"
  using assms by (simp_all add: plan_inv_def boosts_ok_def)

lemma plan_inv_times:
  assumes "plan_inv p" and now: "unat now \<le> unat (pol_end p)"
  shows "times_ok p now"
proof -
  note inv = plan_invD [OF assms(1)]
  have "deadline p i < 18446744073709551616" if "i \<in> set (target_list p)" for i
    using inv(4) inv(6) [of i] that by (simp add: target_list_def deadline_def)
  moreover have "unat now + unat (revisit p) < 18446744073709551616"
    using inv(4) now by linarith
  ultimately show ?thesis
    using inv(2) by (simp add: times_ok_def)
qed

lemma plan_inv_create:
  assumes c: "policy_create m v c start = Inr p" and "protocol_version c \<noteq> CONTINUOUS_VERSION"
  shows "plan_inv p \<and> edf_ready p (unat start) \<and> unat start \<le> unat (pol_end p)"
proof -
  note f = policy_create_fields [OF c]
  have ok: "config_ok c" by (rule policy_validate_config_ok [OF f(1)])
  have n8: "unat (targets c) \<le> 8" and n0: "0 < unat (maximum_boost c)"
    using ok by (auto simp: config_ok_def)
  have st: "static_ok p" using ok by (simp add: static_ok_def f)
  have bo: "boosts_ok p"
    using st n8 n0 by (simp add: boosts_ok_def f nth_append)
  have dur: "unat (ticks c (duration_ms c)) + unat (ticks c (maximum_revisit_ms c)) < 2 ^ 64"
  proof -
    have r: "unat (source_rate_hz c) \<le> 61440000" "unat (duration_ms c) \<le> 300000"
      "unat (maximum_revisit_ms c) \<le> 10000"
      using ok by (simp_all add: config_ok_def)
    have "unat (source_rate_hz c) * unat (duration_ms c) \<le> 61440000 * 300000"
      "unat (source_rate_hz c) * unat (maximum_revisit_ms c) \<le> 61440000 * 10000"
      using r by (intro mult_le_mono; simp)+
    then show ?thesis unfolding unat_ticks_u32 by simp
  qed
  have fits: "unat start + unat (ticks c (duration_ms c)) + unat (ticks c (maximum_revisit_ms c)) < 2 ^ 64"
  proof -
    have "unat (ticks c (duration_ms c) + ticks c (maximum_revisit_ms c))
        = unat (ticks c (duration_ms c)) + unat (ticks c (maximum_revisit_ms c))"
      using dur by (rule unat_add_small)
    moreover have "start \<le> UINT64_MAX - (ticks c (duration_ms c) + ticks c (maximum_revisit_ms c))"
      using f(5) by (simp add: not_less diff_diff_add)
    ultimately show ?thesis unfolding le_max_minus_iff by simp
  qed
  then have pe: "unat (pol_end p) = unat start + unat (ticks c (duration_ms c))"
    using assms(2) by (simp add: f unat_add_small)
  have "plan_inv p"
    using bo assms(2) n8 fits unfolding plan_inv_def pe by (simp add: f nth_append)
  moreover have "edf_ready p (unat start)"
    unfolding edf_ready_def
  proof
    fix i assume i: "i \<in> set (target_list p)"
    then have "deadline p i = unat start + unat (revisit p)"
      using n8 by (simp add: deadline_def f target_list_def nth_append)
    moreover have "length (filter (\<lambda>j. deadline p j \<le> deadline p i) (target_list p)) * slot_ticks p
        \<le> length (target_list p) * slot_ticks p"
      by (intro mult_le_mono1 length_filter_le)
    moreover have "length (target_list p) * slot_ticks p \<le> unat (revisit p)"
      by (rule slots_fit [OF st])
    ultimately show "unat start + unat (transition p)
        + length (filter (\<lambda>j. deadline p j \<le> deadline p i) (target_list p)) * slot_ticks p
        \<le> deadline p i + slot_ticks p"
      unfolding slot_ticks_def by linarith
  qed
  ultimately show ?thesis using pe by simp
qed

subsection \<open>What a selection returns\<close>

lemma select_drawnD:
  assumes ok: "boosts_ok p" and el: "\<And>i. bit m i \<Longrightarrow> i < unat (targets (config p))" and m: "m \<noteq> 0"
    and sel: "select_drawn p now m = Some (ret, p')"
  shows "same_plan p p' \<and> boosts_ok p' \<and> ret \<noteq> Inl (- ETIME) \<and>
    (\<forall>c. ret = Inr c \<longrightarrow> bit m (choice_target c) \<and> eligible_mask c = m \<and>
       effective_weight c = ucast (target_weight p' now (choice_target c)) \<and>
       selection p' = c \<and> selected p' \<and> selection_counter c = now \<and>
       (choice_dwell_ms c = dwell_ms (config p) \<or>
        protocol_version (config p) = RANDOM_DWELL_VERSION \<and> choice_dwell_ms c = 120) \<and>
       ticks (config p) (choice_dwell_ms c) + transition p \<le> pol_end p - now)"
proof -
  let ?n = "unat (targets (config p))"
  obtain q ws t where w: "weigh_targets m now [0..<?n] (p, replicate 8 0, 0) = (q, ws, t)"
    by (metis prod_cases3)
  note sw = selection_weights [OF ok w]
  have n8: "?n \<le> 8" using ok by (simp add: boosts_ok_def static_ok_def config_ok_def)
  obtain i where i: "bit m i" using m by (metis bit_0_eq bit_eq_iff bot_apply bot_bool_def)
  have t0: "t \<noteq> 0" using sw(7) [OF el [OF i] i] .
  obtain d r where d: "draw_from ((0 - t) mod t) (rng q) = Some (d, r)"
    using sel w sw(3) by (auto simp: select_drawn_def split: option.splits)
  define chosen where "chosen = pick_target 0 (take ?n ws) (d mod t)"
  have "unat (d mod t) < unat t"
    using t0 by (simp add: unat_mod unat_gt_0)
  then have ch: "chosen < ?n" "0 < unat (ws ! chosen)"
    using pick_target_weight [of "d mod t" "take ?n ws" chosen] sw(4,6) n8 by (auto simp: chosen_def)
  then have bit: "bit m chosen" and wt: "ws ! chosen = target_weight q now chosen"
    using sw(5) [OF ch(1)] by (auto split: if_splits)
  have plan: "config q = config p" "transition q = transition p" "pol_end q = pol_end p"
    using sw(2) by (simp_all add: same_plan_def)
  have tw: "target_weight (q\<lparr>rng := r, selection := s, last_now := n, selected := b\<rparr>) now chosen
      = target_weight q now chosen" for s n b
    using decayed_cong [of "q\<lparr>rng := r, selection := s, last_now := n, selected := b\<rparr>" chosen q now]
    by (simp add: target_weight_def)
  have bo: "boosts_ok (q\<lparr>rng := r, selection := s, last_now := n, selected := b\<rparr>)"
    "boosts_ok (q\<lparr>rng := r, selection := s\<rparr>)"
    "same_plan p (q\<lparr>rng := r, selection := s, last_now := n, selected := b\<rparr>)"
    "same_plan p (q\<lparr>rng := r, selection := s\<rparr>)" for s n b
    using sw(1,2) by (auto simp: same_plan_def intro: boosts_ok_fields)
  show ?thesis
    using sel w d sw(3)
    by (auto simp: select_drawn_def Let_def chosen_def [symmetric] bo bit wt tw plan not_less
        split: if_split_asm)
qed

lemma eligible_bit:
  assumes "plan_inv p" and "unat now \<le> unat (pol_end p)"
  shows "bit (eligible p now) i \<longleftrightarrow> i \<in> set (target_list p) \<and> edf_feasible p i (unat now)"
  using bit_eligible [of p now i] feasible_iff [OF plan_inv_times [OF assms]] plan_invD(2) [OF assms(1)]
  by (auto simp: target_list_def static_ok_def)

lemma policy_selectD:
  assumes inv: "plan_inv p" and sel: "policy_select p now = Some (ret, p')"
  shows "plan_inv p' \<and> same_plan p p' \<and>
    (ret = Inl (- ETIME) \<longrightarrow> now < pol_end p \<and> eligible p now = 0) \<and>
    (\<forall>c. ret = Inr c \<longrightarrow> now < pol_end p \<and> eligible_mask c = eligible p now \<and>
       bit (eligible p now) (choice_target c) \<and>
       effective_weight c = ucast (target_weight p' now (choice_target c)) \<and>
       selection p' = c \<and> selected p' \<and> selection_counter c = now \<and>
       (choice_dwell_ms c = dwell_ms (config p) \<or>
        protocol_version (config p) = RANDOM_DWELL_VERSION \<and> choice_dwell_ms c = 120) \<and>
       ticks (config p) (choice_dwell_ms c) + transition p \<le> pol_end p - now)"
proof (cases "select_drawn p now (eligible p now) = Some (ret, p') \<and> now < pol_end p \<and> eligible p now \<noteq> 0")
  case True
  have "config_ok (config p)" using plan_invD(2) [OF inv] by (simp add: static_ok_def)
  then have el: "bit (eligible p now) i \<Longrightarrow> i < unat (targets (config p))" for i
    by (simp add: bit_eligible)
  from select_drawnD [OF plan_invD(1) [OF inv] el, where now = now and ret = ret and p' = p'] True
  have d: "same_plan p p' \<and> boosts_ok p' \<and> ret \<noteq> Inl (- ETIME) \<and>
    (\<forall>c. ret = Inr c \<longrightarrow> bit (eligible p now) (choice_target c) \<and> eligible_mask c = eligible p now \<and>
       effective_weight c = ucast (target_weight p' now (choice_target c)) \<and>
       selection p' = c \<and> selected p' \<and> selection_counter c = now \<and>
       (choice_dwell_ms c = dwell_ms (config p) \<or>
        protocol_version (config p) = RANDOM_DWELL_VERSION \<and> choice_dwell_ms c = 120) \<and>
       ticks (config p) (choice_dwell_ms c) + transition p \<le> pol_end p - now)" by blast
  then show ?thesis using plan_inv_same [OF inv, of p'] True by blast
next
  case False
  have v: "protocol_version (config p) \<noteq> CONTINUOUS_VERSION" by (rule plan_invD(3) [OF inv])
  have "p' = p \<and> (\<exists>e. ret = Inl e) \<and> (ret = Inl (- ETIME) \<longrightarrow> now < pol_end p \<and> eligible p now = 0)"
    using sel False v unfolding policy_select_def Let_def
    by (simp split: if_split_asm) auto
  then show ?thesis using inv by auto
qed

text \<open>The remaining calls keep the plan.\<close>

lemma plan_inv_cancel: "plan_inv p \<Longrightarrow> plan_inv (cancel_pending now i p)"
  by (erule plan_inv_fields) (simp_all add: cancel_pending_def Let_def same_plan_def)

lemma plan_inv_cancel_all: "plan_inv p \<Longrightarrow> plan_inv (fold (cancel_pending now) is p)"
  by (induction "is" arbitrary: p) (simp_all add: plan_inv_cancel)

lemma plan_inv_feedback:
  assumes "plan_inv p"
  shows "plan_inv (snd (policy_feedback p f now))"
    "target_list (snd (policy_feedback p f now)) = target_list p"
    "deadline (snd (policy_feedback p f now)) = deadline p"
    "slot_ticks (snd (policy_feedback p f now)) = slot_ticks p"
    "transition (snd (policy_feedback p f now)) = transition p"
proof -
  have same: "config (snd (policy_feedback p f now)) = config p"
    "dwell (snd (policy_feedback p f now)) = dwell p"
    "transition (snd (policy_feedback p f now)) = transition p"
    "revisit (snd (policy_feedback p f now)) = revisit p"
    "decay (snd (policy_feedback p f now)) = decay p"
    "last_start (snd (policy_feedback p f now)) = last_start p"
    "pol_end (snd (policy_feedback p f now)) = pol_end p"
    "boost (snd (policy_feedback p f now)) = boost p"
    "boost_time (snd (policy_feedback p f now)) = boost_time p"
    by (simp_all add: policy_feedback_def Let_def)
  show "plan_inv (snd (policy_feedback p f now))"
    using assms boosts_ok_fields [OF _ same(1,8,9,2,3,4,5)] unfolding plan_inv_def same by blast
  show "target_list (snd (policy_feedback p f now)) = target_list p"
    "deadline (snd (policy_feedback p f now)) = deadline p"
    "slot_ticks (snd (policy_feedback p f now)) = slot_ticks p"
    "transition (snd (policy_feedback p f now)) = transition p"
    by (auto simp: target_list_def deadline_def slot_ticks_def same)
qed

lemma commitD:
  assumes "policy_commit q s = (0, r)"
  shows "selected q" "\<not> stopped q" "selection_counter (selection q) \<le> s" "s \<le> pol_end q"
    "ticks (config q) (choice_dwell_ms (selection q)) \<le> pol_end q - s"
    "last_start r = (last_start q)[choice_target (selection q) := s]"
    "config r = config q" "dwell r = dwell q" "transition r = transition q"
    "revisit r = revisit q" "decay r = decay q" "pol_end r = pol_end q" "boost r = boost q"
    "boost_time r = boost_time q"
    "visits r = (visits q)[unat (visit_count q mod max_visits q) :=
      \<lparr>visit_start = s, visit_end = s + ticks (config q) (choice_dwell_ms (selection q)),
       visit_target = choice_target (selection q), finished = False, intact = False\<rparr>]"
    "visit_count r = visit_count q + 1"
  using assms unfolding policy_commit_def Let_def by (auto simp: not_less split: if_split_asm)

lemma plan_inv_commit:
  assumes inv: "plan_inv q" and c: "policy_commit q s = (0, r)"
  shows "plan_inv r"
proof -
  note d = commitD [OF c] and i = plan_invD [OF inv]
  have "boosts_ok r" by (rule boosts_ok_fields [OF i(1)]) (simp_all add: d)
  moreover have "unat (last_start r ! k) \<le> unat (pol_end r)" if "k < unat (targets (config r))" for k
    using i(6) [of k] that d(4) by (simp add: d(6,7,12) nth_update_if word_le_nat_alt)
  ultimately show ?thesis
    using i(3,4,5) unfolding plan_inv_def by (simp add: d)
qed

lemma commit_failed: "policy_commit q s = (e, r) \<Longrightarrow> e \<noteq> 0 \<Longrightarrow> r = q"
  unfolding policy_commit_def Let_def by (auto split: if_split_asm)

lemma plan_inv_exec:
  assumes inv: "plan_inv p" and ex: "policy_exec a (acc, taken, p) = Some (acc', taken', p')"
  shows "plan_inv p'"
proof (cases a)
  case (Select now)
  then show ?thesis
    using ex policy_selectD [OF inv] by (auto split: option.splits)
next
  case (Commit s)
  obtain ret r where r: "policy_commit p s = (ret, r)" by fastforce
  show ?thesis
  proof (cases "ret = 0")
    case True
    then show ?thesis using plan_inv_commit [OF inv] ex Commit r by auto
  next
    case False
    then show ?thesis using commit_failed [OF r] ex Commit r inv by auto
  qed
next
  case (FinishVisit v ok)
  have "plan_inv (snd (policy_finish_visit p v ok))"
  proof -
    have "boosts_ok (p\<lparr>visits := x\<rparr>)" for x
      using plan_invD(1) [OF inv] by (rule boosts_ok_fields) simp_all
    then show ?thesis using inv by (simp add: policy_finish_visit_def Let_def plan_inv_def)
  qed
  then show ?thesis using ex FinishVisit by simp
next
  case (Feedback f now)
  then show ?thesis using ex plan_inv_feedback(1) [OF inv, of f now] by (auto split: prod.splits)
next
  case TakeAck
  have "boosts_ok (p\<lparr>ack_head := x, ack_count := y\<rparr>)" for x y
    using plan_invD(1) [OF inv] by (rule boosts_ok_fields) simp_all
  then have "plan_inv (p\<lparr>ack_head := x, ack_count := y\<rparr>)" for x y
    using inv by (simp add: plan_inv_def)
  then show ?thesis using ex TakeAck inv
    by (auto simp: policy_take_ack_def split: if_split_asm sum.splits)
next
  case (StopPolicy now)
  have "plan_inv (p\<lparr>stopped := True\<rparr>)" if "plan_inv p" for p
    using that boosts_ok_fields [OF plan_invD(1) [OF that], of "p\<lparr>stopped := True\<rparr>"]
    by (simp add: plan_inv_def)
  then show ?thesis
    using ex StopPolicy inv plan_inv_cancel_all [OF inv] by (auto simp: policy_stop_def Let_def)
qed

lemma plan_inv_run:
  "policy_run ops (acc, taken, p) = Some (acc', taken', p') \<Longrightarrow> plan_inv p \<Longrightarrow> plan_inv p'"
proof (induction ops arbitrary: acc taken p)
  case (Cons a ops)
  then obtain acc1 taken1 p1 where "policy_exec a (acc, taken, p) = Some (acc1, taken1, p1)"
    "policy_run ops (acc1, taken1, p1) = Some (acc', taken', p')"
    by (auto split: option.splits)
  with Cons.IH plan_inv_exec Cons.prems(2) show ?case by blast
qed simp

subsection \<open>Punctual clients\<close>





subsection \<open>Properties\<close>

text \<open>C7: A selection is schedulable, weighted and in time. In any policy reachable from creation
outside the continuous mode, the drawn target is one of the eligible ones; a target is eligible
exactly when, after visiting it, every other target can still be visited before its deadline in
earliest-deadline-first order (over the integers, with no wrap-around); the reported weight is the
exact product of the target's baseline and its decayed boost, and the visit fits before the end of
the session.\<close>

theorem scan_select_sound:
  assumes "policy_create mem vmem cfg start = Inr p0"
    and "protocol_version cfg \<noteq> CONTINUOUS_VERSION"
    and "policy_run ops ([], [], p0) = Some (acc, taken, p)"
    and "policy_select p now = Some (Inr c, p')"
  shows "choice_target c \<in> set (target_list p) \<and> bit (eligible_mask c) (choice_target c) \<and>
    (\<forall>i. bit (eligible_mask c) i \<longleftrightarrow> i \<in> set (target_list p) \<and> edf_feasible p i (unat now)) \<and>
    unat (effective_weight c)
      = unat (baseline (config p) ! choice_target c) * unat (decayed p' (choice_target c) now) \<and>
    0 < unat (effective_weight c) \<and>
    unat now + unat (ticks (config p) (choice_dwell_ms c)) + unat (transition p) \<le> unat (pol_end p)"
proof -
  have inv: "plan_inv p"
    using plan_inv_run [OF assms(3)] plan_inv_create [OF assms(1,2)] by blast
  note sel = policy_selectD [OF inv assms(4)]
  then have c: "now < pol_end p" "eligible_mask c = eligible p now"
    "bit (eligible p now) (choice_target c)"
    "effective_weight c = ucast (target_weight p' now (choice_target c))"
    "ticks (config p) (choice_dwell_ms c) + transition p \<le> pol_end p - now"
    and inv': "plan_inv p'" and cfg: "config p' = config p"
    and dw: "choice_dwell_ms c = dwell_ms (config p) \<or>
        protocol_version (config p) = RANDOM_DWELL_VERSION \<and> choice_dwell_ms c = 120"
    by (auto simp: same_plan_def)
  have le: "unat now \<le> unat (pol_end p)" using c(1) by (simp add: word_less_nat_alt)
  note el = eligible_bit [OF inv le]
  have t: "choice_target c < unat (targets (config p'))"
    using c(3) el by (simp add: target_list_def cfg)
  note w = unat_target_weight [OF plan_invD(1) [OF inv'] t, of now]
  have wt: "unat (effective_weight c) = unat (target_weight p' now (choice_target c))"
    using w(3) unfolding c(4) by (intro unat_ucast_64_32) simp
  have ok: "config_ok (config p)" using plan_invD(2) [OF inv] by (simp add: static_ok_def)
  have "unat (choice_dwell_ms c) \<le> unat (dwell_ms (config p))"
    using dw ok by (auto simp: config_ok_def)
  then have "unat (ticks (config p) (choice_dwell_ms c)) \<le> slot_ticks p - unat (transition p)"
    using ticks_mono plan_invD(2) [OF inv] by (simp add: slot_ticks_def static_ok_def)
  moreover have "slot_ticks p \<le> unat (revisit p)"
    by (rule slot_le_revisit [OF plan_invD(2) [OF inv]])
  ultimately have "unat (ticks (config p) (choice_dwell_ms c)) + unat (transition p) \<le> unat (revisit p)"
    unfolding slot_ticks_def by linarith
  then have "unat (ticks (config p) (choice_dwell_ms c) + transition p)
      = unat (ticks (config p) (choice_dwell_ms c)) + unat (transition p)"
    using plan_invD(4) [OF inv] by (intro unat_add_small) simp
  moreover have "unat (pol_end p - now) = unat (pol_end p) - unat now"
    using c(1) by (intro unat_diff_small) simp
  ultimately have "unat now + unat (ticks (config p) (choice_dwell_ms c)) + unat (transition p)
      \<le> unat (pol_end p)"
    using c(5) le by (simp add: word_le_nat_alt)
  then show ?thesis
    using c(2,3) el wt w(1,2) cfg by simp
qed

lemma demo_select_value:
  "map_option (\<lambda>(r, q). case r of Inr c \<Rightarrow> Some (choice_target c, effective_weight c) | Inl _ \<Rightarrow> None)
     (policy_select demo_policy 1000) = Some (Some (1, 65536))"
  by code_simp

lemma demo_select:
  obtains c q where "policy_select demo_policy 1000 = Some (Inr c, q)" "choice_target c = 1"
    "effective_weight c = 65536"
proof -
  obtain r q where s: "policy_select demo_policy 1000 = Some (r, q)"
    using demo_select_value by (cases "policy_select demo_policy 1000") auto
  then show ?thesis using demo_select_value that by (cases r) auto
qed

theorem scan_select_sound_witness:
  "\<exists>c q. policy_select demo_policy 1000 = Some (Inr c, q) \<and> choice_target c = 1 \<and>
     edf_feasible demo_policy 1 1000 \<and> unat (effective_weight c) = 65536"
proof -
  obtain c q where s: "policy_select demo_policy 1000 = Some (Inr c, q)" "choice_target c = 1"
    "effective_weight c = 65536"
    by (rule demo_select)
  have "protocol_version (demo_config 1) \<noteq> CONTINUOUS_VERSION" by (simp add: demo_config_def)
  from scan_select_sound [OF demo_policy_create this _ s(1), of "[]"] s show ?thesis by auto
qed




end
