(* ===== verification/Scan_Draws.thy ===== *)
theory Scan_Draws
  imports Scan_Deadlines
begin

unbundle bit_operations_syntax

text \<open>
  The random draws of the scan policy, counted over all states of its generator: a step of the
  generator permutes the 64-bit words, so a selection that accepts its first draw picks each
  eligible target in exact proportion to its weight, and a rejected draw only moves the generator.
\<close>

subsection \<open>The generator\<close>

lemma random64_fst: "fst (random64 g) = snd (random64 g) * 2685821657736338717"
  by (simp add: random64_def Let_def)

lemma xor_eq_iff: "(x :: u64) XOR a = y XOR b \<longleftrightarrow> x XOR y = a XOR b"
  by (auto simp: bit_eq_iff bit_simps)

lemma shifted_zero:
  fixes z :: u64
  assumes n: "0 < n"
  shows "z = drop_bit n z \<Longrightarrow> z = 0" and "z = push_bit n z \<Longrightarrow> z = 0"
proof -
  assume z: "z = drop_bit n z"
  have "\<not> bit z i" for i
  proof (induction "64 - i" arbitrary: i rule: less_induct)
    case less
    show ?case
    proof (cases "i < 64")
      case True
      have "bit z i = bit z (n + i)" using arg_cong [OF z, of "\<lambda>w. bit w i"] by (simp add: bit_drop_bit_eq)
      then show ?thesis using less [of "n + i"] n True by simp
    qed (auto dest: bit_imp_le_length)
  qed
  then show "z = 0" by (intro bit_word_eqI) simp
next
  assume z: "z = push_bit n z"
  have "\<not> bit z i" for i
  proof (induction i rule: less_induct)
    case (less i)
    have "bit z i \<longleftrightarrow> bit (push_bit n z) i" using arg_cong [OF z, of "\<lambda>w. bit w i"] .
    then show ?case using less [of "i - n"] n by (auto simp: bit_push_bit_iff)
  qed
  then show "z = 0" by (intro bit_word_eqI) simp
qed

lemma xor_shift_inj:
  assumes "0 < n"
  shows "inj (\<lambda>x :: u64. x XOR drop_bit n x)" and "inj (\<lambda>x :: u64. x XOR push_bit n x)"
proof -
  have zero: "x = y" if "x XOR y = 0" for x y :: u64 using that by (auto simp: bit_eq_iff bit_simps)
  show "inj (\<lambda>x :: u64. x XOR drop_bit n x)"
  proof (rule injI)
    fix x y :: u64 assume "x XOR drop_bit n x = y XOR drop_bit n y"
    from trans [OF iffD1 [OF xor_eq_iff this] drop_bit_xor [symmetric]]
    show "x = y" by (rule zero [OF shifted_zero(1) [OF assms]])
  qed
  show "inj (\<lambda>x :: u64. x XOR push_bit n x)"
  proof (rule injI)
    fix x y :: u64 assume "x XOR push_bit n x = y XOR push_bit n y"
    from trans [OF iffD1 [OF xor_eq_iff this] push_bit_xor [symmetric]]
    show "x = y" by (rule zero [OF shifted_zero(2) [OF assms]])
  qed
qed

lemma times_odd_inj: "inj (\<lambda>x :: u64. x * 2685821657736338717)"
proof (rule injI)
  fix x y :: u64 assume "x * 2685821657736338717 = y * 2685821657736338717"
  then have "x * 2685821657736338717 * 6415128727920758069 = y * 2685821657736338717 * 6415128727920758069"
    by (rule arg_cong)
  moreover have "z * 2685821657736338717 * 6415128727920758069 = z" for z :: u64
  proof -
    have "2685821657736338717 * 6415128727920758069 = (1 :: u64)" by (simp add: word_uint_eq_iff)
    then show ?thesis by (simp only: mult.assoc mult_1_right)
  qed
  ultimately show "x = y" by simp
qed

lemma random64_inj: "inj (\<lambda>g. fst (random64 g))"
proof -
  have "(\<lambda>g. fst (random64 g)) = (\<lambda>x. x * 2685821657736338717) \<circ> (\<lambda>x. x XOR drop_bit 27 x) \<circ>
      (\<lambda>x. x XOR push_bit 25 x) \<circ> (\<lambda>x. x XOR drop_bit 12 x)"
    by (simp add: random64_def Let_def fun_eq_iff)
  then show ?thesis
    by (simp only:) (intro inj_compose times_odd_inj xor_shift_inj; simp)
qed

text \<open>The first draw is uniform over the generator's states.\<close>

lemma card_first_draw: "card {g. P (fst (random64 g))} = card {x :: u64. P x}"
proof -
  have "surj (\<lambda>g. fst (random64 g))" by (rule finite_UNIV_inj_surj [OF finite random64_inj])
  then have "(\<lambda>g. fst (random64 g)) ` {g. P (fst (random64 g))} = {x. P x}" by (auto simp: surj_def)
  then show ?thesis
    using card_image [OF inj_on_subset [OF random64_inj subset_UNIV]] by metis
qed

subsection \<open>One draw\<close>

lemma draw_from_step:
  "draw_from t g = (if fst (random64 g) < t then draw_from t (snd (random64 g)) else Some (random64 g))"
  by (subst draw_from.simps) (simp add: case_prod_beta)

text \<open>The generator has made one step exactly if the first draw was accepted.\<close>

lemma draw_from_first:
  "draw_from t g = Some (d, snd (random64 g)) \<longleftrightarrow> t \<le> fst (random64 g) \<and> d = fst (random64 g)"
proof
  assume r: "draw_from t g = Some (d, snd (random64 g))"
  then obtain k where k: "random64 (draw_state k g) = (d, snd (random64 g))" and "t \<le> d"
    using draw_from_SomeD [OF r] by auto
  moreover have "d = snd (random64 g) * 2685821657736338717"
    using random64_fst [of "draw_state k g"] k by simp
  ultimately show "t \<le> fst (random64 g) \<and> d = fst (random64 g)" by (simp add: random64_fst)
qed (subst draw_from_step, auto simp: not_less [symmetric])

lemma sum_take_mono: "i \<le> j \<Longrightarrow> sum_list (take i ws) \<le> sum_list (take j (ws :: nat list))"
proof -
  assume "i \<le> j"
  then have "take j ws = take i ws @ take (j - i) (drop i ws)" by (metis le_add_diff_inverse take_add)
  then show ?thesis by simp
qed

lemma pick_target_iff:
  assumes d: "unat d < sum_list (map unat ws)" and i: "i < length ws"
  shows "pick_target 0 ws d = i \<longleftrightarrow>
    unat d \<in> {sum_list (map unat (take i ws))..<sum_list (map unat (take (Suc i) ws))}"
proof -
  let ?s = "\<lambda>i. sum_list (take i (map unat ws))"
  obtain j where j: "pick_target 0 ws d = j" "?s j \<le> unat d" "unat d < ?s (Suc j)"
    using pick_target_interval [OF d, of 0] by (auto simp: take_map)
  show ?thesis
  proof (cases rule: linorder_cases [of i j])
    case less
    then have "?s (Suc i) \<le> ?s j" by (intro sum_take_mono) simp
    then show ?thesis using j less by (simp add: take_map)
  next
    case greater
    then have "?s (Suc j) \<le> ?s i" by (intro sum_take_mono) simp
    then show ?thesis using j greater by (simp add: take_map)
  qed (use j in \<open>simp add: take_map\<close>)
qed

lemma card_picks:
  assumes t: "t \<noteq> 0" "unat t = sum_list (map unat ws)" and i: "i < length ws"
  shows "card {x :: u64. (0 - t) mod t \<le> x \<and> pick_target 0 ws (x mod t) = i}
    = 2 ^ 64 div unat t * unat (ws ! i)"
proof -
  let ?s = "\<lambda>i. sum_list (map unat (take i ws))"
  let ?R = "{?s i..<?s (Suc i)}" and ?A = "\<lambda>r. {x :: u64. (0 - t) mod t \<le> x \<and> unat (x mod t) = r}"
  have lt: "unat (x mod t) < sum_list (map unat ws)" for x
    unfolding t(2) [symmetric] unat_mod using t(1) by (intro mod_less_divisor) (simp add: unat_gt_0)
  have le: "?s (Suc i) \<le> unat t"
    using sum_take_mono [of "Suc i" "length ws" "map unat ws"] i by (simp add: t(2) take_map)
  have c: "card (?A r) = 2 ^ 64 div unat t" if "r \<in> ?R" for r
    by (rule card_accepted_draws [OF t(1)]) (use that le in simp)
  have "pick_target 0 ws (x mod t) = i \<longleftrightarrow> unat (x mod t) \<in> ?R" for x
    by (rule pick_target_iff [OF lt i])
  then have "card {x. (0 - t) mod t \<le> x \<and> pick_target 0 ws (x mod t) = i} = card (\<Union>r \<in> ?R. ?A r)"
    by (intro arg_cong [of _ _ card] set_eqI) (simp only: mem_Collect_eq UN_iff, blast)
  also have "\<dots> = (\<Sum>r \<in> ?R. card (?A r))"
    by (rule card_UN_disjoint) (blast intro: finite_subset [OF subset_UNIV] finite_atLeastLessThan finite)+
  also have "\<dots> = (\<Sum>r \<in> ?R. 2 ^ 64 div unat t)" by (rule sum.cong [OF refl c])
  also have "\<dots> = card ?R * (2 ^ 64 div unat t)" by (simp only: sum_constant of_nat_id)
  also have "card ?R = unat (ws ! i)" using i by (simp add: take_Suc_conv_app_nth)
  finally show ?thesis by (simp only: mult.commute)
qed

subsection \<open>Selections that differ in the generator\<close>

lemma rng_fields [simp]:
  "config (p\<lparr>rng := g\<rparr>) = config p" "decayed (p\<lparr>rng := g\<rparr>) i now = decayed p i now"
  by (simp_all add: decayed_def Let_def)

lemma terminal_ack_rng:
  "terminal_ack (p\<lparr>rng := g\<rparr>) i r now a b = (terminal_ack p i r now a b)\<lparr>rng := g\<rparr>"
  by (cases p) (simp add: terminal_ack_def Let_def)

lemma apply_pending_rng: "apply_pending (p\<lparr>rng := g\<rparr>) now i = (apply_pending p now i)\<lparr>rng := g\<rparr>"
  by (cases p) (simp add: apply_pending_def terminal_ack_def decayed_def Let_def)

lemma weigh_targets_rng:
  "weigh_targets m now is (p, ws, t) = (q, ws', t') \<Longrightarrow>
   weigh_targets m now is (p\<lparr>rng := g\<rparr>, ws, t) = (q\<lparr>rng := g\<rparr>, ws', t')"
  by (induction m now "is" "(p, ws, t)" arbitrary: p ws t rule: weigh_targets.induct)
    (auto simp: apply_pending_rng Let_def split: if_splits)

lemma eligible_rng: "eligible (p\<lparr>rng := g\<rparr>) now = eligible p now"
proof -
  have "other_deadlines (p\<lparr>rng := g\<rparr>) i = other_deadlines p i" for i 
    by (cases p) (simp add: other_deadlines_def cong: if_cong)
  then have "feasible (p\<lparr>rng := g\<rparr>) = feasible p" 
    by (cases p) (simp add: feasible_def fun_eq_iff Let_def)
  then show ?thesis by (simp add: eligible_def)
qed

text \<open>What a selection returns for a draw, once the targets have their weights.\<close>

definition drawn_result :: "scan_policy \<Rightarrow> u64 \<Rightarrow> u32 \<Rightarrow> u64 list \<Rightarrow> u64 \<Rightarrow> u64 \<Rightarrow> u64
    \<Rightarrow> scan_choice res \<times> scan_policy" where
  "drawn_result q now emask weights sum_w draw r =
     (let chosen = pick_target 0 (take (unat (targets (config q))) weights) (draw mod sum_w);
        s = \<lparr>choice_visit = visit_count q, selection_counter = now, choice_target = chosen,
          eligible_mask = emask, effective_weight = ucast (weights ! chosen),
          choice_dwell_ms = (if protocol_version (config q) = RANDOM_DWELL_VERSION \<and>
              \<not> target_active q ! chosen then 120 else dwell_ms (config q)),
          deadline_forced = (emask AND (emask - 1) = 0 \<and> 1 < targets (config q))\<rparr>;
        p = q\<lparr>rng := r, selection := s\<rparr>
      in if pol_end p - now < ticks (config p) (choice_dwell_ms s) + transition p
         then (Inl (- ENODATA), p) else (Inr s, p\<lparr>last_now := now, selected := True\<rparr>))"

lemma drawn_result_simps:
  "rng (snd (drawn_result q now m ws t d r)) = r"
  "choice_target (selection (snd (drawn_result q now m ws t d r)))
    = pick_target 0 (take (unat (targets (config q))) ws) (d mod t)"
  "decayed (snd (drawn_result q now m ws t d r)) i now' = decayed q i now'"
  "drawn_result (q\<lparr>rng := g\<rparr>) now m ws t d r = drawn_result q now m ws t d r"
  by (simp_all add: drawn_result_def decayed_def Let_def)

lemma select_drawn_eq:
  assumes "weigh_targets m now [0..<unat (targets (config p))] (p, replicate 8 0, 0) = (q, ws, t)"
    and "config q = config p"
  shows "select_drawn (p\<lparr>rng := g\<rparr>) now m =
    map_option (\<lambda>(d, r). drawn_result q now m ws t d r) (draw_from ((0 - t) mod t) g)"
proof -
  have "select_drawn (p\<lparr>rng := g\<rparr>) now m =
      map_option (\<lambda>(d, r). drawn_result (q\<lparr>rng := g\<rparr>) now m ws t d r) (draw_from ((0 - t) mod t) g)"
    by (simp add: select_drawn_def weigh_targets_rng [OF assms(1)] drawn_result_def assms(2) Let_def
        split: option.split)
  then show ?thesis by (simp only: drawn_result_simps(4))
qed

text \<open>Whether a selection gets to the draw does not depend on the generator.\<close>

lemma select_rng:
  assumes inv: "plan_inv p" and sel: "policy_select p now = Some (Inr c, p')"
  obtains q ws t where
    "weigh_targets (eligible p now) now [0..<unat (targets (config p))] (p, replicate 8 0, 0) = (q, ws, t)"
    and "\<And>g. policy_select (p\<lparr>rng := g\<rparr>) now = map_option
      (\<lambda>(d, r). drawn_result q now (eligible p now) ws t d r) (draw_from ((0 - t) mod t) g)"
    and "\<And>i. decayed p' i now = decayed q i now"
proof -
  obtain q ws t where w: "weigh_targets (eligible p now) now [0..<unat (targets (config p))]
      (p, replicate 8 0, 0) = (q, ws, t)" by (metis prod_cases3)
  have "config q = config p"
    using selection_weights(2) [OF plan_invD(1) [OF inv] w] by (simp add: same_plan_def)
  note d = select_drawn_eq [OF w this]
  have v: "protocol_version (config p) \<noteq> CONTINUOUS_VERSION" by (rule plan_invD(3) [OF inv])
  have "select_drawn p now (eligible p now) = Some (Inr c, p') \<and>
      policy_select (p\<lparr>rng := g\<rparr>) now = select_drawn (p\<lparr>rng := g\<rparr>) now (eligible p now)" for g
    using sel v unfolding policy_select_def eligible_rng Let_def by (simp split: if_split_asm) auto
  moreover have "\<exists>d r. drawn_result q now (eligible p now) ws t d r = (Inr c, p')"
    using calculation d [of "rng p"] by (cases "draw_from ((0 - t) mod t) (rng p)") auto
  then have "decayed p' i now = decayed q i now" for i using drawn_result_simps(3) by (metis snd_conv)
  ultimately show thesis by (intro that [OF w]) (simp_all add: d)
qed

subsection \<open>Properties\<close>

text \<open>C28: Draws are unbiased. Take any policy reached outside the continuous mode and any time at which
  it makes a selection, and count over all 64-bit states of the generator: the states from which the
  selection accepts the first draw (the generator then makes exactly one step) and picks a target are
  its weight times a number that is the same for every target, where the weight is the baseline times the
  decayed boost if the target is eligible, and else zero. From any other state the selection is the one
  from the generator's next state. It returns exactly if some draw of the sequence is at least the
  remainder of \<open>2 ^ 64\<close> by the total weight.\<close>

theorem scan_draws_unbiased:
  assumes "policy_create mem vmem cfg start = Inr p0" and "protocol_version cfg \<noteq> CONTINUOUS_VERSION"
    and "policy_run ops ([], [], p0) = Some (acc, taken, p)"
    and "policy_select p now = Some (Inr c, p')"
    and "weight = (\<lambda>i. if bit (eligible_mask c) i
       then unat (baseline (config p) ! i) * unat (decayed p' i now) else 0)"
    and "W = (\<Sum>i < unat (targets (config p)). weight i)"
    and "once = (\<lambda>g. \<exists>r q. policy_select (p\<lparr>rng := g\<rparr>) now = Some (r, q) \<and> rng q = snd (random64 g))"
  shows "0 < W \<and> W < 2 ^ 64 \<and>
    (\<forall>i < unat (targets (config p)). card {g. once g \<and>
       (\<exists>r q. policy_select (p\<lparr>rng := g\<rparr>) now = Some (r, q) \<and> choice_target (selection q) = i)}
       = 2 ^ 64 div W * weight i) \<and>
    (\<forall>g. once g \<or>
       policy_select (p\<lparr>rng := g\<rparr>) now = policy_select (p\<lparr>rng := snd (random64 g)\<rparr>) now) \<and>
    (\<forall>g. policy_select (p\<lparr>rng := g\<rparr>) now = None \<longleftrightarrow>
       (\<forall>k. unat (fst (random64 (draw_state k g))) < 2 ^ 64 mod W))"
proof -
  have inv: "plan_inv p"
    using plan_inv_run [OF assms(3)] plan_inv_create [OF assms(1,2)] by blast
  let ?n = "unat (targets (config p))"
  have m: "eligible_mask c = eligible p now" and tgt: "bit (eligible p now) (choice_target c)"
    using policy_selectD [OF inv assms(4)] by auto
  obtain q ws t where
    w: "weigh_targets (eligible p now) now [0..<?n] (p, replicate 8 0, 0) = (q, ws, t)"
    and sel: "\<And>g. policy_select (p\<lparr>rng := g\<rparr>) now = map_option
      (\<lambda>(d, r). drawn_result q now (eligible p now) ws t d r) (draw_from ((0 - t) mod t) g)"
    and dec: "\<And>i. decayed p' i now = decayed q i now"
    by (rule select_rng [OF inv assms(4)]) blast
  note sw = selection_weights [OF plan_invD(1) [OF inv] w]
  have n: "?n \<le> 8" "choice_target c < ?n" and cfg: "config q = config p"
    using plan_invD(2) [OF inv] tgt sw(2) bit_eligible [of p now]
    by (auto simp: static_ok_def config_ok_def same_plan_def)
  have wt: "unat (ws ! i) = weight i" if "i < ?n" for i
    using sw(5) [OF that] unat_target_weight(1) [OF sw(1), of i now] that
    by (simp add: assms(5) m cfg dec)
  have t0: "t \<noteq> 0" by (rule sw(7) [OF n(2) tgt])
  have "map unat (take ?n ws) = map weight [0..<?n]"
    using wt n sw(4) by (intro nth_equalityI) simp_all
  then have W: "unat t = W"
    using sw(6) by (simp add: assms(6) interv_sum_list_conv_sum_set_nat atLeast0LessThan)
  have th: "unat ((0 - t) mod t) = 2 ^ 64 mod W" using unat_threshold [OF t0] W by simp
  let ?res = "drawn_result q now (eligible p now) ws t"
  have ex: "(\<exists>r s. policy_select (p\<lparr>rng := g\<rparr>) now = Some (r, s) \<and> P s) \<longleftrightarrow>
      (\<exists>d r. draw_from ((0 - t) mod t) g = Some (d, r) \<and> P (snd (?res d r)))" for P g
  proof -
    have "(\<exists>r s. y = (r, s) \<and> P s) \<longleftrightarrow> P (snd y)" for y :: "scan_choice res \<times> scan_policy" by (cases y) simp
    then show ?thesis unfolding sel by (cases "draw_from ((0 - t) mod t) g") auto
  qed
  have once: "once g \<longleftrightarrow> (0 - t) mod t \<le> fst (random64 g)" for g
    unfolding assms(7) ex drawn_result_simps(1) using draw_from_first by (metis (no_types, lifting))
  have "{g. once g \<and> (\<exists>r q. policy_select (p\<lparr>rng := g\<rparr>) now = Some (r, q) \<and> choice_target (selection q) = i)}
      = {g. (0 - t) mod t \<le> fst (random64 g) \<and> pick_target 0 (take ?n ws) (fst (random64 g) mod t) = i}" for i
  proof -
    have "(\<exists>r q. policy_select (p\<lparr>rng := g\<rparr>) now = Some (r, q) \<and> choice_target (selection q) = i)
        \<longleftrightarrow> pick_target 0 (take ?n ws) (fst (random64 g) mod t) = i"
      if "(0 - t) mod t \<le> fst (random64 g)" for g
      using draw_from_step [of "(0 - t) mod t" g] that
      unfolding ex drawn_result_simps(2) cfg by (cases "random64 g") (simp add: not_less [symmetric])
    then show ?thesis by (auto simp: once)
  qed
  then have "card {g. once g \<and> (\<exists>r q. policy_select (p\<lparr>rng := g\<rparr>) now = Some (r, q) \<and> choice_target (selection q) = i)}
      = 2 ^ 64 div W * weight i" if "i < ?n" for i
    using card_first_draw [of "\<lambda>x. (0 - t) mod t \<le> x \<and> pick_target 0 (take ?n ws) (x mod t) = i"]
      card_picks [OF t0 sw(6), of i] wt [OF that] that n sw(4) by (simp add: W)
  moreover have "once g \<or> policy_select (p\<lparr>rng := g\<rparr>) now = policy_select (p\<lparr>rng := snd (random64 g)\<rparr>) now" for g
    unfolding once sel by (subst (1) draw_from_step) auto
  moreover have "policy_select (p\<lparr>rng := g\<rparr>) now = None \<longleftrightarrow>
      (\<forall>k. unat (fst (random64 (draw_state k g))) < 2 ^ 64 mod W)" for g
    by (simp only: sel option.map_disc_iff draw_from_None_iff word_less_nat_alt th)
  moreover have "0 < W" "W < 2 ^ 64" using t0 W unat_u64_less [of t] by (auto simp: unat_gt_0 simp flip: W)
  ultimately show ?thesis by blast
qed

subsection \<open>A concrete policy\<close>

lemma demo_baseline: "baseline (config demo_policy) ! 0 = 3" "baseline (config demo_policy) ! 1 = 1"
    "targets (config demo_policy) = 2"
  by code_simp+

lemma demo_eligible: "map_option (\<lambda>(r, q). case r of Inr c \<Rightarrow> Some (eligible_mask c) | Inl _ \<Rightarrow> None)
     (policy_select demo_policy 1000) = Some (Some 3)"
  by code_simp

lemma demo_decayed: "map_option (\<lambda>(r, q). (decayed q 0 1000, decayed q 1 1000))
     (policy_select demo_policy 1000) = Some (65536, 65536)"
  by code_simp

text \<open>Two targets with the weights 3 and 1: of all states that accept their first draw, which here are all,
  three quarters pick the first one.\<close>

theorem scan_draws_unbiased_witness:
  "card {g. (\<exists>r q. policy_select (demo_policy\<lparr>rng := g\<rparr>) 1000 = Some (r, q) \<and> rng q = snd (random64 g)) \<and>
       (\<exists>r q. policy_select (demo_policy\<lparr>rng := g\<rparr>) 1000 = Some (r, q) \<and> choice_target (selection q) = 0)}
     = 3 * 2 ^ 62 \<and>
   card {g. (\<exists>r q. policy_select (demo_policy\<lparr>rng := g\<rparr>) 1000 = Some (r, q) \<and> rng q = snd (random64 g)) \<and>
       (\<exists>r q. policy_select (demo_policy\<lparr>rng := g\<rparr>) 1000 = Some (r, q) \<and> choice_target (selection q) = 1)}
     = 2 ^ 62"
proof -
  obtain c q where s: "policy_select demo_policy 1000 = Some (Inr c, q)" by (rule demo_select)
  have v: "protocol_version (demo_config 1) \<noteq> CONTINUOUS_VERSION" by (simp add: demo_config_def)
  have m: "eligible_mask c = 3" and d: "decayed q 0 1000 = 65536" "decayed q 1 1000 = 65536"
    using demo_eligible demo_decayed by (simp_all add: s)
  have b: "bit (3 :: u32) 0" "bit (3 :: u32) 1" by (simp_all add: bit_numeral_rec)
  let ?w = "\<lambda>i. if bit (eligible_mask c) i
       then unat (baseline (config demo_policy) ! i) * unat (decayed q i 1000) else 0"
  have w: "?w 0 = 3 * 65536" "?w 1 = 65536" using b d by (simp_all add: m demo_baseline demo_baseline(2) [simplified] del: bit_0)
  have n: "unat (targets (config demo_policy)) = 2" by (simp add: demo_baseline(3))
  have W: "(\<Sum>i < unat (targets (config demo_policy)). ?w i) = 2 ^ 18"
  proof -
    have "sum f {..<2} = f 0 + f 1" for f :: "nat \<Rightarrow> nat" by (simp add: numeral_2_eq_2)
    then show ?thesis unfolding n w by (simp only: w) simp
  qed
  have "policy_run [] ([], [], demo_policy) = Some ([], [], demo_policy)" by simp
  from scan_draws_unbiased [OF demo_policy_create v this s refl refl refl, unfolded W]
  have "\<forall>i < 2. card {g. (\<exists>r q. policy_select (demo_policy\<lparr>rng := g\<rparr>) 1000 = Some (r, q) \<and> rng q = snd (random64 g)) \<and>
       (\<exists>r q. policy_select (demo_policy\<lparr>rng := g\<rparr>) 1000 = Some (r, q) \<and> choice_target (selection q) = i)}
     = 2 ^ 64 div 2 ^ 18 * ?w i"
    unfolding n by blast
  note this [rule_format, of 0, unfolded w(1)] this [rule_format, of 1, unfolded w(2)]
  then show ?thesis by simp
qed

end
