(* ===== verification/Visit_Queue.thy ===== *)
theory Visit_Queue
  imports Scan_Policy
begin

text \<open>
  The visit queue (\<open>iiod/spf-visit-queue.c\<close>): a ring of up to 64 reserved visits and an array of
  up to 64 leased DMA blocks. A fed block is leased until no visit has a slice of it and the
  release callback has returned it; a visit is admitted only when its blocks and bytes fit.

  Times and byte counts are 64-bit words. Block counts, reference counts and array indices are
  natural numbers: each is bounded by the 64 entries of an array or, for the blocks of a visit, by
  the sample count that the first check of \<open>reserve\<close> admits; decrements write out the wrap-around
  below zero. The arrays \<open>block\<close> and \<open>slices\<close> of a visit are the lists of their first
  \<open>slice_count\<close> entries. A DMA token and a data address are 64-bit words. The release callback
  with its context is the parameter \<open>release\<close>, a function on the context.
\<close>

datatype visit_result = VISIT_ADMITTED | VISIT_COMPLETE | VISIT_SKIP_CAPACITY | VISIT_SKIP_AGE
  | VISIT_INVALID_GAP | VISIT_CANCELLED

record vq_config =
  block_count :: nat
  headroom_blocks :: nat
  maximum_visits :: nat
  block_samples :: u32
  vq_rate_hz :: u32
  maximum_bytes :: u64
  maximum_age_ticks :: u64
  drain_bytes_per_second :: u64
  bytes_per_sample :: u32
  maximum_visit_ms :: u32
  preserve_partial :: bool

record vq_slice =
  slice_token :: u64
  slice_data :: u64
  slice_offset :: nat
  slice_bytes :: nat

record vq_view =
  view_id :: u64
  view_start :: u64
  view_end :: u64
  view_result :: visit_result
  view_slices :: "vq_slice list"

record vq_stats =
  reserved_bytes :: u64
  high_water_bytes :: u64
  missing_samples :: u64
  leased_blocks :: nat
  reserved_blocks :: nat
  high_water_blocks :: nat
  visit_total :: nat

record vq_block =
  blk_token :: u64
  blk_data :: u64
  refs :: nat
  owned :: bool

record vq_visit =
  v_id :: u64
  reserved_at :: u64
  v_start :: u64
  v_end :: u64
  v_next :: u64
  v_bytes :: u64
  v_samples :: u32
  remaining_blocks :: nat
  v_block :: "nat list"
  v_slices :: "vq_slice list"
  v_result :: visit_result
  bound :: bool
  closed :: bool
  sending :: bool

record visit_queue =
  vq_cfg :: vq_config
  blocks :: "vq_block list"
  vq_visits :: "vq_visit list"
  stats :: vq_stats
  vq_head :: nat
  last_source_end :: u64
  last_reserved_id :: u64
  last_valid_end :: u64
  have_source :: bool
  have_id :: bool
  cancelled :: bool

definition zero_block :: vq_block where
  "zero_block = \<lparr>blk_token = 0, blk_data = 0, refs = 0, owned = False\<rparr>"

definition zero_vq_visit :: vq_visit where
  "zero_vq_visit = \<lparr>v_id = 0, reserved_at = 0, v_start = 0, v_end = 0, v_next = 0, v_bytes = 0,
     v_samples = 0, remaining_blocks = 0, v_block = [], v_slices = [], v_result = VISIT_ADMITTED,
     bound = False, closed = False, sending = False\<rparr>"

text \<open>Subtraction of \<open>unsigned\<close> values.\<close>

definition uint_sub :: "nat \<Rightarrow> nat \<Rightarrow> nat" where
  "uint_sub a b = (if b \<le> a then a - b else a + 4294967296 - b)"

lemma uint_sub [simp]: "b \<le> a \<Longrightarrow> uint_sub a b = a - b"
  by (simp add: uint_sub_def)

subsection \<open>Operations\<close>

text \<open>\<open>at\<close>: the array index of the \<open>i\<close>-th visit, and the visit.\<close>

definition vq_index :: "visit_queue \<Rightarrow> nat \<Rightarrow> nat" where
  "vq_index q i = (vq_head q + i) mod 64"

definition vq_at :: "visit_queue \<Rightarrow> nat \<Rightarrow> vq_visit" where
  "vq_at q i = vq_visits q ! vq_index q i"

definition vq_set :: "visit_queue \<Rightarrow> nat \<Rightarrow> vq_visit \<Rightarrow> visit_queue" where
  "vq_set q i v = q\<lparr>vq_visits := (vq_visits q)[vq_index q i := v]\<rparr>"

definition vq_create :: "bool \<Rightarrow> vq_config \<Rightarrow> visit_queue res" where
  "vq_create mem c =
     (if block_count c < 4 \<or> 64 < block_count c \<or> headroom_blocks c = 0 \<or>
         block_count c \<le> headroom_blocks c \<or> maximum_visits c = 0 \<or> 64 < maximum_visits c \<or>
         block_samples c = 0 \<or> 1000000 < block_samples c \<or> \<not> scan_rate_valid (vq_rate_hz c) \<or>
         (bytes_per_sample c \<noteq> 4 \<and> bytes_per_sample c \<noteq> 8) \<or> maximum_visit_ms c = 0 \<or>
         360 < maximum_visit_ms c \<or> maximum_bytes c = 0 \<or> 200000000 < maximum_bytes c \<or>
         maximum_age_ticks c = 0 \<or> ucast (vq_rate_hz c) * 10 < maximum_age_ticks c \<or>
         drain_bytes_per_second c = 0 \<or> 1000000000 < drain_bytes_per_second c
      then Inl (- EINVAL)
      else if \<not> mem then Inl (- ENOMEM)
      else Inr \<lparr>vq_cfg = c, blocks = replicate 64 zero_block,
        vq_visits = replicate 64 zero_vq_visit,
        stats = \<lparr>reserved_bytes = 0, high_water_bytes = 0, missing_samples = 0,
          leased_blocks = 0, reserved_blocks = 0, high_water_blocks = 0, visit_total = 0\<rparr>,
        vq_head = 0, last_source_end = 0, last_reserved_id = 0, last_valid_end = 0,
        have_source = False, have_id = False, cancelled = False\<rparr>)"

text \<open>One step of \<open>reap\<close>: an owned block without references is offered for release, and stays
  owned when the release fails. \<open>err\<close> is the first error so far.\<close>

fun vq_reap_block :: "('c \<Rightarrow> u64 \<Rightarrow> int \<times> 'c) \<Rightarrow> nat \<Rightarrow> int \<times> 'c \<times> visit_queue
    \<Rightarrow> int \<times> 'c \<times> visit_queue" where
  "vq_reap_block release i (err, ctx, q) =
     (let b = blocks q ! i in
      if \<not> owned b \<or> refs b \<noteq> 0 then (err, ctx, q)
      else let (ret, ctx) = release ctx (blk_token b) in
      if ret \<noteq> 0 then (if err = 0 then ret else err, ctx, q)
      else (err, ctx, q\<lparr>blocks := (blocks q)[i := zero_block],
        stats := (stats q)\<lparr>leased_blocks := uint_dec (leased_blocks (stats q))\<rparr>\<rparr>))"

definition vq_reap :: "('c \<Rightarrow> u64 \<Rightarrow> int \<times> 'c) \<Rightarrow> 'c \<Rightarrow> visit_queue \<Rightarrow> int \<times> 'c \<times> visit_queue" where
  "vq_reap release ctx q =
     fold (vq_reap_block release) [0..<block_count (vq_cfg q)] (0, ctx, q)"

definition drop_refs :: "nat list \<Rightarrow> vq_block list \<Rightarrow> vq_block list" where
  "drop_refs ss bs = fold (\<lambda>s bs. bs[s := (bs ! s)\<lparr>refs := uint_dec (refs (bs ! s))\<rparr>]) ss bs"

definition vq_discard :: "visit_queue \<Rightarrow> nat \<Rightarrow> visit_result \<Rightarrow> visit_queue" where
  "vq_discard q i result =
     (let v = vq_at q i in
      vq_set (q\<lparr>blocks := drop_refs (v_block v) (blocks q),
        stats := (stats q)\<lparr>
          reserved_blocks := uint_sub (reserved_blocks (stats q)) (remaining_blocks v),
          reserved_bytes := reserved_bytes (stats q) - v_bytes v\<rparr>\<rparr>) i
        (v\<lparr>v_block := [], v_slices := [], remaining_blocks := 0, v_bytes := 0,
           v_result := result, closed := True\<rparr>))"

definition vq_terminate :: "visit_queue \<Rightarrow> nat \<Rightarrow> visit_result \<Rightarrow> visit_queue" where
  "vq_terminate q i result =
     (if \<not> preserve_partial (vq_cfg q) then vq_discard q i result
      else let v = vq_at q i in
      vq_set (q\<lparr>stats := (stats q)\<lparr>
          reserved_blocks := uint_sub (reserved_blocks (stats q)) (remaining_blocks v)\<rparr>\<rparr>) i
        (v\<lparr>remaining_blocks := 0, v_end := v_next v, v_result := result, closed := True\<rparr>))"

text \<open>\<open>reserve\<close> returns the code and, when it is 0, the result it stores for the caller.\<close>

definition vq_reserve :: "visit_queue \<Rightarrow> u64 \<Rightarrow> u32 \<Rightarrow> u64 \<Rightarrow> visit_result res \<times> visit_queue" where
  "vq_reserve q vid samples now =
     (let c = vq_cfg q; st = stats q; n = visit_total st;
          bytes = (ucast samples :: u64) * ucast (bytes_per_sample c);
          oldest_age = (if n \<noteq> 0 then now - reserved_at (vq_at q 0) else 0);
          blks = unat ((samples + block_samples c - 1) div block_samples c + 1);
          ticks_to_drain = ((reserved_bytes st + bytes) * ucast (vq_rate_hz c)
            + drain_bytes_per_second c - 1) div drain_bytes_per_second c
      in
      if samples = 0 \<or>
         (ucast (vq_rate_hz c) :: u64) * ucast (maximum_visit_ms c) div 1000 < ucast samples
      then (Inl (- EINVAL), q)
      else if cancelled q then (Inl (- ESHUTDOWN), q)
      else if have_id q \<and> vid \<le> last_reserved_id q then (Inl (- ERANGE), q)
      else if n \<noteq> 0 \<and> \<not> bound (vq_at q (n - 1)) then (Inl (- EBUSY), q)
      else if have_source q \<and> now < last_source_end q then (Inl (- ERANGE), q)
      else if n \<noteq> 0 \<and> now < reserved_at (vq_at q 0) then (Inl (- ERANGE), q)
      else if n = maximum_visits c \<or>
          block_count c - headroom_blocks c < blks + leased_blocks st + reserved_blocks st \<or>
          maximum_bytes c < bytes \<or> maximum_bytes c - bytes < reserved_bytes st
      then (Inr VISIT_SKIP_CAPACITY, q)
      else if maximum_age_ticks c < oldest_age \<or>
          maximum_age_ticks c - oldest_age < ticks_to_drain + ucast samples
      then (Inr VISIT_SKIP_AGE, q)
      else let
        v = zero_vq_visit\<lparr>v_id := vid, reserved_at := now, v_samples := samples,
              remaining_blocks := blks, v_bytes := bytes, v_result := VISIT_ADMITTED\<rparr>;
        total_bytes = reserved_bytes st + bytes;
        q = vq_set q n v
      in (Inr VISIT_ADMITTED, q\<lparr>stats := st\<lparr>visit_total := n + 1,
            reserved_blocks := reserved_blocks st + blks, reserved_bytes := total_bytes,
            high_water_bytes := (if high_water_bytes st < total_bytes then total_bytes
              else high_water_bytes st)\<rparr>,
          last_reserved_id := vid, have_id := True\<rparr>))"

definition vq_bind :: "visit_queue \<Rightarrow> u64 \<Rightarrow> u64 \<Rightarrow> int \<times> visit_queue" where
  "vq_bind q vid start =
     (let n = visit_total (stats q); v = vq_at q (n - 1) in
      if n = 0 \<or> cancelled q then (- EINVAL, q)
      else if v_id v \<noteq> vid \<or> bound v \<or> v_result v \<noteq> VISIT_ADMITTED then (- EINVAL, q)
      else if start < reserved_at v \<or> start < last_valid_end q \<or>
          UINT64_MAX - ucast (v_samples v) < start
      then (- ERANGE, q)
      else let stop = start + ucast (v_samples v) in
        (0, (vq_set q (n - 1) (v\<lparr>v_start := start, v_next := start, v_end := stop,
          bound := True\<rparr>))\<lparr>last_valid_end := stop\<rparr>))"

text \<open>The search for a free slot: \<open>Inl\<close> when the token is already leased, else the last free one.\<close>

fun vq_find_slot :: "vq_block list \<Rightarrow> u64 \<Rightarrow> nat list \<Rightarrow> nat option \<Rightarrow> nat option res" where
  "vq_find_slot bs token [] slot = Inr slot"
| "vq_find_slot bs token (i # is) slot =
     (if owned (bs ! i) \<and> blk_token (bs ! i) = token then Inl (- EEXIST)
      else vq_find_slot bs token is (if \<not> owned (bs ! i) then Some i else slot))"

text \<open>What a fed block, now in \<open>slot\<close>, means for visit \<open>i\<close>.\<close>

definition vq_feed_visit :: "u64 \<Rightarrow> u64 \<Rightarrow> u64 \<Rightarrow> u64 \<Rightarrow> nat \<Rightarrow> nat \<Rightarrow> visit_queue \<Rightarrow> visit_queue" where
  "vq_feed_visit token data first stop slot i q =
     (let v = vq_at q i; a = (if v_start v < first then first else v_start v);
          b = (if stop < v_end v then stop else v_end v)
      in
      if v_result v \<noteq> VISIT_ADMITTED then q
      else if v_next v < first \<and> v_next v < v_end v then vq_terminate q i VISIT_INVALID_GAP
      else if b \<le> a then q
      else if a \<noteq> v_next v \<or> remaining_blocks v = 0 \<or> 64 \<le> length (v_slices v)
      then vq_terminate q i VISIT_INVALID_GAP
      else let
        bps = unat (bytes_per_sample (vq_cfg q));
        slice = \<lparr>slice_token = token, slice_data = data, slice_offset = unat (a - first) * bps,
                  slice_bytes = unat (b - a) * bps\<rparr>;
        left = uint_dec (remaining_blocks v);
        reserved = uint_dec (reserved_blocks (stats q));
        fin = (b = v_end v);
        v = v\<lparr>v_block := v_block v @ [slot], v_slices := v_slices v @ [slice],
              remaining_blocks := (if fin then 0 else left), v_next := b,
              v_result := (if fin \<and> closed v then VISIT_COMPLETE else v_result v)\<rparr>
      in vq_set (q\<lparr>blocks := (blocks q)[slot := (blocks q ! slot)\<lparr>refs := refs (blocks q ! slot) + 1\<rparr>],
           stats := (stats q)\<lparr>reserved_blocks := (if fin then uint_sub reserved left else reserved)\<rparr>\<rparr>)
         i v)"

definition vq_feed :: "visit_queue \<Rightarrow> u64 \<Rightarrow> u64 \<Rightarrow> u64 \<Rightarrow> u32 \<Rightarrow> int \<times> visit_queue" where
  "vq_feed q token data first samples =
     (let c = vq_cfg q; st = stats q; n = visit_total st in
      if data = 0 \<or> token = 0 \<or> samples \<noteq> block_samples c \<or> UINT64_MAX - ucast samples < first
      then (- EINVAL, q)
      else if cancelled q then (- ESHUTDOWN, q)
      else if have_source q \<and> first < last_source_end q then (- ERANGE, q)
      else if n \<noteq> 0 \<and> \<not> bound (vq_at q (n - 1)) then (- EAGAIN, q)
      else case vq_find_slot (blocks q) token [0..<block_count c] None of
        Inl e \<Rightarrow> (e, q)
      | Inr None \<Rightarrow> (- ENOSPC, q)
      | Inr (Some slot) \<Rightarrow>
          (let stop = first + ucast samples; leased = leased_blocks st + 1;
             q = q\<lparr>blocks := (blocks q)[slot :=
                   \<lparr>blk_token = token, blk_data = data, refs = 0, owned = True\<rparr>],
                 stats := st\<lparr>leased_blocks := leased,
                   high_water_blocks := max (high_water_blocks st) leased,
                   missing_samples := (if have_source q
                     then missing_samples st + (first - last_source_end q)
                     else missing_samples st)\<rparr>,
                 last_source_end := stop, have_source := True\<rparr>
           in (0, fold (vq_feed_visit token data first stop slot) [0..<n] q)))"

text \<open>The loop of \<open>close_window\<close> over the remaining visit numbers.\<close>

fun vq_close_from :: "visit_queue \<Rightarrow> u64 \<Rightarrow> u64 \<Rightarrow> nat list \<Rightarrow> int \<times> visit_queue" where
  "vq_close_from q vid invalid [] = (- ENOENT, q)"
| "vq_close_from q vid invalid (i # is) =
     (let v = vq_at q i in
      if v_id v \<noteq> vid then vq_close_from q vid invalid is
      else if \<not> bound v then (- EINVAL, q)
      else if closed v then (0, q)
      else if sending v then (- EINVAL, q)
      else let q = vq_set q i (v\<lparr>closed := True\<rparr>) in
        (0, if invalid < v_end v then vq_terminate q i VISIT_INVALID_GAP
            else if v_next v = v_end v
            then vq_set q i (v\<lparr>closed := True, v_result := VISIT_COMPLETE\<rparr>)
            else q))"

definition vq_close_window :: "visit_queue \<Rightarrow> u64 \<Rightarrow> u64 \<Rightarrow> int \<times> visit_queue" where
  "vq_close_window q vid invalid = vq_close_from q vid invalid [0..<visit_total (stats q)]"

definition vq_take :: "visit_queue \<Rightarrow> vq_view res \<times> visit_queue" where
  "vq_take q =
     (let v = vq_at q 0 in
      if visit_total (stats q) = 0 then (Inl (- EAGAIN), q)
      else if sending v then (Inl (- EBUSY), q)
      else if v_result v = VISIT_ADMITTED then (Inl (- EAGAIN), q)
      else (Inr \<lparr>view_id = v_id v, view_start = v_start v, view_end = v_end v,
                 view_result = v_result v, view_slices = v_slices v\<rparr>,
            vq_set q 0 (v\<lparr>sending := True\<rparr>)))"

definition vq_complete_send :: "visit_queue \<Rightarrow> u64 \<Rightarrow> int \<times> visit_queue" where
  "vq_complete_send q vid =
     (let v = vq_at q 0 in
      if visit_total (stats q) = 0 then (- EINVAL, q)
      else if \<not> sending v \<or> v_id v \<noteq> vid then (- EINVAL, q)
      else let q = vq_set (vq_discard q 0 (v_result v)) 0 zero_vq_visit in
        (0, q\<lparr>vq_head := (vq_head q + 1) mod 64,
              stats := (stats q)\<lparr>visit_total := uint_dec (visit_total (stats q))\<rparr>\<rparr>))"

fun vq_expire_visit :: "u64 \<Rightarrow> nat \<Rightarrow> int \<times> visit_queue \<Rightarrow> int \<times> visit_queue" where
  "vq_expire_visit now i (ret, q) =
     (let v = vq_at q i in
      if now - reserved_at v \<le> maximum_age_ticks (vq_cfg q) then (ret, q)
      else if sending v then (- ETIMEDOUT, q)
      else if v_bytes v \<noteq> 0 then (ret, vq_terminate q i VISIT_SKIP_AGE)
      else (ret, q))"

definition vq_expire :: "visit_queue \<Rightarrow> u64 \<Rightarrow> int \<times> visit_queue" where
  "vq_expire q now =
     (if list_ex (\<lambda>i. now < reserved_at (vq_at q i)) [0..<visit_total (stats q)] then (- ERANGE, q)
      else fold (vq_expire_visit now) [0..<visit_total (stats q)] (0, q))"

fun vq_cancel_visit :: "nat \<Rightarrow> int \<times> visit_queue \<Rightarrow> int \<times> visit_queue" where
  "vq_cancel_visit i (ret, q) =
     (let v = vq_at q i in
      if sending v then (- EBUSY, q)
      else if \<not> preserve_partial (vq_cfg q) \<or> v_result v = VISIT_ADMITTED
      then (ret, vq_terminate q i VISIT_CANCELLED)
      else (ret, q))"

definition vq_cancel :: "visit_queue \<Rightarrow> int \<times> visit_queue" where
  "vq_cancel q = fold vq_cancel_visit [0..<visit_total (stats q)] (0, q\<lparr>cancelled := True\<rparr>)"

definition vq_capture_complete :: "visit_queue \<Rightarrow> bool" where
  "vq_capture_complete q \<longleftrightarrow>
     list_all (\<lambda>i. v_result (vq_at q i) \<noteq> VISIT_ADMITTED) [0..<visit_total (stats q)]"

definition vq_destroy :: "visit_queue \<Rightarrow> int" where
  "vq_destroy q = (if visit_total (stats q) \<noteq> 0 \<or> leased_blocks (stats q) \<noteq> 0 then - EBUSY else 0)"

end
