(* ===== verification/Visit_Books.thy ===== *)
theory Visit_Books
  imports Visit_Queue
begin

text \<open>
  The accounting of the visit queue: the visits as a list (\<open>active\<close>), the invariant \<open>vq_books\<close>
  (each reference counter is the number of slices that point to its block; the stats are the sums
  over visits and blocks), and its preservation by every operation.
\<close>

subsection \<open>The visits as a list\<close>

definition active :: "visit_queue \<Rightarrow> vq_visit list" where
  "active q = ring_view (vq_visits q) (vq_head q) (visit_total (stats q))"

definition vq_shape :: "visit_queue \<Rightarrow> bool" where
  "vq_shape q \<longleftrightarrow> length (blocks q) = 64 \<and> length (vq_visits q) = 64 \<and>
     block_count (vq_cfg q) \<le> 64 \<and> visit_total (stats q) \<le> maximum_visits (vq_cfg q) \<and>
     maximum_visits (vq_cfg q) \<le> 64"

lemma length_active [simp]: "length (active q) = visit_total (stats q)"
  by (simp add: active_def)

lemma vq_at_active: "vq_shape q \<Longrightarrow> i < visit_total (stats q) \<Longrightarrow> vq_at q i = active q ! i"
  by (simp add: active_def vq_at_def vq_index_def nth_ring_view vq_shape_def)

lemma active_vq_set:
  "vq_shape q \<Longrightarrow> i < visit_total (stats q) \<Longrightarrow> active (vq_set q i v) = (active q)[i := v]"
  by (simp add: active_def vq_set_def vq_index_def vq_shape_def ring_view_update_inside [symmetric])

lemma vq_set_simps [simp]:
  "vq_cfg (vq_set q i v) = vq_cfg q" "blocks (vq_set q i v) = blocks q"
  "stats (vq_set q i v) = stats q" "vq_head (vq_set q i v) = vq_head q"
  "last_source_end (vq_set q i v) = last_source_end q" "have_source (vq_set q i v) = have_source q"
  "last_reserved_id (vq_set q i v) = last_reserved_id q" "have_id (vq_set q i v) = have_id q"
  "last_valid_end (vq_set q i v) = last_valid_end q" "cancelled (vq_set q i v) = cancelled q"
  "vq_shape (vq_set q i v) = vq_shape q" "vq_index (vq_set q i v) k = vq_index q k"
  by (simp_all add: vq_set_def vq_shape_def vq_index_def)

text \<open>Updates of the other fields do not touch the visits.\<close>

lemma active_simps [simp]:
  "active (q\<lparr>blocks := bs\<rparr>) = active q"
  "visit_total st = visit_total (stats q) \<Longrightarrow> active (q\<lparr>stats := st\<rparr>) = active q"
  "active (q\<lparr>last_source_end := x\<rparr>) = active q" "active (q\<lparr>have_source := b\<rparr>) = active q"
  "active (q\<lparr>last_reserved_id := x\<rparr>) = active q" "active (q\<lparr>have_id := b\<rparr>) = active q"
  "active (q\<lparr>last_valid_end := x\<rparr>) = active q" "active (q\<lparr>cancelled := b\<rparr>) = active q"
  by (simp_all add: active_def)

lemma vq_at_simps [simp]:
  "vq_at (q\<lparr>blocks := bs\<rparr>) i = vq_at q i" "vq_at (q\<lparr>stats := st\<rparr>) i = vq_at q i"
  "vq_at (q\<lparr>last_source_end := x\<rparr>) i = vq_at q i" "vq_at (q\<lparr>have_source := b\<rparr>) i = vq_at q i"
  "vq_at (q\<lparr>last_reserved_id := x\<rparr>) i = vq_at q i" "vq_at (q\<lparr>have_id := b\<rparr>) i = vq_at q i"
  "vq_at (q\<lparr>last_valid_end := x\<rparr>) i = vq_at q i" "vq_at (q\<lparr>cancelled := b\<rparr>) i = vq_at q i"
  by (simp_all add: vq_at_def vq_index_def)

lemma vq_shape_simps [simp]:
  "length bs = length (blocks q) \<Longrightarrow> vq_shape (q\<lparr>blocks := bs\<rparr>) = vq_shape q"
  "visit_total st = visit_total (stats q) \<Longrightarrow> vq_shape (q\<lparr>stats := st\<rparr>) = vq_shape q"
  "vq_shape (q\<lparr>last_source_end := x\<rparr>) = vq_shape q" "vq_shape (q\<lparr>have_source := b\<rparr>) = vq_shape q"
  "vq_shape (q\<lparr>last_reserved_id := x\<rparr>) = vq_shape q" "vq_shape (q\<lparr>have_id := b\<rparr>) = vq_shape q"
  "vq_shape (q\<lparr>last_valid_end := x\<rparr>) = vq_shape q" "vq_shape (q\<lparr>cancelled := b\<rparr>) = vq_shape q"
  by (simp_all add: vq_shape_def)

subsection \<open>References\<close>

lemma drop_refs_Cons:
  "drop_refs (s # ss) bs = drop_refs ss (bs[s := (bs ! s)\<lparr>refs := uint_dec (refs (bs ! s))\<rparr>])"
  by (simp add: drop_refs_def)

lemma length_drop_refs [simp]: "length (drop_refs ss bs) = length bs"
  by (induction ss arbitrary: bs) (simp_all add: drop_refs_Cons, simp add: drop_refs_def)

lemma nth_drop_refs:
  assumes "s < length bs" and "count_list ss s \<le> refs (bs ! s)"
  shows "drop_refs ss bs ! s = (bs ! s)\<lparr>refs := refs (bs ! s) - count_list ss s\<rparr>"
  using assms
proof (induction ss arbitrary: bs)
  case (Cons r ss)
  then show ?case
    by (cases "r = s") (auto simp: drop_refs_Cons nth_update_if uint_dec)
qed (simp add: drop_refs_def)

definition pins :: "vq_visit list \<Rightarrow> nat \<Rightarrow> nat" where
  "pins vs s = sum_list (map (\<lambda>v. count_list (v_block v) s) vs)"

definition pending_blocks :: "vq_visit list \<Rightarrow> nat" where
  "pending_blocks vs = sum_list (map remaining_blocks vs)"

definition pending_bytes :: "vq_visit list \<Rightarrow> nat" where
  "pending_bytes vs = sum_list (map (\<lambda>v. unat (v_bytes v)) vs)"

text \<open>The sums when one visit changes, joins or leaves.\<close>

lemma sum_list_map_update:
  "i < length xs \<Longrightarrow> sum_list (map f (xs[i := x])) + f (xs ! i) = sum_list (map f xs) + (f x :: nat)"
  by (induction xs arbitrary: i) (auto split: nat.split simp: less_Suc_eq_0_disj)

lemma sum_list_map_nth: "i < length xs \<Longrightarrow> (f (xs ! i) :: nat) \<le> sum_list (map f xs)"
  by (metis elem_le_sum_list length_map nth_map)

lemma pins_update:
  "i < length vs \<Longrightarrow> pins (vs[i := v]) s + count_list (v_block (vs ! i)) s
    = pins vs s + count_list (v_block v) s"
  unfolding pins_def by (rule sum_list_map_update)

lemma pins_nth: "i < length vs \<Longrightarrow> count_list (v_block (vs ! i)) s \<le> pins vs s"
  unfolding pins_def by (rule sum_list_map_nth)

lemmas pending_blocks_update = sum_list_map_update [where f = "remaining_blocks :: vq_visit \<Rightarrow> nat", folded pending_blocks_def]
lemmas pending_bytes_update =
  sum_list_map_update [where f = "\<lambda>v :: vq_visit. unat (v_bytes v)", folded pending_bytes_def]
lemmas pending_blocks_nth = sum_list_map_nth [where f = "remaining_blocks :: vq_visit \<Rightarrow> nat", folded pending_blocks_def]
lemmas pending_bytes_nth =
  sum_list_map_nth [where f = "\<lambda>v :: vq_visit. unat (v_bytes v)", folded pending_bytes_def]

lemma sums_simps [simp]:
  "pins [] s = 0" "pins (v # vs) s = count_list (v_block v) s + pins vs s"
  "pins (vs @ ws) s = pins vs s + pins ws s"
  "pending_blocks [] = 0" "pending_blocks (v # vs) = remaining_blocks v + pending_blocks vs"
  "pending_blocks (vs @ ws) = pending_blocks vs + pending_blocks ws"
  "pending_bytes [] = 0" "pending_bytes (v # vs) = unat (v_bytes v) + pending_bytes vs"
  "pending_bytes (vs @ ws) = pending_bytes vs + pending_bytes ws"
  by (simp_all add: pins_def pending_blocks_def pending_bytes_def)

subsection \<open>The invariant\<close>

definition owned_slots :: "vq_block list \<Rightarrow> nat set" where
  "owned_slots bs = {s. s < length bs \<and> owned (bs ! s)}"

definition tokens_distinct :: "vq_block list \<Rightarrow> bool" where
  "tokens_distinct bs \<longleftrightarrow>
     (\<forall>s \<in> owned_slots bs. \<forall>t \<in> owned_slots bs. blk_token (bs ! s) = blk_token (bs ! t) \<longrightarrow> s = t)"

definition vq_books :: "visit_queue \<Rightarrow> bool" where
  "vq_books q \<longleftrightarrow> vq_shape q \<and>
     (\<forall>s < 64. refs (blocks q ! s) = pins (active q) s) \<and>
     (\<forall>s < 64. 0 < refs (blocks q ! s) \<longrightarrow> owned (blocks q ! s)) \<and>
     (\<forall>s < 64. owned (blocks q ! s) \<longrightarrow> s < block_count (vq_cfg q)) \<and>
     tokens_distinct (blocks q) \<and>
     (\<forall>v \<in> set (active q). \<forall>s \<in> set (v_block v). s < 64) \<and>
     leased_blocks (stats q) = card (owned_slots (blocks q)) \<and>
     reserved_blocks (stats q) = pending_blocks (active q) \<and>
     unat (reserved_bytes (stats q)) = pending_bytes (active q)"

lemma vq_booksD:
  assumes "vq_books q"
  shows "vq_shape q" "length (blocks q) = 64" "length (vq_visits q) = 64"
    "s < 64 \<Longrightarrow> refs (blocks q ! s) = pins (active q) s"
    "s < 64 \<Longrightarrow> 0 < refs (blocks q ! s) \<Longrightarrow> owned (blocks q ! s)"
    "s < 64 \<Longrightarrow> owned (blocks q ! s) \<Longrightarrow> s < block_count (vq_cfg q)"
    "tokens_distinct (blocks q)"
    "v \<in> set (active q) \<Longrightarrow> s \<in> set (v_block v) \<Longrightarrow> s < 64"
    "leased_blocks (stats q) = card (owned_slots (blocks q))"
    "reserved_blocks (stats q) = pending_blocks (active q)"
    "unat (reserved_bytes (stats q)) = pending_bytes (active q)"
  using assms by (auto simp: vq_books_def vq_shape_def)

text \<open>A block that a visit has a slice of is owned.\<close>

lemma books_pinned_owned:
  assumes "vq_books q" and "v \<in> set (active q)" and "s \<in> set (v_block v)"
  shows "s < 64" and "owned (blocks q ! s)" and "0 < refs (blocks q ! s)"
proof -
  show s: "s < 64" using assms vq_booksD(8) by blast
  obtain i where i: "i < visit_total (stats q)" "v = active q ! i"
    using assms(2) by (metis in_set_conv_nth length_active)
  have "0 < count_list (v_block v) s"
    using assms(3) by (simp add: count_list_0_iff zero_less_iff_neq_zero)
  moreover have "count_list (v_block v) s \<le> pins (active q) s"
    using pins_nth [of i "active q" s] i by simp
  ultimately show r: "0 < refs (blocks q ! s)"
    using vq_booksD(4) [OF assms(1) s] by simp
  show "owned (blocks q ! s)" by (rule vq_booksD(5) [OF assms(1) s r])
qed

text \<open>Owners and tokens alone decide which slots are leased.\<close>

lemma owned_slots_cong:
  assumes "length bs' = length bs"
    and "\<And>s. s < length bs \<Longrightarrow> owned (bs' ! s) = owned (bs ! s) \<and> blk_token (bs' ! s) = blk_token (bs ! s)"
  shows "owned_slots bs' = owned_slots bs" and "tokens_distinct bs' = tokens_distinct bs"
proof -
  show o: "owned_slots bs' = owned_slots bs"
    using assms by (auto simp: owned_slots_def)
  have "blk_token (bs' ! s) = blk_token (bs ! s)" if "s \<in> owned_slots bs" for s
    using assms(2) that by (simp add: owned_slots_def)
  then show "tokens_distinct bs' = tokens_distinct bs"
    by (simp add: tokens_distinct_def o)
qed

text \<open>Every operation on a visit is the replacement of one visit, with the counters adjusted by
  the difference between the old visit and the new one.\<close>

lemma books_replace:
  assumes q: "vq_books q" and i: "i < visit_total (stats q)"
    and cfg: "vq_cfg q' = vq_cfg q" and sh: "vq_shape q'"
    and act: "active q' = (active q)[i := v']"
    and r: "\<And>s. s < 64 \<Longrightarrow> refs (blocks q' ! s) + count_list (v_block (active q ! i)) s
        = refs (blocks q ! s) + count_list (v_block v') s"
    and o: "\<And>s. s < 64 \<Longrightarrow> owned (blocks q' ! s) = owned (blocks q ! s) \<and>
        blk_token (blocks q' ! s) = blk_token (blocks q ! s)"
    and new: "set (v_block v') \<subseteq> set (v_block (active q ! i)) \<union> owned_slots (blocks q)"
    and leased: "leased_blocks (stats q') = leased_blocks (stats q)"
    and blks: "reserved_blocks (stats q') + remaining_blocks (active q ! i)
        = reserved_blocks (stats q) + remaining_blocks v'"
    and bytes: "unat (reserved_bytes (stats q')) + unat (v_bytes (active q ! i))
        = unat (reserved_bytes (stats q)) + unat (v_bytes v')"
  shows "vq_books q'"
proof -
  note b = vq_booksD [OF q]
  let ?v = "active q ! i"
  have i': "i < length (active q)" using i by simp
  have v: "?v \<in> set (active q)" using i' by simp
  have len: "length (blocks q') = 64" using sh by (simp add: vq_shape_def)
  have slots: "owned_slots (blocks q') = owned_slots (blocks q)"
    "tokens_distinct (blocks q') = tokens_distinct (blocks q)"
    using o by (auto intro!: owned_slots_cong simp: len b(2))
  have pin: "refs (blocks q' ! s) = pins (active q') s" if "s < 64" for s
    using r [OF that] b(4) [OF that] pins_update [OF i', of v' s] by (simp add: act)
  have own: "owned (blocks q' ! s)" if s: "s < 64" "0 < refs (blocks q' ! s)" for s
  proof (cases "s \<in> set (v_block v')")
    case True
    then have "s \<in> set (v_block ?v) \<or> owned (blocks q ! s)"
      using new by (auto simp: owned_slots_def)
    then show ?thesis using o [OF s(1)] books_pinned_owned(2) [OF q v] by blast
  next
    case False
    then have "count_list (v_block v') s = 0" by (simp add: count_list_0_iff)
    then have "0 < refs (blocks q ! s)" using r [OF s(1)] s(2) by simp
    then show ?thesis using o [OF s(1)] b(5) [OF s(1)] by simp
  qed
  have range: "s < 64" if "w \<in> set (active q')" "s \<in> set (v_block w)" for w s
  proof -
    have "w = v' \<or> w \<in> set (active q)"
      using that(1) set_update_subset_insert [of "active q" i v'] by (auto simp: act)
    then show ?thesis
      using that(2) new b(8) v by (auto simp: owned_slots_def b(2))
  qed
  have "reserved_blocks (stats q') = pending_blocks (active q')"
    using blks b(10) pending_blocks_update [OF i', of v'] by (simp add: act)
  moreover have "unat (reserved_bytes (stats q')) = pending_bytes (active q')"
    using bytes b(11) pending_bytes_update [OF i', of v'] by (simp add: act)
  ultimately show ?thesis
    using pin own range o b(6,7,9) sh by (simp add: vq_books_def cfg slots leased)
qed

subsection \<open>Ending a visit\<close>

text \<open>\<open>same_leases\<close>: only visits, reference counters and sums may differ.\<close>

definition same_leases :: "visit_queue \<Rightarrow> visit_queue \<Rightarrow> bool" where
  "same_leases q q' \<longleftrightarrow> vq_cfg q' = vq_cfg q \<and> visit_total (stats q') = visit_total (stats q) \<and>
     leased_blocks (stats q') = leased_blocks (stats q) \<and> vq_head q' = vq_head q \<and>
     last_source_end q' = last_source_end q \<and> have_source q' = have_source q \<and>
     map (\<lambda>b. b\<lparr>refs := 0\<rparr>) (blocks q') = map (\<lambda>b. b\<lparr>refs := 0\<rparr>) (blocks q)"

lemma same_leases_refl [simp]: "same_leases q q"
  by (simp add: same_leases_def)

lemma same_leases_trans [trans]: "same_leases q q' \<Longrightarrow> same_leases q' q'' \<Longrightarrow> same_leases q q''"
  by (simp add: same_leases_def)

lemma same_leases_blocks:
  assumes "same_leases q q'" and "s < length (blocks q)"
  shows "owned (blocks q' ! s) = owned (blocks q ! s)"
    and "blk_token (blocks q' ! s) = blk_token (blocks q ! s)"
    and "blk_data (blocks q' ! s) = blk_data (blocks q ! s)"
proof -
  have m: "map (\<lambda>b. b\<lparr>refs := 0\<rparr>) (blocks q') = map (\<lambda>b. b\<lparr>refs := 0\<rparr>) (blocks q)"
    using assms(1) by (simp add: same_leases_def)
  then have "length (blocks q') = length (blocks q)" by (metis length_map)
  then have "(blocks q' ! s)\<lparr>refs := 0\<rparr> = (blocks q ! s)\<lparr>refs := 0\<rparr>"
    using m assms(2) by (metis nth_map)
  then show "owned (blocks q' ! s) = owned (blocks q ! s)"
    "blk_token (blocks q' ! s) = blk_token (blocks q ! s)"
    "blk_data (blocks q' ! s) = blk_data (blocks q ! s)"
    by (metis vq_block.surjective vq_block.update_convs(3) vq_block.ext_inject)+
qed

lemma same_leases_slots:
  assumes "same_leases q q'"
  shows "owned_slots (blocks q') = owned_slots (blocks q)"
proof (rule owned_slots_cong)
  show "length (blocks q') = length (blocks q)"
    using assms unfolding same_leases_def by (metis length_map)
qed (use same_leases_blocks [OF assms] in simp)

text \<open>A visit after \<open>discard\<close> and after \<open>terminate\<close>.\<close>

definition discarded :: "visit_result \<Rightarrow> vq_visit \<Rightarrow> vq_visit" where
  "discarded r v = v\<lparr>v_block := [], v_slices := [], remaining_blocks := 0, v_bytes := 0,
     v_result := r, closed := True\<rparr>"

lemma discarded_simps [simp]:
  "v_block (discarded r v) = []" "v_slices (discarded r v) = []"
  "remaining_blocks (discarded r v) = 0" "v_bytes (discarded r v) = 0"
  "v_result (discarded r v) = r" "closed (discarded r v)" "sending (discarded r v) = sending v"
  "bound (discarded r v) = bound v" "v_id (discarded r v) = v_id v"
  by (simp_all add: discarded_def)

definition terminated :: "bool \<Rightarrow> visit_result \<Rightarrow> vq_visit \<Rightarrow> vq_visit" where
  "terminated keep r v = (if \<not> keep then discarded r v
     else v\<lparr>remaining_blocks := 0, v_end := v_next v, v_result := r, closed := True\<rparr>)"

lemma discard_ok:
  assumes q: "vq_books q" and i: "i < visit_total (stats q)"
  shows "vq_books (vq_discard q i r)"
    and "active (vq_discard q i r) = (active q)[i := discarded r (active q ! i)]"
    and "same_leases q (vq_discard q i r)"
proof -
  note b = vq_booksD [OF q]
  let ?v = "active q ! i" and ?q = "vq_discard q i r"
  have at: "vq_at q i = ?v" by (rule vq_at_active [OF b(1) i])
  have blk: "blocks ?q = drop_refs (v_block ?v) (blocks q)"
    by (simp add: vq_discard_def Let_def at)
  have cnt: "count_list (v_block ?v) s \<le> refs (blocks q ! s)" if "s < 64" for s
    using pins_nth [of i "active q" s] i b(4) [OF that] by simp
  have nth: "blocks ?q ! s = (blocks q ! s)\<lparr>refs := refs (blocks q ! s) - count_list (v_block ?v) s\<rparr>"
    if "s < 64" for s
    unfolding blk by (rule nth_drop_refs) (simp_all add: b(2) that cnt)
  have rem: "remaining_blocks ?v \<le> reserved_blocks (stats q)"
    using pending_blocks_nth [of i "active q"] i b(10) by simp
  have byt: "unat (v_bytes ?v) \<le> unat (reserved_bytes (stats q))"
    using pending_bytes_nth [of i "active q"] i b(11) by simp
  have sh: "vq_shape ?q" using b(1) by (simp add: vq_discard_def Let_def)
  show act: "active ?q = (active q)[i := discarded r ?v]"
    using b(1) i by (simp add: vq_discard_def Let_def at active_vq_set discarded_def)
  have "map (\<lambda>b. b\<lparr>refs := 0\<rparr>) (blocks ?q) = map (\<lambda>b. b\<lparr>refs := 0\<rparr>) (blocks q)"
    by (rule nth_equalityI) (use sh in \<open>simp_all add: b(2) nth vq_shape_def\<close>)
  then show "same_leases q ?q"
    unfolding same_leases_def by (simp add: vq_discard_def Let_def)
  show "vq_books ?q"
  proof (rule books_replace [OF q i _ sh act])
    show "reserved_blocks (stats ?q) + remaining_blocks ?v
        = reserved_blocks (stats q) + remaining_blocks (discarded r ?v)"
      using rem by (simp add: vq_discard_def Let_def at discarded_def)
    show "unat (reserved_bytes (stats ?q)) + unat (v_bytes ?v)
        = unat (reserved_bytes (stats q)) + unat (v_bytes (discarded r ?v))"
      using byt by (simp add: vq_discard_def Let_def at discarded_def unat_sub word_le_nat_alt)
  qed (use nth cnt in \<open>simp_all add: discarded_def vq_discard_def Let_def\<close>)
qed

lemma terminate_ok:
  assumes q: "vq_books q" and i: "i < visit_total (stats q)"
  shows "vq_books (vq_terminate q i r)"
    and "active (vq_terminate q i r)
      = (active q)[i := terminated (preserve_partial (vq_cfg q)) r (active q ! i)]"
    and "same_leases q (vq_terminate q i r)"
proof -
  note b = vq_booksD [OF q]
  let ?v = "active q ! i" and ?q = "vq_terminate q i r"
  have at: "vq_at q i = ?v" by (rule vq_at_active [OF b(1) i])
  show act: "active ?q = (active q)[i := terminated (preserve_partial (vq_cfg q)) r ?v]"
    using b(1) i discard_ok(2) [OF q i]
    by (simp add: vq_terminate_def Let_def at active_vq_set terminated_def)
  show "same_leases q ?q"
    using discard_ok(3) [OF q i] by (simp add: vq_terminate_def Let_def) (simp add: same_leases_def)
  show "vq_books ?q"
  proof (cases "preserve_partial (vq_cfg q)")
    case True
    have rem: "remaining_blocks ?v \<le> reserved_blocks (stats q)"
      using pending_blocks_nth [of i "active q"] i b(10) by simp
    show ?thesis
      by (rule books_replace [OF q i _ _ act])
        (use True rem b(1) in \<open>simp_all add: vq_terminate_def Let_def at terminated_def\<close>)
  qed (simp add: vq_terminate_def discard_ok(1) [OF q i])
qed

subsection \<open>Loops over the visits\<close>

text \<open>A loop that treats each visit by itself maps its effect over the list of visits.\<close>

lemma fold_pointwise_take:
  assumes step: "\<And>i s. I s \<Longrightarrow> i < length (view s) \<Longrightarrow>
      I (f i s) \<and> view (f i s) = (view s)[i := g (view s ! i)]"
    and "I s" and "n \<le> length (view s)"
  shows "I (fold f [0..<n] s) \<and> view (fold f [0..<n] s) = map g (take n (view s)) @ drop n (view s)"
  using assms(3)
proof (induction n)
  case (Suc n)
  let ?s = "fold f [0..<n] s"
  have IH: "I ?s" "view ?s = map g (take n (view s)) @ drop n (view s)" using Suc by simp_all
  have n: "n < length (view ?s)" using Suc.prems by (simp add: IH(2))
  have "view ?s ! n = view s ! n" using Suc.prems by (simp add: IH(2) nth_append)
  moreover have "(map g (take n (view s)) @ drop n (view s))[n := x]
      = map g (take n (view s)) @ x # drop (Suc n) (view s)" for x
    using Suc.prems by (simp add: list_update_append Cons_nth_drop_Suc [symmetric])
  moreover have "map g (take (Suc n) (view s)) = map g (take n (view s)) @ [g (view s ! n)]"
    using Suc.prems by (simp add: take_Suc_conv_app_nth)
  ultimately show ?case
    using step [OF IH(1) n] by (simp add: IH(2))
qed (use assms(2) in simp)

lemma fold_pointwise:
  assumes "\<And>i s. I s \<Longrightarrow> i < length (view s) \<Longrightarrow>
      I (f i s) \<and> view (f i s) = (view s)[i := g (view s ! i)]"
    and "I s" and "n = length (view s)"
  shows "I (fold f [0..<n] s)" and "view (fold f [0..<n] s) = map g (view s)"
  using fold_pointwise_take [of I view f g s n] assms by simp_all

subsection \<open>Feeding a block\<close>

definition fed_visit :: "u32 \<Rightarrow> bool \<Rightarrow> u64 \<Rightarrow> u64 \<Rightarrow> u64 \<Rightarrow> u64 \<Rightarrow> nat \<Rightarrow> vq_visit \<Rightarrow> vq_visit" where
  "fed_visit bps keep token data first stop slot v =
     (let a = max (v_start v) first; b = min (v_end v) stop in
      if v_result v \<noteq> VISIT_ADMITTED then v
      else if v_next v < first \<and> v_next v < v_end v then terminated keep VISIT_INVALID_GAP v
      else if b \<le> a then v
      else if a \<noteq> v_next v \<or> remaining_blocks v = 0 \<or> 64 \<le> length (v_slices v)
      then terminated keep VISIT_INVALID_GAP v
      else v\<lparr>v_block := v_block v @ [slot],
             v_slices := v_slices v @ [\<lparr>slice_token = token, slice_data = data,
               slice_offset = unat (a - first) * unat bps, slice_bytes = unat (b - a) * unat bps\<rparr>],
             remaining_blocks := (if b = v_end v then 0 else remaining_blocks v - 1), v_next := b,
             v_result := (if b = v_end v \<and> closed v then VISIT_COMPLETE else v_result v)\<rparr>)"

lemma max_if_less: "(if x < y then y else x) = max x (y::'a::linorder)" by auto
lemma min_if_less: "(if y < x then y else x) = min x (y::'a::linorder)" by auto

lemma feed_visit_ok:
  assumes q: "vq_books q" and i: "i < visit_total (stats q)"
    and slot: "slot \<in> owned_slots (blocks q)"
  shows "vq_books (vq_feed_visit token data first stop slot i q)" (is "vq_books ?q")
    and "active (vq_feed_visit token data first stop slot i q) = (active q)[i :=
      fed_visit (bytes_per_sample (vq_cfg q)) (preserve_partial (vq_cfg q)) token data first stop slot
        (active q ! i)]"
    and "same_leases q (vq_feed_visit token data first stop slot i q)"
proof -
  note b = vq_booksD [OF q]
  let ?v = "active q ! i"
  let ?w = "fed_visit (bytes_per_sample (vq_cfg q)) (preserve_partial (vq_cfg q)) token data first stop slot ?v"
  have at: "vq_at q i = ?v" by (rule vq_at_active [OF b(1) i])
  have slot64: "slot < 64" "owned (blocks q ! slot)" using slot by (simp_all add: owned_slots_def b(2))
  have sh: "vq_shape ?q" using b(1) terminate_ok(1) [OF q i, THEN vq_booksD(1)]
    by (simp add: vq_feed_visit_def Let_def)
  show act: "active ?q = (active q)[i := ?w]"
    using i b(1)
    by (simp add: vq_feed_visit_def Let_def at terminate_ok(2) [OF q i] active_vq_set fed_visit_def
        max_if_less min_if_less uint_dec)
  let ?a = "max (v_start ?v) first" and ?b = "min (v_end ?v) stop"
  let ?grow = "v_result ?v = VISIT_ADMITTED \<and> \<not> (v_next ?v < first \<and> v_next ?v < v_end ?v) \<and>
    \<not> ?b \<le> ?a \<and> ?a = v_next ?v \<and> remaining_blocks ?v \<noteq> 0 \<and> \<not> 64 \<le> length (v_slices ?v)"
  note e = vq_feed_visit_def Let_def at max_if_less min_if_less
  have idle: "?q = q \<or> ?q = vq_terminate q i VISIT_INVALID_GAP" if "\<not> ?grow"
    unfolding e using that by meson
  have rem: "remaining_blocks ?v \<le> reserved_blocks (stats q)"
    using pending_blocks_nth [of i "active q"] i b(10) by simp
  have "vq_books ?q \<and> same_leases q ?q"
  proof (cases ?grow)
    case False
    from idle [OF this] show ?thesis using terminate_ok(1,3) [OF q i] q by auto
  next
    case True
    then have c: "v_result ?v = VISIT_ADMITTED" "(v_next ?v < first \<and> v_next ?v < v_end ?v) = False"
      "?a = v_next ?v" "(?b \<le> v_next ?v) = False" "(remaining_blocks ?v = 0) = False"
      "(64 \<le> length (v_slices ?v)) = False" by metis+
    have w: "v_block ?w = v_block ?v @ [slot]" "v_bytes ?w = v_bytes ?v"
      "remaining_blocks ?w = (if ?b = v_end ?v then 0 else remaining_blocks ?v - 1)"
      unfolding fed_visit_def Let_def c simp_thms if_False by simp_all
    have u: "blocks ?q = (blocks q)[slot := (blocks q ! slot)\<lparr>refs := refs (blocks q ! slot) + 1\<rparr>]"
      "reserved_blocks (stats ?q) = (if ?b = v_end ?v
        then uint_sub (uint_dec (reserved_blocks (stats q))) (uint_dec (remaining_blocks ?v))
        else uint_dec (reserved_blocks (stats q)))"
      "reserved_bytes (stats ?q) = reserved_bytes (stats q)"
      and fr: "vq_cfg ?q = vq_cfg q" "leased_blocks (stats ?q) = leased_blocks (stats q)"
      "visit_total (stats ?q) = visit_total (stats q)" "vq_head ?q = vq_head q"
      "last_source_end ?q = last_source_end q" "have_source ?q = have_source q"
      unfolding e c simp_thms if_False by simp_all
    have "map (\<lambda>b. b\<lparr>refs := 0\<rparr>) (blocks ?q) = map (\<lambda>b. b\<lparr>refs := 0\<rparr>) (blocks q)"
      by (rule nth_equalityI) (simp_all add: u nth_update_if)
    then have "same_leases q ?q" using fr by (simp add: same_leases_def)
    moreover have "vq_books ?q"
    proof (rule books_replace [OF q i fr(1) sh act _ _ _ fr(2)])
      fix s :: nat assume s: "s < 64"
      show "refs (blocks ?q ! s) + count_list (v_block ?v) s
          = refs (blocks q ! s) + count_list (v_block ?w) s"
        using s by (simp add: u w nth_update_if b(2))
      show "owned (blocks ?q ! s) = owned (blocks q ! s) \<and> blk_token (blocks ?q ! s) = blk_token (blocks q ! s)"
        using s by (simp add: u nth_update_if b(2))
    qed (use slot rem c(5) in \<open>simp_all add: u w uint_dec\<close>)
    ultimately show ?thesis by simp
  qed
  then show "vq_books ?q" "same_leases q ?q" by simp_all
qed

lemma find_slot:
  shows "vq_find_slot bs token is r = Inl e \<Longrightarrow>
      e = - EEXIST \<and> (\<exists>i \<in> set is. owned (bs ! i) \<and> blk_token (bs ! i) = token)"
    and "vq_find_slot bs token is r = Inr (Some s) \<Longrightarrow>
      (\<forall>i \<in> set is. owned (bs ! i) \<longrightarrow> blk_token (bs ! i) \<noteq> token) \<and>
      (r = Some s \<or> s \<in> set is \<and> \<not> owned (bs ! s))"
    and "vq_find_slot bs token is r = Inr None \<Longrightarrow> r = None \<and> (\<forall>i \<in> set is. owned (bs ! i))"
  by (induction "is" arbitrary: r) (auto split: if_splits)

text \<open>The queue after a fed block was stored, before it is matched against the visits.\<close>

definition vq_store :: "visit_queue \<Rightarrow> nat \<Rightarrow> u64 \<Rightarrow> u64 \<Rightarrow> u64 \<Rightarrow> u32 \<Rightarrow> visit_queue" where
  "vq_store q slot token data first samples =
     q\<lparr>blocks := (blocks q)[slot := \<lparr>blk_token = token, blk_data = data, refs = 0, owned = True\<rparr>],
       stats := (stats q)\<lparr>leased_blocks := leased_blocks (stats q) + 1,
         high_water_blocks := max (high_water_blocks (stats q)) (leased_blocks (stats q) + 1),
         missing_samples := (if have_source q
           then missing_samples (stats q) + (first - last_source_end q)
           else missing_samples (stats q))\<rparr>,
       last_source_end := first + ucast samples, have_source := True\<rparr>"

definition feed_accepts :: "visit_queue \<Rightarrow> u64 \<Rightarrow> u64 \<Rightarrow> u64 \<Rightarrow> u32 \<Rightarrow> bool" where
  "feed_accepts q token data first samples \<longleftrightarrow> data \<noteq> 0 \<and> token \<noteq> 0 \<and>
     samples = block_samples (vq_cfg q) \<and> first \<le> UINT64_MAX - ucast samples \<and>
     \<not> cancelled q \<and> (have_source q \<longrightarrow> last_source_end q \<le> first) \<and>
     (visit_total (stats q) \<noteq> 0 \<longrightarrow> bound (vq_at q (visit_total (stats q) - 1)))"

text \<open>A successful feed stores the block in a slot nobody owned and maps \<open>fed_visit\<close> over the
  visits; any other leaves the queue as it was.\<close>

lemma feed_cases:
  obtains (refused) e where "vq_feed q token data first samples = (e, q)" "e \<noteq> 0"
  | (fed) slot where "feed_accepts q token data first samples" "slot < block_count (vq_cfg q)"
      "\<not> owned (blocks q ! slot)"
      "\<And>s. s < block_count (vq_cfg q) \<Longrightarrow> owned (blocks q ! s) \<Longrightarrow> blk_token (blocks q ! s) \<noteq> token"
      "vq_feed q token data first samples =
         (0, fold (vq_feed_visit token data first (first + ucast samples) slot)
            [0..<visit_total (stats q)] (vq_store q slot token data first samples))"
proof (cases "feed_accepts q token data first samples")
  case False
  then have "\<exists>e. vq_feed q token data first samples = (e, q) \<and> e \<noteq> 0"
    by (auto simp: vq_feed_def Let_def feed_accepts_def not_le not_less)
  then show ?thesis using refused by blast
next
  case True
  let ?r = "vq_find_slot (blocks q) token [0..<block_count (vq_cfg q)] None"
  have feed: "vq_feed q token data first samples = (case ?r of Inl e \<Rightarrow> (e, q)
    | Inr None \<Rightarrow> (- ENOSPC, q)
    | Inr (Some slot) \<Rightarrow> (0, fold (vq_feed_visit token data first (first + ucast samples) slot)
            [0..<visit_total (stats q)] (vq_store q slot token data first samples)))"
  proof -
    have c: "(data = 0) = False" "(token = 0) = False" "samples = block_samples (vq_cfg q)"
      "(UINT64_MAX - ucast (block_samples (vq_cfg q)) < first) = False" "cancelled q = False"
      "(have_source q \<and> first < last_source_end q) = False"
      "(visit_total (stats q) \<noteq> 0 \<and> \<not> bound (vq_at q (visit_total (stats q) - 1))) = False"
      using True by (auto simp: feed_accepts_def not_less)
    show ?thesis
      unfolding vq_feed_def Let_def c vq_store_def by (simp split: sum.split option.split)
  qed
  show ?thesis
  proof (cases ?r)
    case (Inl e)
    then show ?thesis using find_slot(1) [OF Inl] feed refused by auto
  next
    case (Inr o')
    show ?thesis
    proof (cases o')
      case None
      then show ?thesis using Inr feed refused by simp
    next
      case (Some slot)
      show ?thesis
        by (rule fed [of slot])
          (use find_slot(2) [OF Inr [unfolded Some]] Inr Some feed True in auto)
    qed
  qed
qed

lemma store_books:
  assumes q: "vq_books q" and slot: "slot < block_count (vq_cfg q)" "\<not> owned (blocks q ! slot)"
    and new: "\<And>s. s < block_count (vq_cfg q) \<Longrightarrow> owned (blocks q ! s) \<Longrightarrow> blk_token (blocks q ! s) \<noteq> token"
  shows "vq_books (vq_store q slot token data first samples)" (is "vq_books ?q")
    and "active (vq_store q slot token data first samples) = active q"
    and "slot \<in> owned_slots (blocks (vq_store q slot token data first samples))"
    and "owned_slots (blocks (vq_store q slot token data first samples)) = insert slot (owned_slots (blocks q))"
proof -
  note b = vq_booksD [OF q]
  have s64: "slot < 64" using slot b(1) by (simp add: vq_shape_def)
  have blk: "blocks ?q ! s = (if s = slot then \<lparr>blk_token = token, blk_data = data, refs = 0, owned = True\<rparr>
      else blocks q ! s)" for s
    using s64 by (simp add: vq_store_def nth_update_if b(2))
  have len: "length (blocks ?q) = 64" by (simp add: vq_store_def b(2))
  show act: "active ?q = active q" by (simp add: vq_store_def)
  show slots: "owned_slots (blocks ?q) = insert slot (owned_slots (blocks q))"
    using s64 by (auto simp: owned_slots_def len b(2) blk split: if_splits)
  then show "slot \<in> owned_slots (blocks ?q)" by simp
  have "finite (owned_slots (blocks q))" by (simp add: owned_slots_def)
  moreover have "slot \<notin> owned_slots (blocks q)" using slot by (simp add: owned_slots_def)
  ultimately have card: "leased_blocks (stats ?q) = card (owned_slots (blocks ?q))"
    by (simp add: slots b(9)) (simp add: vq_store_def b(9))
  have "refs (blocks q ! slot) = 0" using b(5) [OF s64] slot(2) by blast
  then have pin: "refs (blocks ?q ! s) = pins (active q) s" if "s < 64" for s
    using b(4) [OF that] b(4) [OF s64] by (simp add: blk)
  have own: "owned (blocks ?q ! s)" if "s < 64" "0 < refs (blocks ?q ! s)" for s
    using that b(5) by (auto simp: blk)
  have low: "s < block_count (vq_cfg q)" if "s < 64" "owned (blocks ?q ! s)" for s
    using that b(6) slot by (auto simp: blk split: if_splits)
  have "tokens_distinct (blocks ?q)"
    using b(6,7) new by (auto simp: tokens_distinct_def slots blk) (auto simp: owned_slots_def b(2))
  moreover have "vq_shape ?q" "vq_cfg ?q = vq_cfg q" using b(1) by (simp_all add: vq_store_def)
  moreover have "reserved_blocks (stats ?q) = reserved_blocks (stats q)"
    "reserved_bytes (stats ?q) = reserved_bytes (stats q)" by (simp_all add: vq_store_def)
  ultimately show "vq_books ?q"
    using b(8,10,11) pin own low by (simp add: vq_books_def act card)
qed

lemma feed_loop:
  assumes "vq_books q" and "slot \<in> owned_slots (blocks q)" and "n = visit_total (stats q)"
    and q'_def: "q' = fold (vq_feed_visit token data first stop slot) [0..<n] q"
  shows "vq_books q'" and "same_leases q q'"
    and "active q' = map (fed_visit (bytes_per_sample (vq_cfg q)) (preserve_partial (vq_cfg q))
      token data first stop slot) (active q)"
proof -
  let ?I = "\<lambda>q'. vq_books q' \<and> same_leases q q'"
  let ?g = "fed_visit (bytes_per_sample (vq_cfg q)) (preserve_partial (vq_cfg q)) token data first stop slot"
  have step: "?I (vq_feed_visit token data first stop slot i r) \<and>
      active (vq_feed_visit token data first stop slot i r) = (active r)[i := ?g (active r ! i)]"
    if r: "?I r" and i: "i < length (active r)" for i r
  proof -
    have "slot \<in> owned_slots (blocks r)" using assms(2) r same_leases_slots by blast
    moreover have "vq_cfg r = vq_cfg q" using r by (simp add: same_leases_def)
    ultimately show ?thesis
      using feed_visit_ok [of r i slot token data first stop] r i
      by (auto intro: same_leases_trans)
  qed
  have I0: "?I q" using assms(1) by simp
  have n: "n = length (active q)" using assms(3) by simp
  from fold_pointwise [where I = ?I and view = active, OF step I0 n]
  show "vq_books q'" "same_leases q q'" "active q' = map ?g (active q)"
    by (auto simp: q'_def)
qed

lemma feed_books:
  assumes "vq_books q"
  shows "vq_books (snd (vq_feed q token data first samples))"
proof (cases rule: feed_cases [of q token data first samples])
  case (refused e)
  then show ?thesis using assms by simp
next
  case (fed slot)
  have "visit_total (stats q) = visit_total (stats (vq_store q slot token data first samples))"
    by (simp add: vq_store_def)
  from feed_loop(1) [OF store_books(1,3) [OF assms fed(2,3,4)] this refl] show ?thesis
    by (simp add: fed(5))
qed

subsection \<open>The other operations\<close>

text \<open>Replacing a visit by one with the same slices and reservations.\<close>

lemma books_vq_set:
  assumes q: "vq_books q" and i: "i < visit_total (stats q)"
    and "v_block v = v_block (active q ! i)" "remaining_blocks v = remaining_blocks (active q ! i)"
      "v_bytes v = v_bytes (active q ! i)"
  shows "vq_books (vq_set q i v)"
  by (rule books_replace [OF q i _ _ active_vq_set [OF vq_booksD(1) [OF q] i]])
    (use vq_booksD(1) [OF q] assms(3-5) in simp_all)

lemma bind_books:
  assumes "vq_books q"
  shows "vq_books (snd (vq_bind q vid start))"
proof -
  have "vq_books (q\<lparr>last_valid_end := x\<rparr>) = vq_books q" for q x by (simp add: vq_books_def)
  then show ?thesis
    using assms books_vq_set [OF assms, of "visit_total (stats q) - 1"]
    by (auto simp: vq_bind_def Let_def vq_at_active vq_booksD(1))
qed

lemma take_books:
  assumes "vq_books q"
  shows "vq_books (snd (vq_take q))"
  using assms books_vq_set [OF assms, of 0]
  by (auto simp: vq_take_def Let_def vq_at_active vq_booksD(1))

lemma close_from_cases:
  obtains (refused) e where "vq_close_from q vid invalid is = (e, q)"
  | (closed) i where "i \<in> set is" "bound (vq_at q i)" "\<not> closed (vq_at q i)"
      "\<not> sending (vq_at q i)"
      "vq_close_from q vid invalid is =
         (let v = vq_at q i; q = vq_set q i (v\<lparr>closed := True\<rparr>) in
          (0, if invalid < v_end v then vq_terminate q i VISIT_INVALID_GAP
            else if v_next v = v_end v
            then vq_set q i (v\<lparr>closed := True, v_result := VISIT_COMPLETE\<rparr>) else q))"
proof (induction "is")
  case Nil
  then show ?case by simp
next
  case (Cons i "is")
  show ?case
  proof (cases "v_id (vq_at q i) = vid \<and> bound (vq_at q i) \<and> \<not> closed (vq_at q i) \<and> \<not> sending (vq_at q i)")
    case True
    then show ?thesis by (intro Cons.prems(2) [of i]) (simp_all add: Let_def)
  next
    case False
    show ?thesis
    proof (cases "v_id (vq_at q i) = vid")
      case True
      with False have "\<exists>e. vq_close_from q vid invalid (i # is) = (e, q)" by (auto simp: Let_def)
      then show ?thesis using Cons.prems(1) by blast
    next
      case other: False
      then have "vq_close_from q vid invalid (i # is) = vq_close_from q vid invalid is"
        by (simp add: Let_def)
      then show ?thesis using Cons.IH Cons.prems by (metis list.set_intros(2))
    qed
  qed
qed

text \<open>A visit after its window was closed.\<close>

definition window_closed :: "bool \<Rightarrow> u64 \<Rightarrow> vq_visit \<Rightarrow> vq_visit" where
  "window_closed keep invalid v =
     (if invalid < v_end v then terminated keep VISIT_INVALID_GAP (v\<lparr>closed := True\<rparr>)
      else v\<lparr>closed := True,
             v_result := (if v_next v = v_end v then VISIT_COMPLETE else v_result v)\<rparr>)"

lemma close_cases:
  assumes "vq_books q"
  obtains (refused) e where "vq_close_window q vid invalid = (e, q)"
  | (closed) i where "i < visit_total (stats q)" "bound (active q ! i)" "\<not> closed (active q ! i)"
      "\<not> sending (active q ! i)"
      "vq_books (snd (vq_close_window q vid invalid))"
      "same_leases q (snd (vq_close_window q vid invalid))"
      "active (snd (vq_close_window q vid invalid)) =
         (active q)[i := window_closed (preserve_partial (vq_cfg q)) invalid (active q ! i)]"
proof (cases rule: close_from_cases [of q vid invalid "[0..<visit_total (stats q)]"])
  case (refused e)
  then show ?thesis using that(1) by (simp add: vq_close_window_def)
next
  case (closed i)
  let ?v = "active q ! i" let ?q = "vq_set q i (?v\<lparr>closed := True\<rparr>)"
  note sh = vq_booksD(1) [OF assms]
  have i: "i < visit_total (stats q)" using closed(1) by simp
  have at: "vq_at q i = ?v" by (rule vq_at_active [OF sh i])
  have q: "vq_books ?q" using i by (intro books_vq_set [OF assms]) simp_all
  have act: "active ?q = (active q)[i := ?v\<lparr>closed := True\<rparr>]" by (rule active_vq_set [OF sh i])
  have i': "i < visit_total (stats ?q)" "i < length (active q)" using i by simp_all
  have set2: "vq_books (vq_set ?q i (?v\<lparr>closed := True, v_result := VISIT_COMPLETE\<rparr>))"
    by (rule books_vq_set [OF q i'(1)]) (simp_all add: act i)
  have sl: "same_leases q (vq_set r i v)" if "same_leases q r" for r v
    using that by (simp add: same_leases_def)
  have ts: "same_leases q (vq_terminate ?q i r)" for r
    by (rule same_leases_trans [OF sl [OF same_leases_refl] terminate_ok(3) [OF q i'(1)]])
  show ?thesis
    using closed(2-4) i at q set2 terminate_ok(1,2) [OF q i'(1)] ts
    by (intro that(2) [of i])
      (simp_all add: vq_close_window_def closed(5) window_closed_def Let_def act active_vq_set sh sl)
qed

lemma close_books:
  assumes "vq_books q"
  shows "vq_books (snd (vq_close_window q vid invalid))"
  using assms by (cases rule: close_cases [OF assms, of vid invalid]) simp_all

text \<open>The completed visit leaves the list, and only its own slices are dropped.\<close>

lemma complete_send_cases:
  assumes q: "vq_books q"
  obtains (refused) e where "vq_complete_send q vid = (e, q)" "e \<noteq> 0"
  | (completed) v vs where "active q = v # vs" "sending v" "v_id v = vid"
      "fst (vq_complete_send q vid) = 0" "vq_books (snd (vq_complete_send q vid))"
      "active (snd (vq_complete_send q vid)) = vs"
      "\<And>s. s < 64 \<Longrightarrow> blocks (snd (vq_complete_send q vid)) ! s
         = (blocks q ! s)\<lparr>refs := refs (blocks (snd (vq_complete_send q vid)) ! s)\<rparr>"
      "vq_cfg (snd (vq_complete_send q vid)) = vq_cfg q"
      "last_source_end (snd (vq_complete_send q vid)) = last_source_end q"
      "have_source (snd (vq_complete_send q vid)) = have_source q"
proof (cases "visit_total (stats q) = 0 \<or> \<not> sending (vq_at q 0) \<or> v_id (vq_at q 0) \<noteq> vid")
  case True
  then have "\<exists>e. vq_complete_send q vid = (e, q) \<and> e \<noteq> 0"
    by (auto simp: vq_complete_send_def Let_def)
  then show ?thesis using refused by blast
next
  case False
  note b = vq_booksD [OF q]
  have n: "0 < visit_total (stats q)" using False by simp
  then obtain m where m: "visit_total (stats q) = Suc m" by (cases "visit_total (stats q)") auto
  define d where "d = vq_discard q 0 (v_result (vq_at q 0))"
  define e where "e = vq_set d 0 zero_vq_visit"
  note disc = discard_ok [OF q n, of "v_result (vq_at q 0)", folded d_def]
  obtain v vs where act: "active q = v # vs"
    using n length_active [of q] by (cases "active q") auto
  have at: "vq_at q 0 = v" using vq_at_active [OF b(1) n] act by simp
  have md: "visit_total (stats d) = Suc m" "vq_head d = vq_head q"
    using disc(3) m by (simp_all add: same_leases_def)
  have "active e = zero_vq_visit # vs"
    using active_vq_set [OF vq_booksD(1) [OF disc(1)], of 0 zero_vq_visit] md
    by (simp add: e_def disc(2) act)
  moreover have len: "length (vq_visits e) = 64"
    using vq_booksD(3) [OF disc(1)] by (simp add: e_def vq_set_def)
  ultimately have act': "ring_view (vq_visits e) ((vq_head e + 1) mod 64) m = vs"
    using ring_view_dequeue [of "vq_visits e" "vq_head e" m] md by (simp add: active_def e_def)
  define r where "r = e\<lparr>vq_head := (vq_head e + 1) mod 64, stats := (stats e)\<lparr>visit_total := m\<rparr>\<rparr>"
  have run: "vq_complete_send q vid = (0, r)"
    using False md by (simp add: vq_complete_send_def Let_def r_def e_def d_def uint_dec)
  have actr: "active r = vs" using act' by (simp add: r_def active_def)
  have blk: "blocks r = blocks d" by (simp add: r_def e_def)
  have actd: "active d = discarded (v_result v) v # vs" using disc(2) by (simp add: act at)
  have sums: "pins (active d) s = pins vs s" "pending_blocks (active d) = pending_blocks vs"
    "pending_bytes (active d) = pending_bytes vs" for s
    by (simp_all add: actd)
  note bd = vq_booksD [OF disc(1)]
  have cfgr: "vq_cfg r = vq_cfg q" "last_source_end r = last_source_end q" "have_source r = have_source q"
    using disc(3) by (simp_all add: r_def e_def same_leases_def)
  have str: "leased_blocks (stats r) = leased_blocks (stats d)"
    "reserved_blocks (stats r) = reserved_blocks (stats d)"
    "reserved_bytes (stats r) = reserved_bytes (stats d)" "vq_cfg d = vq_cfg q"
    using disc(3) by (simp_all add: r_def e_def same_leases_def)
  have shr: "vq_shape r"
    using bd(1) len md by (simp add: vq_shape_def r_def e_def)
  have range: "\<forall>w \<in> set vs. \<forall>s \<in> set (v_block w). s < 64"
    using bd(8) by (metis actd list.set_intros(2))
  have "vq_books r"
    using bd(4-7,9-11) range shr by (simp add: vq_books_def actr blk sums str cfgr)
  moreover have "blocks r ! s = (blocks q ! s)\<lparr>refs := refs (blocks r ! s)\<rparr>" if "s < 64" for s
    using same_leases_blocks [OF disc(3), of s] that b(2) by (simp add: blk)
  ultimately show ?thesis
    using False run actr cfgr by (intro completed [OF act]) (simp_all add: at)
qed

lemma complete_send_books:
  assumes "vq_books q"
  shows "vq_books (snd (vq_complete_send q vid))"
  using assms by (cases rule: complete_send_cases [OF assms, of vid]) simp_all

text \<open>The effect of \<open>expire\<close> and of \<open>cancel\<close> on a visit.\<close>

definition expired_visit :: "bool \<Rightarrow> u64 \<Rightarrow> u64 \<Rightarrow> vq_visit \<Rightarrow> vq_visit" where
  "expired_visit keep oldest now v =
     (if now - reserved_at v \<le> oldest \<or> sending v \<or> v_bytes v = 0 then v
      else terminated keep VISIT_SKIP_AGE v)"

definition cancelled_visit :: "bool \<Rightarrow> vq_visit \<Rightarrow> vq_visit" where
  "cancelled_visit keep v =
     (if sending v \<or> keep \<and> v_result v \<noteq> VISIT_ADMITTED then v
      else terminated keep VISIT_CANCELLED v)"

lemma expire_loop:
  assumes "vq_books q" and "n = visit_total (stats q)"
    and "r = fold (vq_expire_visit now) [0..<n] (ret, q)"
  shows "vq_books (snd r)" and "same_leases q (snd r)"
    and "active (snd r) = map (expired_visit (preserve_partial (vq_cfg q))
      (maximum_age_ticks (vq_cfg q)) now) (active q)"
proof -
  let ?I = "\<lambda>s. vq_books (snd s) \<and> same_leases q (snd s)"
  let ?view = "\<lambda>s. active (snd s)"
  let ?g = "expired_visit (preserve_partial (vq_cfg q)) (maximum_age_ticks (vq_cfg q)) now"
  have step: "?I (vq_expire_visit now i s) \<and> ?view (vq_expire_visit now i s) = (?view s)[i := ?g (?view s ! i)]"
    if s: "?I s" and i: "i < length (?view s)" for i s
  proof -
    obtain x p where sp: "s = (x, p)" by (cases s)
    have cfg: "vq_cfg p = vq_cfg q" and p: "vq_books p" "same_leases q p" "i < visit_total (stats p)"
      using s i by (simp_all add: sp same_leases_def)
    have at: "vq_at p i = active p ! i" by (rule vq_at_active [OF vq_booksD(1) [OF p(1)] p(3)])
    show ?thesis
      using terminate_ok [OF p(1,3)] same_leases_trans [OF p(2)] p
      by (simp add: sp at Let_def expired_visit_def cfg)
  qed
  have I0: "?I (ret, q)" and n: "n = length (?view (ret, q))" using assms by simp_all
  from fold_pointwise [where I = ?I and view = ?view, OF step I0 n] assms(3)
  show "vq_books (snd r)" "same_leases q (snd r)" "active (snd r) = map ?g (active q)" by simp_all
qed

lemma cancel_loop:
  assumes "vq_books q" and "n = visit_total (stats q)"
    and "r = fold vq_cancel_visit [0..<n] (ret, q)"
  shows "vq_books (snd r)" and "same_leases q (snd r)"
    and "active (snd r) = map (cancelled_visit (preserve_partial (vq_cfg q))) (active q)"
proof -
  let ?I = "\<lambda>s. vq_books (snd s) \<and> same_leases q (snd s)"
  let ?view = "\<lambda>s. active (snd s)"
  let ?g = "cancelled_visit (preserve_partial (vq_cfg q))"
  have step: "?I (vq_cancel_visit i s) \<and> ?view (vq_cancel_visit i s) = (?view s)[i := ?g (?view s ! i)]"
    if s: "?I s" and i: "i < length (?view s)" for i s
  proof -
    obtain x p where sp: "s = (x, p)" by (cases s)
    have cfg: "vq_cfg p = vq_cfg q" and p: "vq_books p" "same_leases q p" "i < visit_total (stats p)"
      using s i by (simp_all add: sp same_leases_def)
    have at: "vq_at p i = active p ! i" by (rule vq_at_active [OF vq_booksD(1) [OF p(1)] p(3)])
    show ?thesis
      using terminate_ok [OF p(1,3)] same_leases_trans [OF p(2)] p
      by (simp add: sp at Let_def cancelled_visit_def cfg)
  qed
  have I0: "?I (ret, q)" and n: "n = length (?view (ret, q))" using assms by simp_all
  from fold_pointwise [where I = ?I and view = ?view, OF step I0 n] assms(3)
  show "vq_books (snd r)" "same_leases q (snd r)" "active (snd r) = map ?g (active q)" by simp_all
qed

lemma expire_books: "vq_books q \<Longrightarrow> vq_books (snd (vq_expire q now))"
  using expire_loop(1) [of q "visit_total (stats q)" _ now 0] by (simp add: vq_expire_def)

lemma books_cancelled [simp]: "vq_books (q\<lparr>cancelled := x\<rparr>) = vq_books q"
  by (simp add: vq_books_def)

lemma cancel_books: "vq_books q \<Longrightarrow> vq_books (snd (vq_cancel q))"
  using cancel_loop(1) [of "q\<lparr>cancelled := True\<rparr>" "visit_total (stats q)" _ 0]
  by (simp add: vq_cancel_def)

text \<open>An admitted visit joins the list behind the others.\<close>

definition fresh_visit :: "u64 \<Rightarrow> u32 \<Rightarrow> u64 \<Rightarrow> nat \<Rightarrow> u64 \<Rightarrow> vq_visit" where
  "fresh_visit vid samples now blks bytes = zero_vq_visit\<lparr>v_id := vid, reserved_at := now,
     v_samples := samples, remaining_blocks := blks, v_bytes := bytes, v_result := VISIT_ADMITTED\<rparr>"

definition visit_blocks :: "vq_config \<Rightarrow> u32 \<Rightarrow> nat" where
  "visit_blocks c samples = unat ((samples + block_samples c - 1) div block_samples c + 1)"

definition visit_bytes :: "vq_config \<Rightarrow> u32 \<Rightarrow> u64" where
  "visit_bytes c samples = ucast samples * ucast (bytes_per_sample c)"

text \<open>Which guards an admitted visit has passed.\<close>

lemma admits_if:
  "fst (if c then (Inl e, q) else x) = Inr VISIT_ADMITTED \<longleftrightarrow> \<not> c \<and> fst x = Inr VISIT_ADMITTED"
  "fst (if c then (Inr VISIT_SKIP_CAPACITY, q) else x) = Inr VISIT_ADMITTED
    \<longleftrightarrow> \<not> c \<and> fst x = Inr VISIT_ADMITTED"
  "fst (if c then (Inr VISIT_SKIP_AGE, q) else x) = Inr VISIT_ADMITTED
    \<longleftrightarrow> \<not> c \<and> fst x = Inr VISIT_ADMITTED"
  "(if c then (Inl e, q) else x) = (Inr VISIT_ADMITTED, r) \<longleftrightarrow> \<not> c \<and> x = (Inr VISIT_ADMITTED, r)"
  "(if c then (Inr VISIT_SKIP_CAPACITY, q) else x) = (Inr VISIT_ADMITTED, r)
    \<longleftrightarrow> \<not> c \<and> x = (Inr VISIT_ADMITTED, r)"
  "(if c then (Inr VISIT_SKIP_AGE, q) else x) = (Inr VISIT_ADMITTED, r)
    \<longleftrightarrow> \<not> c \<and> x = (Inr VISIT_ADMITTED, r)"
  by auto

lemma admits_else:
  "(fst (if c then (Inl e, q) else x) = Inr VISIT_ADMITTED \<or> snd (if c then (Inl e, q) else x) = q)
    \<longleftrightarrow> c \<or> fst x = Inr VISIT_ADMITTED \<or> snd x = q"
  "(fst (if c then (Inr s, q) else x) = Inr VISIT_ADMITTED \<or> snd (if c then (Inr s, q) else x) = q)
    \<longleftrightarrow> c \<or> fst x = Inr VISIT_ADMITTED \<or> snd x = q"
  by auto

lemma reserve_cases:
  assumes q: "vq_books q"
  obtains (refused) r where "vq_reserve q vid samples now = (r, q)" "r \<noteq> Inr VISIT_ADMITTED"
  | (admitted) v where "fst (vq_reserve q vid samples now) = Inr VISIT_ADMITTED"
      "v = fresh_visit vid samples now (visit_blocks (vq_cfg q) samples) (visit_bytes (vq_cfg q) samples)"
      "samples \<noteq> 0"
      "ucast samples \<le> (ucast (vq_rate_hz (vq_cfg q)) :: u64) * ucast (maximum_visit_ms (vq_cfg q)) div 1000"
      "visit_blocks (vq_cfg q) samples + leased_blocks (stats q) + reserved_blocks (stats q)
         \<le> block_count (vq_cfg q) - headroom_blocks (vq_cfg q)"
      "visit_bytes (vq_cfg q) samples \<le> maximum_bytes (vq_cfg q)"
      "reserved_bytes (stats q) \<le> maximum_bytes (vq_cfg q) - visit_bytes (vq_cfg q) samples"
      "have_source q \<longrightarrow> last_source_end q \<le> now" "\<not> cancelled q"
      "visit_total (stats q) \<noteq> 0 \<longrightarrow> bound (vq_at q (visit_total (stats q) - 1))"
      "vq_books (snd (vq_reserve q vid samples now))"
      "active (snd (vq_reserve q vid samples now)) = active q @ [v]"
      "blocks (snd (vq_reserve q vid samples now)) = blocks q"
      "vq_cfg (snd (vq_reserve q vid samples now)) = vq_cfg q"
      "last_source_end (snd (vq_reserve q vid samples now)) = last_source_end q"
      "have_source (snd (vq_reserve q vid samples now)) = have_source q"
      "reserved_bytes (stats (snd (vq_reserve q vid samples now))) \<le> maximum_bytes (vq_cfg q)"
proof (cases "fst (vq_reserve q vid samples now) = Inr VISIT_ADMITTED")
  case False
  moreover have "fst (vq_reserve q vid samples now) = Inr VISIT_ADMITTED \<or>
      snd (vq_reserve q vid samples now) = q"
    unfolding vq_reserve_def Let_def admits_else fst_conv by blast
  ultimately have "snd (vq_reserve q vid samples now) = q" by simp
  then show ?thesis using False refused by (metis prod.collapse)
next
  case True
  note b = vq_booksD [OF q]
  let ?c = "vq_cfg q" and ?n = "visit_total (stats q)"
  let ?blks = "visit_blocks ?c samples" and ?bytes = "visit_bytes ?c samples"
  define v where "v = fresh_visit vid samples now ?blks ?bytes"
  let ?total = "reserved_bytes (stats q) + ?bytes"
  define r where "r = (vq_set q ?n v)\<lparr>stats := (stats q)\<lparr>visit_total := ?n + 1,
            reserved_blocks := reserved_blocks (stats q) + ?blks, reserved_bytes := ?total,
            high_water_bytes := (if high_water_bytes (stats q) < ?total then ?total
              else high_water_bytes (stats q))\<rparr>, last_reserved_id := vid, have_id := True\<rparr>"
  have c: "samples \<noteq> 0"
    "ucast samples \<le> (ucast (vq_rate_hz ?c) :: u64) * ucast (maximum_visit_ms ?c) div 1000"
    "\<not> cancelled q" "have_source q \<longrightarrow> last_source_end q \<le> now"
    "?n \<noteq> 0 \<longrightarrow> bound (vq_at q (?n - 1))" "?n \<noteq> maximum_visits ?c"
    "?blks + leased_blocks (stats q) + reserved_blocks (stats q) \<le> block_count ?c - headroom_blocks ?c"
    "?bytes \<le> maximum_bytes ?c" "reserved_bytes (stats q) \<le> maximum_bytes ?c - ?bytes"
    using True unfolding vq_reserve_def Let_def admits_if fst_conv visit_blocks_def visit_bytes_def
    by (simp_all only: de_Morgan_disj de_Morgan_conj not_less not_le simp_thms imp_conv_disj)
  have run: "vq_reserve q vid samples now = (Inr VISIT_ADMITTED, r)"
    using True
    unfolding vq_reserve_def Let_def admits_if fst_conv r_def v_def fresh_visit_def visit_blocks_def
      visit_bytes_def by blast
  have n64: "?n < 64" using c(6) b(1) by (simp add: vq_shape_def)
  have act: "active r = active q @ [v]"
    using ring_view_enqueue [of ?n "vq_visits q" "vq_head q" v] n64 b(3)
    by (simp add: r_def active_def vq_set_def vq_index_def)
  have sum: "unat (reserved_bytes (stats q)) + unat ?bytes \<le> unat (maximum_bytes ?c)"
    using c(8,9) by (simp add: word_le_nat_alt unat_sub)
  then have "unat (reserved_bytes (stats q)) + unat ?bytes < 2 ^ 64"
    by (rule order.strict_trans1) simp
  then have le: "?total \<le> maximum_bytes ?c" "unat ?total = unat (reserved_bytes (stats q)) + unat ?bytes"
    using sum by (simp_all add: word_le_nat_alt unat_add_small)
  have v0: "v_block v = []" "remaining_blocks v = ?blks" "v_bytes v = ?bytes"
    by (simp_all add: v_def fresh_visit_def zero_vq_visit_def)
  have fr: "blocks r = blocks q" "vq_cfg r = vq_cfg q" "last_source_end r = last_source_end q"
    "have_source r = have_source q" "reserved_bytes (stats r) = ?total"
    "reserved_blocks (stats r) = reserved_blocks (stats q) + ?blks"
    "leased_blocks (stats r) = leased_blocks (stats q)"
    by (simp_all add: r_def)
  have "vq_shape r" using b(1) c(6) by (simp add: vq_shape_def r_def vq_set_def)
  moreover have "\<forall>w \<in> set (active r). \<forall>s \<in> set (v_block w). s < 64"
    using b(8) by (simp add: act v0)
  ultimately have books: "vq_books r"
    using b(4-7,9-11) le(2) by (simp add: vq_books_def act fr v0)
  show ?thesis
    by (rule admitted [OF _ v_def c(1,2,7-9,4,3,5)]) (use books le(1) in \<open>simp_all add: run act fr\<close>)
qed

lemma reserve_books:
  assumes "vq_books q"
  shows "vq_books (snd (vq_reserve q vid samples now))"
  using assms by (cases rule: reserve_cases [OF assms, of vid samples now]) simp_all

text \<open>Reaping frees unreferenced blocks only.\<close>

lemma reap_block_cases:
  assumes q: "vq_books q" and i: "i < 64"
  obtains (kept) e c where "vq_reap_block release i (err, ctx, q) = (e, c, q)"
      "\<not> owned (blocks q ! i) \<or> refs (blocks q ! i) \<noteq> 0 \<or>
        fst (release ctx (blk_token (blocks q ! i))) \<noteq> 0"
  | (freed) p where "vq_reap_block release i (err, ctx, q)
        = (err, snd (release ctx (blk_token (blocks q ! i))), p)"
      "fst (release ctx (blk_token (blocks q ! i))) = 0"
      "owned (blocks q ! i)" "refs (blocks q ! i) = 0" "vq_books p"
      "p = q\<lparr>blocks := (blocks q)[i := zero_block],
             stats := (stats q)\<lparr>leased_blocks := leased_blocks (stats q) - 1\<rparr>\<rparr>"
      "owned_slots (blocks p) = owned_slots (blocks q) - {i}"
proof (cases "\<not> owned (blocks q ! i) \<or> refs (blocks q ! i) \<noteq> 0 \<or>
    fst (release ctx (blk_token (blocks q ! i))) \<noteq> 0")
  case True
  obtain r c where rel: "release ctx (blk_token (blocks q ! i)) = (r, c)" by fastforce
  let ?skip = "\<not> owned (blocks q ! i) \<or> refs (blocks q ! i) \<noteq> 0"
  show ?thesis
    by (rule kept [of "if ?skip \<or> err \<noteq> 0 then err else r" "if ?skip then ctx else c"])
      (use True in \<open>auto simp: Let_def rel\<close>)
next
  case False
  note b = vq_booksD [OF q]
  define p where "p = q\<lparr>blocks := (blocks q)[i := zero_block],
             stats := (stats q)\<lparr>leased_blocks := leased_blocks (stats q) - 1\<rparr>\<rparr>"
  have blk: "blocks p ! s = (if s = i then zero_block else blocks q ! s)" for s
    using i by (simp add: p_def nth_update_if b(2))
  have len: "length (blocks p) = 64" by (simp add: p_def b(2))
  have slots: "owned_slots (blocks p) = owned_slots (blocks q) - {i}"
    by (auto simp: owned_slots_def len b(2) blk zero_block_def split: if_splits)
  have "i \<in> owned_slots (blocks q)" using False i by (simp add: owned_slots_def b(2))
  moreover have fin: "finite (owned_slots (blocks q))" by (simp add: owned_slots_def)
  ultimately have card: "leased_blocks (stats p) = card (owned_slots (blocks p))"
    "0 < leased_blocks (stats q)"
    by (simp_all add: slots b(9) card_gt_0_iff) (auto simp: p_def b(9))
  have act: "active p = active q" by (simp add: p_def)
  have fr: "vq_shape p" "vq_cfg p = vq_cfg q" "reserved_blocks (stats p) = reserved_blocks (stats q)"
    "reserved_bytes (stats p) = reserved_bytes (stats q)" using b(1) by (simp_all add: p_def)
  have pin: "refs (blocks p ! s) = pins (active q) s" if "s < 64" for s
    using b(4) [OF that] b(4) [OF i] False by (auto simp: blk zero_block_def)
  have "0 < refs (blocks p ! s) \<longrightarrow> owned (blocks p ! s)"
    "owned (blocks p ! s) \<longrightarrow> s < block_count (vq_cfg q)" if "s < 64" for s
    using b(5,6) [OF that] by (auto simp: blk zero_block_def)
  moreover have "tokens_distinct (blocks p)"
    using b(7) by (simp add: tokens_distinct_def slots blk)
  ultimately have "vq_books p"
    using b(8,10,11) pin card fr by (simp add: vq_books_def act)
  moreover obtain r c where "release ctx (blk_token (blocks q ! i)) = (r, c)" by fastforce
  ultimately show ?thesis
    using False card(2) by (intro freed [OF _ _ _ _ _ p_def slots]) (simp_all add: Let_def p_def uint_dec)
qed

lemma reap_books:
  assumes "vq_books q"
  shows "vq_books (snd (snd (vq_reap release ctx q)))"
proof -
  let ?f = "vq_reap_block release"
  have "vq_books (snd (snd (fold ?f is s)))" if "vq_books (snd (snd s))" "set is \<subseteq> {..<64}" for "is" s
    using that
  proof (induction "is" arbitrary: s)
    case (Cons i "is")
    obtain e c r where s: "s = (e, c, r)" by (cases s) auto
    have r: "vq_books r" "i < 64" using Cons.prems by (simp_all add: s)
    have "vq_books (snd (snd (?f i s)))"
      by (cases rule: reap_block_cases [OF r, of release e c]) (simp_all add: s r)
    then show ?case using Cons by simp
  qed simp
  moreover have "set [0..<block_count (vq_cfg q)] \<subseteq> {..<64}"
    using vq_booksD(1) [OF assms] by (auto simp: vq_shape_def)
  ultimately show ?thesis using assms by (simp add: vq_reap_def)
qed

lemma create_books:
  assumes "vq_create mem c = Inr q"
  shows "vq_books q" and "active q = []" and "vq_cfg q = c"
proof -
  have q: "q = \<lparr>vq_cfg = c, blocks = replicate 64 zero_block,
        vq_visits = replicate 64 zero_vq_visit,
        stats = \<lparr>reserved_bytes = 0, high_water_bytes = 0, missing_samples = 0,
          leased_blocks = 0, reserved_blocks = 0, high_water_blocks = 0, visit_total = 0\<rparr>,
        vq_head = 0, last_source_end = 0, last_reserved_id = 0, last_valid_end = 0,
        have_source = False, have_id = False, cancelled = False\<rparr>"
    and c: "block_count c \<le> 64" "maximum_visits c \<le> 64"
    using assms by (auto simp: vq_create_def split: if_splits)
  have "owned_slots (blocks q) = {}" by (auto simp: q owned_slots_def zero_block_def)
  then show "vq_books q" "active q = []" "vq_cfg q = c"
    using c by (simp_all add: vq_books_def q vq_shape_def active_def zero_block_def tokens_distinct_def)
qed

end
