(* ===== verification/Visit_Capture.thy ===== *)
theory Visit_Capture
  imports Visit_Books
begin

text \<open>
  What the visit queue promises about samples: the slices of a visit tile the stream of samples
  from its start without gap or overlap, a visit is invalidated by a missing interval and by
  nothing else a feed does, and a complete visit has every sample it asked for.
\<close>

subsection \<open>Positions in the sample stream\<close>

text \<open>\<open>tiles org bps bb p ss r\<close>: the slices \<open>ss\<close> are nonempty parts of blocks of \<open>bb\<close> bytes that
  follow each other from byte \<open>p\<close> to byte \<open>r\<close> of the stream, where \<open>org\<close> is the first sample of
  the block with a token and a sample has \<open>bps\<close> bytes.\<close>

fun tiles :: "(u64 \<Rightarrow> u64) \<Rightarrow> nat \<Rightarrow> nat \<Rightarrow> nat \<Rightarrow> vq_slice list \<Rightarrow> nat \<Rightarrow> bool" where
  "tiles org bps bb p [] r \<longleftrightarrow> p = r"
| "tiles org bps bb p (s # ss) r \<longleftrightarrow>
     unat (org (slice_token s)) * bps + slice_offset s = p \<and> 0 < slice_bytes s \<and>
     slice_offset s + slice_bytes s \<le> bb \<and> tiles org bps bb (p + slice_bytes s) ss r"

lemma tiles_append:
  "tiles org bps bb p (ss @ ts) r \<longleftrightarrow> (\<exists>m. tiles org bps bb p ss m \<and> tiles org bps bb m ts r)"
  by (induction ss arbitrary: p) auto

lemma tiles_cong:
  "(\<And>s. s \<in> set ss \<Longrightarrow> org' (slice_token s) = org (slice_token s)) \<Longrightarrow>
    tiles org' bps bb p ss r = tiles org bps bb p ss r"
  by (induction ss arbitrary: p) auto

lemma tiles_sum: "tiles org bps bb p ss r \<Longrightarrow> p + sum_list (map slice_bytes ss) = r"
  by (induction ss arbitrary: p) (auto, metis add.assoc)

subsection \<open>The invariant of a visit\<close>

text \<open>The bounds that a created queue has on its configuration.\<close>

definition vq_limits :: "vq_config \<Rightarrow> bool" where
  "vq_limits c \<longleftrightarrow> 0 < block_samples c \<and> block_samples c \<le> 1000000 \<and> 0 < headroom_blocks c \<and>
     block_count c \<le> 64 \<and> vq_rate_hz c \<le> 61440000 \<and> maximum_visit_ms c \<le> 360 \<and>
     (bytes_per_sample c = 4 \<or> bytes_per_sample c = 8)"

lemma limits_pos:
  assumes "vq_limits c"
  shows "0 < unat (block_samples c)" and "0 < unat (bytes_per_sample c)"
  using assms by (auto simp: vq_limits_def word_less_nat_alt)

lemma create_limits: "vq_create mem c = Inr q \<Longrightarrow> vq_limits c"
  by (auto simp: vq_create_def vq_limits_def scan_rate_valid_def not_less word_gt_0 split: if_splits)

text \<open>\<open>bps\<close> and \<open>bs\<close> are the bytes of a sample and the samples of a block, \<open>lse\<close> is the end of the
  samples fed so far. A visit that still captures expects the next sample at \<open>v_next\<close> and has
  enough reserved blocks for the rest, wherever the blocks' boundaries fall.\<close>

definition capturing :: "nat \<Rightarrow> u64 \<Rightarrow> vq_visit \<Rightarrow> bool" where
  "capturing bs lse v \<longleftrightarrow> v_bytes v \<noteq> 0 \<and>
     (if bound v
      then unat (v_end v) = unat (v_start v) + unat (v_samples v) \<and>
        (if v_next v = v_end v then v_end v \<le> lse
         else lse \<le> v_next v \<and> (v_slices v \<noteq> [] \<longrightarrow> v_next v = lse) \<and>
           length (v_slices v) + remaining_blocks v \<le> 64 \<and>
           (if v_slices v = [] then unat (v_samples v) + bs \<le> remaining_blocks v * bs
            else unat (v_end v) \<le> unat (v_next v) + remaining_blocks v * bs))
      else v_slices v = [] \<and> v_start v = 0 \<and> v_next v = 0 \<and> v_end v = 0 \<and> \<not> closed v \<and>
        lse \<le> reserved_at v \<and> remaining_blocks v \<le> 64 \<and>
        unat (v_samples v) + bs \<le> remaining_blocks v * bs)"

definition visit_ok :: "vq_config \<Rightarrow> (u64 \<Rightarrow> u64) \<Rightarrow> u64 \<Rightarrow> vq_visit \<Rightarrow> bool" where
  "visit_ok c org lse v \<longleftrightarrow>
     (let bps = unat (bytes_per_sample c); bs = unat (block_samples c) in
     0 < v_samples v \<and> v_start v \<le> v_next v \<and> v_next v \<le> v_end v \<and>
     (if v_bytes v = 0 then v_slices v = []
      else tiles org bps (bs * bps) (unat (v_start v) * bps) (v_slices v) (unat (v_next v) * bps)) \<and>
     (v_result v = VISIT_ADMITTED \<longrightarrow> capturing bs lse v) \<and>
     (v_result v = VISIT_COMPLETE \<longrightarrow> v_bytes v \<noteq> 0 \<and> bound v \<and> v_next v = v_end v \<and>
        unat (v_end v) = unat (v_start v) + unat (v_samples v)) \<and>
     (v_result v \<noteq> VISIT_ADMITTED \<longrightarrow> closed v \<and> (v_bytes v \<noteq> 0 \<longrightarrow> v_next v = v_end v)) \<and>
     (sending v \<longrightarrow> v_result v \<noteq> VISIT_ADMITTED))"

lemma terminated_ok:
  assumes "visit_ok c org lse v" and "\<not> sending v" and "r \<noteq> VISIT_ADMITTED" "r \<noteq> VISIT_COMPLETE"
  shows "visit_ok c org lse' (terminated keep r v)"
  using assms by (auto simp: visit_ok_def terminated_def discarded_def Let_def)

text \<open>An ended visit is fine whatever is fed, and may be handed out.\<close>

lemma visit_ok_rest: "visit_ok c org lse v \<Longrightarrow> v_result v \<noteq> VISIT_ADMITTED \<Longrightarrow> visit_ok c org lse' v"
  unfolding visit_ok_def Let_def by blast

lemma visit_ok_sending:
  "visit_ok c org lse v \<Longrightarrow> v_result v \<noteq> VISIT_ADMITTED \<Longrightarrow> visit_ok c org lse (v\<lparr>sending := b\<rparr>)"
  by (auto simp: visit_ok_def Let_def split: if_splits)

lemma visit_ok_org:
  assumes "visit_ok c org lse v" and "\<And>s. s \<in> set (v_slices v) \<Longrightarrow> org' (slice_token s) = org (slice_token s)"
  shows "visit_ok c org' lse v"
  using assms tiles_cong [of "v_slices v" org' org] by (simp add: visit_ok_def Let_def)

subsection \<open>A fed block\<close>

text \<open>Where a block that comes from the source meets a visit: unless samples are missing, a block
  that intersects the rest of the visit continues it exactly.\<close>

lemma capturing_continues:
  assumes v: "visit_ok c org lse v" and l: "vq_limits c" and adm: "v_result v = VISIT_ADMITTED"
    and bnd: "bound v" and first: "lse \<le> first"
    and nogap: "\<not> (v_next v < first \<and> v_next v < v_end v)"
    and meets: "max (v_start v) first < min (v_end v) stop"
  shows "max (v_start v) first = v_next v" and "remaining_blocks v \<noteq> 0"
    and "length (v_slices v) < 64" and "v_next v < v_end v"
proof -
  let ?bps = "unat (bytes_per_sample c)" and ?bs = "unat (block_samples c)"
  have bps: "0 < ?bps" by (rule limits_pos [OF l])
  have cap: "capturing ?bs lse v" and ord: "v_start v \<le> v_next v" "v_next v \<le> v_end v"
    and t: "tiles org ?bps (?bs * ?bps) (unat (v_start v) * ?bps) (v_slices v) (unat (v_next v) * ?bps)"
    using v adm by (auto simp: visit_ok_def Let_def capturing_def split: if_splits)
  have ne: "v_next v \<noteq> v_end v"
  proof
    assume "v_next v = v_end v"
    then have "v_end v \<le> lse" using cap bnd by (simp add: capturing_def)
    then show False using first meets by (auto simp: min_def max_def split: if_splits)
  qed
  then show lt: "v_next v < v_end v" using ord by simp
  then have fn: "first \<le> v_next v" using nogap by auto
  have cap': "v_slices v \<noteq> [] \<longrightarrow> v_next v = lse" "length (v_slices v) + remaining_blocks v \<le> 64"
    "if v_slices v = [] then unat (v_samples v) + ?bs \<le> remaining_blocks v * ?bs
     else unat (v_end v) \<le> unat (v_next v) + remaining_blocks v * ?bs"
    using cap unfolding capturing_def if_P [OF bnd] if_not_P [OF ne] by blast+
  show "max (v_start v) first = v_next v"
  proof (cases "v_slices v = []")
    case True
    then have "v_start v = v_next v" using t bps by (simp add: word_unat_eq_iff)
    then show ?thesis using fn by (simp add: max_def)
  next
    case False
    then show ?thesis using cap'(1) first fn ord by (simp add: max_def)
  qed
  have bs: "0 < ?bs" by (rule limits_pos [OF l])
  show rem: "remaining_blocks v \<noteq> 0"
  proof
    assume "remaining_blocks v = 0"
    then show False using cap'(3) bs lt by (simp add: word_less_nat_alt split: if_splits)
  qed
  then show "length (v_slices v) < 64" using cap'(2) by linarith
qed

lemma fed_visit_ok:
  assumes v: "visit_ok c org lse v" and l: "vq_limits c"
    and bnd: "v_result v = VISIT_ADMITTED \<Longrightarrow> bound v"
    and first: "lse \<le> first" and samples: "samples = block_samples c"
    and stop: "stop = first + ucast samples" "first \<le> UINT64_MAX - ucast samples"
    and org: "org' token = first" "\<And>s. s \<in> set (v_slices v) \<Longrightarrow> org' (slice_token s) = org (slice_token s)"
  shows "visit_ok c org' stop (fed_visit (bytes_per_sample c) keep token data first stop slot v)"
proof -
  let ?bps = "unat (bytes_per_sample c)" and ?bs = "unat (block_samples c)"
  let ?a = "max (v_start v) first" and ?b = "min (v_end v) stop"
  have v': "visit_ok c org' lse v" using visit_ok_org [OF v] org(2) by blast
  have stop': "unat stop = unat first + ?bs"
    using stop by (simp add: samples le_max_minus_iff unat_add_small)
  have bs: "0 < ?bs" "0 < ?bps" by (rule limits_pos [OF l])+
  consider (rest) "v_result v \<noteq> VISIT_ADMITTED"
    | (gap) "v_result v = VISIT_ADMITTED" "v_next v < first \<and> v_next v < v_end v"
    | (apart) "v_result v = VISIT_ADMITTED" "\<not> (v_next v < first \<and> v_next v < v_end v)" "?b \<le> ?a"
    | (meets) "v_result v = VISIT_ADMITTED" "\<not> (v_next v < first \<and> v_next v < v_end v)" "?a < ?b"
    using not_le by blast
  then show ?thesis
  proof cases
    case rest
    then have "fed_visit (bytes_per_sample c) keep token data first stop slot v = v"
      by (simp add: fed_visit_def Let_def)
    then show ?thesis using visit_ok_rest [OF v' rest] by simp
  next
    case gap
    then have "\<not> sending v" using v by (auto simp: visit_ok_def Let_def)
    then show ?thesis using gap terminated_ok [OF v'] by (simp add: fed_visit_def Let_def)
  next
    case apart
    have "capturing ?bs stop v"
    proof -
      have cap: "capturing ?bs lse v" and ord: "v_start v \<le> v_next v" "v_next v \<le> v_end v"
        and t: "tiles org' ?bps (?bs * ?bps) (unat (v_start v) * ?bps) (v_slices v) (unat (v_next v) * ?bps)"
        using v' apart by (auto simp: visit_ok_def Let_def capturing_def split: if_splits)
      note b = bnd [OF apart(1)]
      show ?thesis
      proof (cases "v_next v = v_end v")
        case True
        then have "v_end v \<le> stop"
          using cap b first stop' by (simp add: capturing_def word_le_nat_alt)
        then show ?thesis using cap b True by (simp add: capturing_def)
      next
        case ne: False
        then have lt: "v_next v < v_end v" "first \<le> v_next v" using ord apart(2) by auto
        have fs: "first < stop" using stop' bs by (simp add: word_less_nat_alt)
        have nil: "v_slices v = []"
        proof (rule ccontr)
          assume "v_slices v \<noteq> []"
          then have "v_next v = lse" using cap b ne by (simp add: capturing_def)
          then show False using first lt ord fs apart(3) by (auto simp: min_def max_def split: if_splits)
        qed
        then have "v_start v = v_next v" using t bs by (simp add: word_unat_eq_iff)
        then have "stop \<le> v_next v" using apart(3) lt by (auto simp: min_def max_def split: if_splits)
        then show ?thesis using cap b ne nil by (simp add: capturing_def)
      qed
    qed
    moreover have "fed_visit (bytes_per_sample c) keep token data first stop slot v = v"
      unfolding fed_visit_def Let_def using apart by meson
    ultimately show ?thesis using apart(1) v' by (simp add: visit_ok_def Let_def)
  next
    case meets
    note b = bnd [OF meets(1)]
    note cont = capturing_continues [OF v l meets(1) b first meets(2,3)]
    let ?n = "v_next v"
    let ?v = "fed_visit (bytes_per_sample c) keep token data first stop slot v"
    let ?s = "\<lparr>slice_token = token, slice_data = data, slice_offset = unat (?n - first) * ?bps,
      slice_bytes = unat (?b - ?n) * ?bps\<rparr>"
    have fed: "?v = v\<lparr>v_block := v_block v @ [slot], v_slices := v_slices v @ [?s],
       remaining_blocks := (if ?b = v_end v then 0 else remaining_blocks v - 1), v_next := ?b,
       v_result := (if ?b = v_end v \<and> closed v then VISIT_COMPLETE else v_result v)\<rparr>"
    proof -
      have e: "(v_result v \<noteq> VISIT_ADMITTED) = False" "(?n < first \<and> ?n < v_end v) = False"
        "(?b \<le> ?n) = False" "(?n \<noteq> ?n \<or> remaining_blocks v = 0 \<or> 64 \<le> length (v_slices v)) = False"
        using meets cont by (simp_all add: not_le)
      show ?thesis unfolding fed_visit_def Let_def cont(1) e if_False ..
    qed
    have cap: "capturing ?bs lse v" and ord: "v_start v \<le> ?n"
      and t: "tiles org' ?bps (?bs * ?bps) (unat (v_start v) * ?bps) (v_slices v) (unat ?n * ?bps)"
      and misc: "0 < v_samples v" "v_bytes v \<noteq> 0" "\<not> sending v"
      using v' meets(1) by (auto simp: visit_ok_def Let_def capturing_def split: if_splits)
    have n: "unat first \<le> unat ?n" "unat ?n < unat ?b" "unat ?b \<le> unat stop" "unat ?b \<le> unat (v_end v)"
      "unat (?n - first) = unat ?n - unat first" "unat (?b - ?n) = unat ?b - unat ?n"
    proof -
      have "first \<le> ?n" using cont(1) by (metis max.cobounded2)
      moreover have "?n < ?b" using meets(3) cont(1) by simp
      ultimately show "unat first \<le> unat ?n" "unat ?n < unat ?b" "unat (?n - first) = unat ?n - unat first"
        "unat (?b - ?n) = unat ?b - unat ?n"
        by (simp_all only: word_le_nat_alt word_less_nat_alt unat_sub less_imp_le)
      show "unat ?b \<le> unat stop" "unat ?b \<le> unat (v_end v)"
        using min.cobounded1 [of "v_end v" stop] min.cobounded2 [of "v_end v" stop]
        by (simp_all only: word_le_nat_alt)
    qed
    have "tiles org' ?bps (?bs * ?bps) (unat ?n * ?bps) [?s] (unat ?b * ?bps)"
      using n bs org(1) stop' by (simp add: add_mult_distrib [symmetric])
    then have tiled: "tiles org' ?bps (?bs * ?bps) (unat (v_start v) * ?bps) (v_slices ?v) (unat (v_next ?v) * ?bps)"
      using t by (auto simp: fed tiles_append simp del: tiles.simps)
    have cap': "capturing ?bs stop ?v" if "\<not> (?b = v_end v \<and> closed v)"
    proof (cases "?b = v_end v")
      case True
      then have "v_end v \<le> stop" by (metis min.cobounded2)
      then show ?thesis using True cap b by (simp add: fed capturing_def)
    next
      case False
      then have bstop: "?b = stop" by (auto simp: min_def split: if_splits)
      have ne: "?n \<noteq> v_end v" using cont(4) by auto
      have endv: "unat (v_end v) = unat (v_start v) + unat (v_samples v)"
        and len: "length (v_slices v) + remaining_blocks v \<le> 64"
        and lse: "v_slices v \<noteq> [] \<longrightarrow> ?n = lse"
        and sup: "if v_slices v = [] then unat (v_samples v) + ?bs \<le> remaining_blocks v * ?bs
            else unat (v_end v) \<le> unat ?n + remaining_blocks v * ?bs"
        using cap unfolding capturing_def if_P [OF b] if_not_P [OF ne] by blast+
      have rem: "(remaining_blocks v - 1) * ?bs + ?bs = remaining_blocks v * ?bs"
        using cont(2) by (cases "remaining_blocks v") auto
      have "unat (v_end v) \<le> unat stop + (remaining_blocks v - 1) * ?bs"
      proof (cases "v_slices v = []")
        case True
        then have "unat (v_start v) = unat ?n" using t bs by simp
        then show ?thesis using True sup rem endv n(2) bstop by simp
      next
        case False
        then have "first = ?n" using lse first n(1) by (simp add: word_le_nat_alt word_unat_eq_iff)
        then show ?thesis using False sup rem stop' by simp
      qed
      then show ?thesis
        using False bstop b misc(2) endv len cont(2)
        by (simp add: fed capturing_def)
    qed
    have "?b \<le> v_end v" by (rule min.cobounded1)
    moreover have "v_start v \<le> ?b" using n(2) ord by (simp add: word_le_nat_alt)
    moreover have "unat (v_end v) = unat (v_start v) + unat (v_samples v)"
      using cap b by (simp add: capturing_def)
    ultimately show ?thesis
      using tiled cap' misc b meets(1) unfolding visit_ok_def Let_def by (auto simp: fed)
  qed
qed

subsection \<open>The invariant of the queue\<close>

text \<open>\<open>fed\<close> lists the tokens and first samples of the blocks the queue has accepted, latest first;
  \<open>origin\<close> is the first sample of the latest block with a token.\<close>

definition origin :: "(u64 \<times> u64) list \<Rightarrow> u64 \<Rightarrow> u64" where
  "origin fed token = (case map_of fed token of Some first \<Rightarrow> first | None \<Rightarrow> 0)"

lemma origin_Cons: "origin ((t, first) # fed) token = (if token = t then first else origin fed token)"
  by (simp add: origin_def)

definition slices_leased :: "vq_block list \<Rightarrow> vq_visit \<Rightarrow> bool" where
  "slices_leased bs v \<longleftrightarrow> list_all2 (\<lambda>s sl. slice_token sl = blk_token (bs ! s) \<and>
     slice_data sl = blk_data (bs ! s)) (v_block v) (v_slices v)"

definition vq_ok :: "visit_queue \<Rightarrow> (u64 \<times> u64) list \<Rightarrow> bool" where
  "vq_ok q fed \<longleftrightarrow> vq_books q \<and> vq_limits (vq_cfg q) \<and> (have_source q \<or> last_source_end q = 0) \<and>
     (\<forall>v \<in> set (active q). visit_ok (vq_cfg q) (origin fed) (last_source_end q) v \<and>
        slices_leased (blocks q) v) \<and>
     (\<forall>v \<in> set (butlast (active q)). bound v) \<and> (\<forall>v \<in> set (tl (active q)). \<not> sending v)"

lemma vq_okD:
  assumes "vq_ok q fed"
  shows "vq_books q" "vq_limits (vq_cfg q)" "have_source q \<or> last_source_end q = 0"
    "v \<in> set (active q) \<Longrightarrow> visit_ok (vq_cfg q) (origin fed) (last_source_end q) v"
    "v \<in> set (active q) \<Longrightarrow> slices_leased (blocks q) v"
    "v \<in> set (butlast (active q)) \<Longrightarrow> bound v" "v \<in> set (tl (active q)) \<Longrightarrow> \<not> sending v"
  using assms by (auto simp: vq_ok_def)

text \<open>A step that keeps the leases and treats the visits one by one.\<close>

definition visit_step :: "vq_config \<Rightarrow> (u64 \<Rightarrow> u64) \<Rightarrow> u64 \<Rightarrow> vq_visit \<Rightarrow> vq_visit \<Rightarrow> bool" where
  "visit_step c org lse v v' \<longleftrightarrow> visit_ok c org lse v' \<and> (bound v \<longrightarrow> bound v') \<and>
     (v_block v' = v_block v \<and> v_slices v' = v_slices v \<or> v_block v' = [] \<and> v_slices v' = [])"

lemma visit_step_refl: "visit_ok c org lse v \<Longrightarrow> visit_step c org lse v v"
  by (simp add: visit_step_def)

lemma set_tl_subset: "set (tl xs) \<subseteq> set xs"
  by (cases xs) auto

lemma in_butlast_or_last: "x \<in> set xs \<Longrightarrow> x \<in> set (butlast xs) \<or> x = last xs"
  by (induction xs) auto

lemma in_set_tl_map: "y \<in> set (tl (map g xs)) \<Longrightarrow> \<exists>x \<in> set (tl xs). y = g x"
  by (cases xs) auto

lemma list_all2_setD: "list_all2 P xs ys \<Longrightarrow> y \<in> set ys \<Longrightarrow> \<exists>x \<in> set xs. P x y"
  by (metis list_all2_conv_all_nth in_set_conv_nth)

lemma list_all2_butlast: "list_all2 P xs ys \<Longrightarrow> list_all2 P (butlast xs) (butlast ys)"
  by (simp add: list_all2_conv_all_nth nth_butlast)

lemma list_all2_update_right:
  "(\<And>x. x \<in> set xs \<Longrightarrow> P x x) \<Longrightarrow> i < length xs \<Longrightarrow> P (xs ! i) y \<Longrightarrow> list_all2 P xs (xs[i := y])"
  by (simp add: list_all2_conv_all_nth nth_update_if)

lemma list_all2_map_right: "(\<And>x. x \<in> set xs \<Longrightarrow> P x (f x)) \<Longrightarrow> list_all2 P xs (map f xs)"
  by (simp add: list_all2_conv_all_nth)

lemma slices_leased_cong:
  assumes "slices_leased bs v"
    and "\<And>s. s \<in> set (v_block v) \<Longrightarrow> blk_token (bs' ! s) = blk_token (bs ! s) \<and> blk_data (bs' ! s) = blk_data (bs ! s)"
  shows "slices_leased bs' v"
  using assms unfolding slices_leased_def by (auto simp: list_all2_conv_all_nth)

lemma vq_ok_step:
  assumes q: "vq_ok q fed" and books: "vq_books q'" and sl: "same_leases q q'"
    and steps: "list_all2 (visit_step (vq_cfg q) (origin fed) (last_source_end q)) (active q) (active q')"
    and send: "\<And>v. v \<in> set (tl (active q')) \<Longrightarrow> \<not> sending v"
  shows "vq_ok q' fed"
proof -
  note d = vq_okD [OF q]
  have eq: "vq_cfg q' = vq_cfg q" "last_source_end q' = last_source_end q" "have_source q' = have_source q"
    using sl by (simp_all add: same_leases_def)
  have "visit_ok (vq_cfg q) (origin fed) (last_source_end q) v' \<and> slices_leased (blocks q') v'"
    if "v' \<in> set (active q')" for v'
  proof -
    obtain v where v: "v \<in> set (active q)" "visit_step (vq_cfg q) (origin fed) (last_source_end q) v v'"
      using list_all2_setD [OF steps \<open>v' \<in> _\<close>] by blast
    have "slices_leased (blocks q') v"
      using same_leases_blocks [OF sl] vq_booksD(2) [OF d(1)] books_pinned_owned(1) [OF d(1) v(1)]
      by (intro slices_leased_cong [OF d(5) [OF v(1)]]) auto
    then show ?thesis using v(2) by (auto simp: visit_step_def slices_leased_def)
  qed
  moreover have "bound v'" if "v' \<in> set (butlast (active q'))" for v'
    using list_all2_setD [OF list_all2_butlast [OF steps] that] d(6) by (auto simp: visit_step_def)
  ultimately show ?thesis
    using books d(2,3) send by (simp add: vq_ok_def eq)
qed

lemma create_source: "vq_create mem c = Inr q \<Longrightarrow> last_source_end q = 0"
  by (force simp: vq_create_def split: if_splits)

lemma create_vq_ok: "vq_create mem c = Inr q \<Longrightarrow> vq_ok q []"
  using create_books [of mem c q] create_limits [of mem c q] create_source [of mem c q]
  by (simp add: vq_ok_def)

lemma slices_leasedD:
  assumes "slices_leased bs v" and "sl \<in> set (v_slices v)"
  obtains s where "s \<in> set (v_block v)" "slice_token sl = blk_token (bs ! s)"
    "slice_data sl = blk_data (bs ! s)"
  using list_all2_setD [OF assms(1) [unfolded slices_leased_def] assms(2)] by blast

lemma fed_visit_fields:
  "bound (fed_visit bps keep token data first stop slot v) = bound v"
  "sending (fed_visit bps keep token data first stop slot v) = sending v"
  "v_id (fed_visit bps keep token data first stop slot v) = v_id v"
  by (simp_all add: fed_visit_def terminated_def discarded_def Let_def)

lemma fed_visit_slices:
  assumes "slices_leased bs v" and "blk_token (bs ! slot) = token" "blk_data (bs ! slot) = data"
  shows "slices_leased bs (fed_visit bps keep token data first stop slot v)"
  using assms
  by (auto simp: slices_leased_def fed_visit_def terminated_def Let_def intro!: list_all2_appendI)

text \<open>When the last visit is bound, all are.\<close>

lemma all_bound:
  assumes q: "vq_ok q fed" and "visit_total (stats q) \<noteq> 0 \<longrightarrow> bound (vq_at q (visit_total (stats q) - 1))"
    and v: "v \<in> set (active q)"
  shows "bound v"
proof (cases "v \<in> set (butlast (active q))")
  case False
  have ne: "active q \<noteq> []" using v by auto
  then have "v = last (active q)"
    using in_butlast_or_last [OF v] False by simp
  then show ?thesis
    using assms(2) ne vq_at_active [OF vq_booksD(1) [OF vq_okD(1) [OF q]], of "visit_total (stats q) - 1"]
    by (simp add: last_conv_nth flip: length_active)
qed (rule vq_okD(6) [OF q])

lemma feed_vq_ok:
  assumes q: "vq_ok q fed" and run: "vq_feed q token data first samples = (ret, q')"
  shows "vq_ok q' (if ret = 0 then (token, first) # fed else fed)"
proof (cases rule: feed_cases [of q token data first samples])
  case (refused e)
  then show ?thesis using q run by auto
next
  case (fed slot)
  note d = vq_okD [OF q] and acc = fed(1) [unfolded feed_accepts_def]
  let ?c = "vq_cfg q" and ?stop = "first + ucast samples"
  define p where "p = vq_store q slot token data first samples"
  note st = store_books [OF d(1) fed(2,3,4), where data = data and first = first and samples = samples, folded p_def]
  have p: "vq_cfg p = ?c" "visit_total (stats p) = visit_total (stats q)"
    "last_source_end p = ?stop" "have_source p" by (simp_all add: p_def vq_store_def)
  have r: "ret = 0" and q': "q' = fold (vq_feed_visit token data first ?stop slot) [0..<visit_total (stats p)] p"
    using run fed(5) by (simp_all add: p_def vq_store_def)
  note loop = feed_loop [OF st(1,3) refl q', unfolded p]
  have act: "active q' = map (fed_visit (bytes_per_sample ?c) (preserve_partial ?c) token data first ?stop slot)
      (active q)" using loop(3) by (simp add: st(2))
  have q'f: "vq_cfg q' = ?c" "last_source_end q' = ?stop" "have_source q'"
    using loop(2) p by (simp_all add: same_leases_def)
  have slot64: "slot < 64" using fed(2) vq_booksD(1) [OF d(1)] by (simp add: vq_shape_def)
  have blk: "blk_token (blocks q' ! s) = (if s = slot then token else blk_token (blocks q ! s))"
    "blk_data (blocks q' ! s) = (if s = slot then data else blk_data (blocks q ! s))" if "s < 64" for s
    using same_leases_blocks(2,3) [OF loop(2), of s] that vq_booksD(2) [OF d(1)] slot64
    by (simp_all add: p_def vq_store_def nth_update_if)
  have lse: "last_source_end q \<le> first" using acc d(3) by auto
  have acc': "samples = block_samples ?c" "first \<le> UINT64_MAX - ucast samples" using acc by blast+
  let ?g = "fed_visit (bytes_per_sample ?c) (preserve_partial ?c) token data first ?stop slot"
  have visit: "visit_ok ?c (origin ((token, first) # fed)) ?stop (?g v) \<and> slices_leased (blocks q') (?g v)"
    if v: "v \<in> set (active q)" for v
  proof
    note pin = books_pinned_owned [OF d(1) v]
    have fresh: "slice_token sl \<noteq> token" if sl: "sl \<in> set (v_slices v)" for sl
    proof -
      from slices_leasedD [OF d(5) [OF v] sl] obtain s where
        s: "s \<in> set (v_block v)" "slice_token sl = blk_token (blocks q ! s)" by blast
      then show ?thesis
        using fed(4) [OF vq_booksD(6) [OF d(1) pin(1,2) [OF s(1)]] pin(2) [OF s(1)]] by simp
    qed
    have bnd: "bound v" using acc by (intro all_bound [OF q _ v]) blast
    show "visit_ok ?c (origin ((token, first) # fed)) ?stop (?g v)"
      by (rule fed_visit_ok [OF d(4) [OF v] d(2) bnd lse acc'(1) refl acc'(2)])
        (simp_all add: origin_Cons fresh)
    have "slices_leased (blocks q') v"
    proof (rule slices_leased_cong [OF d(5) [OF v]])
      fix s assume s: "s \<in> set (v_block v)"
      then have "s \<noteq> slot" using pin(2) fed(3) by blast
      then show "blk_token (blocks q' ! s) = blk_token (blocks q ! s) \<and>
          blk_data (blocks q' ! s) = blk_data (blocks q ! s)"
        using blk [OF pin(1) [OF s]] by simp
    qed
    then show "slices_leased (blocks q') (?g v)"
      using blk [OF slot64] by (intro fed_visit_slices) simp_all
  qed
  moreover have "bound v" if "v \<in> set (butlast (active q'))" for v
    using that d(6) by (auto simp: act fed_visit_fields simp flip: map_butlast)
  moreover have "\<not> sending v" if "v \<in> set (tl (active q'))" for v
    using that d(7) in_set_tl_map by (fastforce simp: act fed_visit_fields)
  ultimately show ?thesis
    using loop(1) d(2) q'f r by (auto simp: vq_ok_def act)
qed

text \<open>The operations that end visits or mark them.\<close>

lemma terminated_step:
  assumes "visit_ok c org lse v" and "\<not> sending v" and "r \<noteq> VISIT_ADMITTED" "r \<noteq> VISIT_COMPLETE"
  shows "visit_step c org lse v (terminated keep r v)"
  using terminated_ok [OF assms] by (simp add: visit_step_def terminated_def discarded_def)

lemma terminated_sending [simp]: "sending (terminated keep r v) = sending v"
  by (simp add: terminated_def)

lemma window_closed_step:
  assumes "visit_ok c org lse v" and "bound v" "\<not> closed v" "\<not> sending v"
  shows "visit_step c org lse v (window_closed keep invalid v)"
proof (cases "invalid < v_end v")
  case True
  let ?v = "v\<lparr>closed := True\<rparr>"
  have "v_result v = VISIT_ADMITTED" using assms by (auto simp: visit_ok_def Let_def)
  then have "visit_ok c org lse ?v"
    using assms by (auto simp: visit_ok_def Let_def capturing_def)
  then have "visit_ok c org lse (terminated keep VISIT_INVALID_GAP ?v)"
    using assms(4) by (intro terminated_ok) simp_all
  then show ?thesis
    using True by (simp add: visit_step_def window_closed_def terminated_def discarded_def)
next
  case False
  have "v_result v = VISIT_ADMITTED" using assms by (auto simp: visit_ok_def Let_def)
  then show ?thesis
    using False assms by (auto simp: visit_step_def window_closed_def visit_ok_def Let_def capturing_def)
qed

lemma window_closed_sending [simp]: "sending (window_closed keep invalid v) = sending v"
  by (simp add: window_closed_def)

lemma in_tl_update: "x \<in> set (tl (xs[i := y])) \<Longrightarrow> x = y \<or> x \<in> set (tl xs)"
  by (cases xs; cases i) (auto dest: set_update_subset_insert [THEN subsetD])

lemma close_vq_ok:
  assumes q: "vq_ok q fed"
  shows "vq_ok (snd (vq_close_window q vid invalid)) fed"
proof (rule close_cases [OF vq_okD(1) [OF q], of vid invalid])
  fix e assume "vq_close_window q vid invalid = (e, q)"
  then show ?thesis using q by simp
next
  fix i
  assume closed: "i < visit_total (stats q)" "bound (active q ! i)" "\<not> closed (active q ! i)"
    "\<not> sending (active q ! i)" "vq_books (snd (vq_close_window q vid invalid))"
    "same_leases q (snd (vq_close_window q vid invalid))"
    "active (snd (vq_close_window q vid invalid)) =
         (active q)[i := window_closed (preserve_partial (vq_cfg q)) invalid (active q ! i)]"
  note d = vq_okD [OF q]
  have i: "i < length (active q)" using closed(1) by simp
  let ?w = "window_closed (preserve_partial (vq_cfg q)) invalid (active q ! i)"
  have "visit_step (vq_cfg q) (origin fed) (last_source_end q) (active q ! i) ?w"
    using closed(2-4) d(4) i by (intro window_closed_step) auto
  then have "list_all2 (visit_step (vq_cfg q) (origin fed) (last_source_end q)) (active q)
      (active (snd (vq_close_window q vid invalid)))"
    unfolding closed(7) using i d(4) by (intro list_all2_update_right visit_step_refl) auto
  moreover have "\<not> sending v" if "v \<in> set (tl (active (snd (vq_close_window q vid invalid))))" for v
    using in_tl_update [OF that [unfolded closed(7)]] d(7) closed(4) by auto
  ultimately show ?thesis by (rule vq_ok_step [OF q closed(5,6)])
qed

lemma map_vq_ok:
  assumes q: "vq_ok q fed" and "vq_books q'" "same_leases q q'" and act: "active q' = map g (active q)"
    and g: "\<And>v. v \<in> set (active q) \<Longrightarrow>
      visit_step (vq_cfg q) (origin fed) (last_source_end q) v (g v) \<and> sending (g v) = sending v"
  shows "vq_ok q' fed"
proof (rule vq_ok_step [OF assms(1-3)])
  show "list_all2 (visit_step (vq_cfg q) (origin fed) (last_source_end q)) (active q) (active q')"
    unfolding act using g by (intro list_all2_map_right) auto
  show "\<not> sending v" if v: "v \<in> set (tl (active q'))" for v
  proof -
    obtain w where w: "w \<in> set (tl (active q))" "v = g w"
      using in_set_tl_map [OF v [unfolded act]] by blast
    then show ?thesis
      using vq_okD(7) [OF q w(1)] g set_tl_subset [of "active q"] by auto
  qed
qed

lemma vq_ok_cancelled [simp]: "vq_ok (q\<lparr>cancelled := x\<rparr>) fed = vq_ok q fed"
  by (simp add: vq_ok_def)

lemma cancel_vq_ok:
  assumes q: "vq_ok q fed"
  shows "vq_ok (snd (vq_cancel q)) fed"
proof -
  let ?q = "q\<lparr>cancelled := True\<rparr>"
  have q': "vq_ok ?q fed" using q by simp
  have n: "visit_total (stats q) = visit_total (stats ?q)" by simp
  note loop = cancel_loop [OF vq_okD(1) [OF q'] n refl, of 0]
  show ?thesis
    unfolding vq_cancel_def
  proof (rule map_vq_ok [OF q' loop])
    fix v assume "v \<in> set (active ?q)"
    from vq_okD(4) [OF q' this]
    show "visit_step (vq_cfg ?q) (origin fed) (last_source_end ?q) v
        (cancelled_visit (preserve_partial (vq_cfg ?q)) v) \<and>
      sending (cancelled_visit (preserve_partial (vq_cfg ?q)) v) = sending v"
      by (auto simp: cancelled_visit_def visit_step_refl terminated_step)
  qed
qed

lemma expire_vq_ok:
  assumes q: "vq_ok q fed"
  shows "vq_ok (snd (vq_expire q now)) fed"
proof -
  note loop = expire_loop [OF vq_okD(1) [OF q] refl refl, of now 0]
  have "vq_ok (snd (fold (vq_expire_visit now) [0..<visit_total (stats q)] (0, q))) fed"
  proof (rule map_vq_ok [OF q loop])
    fix v assume "v \<in> set (active q)"
    from vq_okD(4) [OF q this]
    show "visit_step (vq_cfg q) (origin fed) (last_source_end q) v
        (expired_visit (preserve_partial (vq_cfg q)) (maximum_age_ticks (vq_cfg q)) now v) \<and>
      sending (expired_visit (preserve_partial (vq_cfg q)) (maximum_age_ticks (vq_cfg q)) now v) = sending v"
      by (auto simp: expired_visit_def visit_step_refl terminated_step)
  qed
  then show ?thesis using q by (simp add: vq_expire_def)
qed

lemma vq_ok_valid_end [simp]: "vq_ok (q\<lparr>last_valid_end := x\<rparr>) fed = vq_ok q fed"
  by (simp add: vq_ok_def vq_books_def)

lemma same_leases_vq_set [simp]: "same_leases q (vq_set q i v)"
  by (simp add: same_leases_def)

lemma bound_visit_ok:
  assumes v: "visit_ok c org lse v" and l: "vq_limits c"
    and "\<not> bound v" "v_result v = VISIT_ADMITTED" "reserved_at v \<le> start"
    and room: "start \<le> UINT64_MAX - ucast (v_samples v)"
  shows "visit_step c org lse v
    (v\<lparr>v_start := start, v_next := start, v_end := start + ucast (v_samples v), bound := True\<rparr>)"
proof -
  have e: "unat (start + ucast (v_samples v)) = unat start + unat (v_samples v)"
    using room by (simp add: le_max_minus_iff unat_add_small)
  have s: "0 < unat (v_samples v)" using v by (simp add: visit_ok_def Let_def word_less_nat_alt)
  have "start \<le> start + ucast (v_samples v)" "start \<noteq> start + ucast (v_samples v)"
    using e s by (auto simp: word_le_nat_alt word_unat_eq_iff)
  then show ?thesis
    using v assms(3-5) e limits_pos [OF l]
    by (auto simp: visit_step_def visit_ok_def Let_def capturing_def split: if_splits)
qed

lemma bind_vq_ok:
  assumes q: "vq_ok q fed"
  shows "vq_ok (snd (vq_bind q vid start)) fed"
proof -
  note d = vq_okD [OF q]
  let ?n = "visit_total (stats q) - 1"
  define v where "v = vq_at q ?n"
  let ?v = "v\<lparr>v_start := start, v_next := start, v_end := start + ucast (v_samples v), bound := True\<rparr>"
  show ?thesis
  proof (cases "visit_total (stats q) = 0 \<or> bound v \<or> v_result v \<noteq> VISIT_ADMITTED \<or> start < reserved_at v
      \<or> UINT64_MAX - ucast (v_samples v) < start \<or> fst (vq_bind q vid start) \<noteq> 0")
    case True
    then have "snd (vq_bind q vid start) = q"
      by (auto simp: vq_bind_def Let_def v_def)
    then show ?thesis using q by simp
  next
    case False
    then have i: "?n < visit_total (stats q)" "?n < length (active q)" by simp_all
    have at: "v = active q ! ?n" using vq_at_active [OF vq_booksD(1) [OF d(1)] i(1)] by (simp add: v_def)
    have vs: "v \<in> set (active q)" using i by (simp add: at)
    have act: "active (vq_set q ?n ?v) = (active q)[?n := ?v]"
      by (rule active_vq_set [OF vq_booksD(1) [OF d(1)] i(1)])
    have run: "snd (vq_bind q vid start)
        = (vq_set q ?n ?v)\<lparr>last_valid_end := start + ucast (v_samples v)\<rparr>"
      using False by (auto simp: vq_bind_def Let_def v_def split: if_splits)
    have step: "visit_step (vq_cfg q) (origin fed) (last_source_end q) (active q ! ?n) ?v"
      unfolding at [symmetric] by (rule bound_visit_ok [OF d(4) [OF vs] d(2)]) (use False in auto)
    have sv: "\<not> sending v" using d(4) [OF vs] False by (simp add: visit_ok_def Let_def)
    have "vq_ok (vq_set q ?n ?v) fed"
    proof (rule vq_ok_step [OF q])
      show "vq_books (vq_set q ?n ?v)" by (rule books_vq_set [OF d(1) i(1)]) (simp_all add: at)
      show "list_all2 (visit_step (vq_cfg q) (origin fed) (last_source_end q)) (active q)
          (active (vq_set q ?n ?v))"
        unfolding act using step i d(4) by (intro list_all2_update_right visit_step_refl) auto
      show "\<not> sending w" if "w \<in> set (tl (active (vq_set q ?n ?v)))" for w
        using in_tl_update [OF that [unfolded act]] d(7) sv by auto
    qed simp
    then show ?thesis by (simp add: run)
  qed
qed

text \<open>\<open>take\<close> hands out the first visit and pins it.\<close>

lemma take_cases:
  assumes q: "vq_ok q fed"
  obtains (refused) e where "vq_take q = (Inl e, q)"
  | (taken) v vs where "active q = v # vs" "v_result v \<noteq> VISIT_ADMITTED" "\<not> sending v"
      "vq_take q = (Inr \<lparr>view_id = v_id v, view_start = v_start v, view_end = v_end v,
                 view_result = v_result v, view_slices = v_slices v\<rparr>, vq_set q 0 (v\<lparr>sending := True\<rparr>))"
      "active (vq_set q 0 (v\<lparr>sending := True\<rparr>)) = v\<lparr>sending := True\<rparr> # vs"
proof (cases "\<exists>e. vq_take q = (Inl e, q)")
  case False
  then have n: "0 < visit_total (stats q)"
    by (cases "visit_total (stats q) = 0") (simp_all add: vq_take_def)
  then obtain v vs where act: "active q = v # vs"
    using length_active [of q] by (cases "active q") auto
  have sh: "vq_shape q" by (rule vq_booksD(1) [OF vq_okD(1) [OF q]])
  have at: "vq_at q 0 = v" using vq_at_active [OF sh n] act by simp
  have "active (vq_set q 0 (v\<lparr>sending := True\<rparr>)) = v\<lparr>sending := True\<rparr> # vs"
    using active_vq_set [OF sh n] by (simp add: act)
  then show ?thesis
    using False act n by (intro taken) (auto simp: vq_take_def Let_def at split: if_splits)
qed (use refused in blast)

lemma take_vq_ok:
  assumes q: "vq_ok q fed"
  shows "vq_ok (snd (vq_take q)) fed"
proof (rule take_cases [OF q])
  fix e assume "vq_take q = (Inl e, q)"
  then show ?thesis using q by simp
next
  fix v :: vq_visit and vs
  let ?v = "v\<lparr>sending := True\<rparr>"
  assume act: "active q = v # vs" "v_result v \<noteq> VISIT_ADMITTED"
    and run: "vq_take q = (Inr \<lparr>view_id = v_id v, view_start = v_start v, view_end = v_end v,
                 view_result = v_result v, view_slices = v_slices v\<rparr>, vq_set q 0 ?v)"
    and act': "active (vq_set q 0 ?v) = ?v # vs"
  note d = vq_okD [OF q]
  have ok: "visit_ok (vq_cfg q) (origin fed) (last_source_end q) w" if "w \<in> set (v # vs)" for w
    using d(4) that by (simp add: act)
  have "vq_ok (vq_set q 0 ?v) fed"
  proof (rule vq_ok_step [OF q])
    have n: "0 < visit_total (stats q)" using act(1) length_active [of q] by simp
    show "vq_books (vq_set q 0 ?v)" by (rule books_vq_set [OF d(1) n]) (simp_all add: act)
    have "list_all2 (visit_step (vq_cfg q) (origin fed) (last_source_end q)) vs vs"
      using ok by (auto simp: list_all2_conv_all_nth visit_step_refl)
    moreover have "visit_step (vq_cfg q) (origin fed) (last_source_end q) v ?v"
      using visit_ok_sending [OF ok [of v] act(2)] by (simp add: visit_step_def)
    ultimately show "list_all2 (visit_step (vq_cfg q) (origin fed) (last_source_end q)) (active q)
        (active (vq_set q 0 ?v))" by (simp add: act act')
    show "\<not> sending w" if "w \<in> set (tl (active (vq_set q 0 ?v)))" for w
      using that d(7) by (simp add: act act')
  qed simp
  then show ?thesis by (simp add: run)
qed

lemma complete_vq_ok:
  assumes q: "vq_ok q fed"
  shows "vq_ok (snd (vq_complete_send q vid)) fed"
proof (rule complete_send_cases [OF vq_okD(1) [OF q], of vid])
  fix e assume "vq_complete_send q vid = (e, q)"
  then show ?thesis using q by simp
next
  fix v vs
  let ?q = "snd (vq_complete_send q vid)"
  assume act: "active q = v # vs" and books: "vq_books ?q" and act': "active ?q = vs"
    and blk: "\<And>s. s < 64 \<Longrightarrow> blocks ?q ! s = (blocks q ! s)\<lparr>refs := refs (blocks ?q ! s)\<rparr>"
    and fr: "vq_cfg ?q = vq_cfg q" "last_source_end ?q = last_source_end q" "have_source ?q = have_source q"
  note d = vq_okD [OF q]
  have "slices_leased (blocks ?q) w" if w: "w \<in> set vs" for w
  proof -
    have w': "w \<in> set (active q)" using w by (simp add: act)
    show ?thesis
    proof (rule slices_leased_cong [OF d(5) [OF w']])
      fix s assume "s \<in> set (v_block w)"
      from blk [OF books_pinned_owned(1) [OF d(1) w' this]]
      show "blk_token (blocks ?q ! s) = blk_token (blocks q ! s) \<and> blk_data (blocks ?q ! s) = blk_data (blocks q ! s)"
        by (metis vq_block.select_convs(1,2) vq_block.surjective vq_block.update_convs(3))
    qed
  qed
  moreover have "w \<in> set (butlast (active q))" if "w \<in> set (butlast vs)" for w
    using that by (cases vs) (auto simp: act)
  moreover have "w \<in> set (tl (active q))" if "w \<in> set (tl vs)" for w
    using that set_tl_subset [of vs] by (auto simp: act)
  ultimately show ?thesis
    using books d(2-4,6,7) by (simp add: vq_ok_def fr act') (simp add: act)
qed

text \<open>A fresh visit has blocks enough for every phase of the block boundaries.\<close>

lemma blocks_suffice:
  assumes "vq_limits c" and "ucast samples \<le> (ucast (vq_rate_hz c) :: u64) * ucast (maximum_visit_ms c) div 1000"
  shows "unat samples + unat (block_samples c) \<le> visit_blocks c samples * unat (block_samples c)"
    and "unat (visit_bytes c samples) = unat samples * unat (bytes_per_sample c)"
proof -
  let ?bs = "unat (block_samples c)" and ?s = "unat samples"
  note pos = limits_pos [OF assms(1)]
  have l: "unat (vq_rate_hz c) \<le> 61440000" "unat (maximum_visit_ms c) \<le> 360" "?bs \<le> 1000000"
    "unat (bytes_per_sample c) \<le> 8"
    using assms(1) by (auto simp: vq_limits_def word_le_nat_alt)
  have m: "unat (vq_rate_hz c) * unat (maximum_visit_ms c) \<le> 61440000 * 360"
    using l by (intro mult_le_mono)
  then have "unat ((ucast (vq_rate_hz c) :: u64) * ucast (maximum_visit_ms c))
      = unat (vq_rate_hz c) * unat (maximum_visit_ms c)"
    by (simp add: unat_word_ariths)
  then have "?s \<le> unat (vq_rate_hz c) * unat (maximum_visit_ms c) div 1000"
    using assms(2) by (simp add: word_le_nat_alt unat_div)
  also have "\<dots> \<le> 61440000 * 360 div 1000" using m by (rule div_le_mono)
  finally have s: "?s \<le> 22118400" by simp
  have "unat (samples + block_samples c) = ?s + ?bs" using s l(3) by (simp add: unat_word_ariths)
  then have n: "unat (samples + block_samples c - 1) = ?s + ?bs - 1"
    using pos(1) by (subst unat_sub) (simp_all add: word_le_nat_alt)
  let ?d = "(?s + ?bs - 1) div ?bs"
  have "?d \<le> ?s + ?bs" by (rule order_trans [OF div_le_dividend]) simp
  then have b: "visit_blocks c samples = ?d + 1"
    using s l(3) by (simp add: visit_blocks_def unat_div n unat_word_ariths)
  have "?s + ?bs - 1 = ?d * ?bs + (?s + ?bs - 1) mod ?bs" by simp
  moreover have "(?s + ?bs - 1) mod ?bs < ?bs" using pos(1) by simp
  ultimately have "?s \<le> ?d * ?bs" using pos(1) by linarith
  then show "?s + ?bs \<le> visit_blocks c samples * ?bs" by (simp add: b)
  have "?s * unat (bytes_per_sample c) \<le> 22118400 * 8" using s l(4) by (intro mult_le_mono)
  then show "unat (visit_bytes c samples) = ?s * unat (bytes_per_sample c)"
    by (simp add: visit_bytes_def unat_word_ariths)
qed

lemma reserve_vq_ok:
  assumes q: "vq_ok q fed"
  shows "vq_ok (snd (vq_reserve q vid samples now)) fed"
proof (rule reserve_cases [OF vq_okD(1) [OF q], of vid samples now])
  fix r assume "vq_reserve q vid samples now = (r, q)"
  then show ?thesis using q by simp
next
  fix v :: vq_visit
  let ?q = "snd (vq_reserve q vid samples now)" and ?c = "vq_cfg q"
  assume v: "v = fresh_visit vid samples now (visit_blocks ?c samples) (visit_bytes ?c samples)"
    and s: "samples \<noteq> 0" "ucast samples \<le> (ucast (vq_rate_hz ?c) :: u64) * ucast (maximum_visit_ms ?c) div 1000"
    and room: "visit_blocks ?c samples + leased_blocks (stats q) + reserved_blocks (stats q)
         \<le> block_count ?c - headroom_blocks ?c"
    and now: "have_source q \<longrightarrow> last_source_end q \<le> now"
    and lastb: "visit_total (stats q) \<noteq> 0 \<longrightarrow> bound (vq_at q (visit_total (stats q) - 1))"
    and books: "vq_books ?q" and act: "active ?q = active q @ [v]"
    and fr: "blocks ?q = blocks q" "vq_cfg ?q = ?c" "last_source_end ?q = last_source_end q"
      "have_source ?q = have_source q"
  note d = vq_okD [OF q] and e = blocks_suffice [OF d(2) s(2)]
  have "0 < unat (visit_bytes ?c samples)"
    using s(1) limits_pos [OF d(2)] by (simp add: e(2) unat_gt_0)
  then have "visit_bytes ?c samples \<noteq> 0" by auto
  moreover have "visit_blocks ?c samples \<le> 64" using room d(2) unfolding vq_limits_def by linarith
  moreover have "last_source_end q \<le> now" using now d(3) by auto
  ultimately have "visit_ok ?c (origin fed) (last_source_end q) v \<and> slices_leased (blocks q) v"
    using e(1) s(1) by (simp add: v fresh_visit_def zero_vq_visit_def visit_ok_def Let_def capturing_def
        slices_leased_def word_gt_0)
  moreover have "bound w" if "w \<in> set (active q)" for w by (rule all_bound [OF q lastb that])
  moreover have "\<not> sending w" if "w \<in> set (tl (active q @ [v]))" for w
    using that d(7) by (cases "active q") (auto simp: v fresh_visit_def zero_vq_visit_def)
  ultimately show ?thesis using books d(2-5) by (auto simp: vq_ok_def act fr)
qed

lemma reap_block_vq_ok:
  assumes q: "vq_ok q fed" and i: "i < 64"
  shows "vq_ok (snd (snd (vq_reap_block release i (err, ctx, q)))) fed"
proof (rule reap_block_cases [OF vq_okD(1) [OF q] i, of release err ctx])
  fix e c assume "vq_reap_block release i (err, ctx, q) = (e, c, q)"
  then show ?thesis using q by simp
next
  fix p
  assume run: "vq_reap_block release i (err, ctx, q)
        = (err, snd (release ctx (blk_token (blocks q ! i))), p)"
    and r: "refs (blocks q ! i) = 0" and books: "vq_books p"
    and p: "p = q\<lparr>blocks := (blocks q)[i := zero_block],
             stats := (stats q)\<lparr>leased_blocks := leased_blocks (stats q) - 1\<rparr>\<rparr>"
  note d = vq_okD [OF q]
  have "slices_leased (blocks p) v" if v: "v \<in> set (active q)" for v
  proof (rule slices_leased_cong [OF d(5) [OF v]])
    fix s assume "s \<in> set (v_block v)"
    then have "s \<noteq> i" using books_pinned_owned(3) [OF d(1) v] r by fastforce
    then show "blk_token (blocks p ! s) = blk_token (blocks q ! s) \<and> blk_data (blocks p ! s) = blk_data (blocks q ! s)"
      by (simp add: p)
  qed
  moreover have "active p = active q" "vq_cfg p = vq_cfg q" "last_source_end p = last_source_end q"
    "have_source p = have_source q" by (simp_all add: p)
  ultimately have "vq_ok p fed" using books d(2-4,6,7) by (simp add: vq_ok_def)
  then show ?thesis by (simp only: run snd_conv)
qed

lemma fold_reap:
  assumes "\<And>i e c r. P (e, c, r) \<Longrightarrow> i < 64 \<Longrightarrow> P (vq_reap_block release i (e, c, r))"
    and "set is \<subseteq> {..<64}" and "P s"
  shows "P (fold (vq_reap_block release) is s)"
  using assms(2,3)
proof (induction "is" arbitrary: s)
  case (Cons i "is")
  obtain e c r where s: "s = (e, c, r)" by (cases s) auto
  show ?case using Cons.IH assms(1) [of e c r i] Cons.prems by (simp add: s)
qed simp

lemma reap_vq_ok:
  assumes q: "vq_ok q fed"
  shows "vq_ok (snd (snd (vq_reap release ctx q))) fed"
  unfolding vq_reap_def
proof (rule fold_reap [where P = "\<lambda>s. vq_ok (snd (snd s)) fed"])
  show "set [0..<block_count (vq_cfg q)] \<subseteq> {..<64}"
    using vq_booksD(1) [OF vq_okD(1) [OF q]] by (auto simp: vq_shape_def)
qed (use q reap_block_vq_ok in auto)

subsection \<open>Sequences of calls\<close>

datatype vq_op =
    Reserve u64 u32 u64
  | Bind u64 u64
  | Feed u64 u64 u64 u32
  | Close_Window u64 u64
  | Take_View
  | Complete_Send u64
  | Expire u64
  | Cancel
  | Reap

text \<open>The state of a run: the context of the release callback, the queue, and the blocks accepted
  so far.\<close>

fun vq_call :: "('c \<Rightarrow> u64 \<Rightarrow> int \<times> 'c) \<Rightarrow> vq_op \<Rightarrow> 'c \<times> visit_queue \<times> (u64 \<times> u64) list
    \<Rightarrow> 'c \<times> visit_queue \<times> (u64 \<times> u64) list" where
  "vq_call release (Reserve vid samples now) (ctx, q, fed) = (ctx, snd (vq_reserve q vid samples now), fed)"
| "vq_call release (Bind vid start) (ctx, q, fed) = (ctx, snd (vq_bind q vid start), fed)"
| "vq_call release (Feed token data first samples) (ctx, q, fed) =
     (let (ret, q) = vq_feed q token data first samples
      in (ctx, q, if ret = 0 then (token, first) # fed else fed))"
| "vq_call release (Close_Window vid invalid) (ctx, q, fed) = (ctx, snd (vq_close_window q vid invalid), fed)"
| "vq_call release Take_View (ctx, q, fed) = (ctx, snd (vq_take q), fed)"
| "vq_call release (Complete_Send vid) (ctx, q, fed) = (ctx, snd (vq_complete_send q vid), fed)"
| "vq_call release (Expire now) (ctx, q, fed) = (ctx, snd (vq_expire q now), fed)"
| "vq_call release Cancel (ctx, q, fed) = (ctx, snd (vq_cancel q), fed)"
| "vq_call release Reap (ctx, q, fed) = (let (ret, ctx, q) = vq_reap release ctx q in (ctx, q, fed))"

definition vq_run :: "('c \<Rightarrow> u64 \<Rightarrow> int \<times> 'c) \<Rightarrow> vq_op list \<Rightarrow> 'c \<times> visit_queue
    \<Rightarrow> 'c \<times> visit_queue \<times> (u64 \<times> u64) list" where
  "vq_run release ops = (\<lambda>(ctx, q). fold (vq_call release) ops (ctx, q, []))"

lemma call_vq_ok:
  assumes "vq_ok q fed" and "vq_call release op (ctx, q, fed) = (ctx', q', fed')"
  shows "vq_ok q' fed'"
proof (cases op)
  case (Feed token data first samples)
  then show ?thesis
    using assms feed_vq_ok [OF assms(1)] by (cases "vq_feed q token data first samples") auto
next
  case Reap
  then show ?thesis
    using assms(2) reap_vq_ok [OF assms(1), of release ctx] by (auto simp: case_prod_beta)
qed (use assms reserve_vq_ok bind_vq_ok close_vq_ok take_vq_ok complete_vq_ok expire_vq_ok
    cancel_vq_ok in auto)

lemma calls_vq_ok:
  assumes "vq_ok q fed" and "fold (vq_call release) ops (ctx, q, fed) = (ctx', q', fed')"
  shows "vq_ok q' fed'"
  using assms
proof (induction ops arbitrary: ctx q fed)
  case (Cons op ops)
  obtain c p f where s: "vq_call release op (ctx, q, fed) = (c, p, f)" by (metis prod_cases3)
  show ?case
    using Cons.IH [OF call_vq_ok [OF Cons.prems(1) s]] Cons.prems(2) by (simp add: s)
qed simp

lemma run_vq_ok:
  assumes "vq_create mem c = Inr q0" and "vq_run release ops (ctx, q0) = (ctx', q, fed)"
  shows "vq_ok q fed"
  using calls_vq_ok [OF create_vq_ok [OF assms(1)]] assms(2) by (auto simp: vq_run_def)

end
