(* ===== verification/Visit_Runs.thy ===== *)
theory Visit_Runs
  imports Visit_Capture
begin

text \<open>
  The properties of the visit queue over arbitrary sequences of calls: a complete view has exactly
  the requested samples, a feed invalidates a visit exactly when samples are missing, every lease
  is returned once and not before its views are sent, refusals change nothing, and a cancelled
  queue can be drained and destroyed.
\<close>

subsection \<open>Requests\<close>

definition ident :: "vq_visit \<Rightarrow> u64 \<times> u32 \<times> u64 \<times> u64 \<times> bool" where
  "ident v = (v_id v, v_samples v, reserved_at v, v_start v, bound v)"

text \<open>Every visit in the queue was reserved, and bound if it is, by a call of the run.\<close>

definition requested :: "vq_op set \<Rightarrow> vq_visit list \<Rightarrow> bool" where
  "requested H vs \<longleftrightarrow> (\<forall>v \<in> set vs. Reserve (v_id v) (v_samples v) (reserved_at v) \<in> H \<and>
     (bound v \<longrightarrow> Bind (v_id v) (v_start v) \<in> H))"

lemma requested_mono: "requested H vs \<Longrightarrow> H \<subseteq> H' \<Longrightarrow> requested H' vs"
  by (auto simp: requested_def)

lemma requested_cong: "map ident ws = map ident vs \<Longrightarrow> requested H vs \<Longrightarrow> requested H ws"
proof -
  assume a: "map ident ws = map ident vs" and r: "requested H vs"
  show "requested H ws"
    unfolding requested_def
  proof
    fix w assume "w \<in> set ws"
    then have "ident w \<in> set (map ident vs)" unfolding a [symmetric] by simp
    then obtain v where "v \<in> set vs" "ident w = ident v" by auto
    then show "Reserve (v_id w) (v_samples w) (reserved_at w) \<in> H \<and>
        (bound w \<longrightarrow> Bind (v_id w) (v_start w) \<in> H)"
      using r by (auto simp: requested_def ident_def)
  qed
qed

lemma ident_simps [simp]:
  "ident (discarded r v) = ident v" "ident (terminated keep r v) = ident v"
  "ident (window_closed keep invalid v) = ident v" "ident (expired_visit keep oldest now v) = ident v"
  "ident (cancelled_visit keep v) = ident v" "ident (v\<lparr>sending := b\<rparr>) = ident v"
  "ident (fed_visit bps keep token data first stop slot v) = ident v"
  by (simp_all add: ident_def discarded_def terminated_def window_closed_def expired_visit_def
      cancelled_visit_def fed_visit_def Let_def)

lemma map_ident_update: "i < length vs \<Longrightarrow> ident v = ident (vs ! i) \<Longrightarrow> map ident (vs[i := v]) = map ident vs"
  by (simp add: list_eq_iff_nth_eq nth_update_if)

lemma map_ident_map: "(\<And>v. ident (g v) = ident v) \<Longrightarrow> map ident (map g vs) = map ident vs"
  by simp

lemma reap_active:
  fixes release :: "'c \<Rightarrow> u64 \<Rightarrow> int \<times> 'c"
  assumes q: "vq_ok q fed"
  shows "active (snd (snd (vq_reap release ctx q))) = active q"
proof -
  have "vq_ok (snd (snd (vq_reap release ctx q))) fed \<and> active (snd (snd (vq_reap release ctx q))) = active q"
    unfolding vq_reap_def
  proof (rule fold_reap [where P = "\<lambda>s. vq_ok (snd (snd s)) fed \<and> active (snd (snd s)) = active q"])
    fix i and e :: int and c :: 'c and r
    assume r: "vq_ok (snd (snd (e, c, r))) fed \<and> active (snd (snd (e, c, r))) = active q" and i: "(i::nat) < 64"
    then have ok: "vq_ok r fed" by simp
    have "active (snd (snd (vq_reap_block release i (e, c, r)))) = active r"
      by (rule reap_block_cases [OF vq_okD(1) [OF ok] i, of release e c]) (simp_all del: vq_reap_block.simps)
    then show "vq_ok (snd (snd (vq_reap_block release i (e, c, r)))) fed \<and>
        active (snd (snd (vq_reap_block release i (e, c, r)))) = active q"
      using reap_block_vq_ok [OF ok i] r by (simp del: vq_reap_block.simps)
  qed (use q vq_booksD(1) [OF vq_okD(1) [OF q]] in \<open>auto simp: vq_shape_def\<close>)
  then show ?thesis by simp
qed

lemma feed_active:
  assumes q: "vq_ok q fed"
  shows "map ident (active (snd (vq_feed q token data first samples))) = map ident (active q)"
proof (cases rule: feed_cases [of q token data first samples])
  case (fed slot)
  note st = store_books [OF vq_okD(1) [OF q] fed(2,3,4), where data = data and first = first and samples = samples]
  have n: "visit_total (stats q) = visit_total (stats (vq_store q slot token data first samples))"
    by (simp add: vq_store_def)
  show ?thesis
    using feed_loop(3) [OF st(1,3) n refl] by (simp add: fed(5) st(2))
qed simp

lemma call_requested:
  assumes q: "vq_ok q fed" and r: "requested H (active q)"
    and run: "vq_call release op (ctx, q, fed) = (ctx', q', fed')"
  shows "requested (insert op H) (active q')"
proof -
  have keep: "requested (insert op H) (active q')" if "map ident (active q') = map ident (active q)"
    using requested_cong [OF that r] requested_mono by blast
  note sh = vq_booksD(1) [OF vq_okD(1) [OF q]]
  show ?thesis
  proof (cases op)
    case (Reserve vid samples now)
    show ?thesis
      by (rule reserve_cases [OF vq_okD(1) [OF q], of vid samples now])
        (use run r in \<open>auto simp: Reserve requested_def fresh_visit_def zero_vq_visit_def\<close>)
  next
    case (Bind vid start)
    let ?n = "visit_total (stats q) - 1"
    let ?v = "vq_at q ?n"
    let ?w = "?v\<lparr>v_start := start, v_next := start, v_end := start + ucast (v_samples ?v), bound := True\<rparr>"
    show ?thesis
    proof (cases "snd (vq_bind q vid start) = q")
      case True
      then show ?thesis using keep run by (simp add: Bind)
    next
      case False
      then have i: "?n < visit_total (stats q)" and vid: "v_id ?v = vid"
        and run': "snd (vq_bind q vid start) = (vq_set q ?n ?w)\<lparr>last_valid_end := start + ucast (v_samples ?v)\<rparr>"
        by (auto simp: vq_bind_def Let_def split: if_splits)
      have act: "active q' = (active q)[?n := ?w]"
      proof -
        have "q' = snd (vq_bind q vid start)" using run by (simp add: Bind)
        then show ?thesis unfolding run' using active_vq_set [OF sh i] by simp
      qed
      have "?v \<in> set (active q)" using i vq_at_active [OF sh i] by simp
      then show ?thesis
        using r vid set_update_subset_insert [of "active q" ?n ?w] unfolding act requested_def Bind by fastforce
    qed
  next
    case (Complete_Send vid)
    show ?thesis
      by (rule complete_send_cases [OF vq_okD(1) [OF q], of vid])
        (use run r in \<open>auto simp: Complete_Send requested_def\<close>)
  next
    case (Feed token data first samples)
    then show ?thesis
      using keep feed_active [OF q, of token data first samples] run by (auto simp: case_prod_beta)
  next
    case (Close_Window vid invalid)
    show ?thesis
      by (rule close_cases [OF vq_okD(1) [OF q], of vid invalid])
        (use run keep in \<open>auto simp: Close_Window map_ident_update\<close>)
  next
    case Take_View
    show ?thesis
      by (rule take_cases [OF q]) (use run keep in \<open>auto simp: Take_View\<close>)
  next
    case (Expire now)
    then show ?thesis
      using keep run expire_loop(3) [OF vq_okD(1) [OF q] refl refl, of now 0] by (auto simp: vq_expire_def)
  next
    case Cancel
    have "vq_books (q\<lparr>cancelled := True\<rparr>)" using vq_okD(1) [OF q] by simp
    from cancel_loop(3) [OF this refl refl, of 0] show ?thesis
      using keep run Cancel by (auto simp: vq_cancel_def)
  next
    case Reap
    then show ?thesis using keep run reap_active [OF q, of release ctx] by (auto simp: case_prod_beta)
  qed
qed

lemma run_requested:
  assumes "vq_create mem c = Inr q0" and "vq_run release ops (ctx, q0) = (ctx', q, fed)"
  shows "requested (set ops) (active q)"
proof -
  have "requested (set ops \<union> H) (active q)"
    if "vq_ok p f" "requested H (active p)" "fold (vq_call release) ops (ctx, p, f) = (ctx', q, fed)" for p f H
    using that
  proof (induction ops arbitrary: ctx p f H)
    case (Cons op ops)
    obtain c p' f' where s: "vq_call release op (ctx, p, f) = (c, p', f')" by (metis prod_cases3)
    from Cons.IH [OF call_vq_ok [OF Cons.prems(1) s] call_requested [OF Cons.prems(1,2) s]] Cons.prems(3)
    show ?case by (simp add: s)
  qed simp
  from this [of q0 "[]" "{}"] show ?thesis
    using create_vq_ok [OF assms(1)] create_books(2) [OF assms(1)] assms(2)
    by (simp add: vq_run_def requested_def)
qed

text \<open>The configuration never changes.\<close>

lemma reap_cfg: "vq_cfg (snd (snd (vq_reap release ctx q))) = vq_cfg q"
proof -
  have "vq_cfg (snd (snd (fold (vq_reap_block release) is s))) = vq_cfg (snd (snd s))" for "is" s
  proof (induction "is" arbitrary: s)
    case (Cons i "is")
    obtain e c r where s: "s = (e, c, r)" by (cases s) auto
    have "vq_cfg (snd (snd (vq_reap_block release i s))) = vq_cfg (snd (snd s))"
      by (auto simp: s Let_def split: prod.splits)
    then show ?case using Cons.IH by simp
  qed simp
  then show ?thesis by (simp add: vq_reap_def)
qed

lemma call_cfg:
  assumes q: "vq_ok q fed" and run: "vq_call release op (ctx, q, fed) = (ctx', q', fed')"
  shows "vq_cfg q' = vq_cfg q"
proof (cases op)
  case (Reserve vid samples now)
  show ?thesis
    by (rule reserve_cases [OF vq_okD(1) [OF q], of vid samples now]) (use run in \<open>auto simp: Reserve\<close>)
next
  case (Feed token data first samples)
  show ?thesis
  proof (cases rule: feed_cases [of q token data first samples])
    case (fed slot)
    note st = store_books [OF vq_okD(1) [OF q] fed(2,3,4), where data = data and first = first and samples = samples]
    have n: "visit_total (stats q) = visit_total (stats (vq_store q slot token data first samples))"
      by (simp add: vq_store_def)
    show ?thesis
      using feed_loop(2) [OF st(1,3) n refl] run
      by (simp add: Feed fed(5) same_leases_def) (auto simp: vq_store_def)
  qed (use run in \<open>simp add: Feed\<close>)
next
  case (Close_Window vid invalid)
  show ?thesis
    by (rule close_cases [OF vq_okD(1) [OF q], of vid invalid])
      (use run in \<open>auto simp: Close_Window same_leases_def\<close>)
next
  case (Complete_Send vid)
  show ?thesis
    by (rule complete_send_cases [OF vq_okD(1) [OF q], of vid]) (use run in \<open>auto simp: Complete_Send\<close>)
next
  case (Expire now)
  then show ?thesis
    using run expire_loop(2) [OF vq_okD(1) [OF q] refl refl, of now 0]
    by (auto simp: vq_expire_def same_leases_def)
next
  case Cancel
  have "vq_books (q\<lparr>cancelled := True\<rparr>)" using vq_okD(1) [OF q] by simp
  from cancel_loop(2) [OF this refl refl, of 0] show ?thesis
    using run Cancel by (auto simp: vq_cancel_def same_leases_def)
next
  case Reap
  then show ?thesis using run reap_cfg [of release ctx q] by (auto simp: case_prod_beta)
qed (use run in \<open>auto simp: vq_bind_def vq_take_def Let_def split: if_splits\<close>)

lemma run_cfg:
  assumes "vq_create mem c = Inr q0" and "vq_run release ops (ctx, q0) = (ctx', q, fed)"
  shows "vq_cfg q = c"
proof -
  have "vq_cfg q = vq_cfg p"
    if "vq_ok p f" "fold (vq_call release) ops (ctx, p, f) = (ctx', q, fed)" for p f
    using that
  proof (induction ops arbitrary: ctx p f)
    case (Cons op ops)
    obtain c p' f' where s: "vq_call release op (ctx, p, f) = (c, p', f')" by (metis prod_cases3)
    from Cons.IH [OF call_vq_ok [OF Cons.prems(1) s]] call_cfg [OF Cons.prems(1) s] Cons.prems(2)
    show ?case by (simp add: s)
  qed simp
  from this [of q0 "[]"] show ?thesis
    using create_vq_ok [OF assms(1)] create_books(3) [OF assms(1)] assms(2) by (simp add: vq_run_def)
qed

subsection \<open>Views\<close>

text \<open>C8: Whatever calls were made since the queue was created: the slices of a view that is taken
  lie end to end in the stream of fed samples, from the first to the last sample of the view, each
  within its block, and each slice's block is leased with the token and the address it was fed
  with; only a visit that ended early may have no slices. A complete view has all the samples of
  the visit that was reserved and bound under its number.\<close>

theorem visit_view_exact:
  assumes "vq_create mem c = Inr q0" and "vq_run release ops (ctx, q0) = (ctx', q, fed)"
    and "vq_take q = (Inr view, q')"
  shows "(view_slices view = [] \<and> view_result view \<noteq> VISIT_COMPLETE \<or>
      tiles (origin fed) (unat (bytes_per_sample c)) (unat (block_samples c) * unat (bytes_per_sample c))
        (unat (view_start view) * unat (bytes_per_sample c)) (view_slices view)
        (unat (view_end view) * unat (bytes_per_sample c))) \<and>
    (\<forall>sl \<in> set (view_slices view). \<exists>s \<in> owned_slots (blocks q').
      blk_token (blocks q' ! s) = slice_token sl \<and> blk_data (blocks q' ! s) = slice_data sl) \<and>
    (view_result view = VISIT_COMPLETE \<longrightarrow> (\<exists>samples now. 0 < samples \<and>
      Reserve (view_id view) samples now \<in> set ops \<and> Bind (view_id view) (view_start view) \<in> set ops \<and>
      unat (view_end view) = unat (view_start view) + unat samples))"
proof -
  have q: "vq_ok q fed" by (rule run_vq_ok [OF assms(1,2)])
  have cfg: "vq_cfg q = c" by (rule run_cfg [OF assms(1,2)])
  from q show ?thesis
  proof (cases rule: take_cases)
    case (refused e)
    then show ?thesis using assms(3) by simp
  next
    case (taken v vs)
    have v: "v \<in> set (active q)" by (simp add: taken(1))
    have view: "view = \<lparr>view_id = v_id v, view_start = v_start v, view_end = v_end v,
                 view_result = v_result v, view_slices = v_slices v\<rparr>"
      and q': "blocks q' = blocks q" using taken(4) assms(3) by auto
    note ok = vq_okD(4) [OF q v, unfolded cfg visit_ok_def Let_def]
    have "\<exists>s \<in> owned_slots (blocks q). blk_token (blocks q ! s) = slice_token sl \<and>
        blk_data (blocks q ! s) = slice_data sl" if "sl \<in> set (v_slices v)" for sl
    proof (rule slices_leasedD [OF vq_okD(5) [OF q v] that])
      fix s assume s: "s \<in> set (v_block v)" "slice_token sl = blk_token (blocks q ! s)"
        "slice_data sl = blk_data (blocks q ! s)"
      then show ?thesis
        using books_pinned_owned(1,2) [OF vq_okD(1) [OF q] v s(1)] vq_booksD(2) [OF vq_okD(1) [OF q]]
        by (intro bexI [of _ s]) (simp_all add: owned_slots_def)
    qed
    moreover have "Reserve (v_id v) (v_samples v) (reserved_at v) \<in> set ops \<and>
        (bound v \<longrightarrow> Bind (v_id v) (v_start v) \<in> set ops)"
      using run_requested [OF assms(1,2)] v by (simp add: requested_def)
    ultimately show ?thesis
      using ok taken(2) by (auto simp: view q' split: if_splits)
  qed
qed

subsection \<open>Gaps\<close>

text \<open>C10: A block that the queue accepts ends a visit for a gap exactly when samples that the visit
  still needs are missing between what was fed before and this block: never because its slices or
  reserved blocks would not suffice. Otherwise the visit goes on, or is complete if its window was
  closed and it has its last sample.\<close>

theorem visit_gap_iff_missing:
  assumes "vq_create mem c = Inr q0" and "vq_run release ops (ctx, q0) = (ctx', q, fed)"
    and "vq_feed q token data first samples = (0, q')"
    and "i < visit_total (stats q)" and "v_result (vq_at q i) = VISIT_ADMITTED"
  shows "visit_total (stats q') = visit_total (stats q) \<and>
    (if v_next (vq_at q i) < first \<and> v_next (vq_at q i) < v_end (vq_at q i)
     then v_result (vq_at q' i) = VISIT_INVALID_GAP
     else v_result (vq_at q' i) =
      (if closed (vq_at q i) \<and> v_next (vq_at q i) \<noteq> v_end (vq_at q i) \<and> v_next (vq_at q' i) = v_end (vq_at q' i)
       then VISIT_COMPLETE else VISIT_ADMITTED))"
proof -
  have q: "vq_ok q fed" by (rule run_vq_ok [OF assms(1,2)])
  note d = vq_okD [OF q]
  show ?thesis
  proof (cases rule: feed_cases [of q token data first samples])
    case (refused e)
    then show ?thesis using assms(3) by simp
  next
    case (fed slot)
    note st = store_books [OF d(1) fed(2,3,4), where data = data and first = first and samples = samples]
    let ?p = "vq_store q slot token data first samples"
    have n: "visit_total (stats q) = visit_total (stats ?p)" "vq_cfg ?p = vq_cfg q" by (simp_all add: vq_store_def)
    have q': "q' = fold (vq_feed_visit token data first (first + ucast samples) slot) [0..<visit_total (stats q)] ?p"
      using fed(5) assms(3) by simp
    note loop = feed_loop [OF st(1,3) n(1) q']
    have n': "visit_total (stats q') = visit_total (stats q)" using loop(2) n by (simp add: same_leases_def)
    let ?v = "active q ! i"
    have at: "vq_at q i = ?v" by (rule vq_at_active [OF vq_booksD(1) [OF d(1)] assms(4)])
    have v: "?v \<in> set (active q)" using assms(4) by simp
    let ?g = "fed_visit (bytes_per_sample (vq_cfg q)) (preserve_partial (vq_cfg q)) token data first
      (first + ucast samples) slot ?v"
    have at': "vq_at q' i = ?g"
      using vq_at_active [OF vq_booksD(1) [OF loop(1)]] assms(4) n' by (simp add: loop(3) st(2) n)
    have lse: "last_source_end q \<le> first" using fed(1) d(3) by (auto simp: feed_accepts_def)
    let ?gap = "v_next ?v < first \<and> v_next ?v < v_end ?v"
    let ?a = "max (v_start ?v) first" and ?b = "min (v_end ?v) (first + ucast samples)"
    note adm = assms(5) [unfolded at]
    have bnd: "bound ?v" using fed(1) by (intro all_bound [OF q _ v]) (simp add: feed_accepts_def)
    consider (gap) ?gap | (apart) "\<not> ?gap" "?b \<le> ?a" | (meets) "\<not> ?gap" "?a < ?b" using not_le by blast
    then show ?thesis
    proof cases
      case gap
      then have "?g = terminated (preserve_partial (vq_cfg q)) VISIT_INVALID_GAP ?v"
        using adm by (simp add: fed_visit_def Let_def)
      then show ?thesis using gap n' by (simp add: at at' terminated_def)
    next
      case apart
      then have "?g = ?v" unfolding fed_visit_def Let_def by meson
      then show ?thesis using apart(1) n' adm by (simp only: at at' if_False) auto
    next
      case meets
      note cont = capturing_continues [OF d(4) [OF v] d(2) adm bnd lse meets]
      have e: "(v_result ?v \<noteq> VISIT_ADMITTED) = False" "?gap = False" "(?b \<le> v_next ?v) = False"
        "(v_next ?v \<noteq> v_next ?v \<or> remaining_blocks ?v = 0 \<or> 64 \<le> length (v_slices ?v)) = False"
        using adm meets cont by (simp_all add: not_le)
      have "v_result ?g = (if ?b = v_end ?v \<and> closed ?v then VISIT_COMPLETE else v_result ?v)"
        "v_next ?g = ?b" "v_end ?g = v_end ?v"
        unfolding fed_visit_def Let_def cont(1) e if_False by simp_all
      then show ?thesis unfolding at at' e(2) if_False using n' adm cont(4) by auto
    qed
  qed
qed

subsection \<open>Leases\<close>

text \<open>The release callback, with a log of the tokens it returned.\<close>

definition logged :: "('c \<Rightarrow> u64 \<Rightarrow> int \<times> 'c) \<Rightarrow> 'c \<times> u64 list \<Rightarrow> u64 \<Rightarrow> int \<times> 'c \<times> u64 list" where
  "logged release = (\<lambda>(ctx, log) token. let (ret, ctx) = release ctx token
     in (ret, ctx, if ret = 0 then log @ [token] else log))"

definition leased_tokens :: "visit_queue \<Rightarrow> u64 list" where
  "leased_tokens q = map blk_token (filter owned (blocks q))"

lemma leased_tokens_slots: "leased_tokens q = map (\<lambda>b. blk_token b) (filter owned (blocks q))"
  by (simp add: leased_tokens_def)

lemma mset_leased: "mset (leased_tokens q) = image_mset blk_token (filter_mset owned (mset (blocks q)))"
  by (simp add: leased_tokens_def)

lemma mset_leased_update:
  assumes "s < length (blocks q)" and "blocks p = (blocks q)[s := b]"
  shows "owned (blocks q ! s) \<Longrightarrow> \<not> owned b \<Longrightarrow>
      mset (leased_tokens q) = add_mset (blk_token (blocks q ! s)) (mset (leased_tokens p))"
    and "\<not> owned (blocks q ! s) \<Longrightarrow> owned b \<Longrightarrow>
      mset (leased_tokens p) = add_mset (blk_token b) (mset (leased_tokens q))"
proof -
  have m: "blocks q ! s \<in># mset (blocks q)" using assms(1) by simp
  then obtain M where M: "mset (blocks q) = add_mset (blocks q ! s) M" by (metis insert_DiffM)
  have p: "mset (blocks p) = add_mset b M" using assms by (simp add: mset_update M)
  show "owned (blocks q ! s) \<Longrightarrow> \<not> owned b \<Longrightarrow>
      mset (leased_tokens q) = add_mset (blk_token (blocks q ! s)) (mset (leased_tokens p))"
    "\<not> owned (blocks q ! s) \<Longrightarrow> owned b \<Longrightarrow>
      mset (leased_tokens p) = add_mset (blk_token b) (mset (leased_tokens q))"
    by (simp_all add: mset_leased p M)
qed

lemma leased_tokens_same:
  assumes "same_leases q q'"
  shows "leased_tokens q' = leased_tokens q"
proof -
  have "leased_tokens r = map blk_token (filter owned (map (\<lambda>b. b\<lparr>refs := 0\<rparr>) (blocks r)))" for r
    by (simp add: leased_tokens_def filter_map comp_def)
  then show ?thesis using assms by (simp add: same_leases_def)
qed

lemma feed_leases:
  assumes q: "vq_ok q fed"
  shows "vq_feed q token data first samples = (0, q') \<Longrightarrow>
      mset (leased_tokens q') = add_mset token (mset (leased_tokens q))"
    and "vq_feed q token data first samples = (e, q') \<Longrightarrow> e \<noteq> 0 \<Longrightarrow> q' = q"
proof -
  have "vq_feed q token data first samples = (e, q') \<Longrightarrow>
      if e = 0 then mset (leased_tokens q') = add_mset token (mset (leased_tokens q)) else q' = q" for e q'
  proof (cases rule: feed_cases [of q token data first samples])
    case (fed slot)
    assume run: "vq_feed q token data first samples = (e, q')"
    note st = store_books [OF vq_okD(1) [OF q] fed(2,3,4), where data = data and first = first and samples = samples]
    let ?p = "vq_store q slot token data first samples"
    have n: "visit_total (stats q) = visit_total (stats ?p)" by (simp add: vq_store_def)
    have "leased_tokens q' = leased_tokens ?p"
      using leased_tokens_same [OF feed_loop(2) [OF st(1,3) n refl]] run by (auto simp: fed(5))
    moreover have "slot < length (blocks q)"
      using fed(2) vq_booksD(1) [OF vq_okD(1) [OF q]] by (simp add: vq_shape_def)
    then have "mset (leased_tokens ?p) = add_mset token (mset (leased_tokens q))"
      using mset_leased_update(2) [of slot q ?p] fed(3) by (simp add: vq_store_def)
    ultimately show ?thesis using run fed(5) by simp
  qed auto
  then show "vq_feed q token data first samples = (0, q') \<Longrightarrow>
      mset (leased_tokens q') = add_mset token (mset (leased_tokens q))"
    "vq_feed q token data first samples = (e, q') \<Longrightarrow> e \<noteq> 0 \<Longrightarrow> q' = q" by fastforce+
qed

lemma reap_leases:
  fixes release :: "'c \<Rightarrow> u64 \<Rightarrow> int \<times> 'c"
  assumes q: "vq_ok q fed" and run: "vq_reap (logged release) (ctx, log) q = (ret, (ctx', log'), q')"
  shows "\<exists>new. log' = log @ new \<and> mset (leased_tokens q) = mset new + mset (leased_tokens q') \<and>
    (\<forall>t \<in> set new. \<forall>v \<in> set (active q). \<forall>sl \<in> set (v_slices v). slice_token sl \<noteq> t)"
proof -
  let ?P = "\<lambda>s :: int \<times> ('c \<times> u64 list) \<times> visit_queue. vq_ok (snd (snd s)) fed \<and> active (snd (snd s)) = active q \<and>
    (\<exists>new. snd (fst (snd s)) = log @ new \<and> mset (leased_tokens q) = mset new + mset (leased_tokens (snd (snd s))) \<and>
      (\<forall>t \<in> set new. \<forall>v \<in> set (active q). \<forall>sl \<in> set (v_slices v). slice_token sl \<noteq> t))"
  have "?P (vq_reap (logged release) (ctx, log) q)"
    unfolding vq_reap_def
  proof (rule fold_reap [where P = ?P])
    fix i and e :: int and c and r
    assume r: "?P (e, c, r)" and i: "(i::nat) < 64"
    then have ok: "vq_ok r fed" and act: "active r = active q" by simp_all
    note books = vq_okD(1) [OF ok]
    obtain x l where c: "c = (x, l)" by (cases c)
    from r obtain new where new: "l = log @ new" "mset (leased_tokens q) = mset new + mset (leased_tokens r)"
      "\<forall>t \<in> set new. \<forall>v \<in> set (active q). \<forall>sl \<in> set (v_slices v). slice_token sl \<noteq> t" by (auto simp: c)
    let ?s = "vq_reap_block (logged release) i (e, c, r)"
    let ?t = "blk_token (blocks r ! i)"
    have ok': "vq_ok (snd (snd ?s)) fed" by (rule reap_block_vq_ok [OF ok i])
    consider (kept) "snd (snd ?s) = r" "snd (fst (snd ?s)) = l"
      | (freed) "snd (fst (snd ?s)) = l @ [?t]" "owned (blocks r ! i)" "refs (blocks r ! i) = 0"
        "blocks (snd (snd ?s)) = (blocks r)[i := zero_block]" "active (snd (snd ?s)) = active r"
    proof (cases "owned (blocks r ! i) \<and> refs (blocks r ! i) = 0 \<and> fst (release x ?t) = 0")
      case True
      then show ?thesis by (intro freed) (auto simp: c Let_def logged_def split: prod.split)
    next
      case False
      then show ?thesis by (intro kept) (auto simp: c Let_def logged_def split: prod.split)
    qed
    then show "?P ?s"
    proof cases
      case kept
      then show ?thesis using r by (simp add: c del: vq_reap_block.simps)
    next
      case freed
      have "mset (leased_tokens r) = add_mset ?t (mset (leased_tokens (snd (snd ?s))))"
        using freed(2) i vq_booksD(2) [OF books]
        by (intro mset_leased_update(1) [OF _ freed(4)]) (simp_all add: zero_block_def)
      moreover have "slice_token sl \<noteq> ?t" if v: "v \<in> set (active r)" and sl: "sl \<in> set (v_slices v)" for v sl
      proof
        assume t: "slice_token sl = ?t"
        obtain s where s: "s \<in> set (v_block v)" "slice_token sl = blk_token (blocks r ! s)"
          using slices_leasedD [OF vq_okD(5) [OF ok v] sl] by blast
        note pin = books_pinned_owned [OF books v s(1)]
        have "s \<in> owned_slots (blocks r)" "i \<in> owned_slots (blocks r)"
          using pin(1,2) i freed(2) vq_booksD(2) [OF books] by (simp_all add: owned_slots_def)
        then have "s = i" using vq_booksD(7) [OF books] s(2) t by (simp add: tokens_distinct_def)
        then show False using pin(3) freed(3) by simp
      qed
      ultimately show ?thesis
        using new ok' by (intro conjI exI [of _ "new @ [?t]"])
          (auto simp: freed act simp del: vq_reap_block.simps)
    qed
  qed (use q vq_booksD(1) [OF vq_okD(1) [OF q]] in \<open>auto simp: vq_shape_def\<close>)
  then show ?thesis by (simp add: run)
qed

text \<open>The other operations keep the leases.\<close>

lemma blocks_leased_cong:
  assumes "length (blocks q') = length (blocks q)"
    and "\<And>s. s < length (blocks q) \<Longrightarrow> owned (blocks q' ! s) = owned (blocks q ! s) \<and>
      blk_token (blocks q' ! s) = blk_token (blocks q ! s)"
  shows "leased_tokens q' = leased_tokens q"
proof -
  have e: "leased_tokens r = map snd (filter fst (map (\<lambda>b. (owned b, blk_token b)) (blocks r)))" for r
    by (simp add: leased_tokens_def filter_map comp_def)
  have "map (\<lambda>b. (owned b, blk_token b)) (blocks q') = map (\<lambda>b. (owned b, blk_token b)) (blocks q)"
    using assms by (intro nth_equalityI) auto
  then show ?thesis by (simp only: e)
qed

definition touches_leases :: "vq_op \<Rightarrow> bool" where
  "touches_leases op \<longleftrightarrow> (case op of Feed _ _ _ _ \<Rightarrow> True | Reap \<Rightarrow> True | _ \<Rightarrow> False)"

lemma call_same_tokens:
  assumes q: "vq_ok q fed" and run: "vq_call release op (ctx, q, fed) = (ctx', q', fed')"
    and op: "\<not> touches_leases op"
  shows "leased_tokens q' = leased_tokens q" and "ctx' = ctx" and "fed' = fed"
proof -
  show "ctx' = ctx" "fed' = fed" using run op by (cases op; auto simp: touches_leases_def)+
  show "leased_tokens q' = leased_tokens q"
  proof (cases op)
    case (Reserve vid samples now)
    show ?thesis
      by (rule reserve_cases [OF vq_okD(1) [OF q], of vid samples now])
        (use run in \<open>auto simp: Reserve leased_tokens_def\<close>)
  next
    case (Close_Window vid invalid)
    show ?thesis
      by (rule close_cases [OF vq_okD(1) [OF q], of vid invalid])
        (use run in \<open>auto simp: Close_Window leased_tokens_same\<close>)
  next
    case (Complete_Send vid)
    show ?thesis
    proof (rule complete_send_cases [OF vq_okD(1) [OF q], of vid])
      assume blk: "\<And>s. s < 64 \<Longrightarrow> blocks (snd (vq_complete_send q vid)) ! s
         = (blocks q ! s)\<lparr>refs := refs (blocks (snd (vq_complete_send q vid)) ! s)\<rparr>"
        and books: "vq_books (snd (vq_complete_send q vid))"
      have q': "q' = snd (vq_complete_send q vid)" using run by (simp add: Complete_Send)
      show ?thesis
      proof (rule blocks_leased_cong)
        show "length (blocks q') = length (blocks q)"
          using vq_booksD(2) [OF books] vq_booksD(2) [OF vq_okD(1) [OF q]] by (simp add: q')
        fix s assume "s < length (blocks q)"
        then have "s < 64" using vq_booksD(2) [OF vq_okD(1) [OF q]] by simp
        from blk [OF this] show "owned (blocks q' ! s) = owned (blocks q ! s) \<and>
            blk_token (blocks q' ! s) = blk_token (blocks q ! s)"
          unfolding q' by (metis vq_block.select_convs(1,4) vq_block.surjective vq_block.update_convs(3))
      qed
    qed (use run in \<open>auto simp: Complete_Send\<close>)
  next
    case (Expire now)
    then show ?thesis
      using run leased_tokens_same [OF expire_loop(2) [OF vq_okD(1) [OF q] refl refl, of now 0]]
      by (auto simp: vq_expire_def)
  next
    case Cancel
    have "vq_books (q\<lparr>cancelled := True\<rparr>)" using vq_okD(1) [OF q] by simp
    from leased_tokens_same [OF cancel_loop(2) [OF this refl refl, of 0]] show ?thesis
      using run Cancel by (auto simp: vq_cancel_def leased_tokens_def)
  qed (use run op in \<open>auto simp: touches_leases_def leased_tokens_def vq_bind_def vq_take_def Let_def split: if_splits\<close>)
qed

lemma call_leases:
  assumes q: "vq_ok q fed" and "mset (map fst fed) = mset log + mset (leased_tokens q)"
    and run: "vq_call (logged release) op ((ctx, log), q, fed) = ((ctx', log'), q', fed')"
  shows "mset (map fst fed') = mset log' + mset (leased_tokens q')"
proof (cases "touches_leases op")
  case True
  then consider token data first samples where "op = Feed token data first samples" | "op = Reap"
    by (cases op) (auto simp: touches_leases_def)
  then show ?thesis
  proof cases
    case 1
    obtain e p where f: "vq_feed q token data first samples = (e, p)" by fastforce
    then show ?thesis
      using run assms(2) feed_leases [OF q, of token data first samples] by (cases "e = 0") (auto simp: 1)
  next
    case 2
    obtain e c p where "vq_reap (logged release) (ctx, log) q = (e, c, p)" by (metis prod_cases3)
    moreover obtain x l where "c = (x, l)" by (cases c)
    ultimately show ?thesis
      using run assms(2) reap_leases [OF q, of release ctx log e x l p] by (auto simp: 2)
  qed
next
  case False
  then show ?thesis using call_same_tokens [OF q run] assms(2) by auto
qed

text \<open>C11: Every accepted block is returned exactly once or still leased: after any sequence of calls
  the tokens of the accepted blocks are, with their multiplicities, the tokens that the release
  callback has taken back and the tokens of the leased blocks. Failed releases do not lose a block,
  and the counter of leased blocks is the number of those.\<close>

theorem visit_leases_conserved:
  assumes "vq_create mem c = Inr q0"
    and "vq_run (logged release) ops ((ctx, []), q0) = ((ctx', log), q, fed)"
  shows "mset (map fst fed) = mset log + mset (leased_tokens q) \<and>
    leased_blocks (stats q) = length (leased_tokens q)"
proof -
  have "mset (map fst fed) = mset log + mset (leased_tokens q)"
    if "vq_ok p f" "mset (map fst f) = mset l + mset (leased_tokens p)"
      "fold (vq_call (logged release)) ops ((x, l), p, f) = ((ctx', log), q, fed)" for x l p f
    using that
  proof (induction ops arbitrary: x l p f)
    case (Cons op ops)
    obtain s p' f' where s: "vq_call (logged release) op ((x, l), p, f) = (s, p', f')" by (metis prod_cases3)
    obtain x' l' where x: "s = (x', l')" by (cases s)
    show ?case
      using Cons.IH [OF call_vq_ok [OF Cons.prems(1) s] call_leases [OF Cons.prems(1,2) s [unfolded x]]]
        Cons.prems(3) by (simp add: s x)
  qed simp
  moreover have "leased_tokens q0 = []"
    using assms(1) by (auto simp: vq_create_def leased_tokens_def zero_block_def split: if_splits)
  ultimately have "mset (map fst fed) = mset log + mset (leased_tokens q)"
    using create_vq_ok [OF assms(1)] assms(2) by (auto simp: vq_run_def)
  moreover have "leased_blocks (stats q) = length (leased_tokens q)"
    using vq_booksD(9) [OF vq_okD(1) [OF run_vq_ok [OF assms]]]
    by (simp add: leased_tokens_def owned_slots_def length_filter_conv_card)
  ultimately show ?thesis by simp
qed

subsection \<open>Pinned views\<close>

text \<open>The visit being sent stays at the head of the queue, unchanged, until its send completes.\<close>

lemma call_pinned:
  fixes v :: vq_visit
  assumes q: "vq_ok q fed" and act: "active q = v # vs" and v: "sending v"
    and run: "vq_call release op (ctx, q, fed) = (ctx', q', fed')"
    and op: "op \<noteq> Complete_Send (v_id v)"
  shows "\<exists>ws. active q' = v # ws"
proof -
  note d = vq_okD [OF q]
  have res: "v_result v \<noteq> VISIT_ADMITTED"
    using d(4) [of v] v by (simp add: act visit_ok_def Let_def)
  have n: "0 < visit_total (stats q)" using act length_active [of q] by simp
  have at: "vq_at q 0 = v" using vq_at_active [OF vq_booksD(1) [OF d(1)] n] act by simp
  show ?thesis
  proof (cases op)
    case (Reserve vid samples now)
    show ?thesis
      by (rule reserve_cases [OF d(1), of vid samples now]) (use run act in \<open>auto simp: Reserve\<close>)
  next
    case (Bind vid start)
    show ?thesis
    proof (cases "visit_total (stats q) - 1 = 0")
      case True
      then have "vq_bind q vid start = (- EINVAL, q)" using at res by (simp add: vq_bind_def Let_def)
      then show ?thesis using run act by (simp add: Bind)
    next
      case False
      then obtain m where m: "visit_total (stats q) - 1 = Suc m" by (cases "visit_total (stats q) - 1") auto
      have i: "Suc m < visit_total (stats q)" using m by simp
      have "active (vq_set q (Suc m) w) = v # vs[m := w]" for w
        using active_vq_set [OF vq_booksD(1) [OF d(1)] i] by (simp add: act)
      then show ?thesis using run act m by (auto simp: Bind vq_bind_def Let_def split: if_splits)
    qed
  next
    case (Feed token data first samples)
    show ?thesis
    proof (cases rule: feed_cases [of q token data first samples])
      case (fed slot)
      note st = store_books [OF d(1) fed(2,3,4), where data = data and first = first and samples = samples]
      have n: "visit_total (stats q) = visit_total (stats (vq_store q slot token data first samples))"
        by (simp add: vq_store_def)
      show ?thesis
        using feed_loop(3) [OF st(1,3) n refl] run res
        by (auto simp: Feed fed(5) st(2) act fed_visit_def)
    qed (use run act in \<open>auto simp: Feed\<close>)
  next
    case (Close_Window vid invalid)
    show ?thesis
    proof (rule close_cases [OF d(1), of vid invalid])
      fix i
      assume "\<not> sending (active q ! i)" and c: "active (snd (vq_close_window q vid invalid)) =
         (active q)[i := window_closed (preserve_partial (vq_cfg q)) invalid (active q ! i)]"
      then show ?thesis using run v by (cases i) (auto simp: Close_Window act)
    qed (use run act in \<open>auto simp: Close_Window\<close>)
  next
    case Take_View
    then show ?thesis using run at v act by (auto simp: vq_take_def)
  next
    case (Complete_Send vid)
    then show ?thesis using run op at act by (auto simp: vq_complete_send_def Let_def)
  next
    case (Expire now)
    then show ?thesis
      using run act v expire_loop(3) [OF d(1) refl refl, of now 0]
      by (auto simp: vq_expire_def expired_visit_def)
  next
    case Cancel
    have "vq_books (q\<lparr>cancelled := True\<rparr>)" using d(1) by simp
    from cancel_loop(3) [OF this refl refl, of 0] show ?thesis
      using run act v Cancel by (auto simp: vq_cancel_def cancelled_visit_def)
  next
    case Reap
    then show ?thesis using run act reap_active [OF q, of release ctx] by (auto simp: case_prod_beta)
  qed
qed

lemma call_log:
  assumes q: "vq_ok q fed" and v: "v \<in> set (active q)"
    and run: "vq_call (logged release) op ((ctx, log), q, fed) = ((ctx', log'), q', fed')"
  shows "\<exists>new. log' = log @ new \<and> (\<forall>sl \<in> set (v_slices v). slice_token sl \<notin> set new)"
proof (cases "op = Reap")
  case True
  obtain e c p where r: "vq_reap (logged release) (ctx, log) q = (e, c, p)" by (metis prod_cases3)
  moreover obtain x l where c: "c = (x, l)" by (cases c)
  ultimately have "log' = l" using run by (simp add: True)
  then show ?thesis using reap_leases [OF q r [unfolded c]] v by blast
next
  case False
  have "log' = log"
    by (cases op) (use run False in \<open>auto simp: Let_def split: prod.splits\<close>)
  then show ?thesis by simp
qed

text \<open>C9: A view that was taken keeps its samples in place until its send is completed: whatever
  calls follow, as long as \<open>complete_send\<close> is not called for it, no block of one of its slices is
  given back, and each stays leased with the same token and data.\<close>

theorem visit_view_pinned:
  assumes "vq_create mem c = Inr q0"
    and "vq_run (logged release) ops ((ctx, []), q0) = ((ctx1, log1), q, fed)"
    and "vq_take q = (Inr view, q1)"
    and "fold (vq_call (logged release)) later ((ctx1, log1), q1, fed) = ((ctx2, log2), q2, fed2)"
    and "Complete_Send (view_id view) \<notin> set later"
  shows "\<exists>new. log2 = log1 @ new \<and> (\<forall>sl \<in> set (view_slices view). slice_token sl \<notin> set new \<and>
    (\<exists>s \<in> owned_slots (blocks q2). blk_token (blocks q2 ! s) = slice_token sl \<and>
       blk_data (blocks q2 ! s) = slice_data sl))"
proof -
  have q: "vq_ok q fed" by (rule run_vq_ok [OF assms(1,2)])
  from q show ?thesis
  proof (cases rule: take_cases)
    case (refused e)
    then show ?thesis using assms(3) by simp
  next
    case (taken v vs)
    let ?v = "v\<lparr>sending := True\<rparr>"
    have q1: "vq_ok q1 fed" using take_vq_ok [OF q] assms(3) by simp
    have act1: "active q1 = ?v # vs" using taken(4,5) assms(3) by simp
    have view: "view_id view = v_id ?v" "view_slices view = v_slices ?v" using taken(4) assms(3) by auto
    have run: "vq_ok q2 fed2 \<and> (\<exists>ws. active q2 = ?v # ws) \<and>
        (\<exists>new. log2 = l @ new \<and> (\<forall>sl \<in> set (v_slices ?v). slice_token sl \<notin> set new))"
      if "vq_ok r f" "active r = ?v # rs" "fold (vq_call (logged release)) later ((x, l), r, f) = ((ctx2, log2), q2, fed2)"
        "Complete_Send (v_id ?v) \<notin> set later" for x l r f rs
      using that
    proof (induction later arbitrary: x l r f rs)
      case (Cons op later)
      obtain s r' f' where s: "vq_call (logged release) op ((x, l), r, f) = (s, r', f')" by (metis prod_cases3)
      obtain x' l' where x: "s = (x', l')" by (cases s)
      note s = s [unfolded x]
      have "op \<noteq> Complete_Send (v_id ?v)" using Cons.prems(4) by auto
      from call_pinned [OF Cons.prems(1,2) _ s this] obtain ws where ws: "active r' = ?v # ws" by auto
      have "?v \<in> set (active r)" by (simp add: Cons.prems(2))
      from call_log [OF Cons.prems(1) this s] obtain new where
        new: "l' = l @ new" "\<forall>sl \<in> set (v_slices ?v). slice_token sl \<notin> set new" by blast
      have "fold (vq_call (logged release)) later ((x', l'), r', f') = ((ctx2, log2), q2, fed2)"
        using Cons.prems(3) s by simp
      from Cons.IH [OF call_vq_ok [OF Cons.prems(1) s] ws this] Cons.prems(4) obtain new' where
        "vq_ok q2 fed2" "\<exists>ws. active q2 = ?v # ws" "log2 = l' @ new'"
        "\<forall>sl \<in> set (v_slices ?v). slice_token sl \<notin> set new'" by auto
      then show ?case using new by (intro conjI exI [of _ "new @ new'"]) auto
    qed auto
    from run [OF q1 act1 assms(4)] assms(5) view(1) obtain ws new where
      q2: "vq_ok q2 fed2" "active q2 = ?v # ws" "log2 = log1 @ new"
      "\<forall>sl \<in> set (v_slices ?v). slice_token sl \<notin> set new" by auto
    have "\<exists>s \<in> owned_slots (blocks q2). blk_token (blocks q2 ! s) = slice_token sl \<and>
        blk_data (blocks q2 ! s) = slice_data sl" if sl: "sl \<in> set (v_slices ?v)" for sl
    proof -
      have v: "?v \<in> set (active q2)" by (simp add: q2)
      obtain s where s: "s \<in> set (v_block ?v)" "slice_token sl = blk_token (blocks q2 ! s)"
        "slice_data sl = blk_data (blocks q2 ! s)"
        using slices_leasedD [OF vq_okD(5) [OF q2(1) v] sl] by blast
      then show ?thesis
        using books_pinned_owned(1,2) [OF vq_okD(1) [OF q2(1)] v s(1)] vq_booksD(2) [OF vq_okD(1) [OF q2(1)]]
        by (intro bexI [of _ s]) (simp_all add: owned_slots_def)
    qed
    then show ?thesis using q2 unfolding view(2) by blast
  qed
qed

subsection \<open>Errors\<close>

text \<open>C16: A refused call changes nothing: when \<open>reserve\<close> does not admit the visit, or \<open>bind\<close>,
  \<open>feed\<close>, \<open>take\<close> or \<open>complete_send\<close> returns an error, the queue is as before, so the caller
  still owns the block it offered. A feed is refused with \<open>EEXIST\<close> only for a token that is leased,
  and with \<open>ENOSPC\<close> only when all blocks are leased.\<close>

theorem visit_refusals_atomic:
  assumes "vq_create mem c = Inr q0" and "vq_run release ops (ctx, q0) = (ctx', q, fed)"
  shows "(vq_reserve q vid samples now = (r, q1) \<longrightarrow> r \<noteq> Inr VISIT_ADMITTED \<longrightarrow> q1 = q) \<and>
    (vq_bind q vid start = (e2, q2) \<longrightarrow> e2 \<noteq> 0 \<longrightarrow> q2 = q) \<and>
    (vq_feed q token data first n = (e3, q3) \<longrightarrow> e3 \<noteq> 0 \<longrightarrow> q3 = q) \<and>
    (vq_take q = (Inl e4, q4) \<longrightarrow> q4 = q) \<and>
    (vq_complete_send q vid = (e5, q5) \<longrightarrow> e5 \<noteq> 0 \<longrightarrow> q5 = q) \<and>
    (vq_feed q token data first n = (- EEXIST, q3) \<longrightarrow> token \<in> set (leased_tokens q)) \<and>
    (vq_feed q token data first n = (- ENOSPC, q3) \<longrightarrow> leased_blocks (stats q) = block_count c)"
proof (intro conjI impI)
  have q: "vq_ok q fed" by (rule run_vq_ok [OF assms])
  have cfg: "vq_cfg q = c" by (rule run_cfg [OF assms])
  note books = vq_okD(1) [OF q]
  note b = vq_booksD [OF books]
  have c64: "block_count c \<le> 64" using b(1) cfg by (simp add: vq_shape_def)
  show "q1 = q" if "vq_reserve q vid samples now = (r, q1)" "r \<noteq> Inr VISIT_ADMITTED"
    by (rule reserve_cases [OF books, of vid samples now]) (use that in auto)
  show "q2 = q" if "vq_bind q vid start = (e2, q2)" "e2 \<noteq> 0"
    using that by (auto simp: vq_bind_def Let_def split: if_splits)
  show "q3 = q" if "vq_feed q token data first n = (e3, q3)" "e3 \<noteq> 0"
    using feed_leases(2) [OF q that] .
  show "q4 = q" if "vq_take q = (Inl e4, q4)"
    using that by (auto simp: vq_take_def Let_def split: if_splits)
  show "q5 = q" if "vq_complete_send q vid = (e5, q5)" "e5 \<noteq> 0"
    by (rule complete_send_cases [OF books, of vid]) (use that in auto)
  let ?r = "vq_find_slot (blocks q) token [0..<block_count c] None"
  have slot: "(\<exists>e. ?r = Inl e \<and> vq_feed q token data first n = (e, q)) \<or>
      ?r = Inr None \<and> vq_feed q token data first n = (- ENOSPC, q) \<or> fst (vq_feed q token data first n) = 0 \<or>
      fst (vq_feed q token data first n) \<in> {- EINVAL, - ESHUTDOWN, - ERANGE, - EAGAIN}"
    unfolding vq_feed_def Let_def cfg by (auto split: sum.split option.split)
  show "token \<in> set (leased_tokens q)" if "vq_feed q token data first n = (- EEXIST, q3)"
  proof -
    have "\<exists>e. ?r = Inl e" using slot that by auto
    then obtain i where i: "i < block_count c" "owned (blocks q ! i)" "blk_token (blocks q ! i) = token"
      using find_slot(1) by (metis atLeastLessThan_iff set_upt)
    then have "blocks q ! i \<in> set (blocks q)" using c64 b(2) by simp
    then show ?thesis using i by (force simp: leased_tokens_def)
  qed
  show "leased_blocks (stats q) = block_count c" if "vq_feed q token data first n = (- ENOSPC, q3)"
  proof -
    have "?r = Inr None" using slot that find_slot(1) by fastforce
    then have "\<forall>i \<in> {0..<block_count c}. owned (blocks q ! i)" using find_slot(3) by (metis set_upt)
    then have "owned_slots (blocks q) = {0..<block_count c}"
      using b(2,6) c64 by (auto simp: owned_slots_def cfg)
    then show ?thesis by (simp add: b(9))
  qed
qed

subsection \<open>Shutting down\<close>

text \<open>Taking and completing the visits one after the other.\<close>

fun vq_drain :: "nat \<Rightarrow> visit_queue \<Rightarrow> visit_queue" where
  "vq_drain 0 q = q"
| "vq_drain (Suc n) q = (case vq_take q of (Inl e, q) \<Rightarrow> q
     | (Inr view, q) \<Rightarrow> vq_drain n (snd (vq_complete_send q (view_id view))))"

lemma drain_empties:
  assumes "vq_ok q fed" and "\<forall>v \<in> set (active q). v_result v \<noteq> VISIT_ADMITTED \<and> \<not> sending v"
    and "n = visit_total (stats q)"
  shows "vq_ok (vq_drain n q) fed \<and> active (vq_drain n q) = []"
  using assms
proof (induction n arbitrary: q)
  case 0
  then show ?case by (simp add: active_def)
next
  case (Suc n)
  from Suc.prems(1) show ?case
  proof (cases rule: take_cases)
    case (refused e)
    obtain v vs where act: "active q = v # vs" using Suc.prems(3) length_active [of q] by (cases "active q") auto
    have at: "vq_at q 0 = v"
      using vq_at_active [OF vq_booksD(1) [OF vq_okD(1) [OF Suc.prems(1)]], of 0] Suc.prems(3) act by simp
    show ?thesis using refused Suc.prems(2,3) at act by (simp add: vq_take_def)
  next
    case (taken v vs)
    let ?p = "vq_set q 0 (v\<lparr>sending := True\<rparr>)"
    let ?r = "snd (vq_complete_send ?p (v_id v))"
    have p: "vq_ok ?p fed" using take_vq_ok [OF Suc.prems(1)] taken(4) by simp
    have r: "vq_ok ?r fed" by (rule complete_vq_ok [OF p])
    have n: "0 < visit_total (stats ?p)" using Suc.prems(3) by simp
    have at: "vq_at ?p 0 = v\<lparr>sending := True\<rparr>"
      using vq_at_active [OF vq_booksD(1) [OF vq_okD(1) [OF p]] n] taken(5) by simp
    have act: "active ?r = vs"
    proof (rule complete_send_cases [OF vq_okD(1) [OF p], of "v_id v"])
      fix e assume "vq_complete_send ?p (v_id v) = (e, ?p)" "e \<noteq> 0"
      then show ?thesis using n at by (simp add: vq_complete_send_def Let_def)
    qed (use taken(5) in simp)
    have "n = visit_total (stats ?r)"
      using Suc.prems(3) taken(1) act length_active [of ?r] length_active [of q] by simp
    from Suc.IH [OF r _ this] Suc.prems(2) show ?thesis by (simp add: taken(1,4) act)
  qed
qed

lemma fold_cancel_ret:
  assumes "vq_books q" and "set is \<subseteq> {..<visit_total (stats q)}"
    and "\<forall>v \<in> set (active q). \<not> sending v"
  shows "fst (fold vq_cancel_visit is (r, q)) = r"
  using assms
proof (induction "is" arbitrary: q)
  case (Cons i "is")
  have i: "i < visit_total (stats q)" using Cons.prems(2) by simp
  have at: "vq_at q i = active q ! i" by (rule vq_at_active [OF vq_booksD(1) [OF Cons.prems(1)] i])
  then have s: "\<not> sending (vq_at q i)" using Cons.prems(3) i by simp
  note tm = terminate_ok [OF Cons.prems(1) i, of VISIT_CANCELLED]
  let ?q = "vq_terminate q i VISIT_CANCELLED"
  have "visit_total (stats ?q) = visit_total (stats q)" using tm(3) by (simp add: same_leases_def)
  moreover have "\<forall>v \<in> set (active ?q). \<not> sending v"
    using Cons.prems(3) s at set_update_subset_insert [of "active q" i] by (fastforce simp: tm(2))
  ultimately have "fst (fold vq_cancel_visit is (r, ?q)) = r"
    using Cons.IH [OF tm(1)] Cons.prems(2) by simp
  then show ?case using Cons.IH [OF Cons.prems(1)] Cons.prems(2,3) s by (simp add: Let_def)
qed simp

text \<open>Reaping a queue without visits: exactly the blocks whose release fails stay leased.\<close>

lemma reap_block_empty:
  assumes q: "vq_ok q fed" "active q = []" and i: "i < 64"
    and run: "vq_reap_block release i (err, ctx, q) = (e, c, p)"
  shows "active p = [] \<and> vq_cfg p = vq_cfg q \<and> owned_slots (blocks p) \<subseteq> owned_slots (blocks q) \<and>
    owned_slots (blocks q) - {i} \<subseteq> owned_slots (blocks p) \<and>
    (e = 0 \<longleftrightarrow> err = 0 \<and> i \<notin> owned_slots (blocks p))"
proof (rule reap_block_cases [OF vq_okD(1) [OF q(1)] i, of release err ctx])
  fix e' c'
  assume "vq_reap_block release i (err, ctx, q) = (e', c', q)"
  then have p: "p = q" using run by simp
  have r: "refs (blocks q ! i) = 0" if "owned (blocks q ! i)"
    using vq_booksD(4) [OF vq_okD(1) [OF q(1)] i] that by (simp add: q(2))
  have l: "i < length (blocks q)" using vq_booksD(2) [OF vq_okD(1) [OF q(1)]] i by simp
  obtain ret c2 where ret: "release ctx (blk_token (blocks q ! i)) = (ret, c2)" by fastforce
  have "owned (blocks q ! i) \<Longrightarrow> ret \<noteq> 0"
  proof
    assume "owned (blocks q ! i)" "ret = 0"
    then have "blocks p = (blocks q)[i := zero_block]" using run r ret by (auto simp: Let_def)
    then have "blocks q ! i = zero_block" using p l by (metis nth_list_update_eq)
    then show False using \<open>owned (blocks q ! i)\<close> by (simp add: zero_block_def)
  qed
  then show ?thesis using run r ret q(2) l by (auto simp: p owned_slots_def Let_def split: if_splits)
qed (use run q(2) in \<open>auto simp: active_def vq_at_def vq_index_def simp del: vq_reap_block.simps\<close>)

lemma reap_fold_empty:
  assumes "vq_ok q fed" and "active q = []" and "set is \<subseteq> {..<64}" and "distinct is"
    and "fold (vq_reap_block release) is (err0, ctx, q) = (err, c, p)"
  shows "vq_ok p fed \<and> active p = [] \<and> vq_cfg p = vq_cfg q \<and> owned_slots (blocks p) \<subseteq> owned_slots (blocks q) \<and>
    owned_slots (blocks q) - set is \<subseteq> owned_slots (blocks p) \<and>
    (err = 0 \<longleftrightarrow> err0 = 0 \<and> owned_slots (blocks p) \<inter> set is = {})"
  using assms
proof (induction "is" arbitrary: err0 ctx q)
  case (Cons i "is")
  have i: "i < 64" using Cons.prems(3) by simp
  obtain e c1 q1 where s: "vq_reap_block release i (err0, ctx, q) = (e, c1, q1)" by (metis prod_cases3)
  have ok: "vq_ok q1 fed" using reap_block_vq_ok [OF Cons.prems(1) i, of release err0 ctx] s by simp
  note step = reap_block_empty [OF Cons.prems(1,2) i s]
  from Cons.IH [OF ok, of e c1] step Cons.prems(3-5) s show ?case
    by (auto simp del: vq_reap_block.simps)
qed auto

lemma reap_empty:
  assumes q: "vq_ok q fed" "active q = []" and run: "vq_reap release ctx q = (err, c, p)"
  shows "vq_ok p fed" and "active p = []" and "owned_slots (blocks p) \<subseteq> owned_slots (blocks q)"
    and "err = 0 \<longleftrightarrow> owned_slots (blocks p) = {}" and "vq_destroy p = 0 \<longleftrightarrow> owned_slots (blocks p) = {}"
proof -
  let ?n = "block_count (vq_cfg q)"
  have "set [0..<?n] \<subseteq> {..<64}" using vq_booksD(1) [OF vq_okD(1) [OF q(1)]] by (auto simp: vq_shape_def)
  note f = reap_fold_empty [OF q this distinct_upt run [unfolded vq_reap_def]]
  then show p: "vq_ok p fed" "active p = []" "owned_slots (blocks p) \<subseteq> owned_slots (blocks q)" by blast+
  note b = vq_booksD [OF vq_okD(1) [OF p(1)]]
  have "owned_slots (blocks p) \<subseteq> set [0..<?n]" using b(2,6) f by (auto simp: owned_slots_def)
  then show "err = 0 \<longleftrightarrow> owned_slots (blocks p) = {}" using f by blast
  have "finite (owned_slots (blocks p))" by (simp add: owned_slots_def)
  then show "vq_destroy p = 0 \<longleftrightarrow> owned_slots (blocks p) = {}"
    using b(9) p(2) by (simp add: vq_destroy_def active_def)
qed

text \<open>A callback whose failures, from the context \<open>x\<close> on, are at most \<open>faults x\<close>.\<close>

definition fails_at_most :: "('c \<Rightarrow> u64 \<Rightarrow> int \<times> 'c) \<Rightarrow> ('c \<Rightarrow> nat) \<Rightarrow> bool" where
  "fails_at_most release faults \<longleftrightarrow> (\<forall>x t. faults (snd (release x t)) \<le> faults x \<and>
     (fst (release x t) \<noteq> 0 \<longrightarrow> faults (snd (release x t)) < faults x))"

lemma reap_fold_faults:
  "fails_at_most release faults \<Longrightarrow> fold (vq_reap_block release) is (err0, ctx, q) = (err, c, p) \<Longrightarrow>
   faults c \<le> faults ctx \<and> (err0 = 0 \<and> err \<noteq> 0 \<longrightarrow> faults c < faults ctx)"
proof (induction "is" arbitrary: err0 ctx q)
  case (Cons i "is")
  obtain e c1 q1 where s: "vq_reap_block release i (err0, ctx, q) = (e, c1, q1)" by (metis prod_cases3)
  have "faults c1 \<le> faults ctx \<and> (err0 = 0 \<and> e \<noteq> 0 \<longrightarrow> faults c1 < faults ctx)"
  proof (cases "release ctx (blk_token (blocks q ! i))")
    case (Pair r c2)
    have "faults c2 \<le> faults ctx" "r \<noteq> 0 \<Longrightarrow> faults c2 < faults ctx"
      using Cons.prems(1) Pair unfolding fails_at_most_def by (metis fst_conv snd_conv)+
    then show ?thesis using s Pair by (auto simp: Let_def split: if_splits)
  qed
  then show ?case using Cons.IH [OF Cons.prems(1), of e c1 q1] Cons.prems(2) s
    by (fastforce simp del: vq_reap_block.simps)
qed auto

text \<open>\<open>n + 1\<close> calls of \<open>reap\<close>; the result is that of the last one.\<close>

fun vq_reaps :: "nat \<Rightarrow> ('c \<Rightarrow> u64 \<Rightarrow> int \<times> 'c) \<Rightarrow> 'c \<Rightarrow> visit_queue \<Rightarrow> int \<times> 'c \<times> visit_queue" where
  "vq_reaps 0 release ctx q = vq_reap release ctx q"
| "vq_reaps (Suc n) release ctx q = (case vq_reap release ctx q of (_, ctx, q) \<Rightarrow> vq_reaps n release ctx q)"

lemma reaps_empty:
  assumes "vq_ok q fed" and "active q = []" and "vq_reaps n release ctx q = (err, c, p)"
  shows "(err = 0 \<longleftrightarrow> vq_destroy p = 0) \<and> (owned_slots (blocks q) = {} \<longrightarrow> err = 0) \<and>
    (fails_at_most release faults \<and> faults ctx \<le> n \<longrightarrow> err = 0)"
  using assms
proof (induction n arbitrary: ctx q)
  case 0
  then show ?case using reap_empty [of q fed release ctx err c p]
    reap_fold_faults [of release faults "[0..<block_count (vq_cfg q)]" 0 ctx q err c p] by (auto simp: vq_reap_def)
next
  case (Suc n)
  obtain e c1 q1 where s: "vq_reap release ctx q = (e, c1, q1)" by (metis prod_cases3)
  note r = reap_empty [OF Suc.prems(1,2) s]
  note f = reap_fold_faults [of release faults "[0..<block_count (vq_cfg q)]" 0 ctx q e c1 q1]
  show ?case using Suc.IH [OF r(1,2), of c1] Suc.prems(3) r(3,4) s f
    by (cases "e = 0") (auto simp: vq_reap_def)
qed

text \<open>C12: A queue can always be shut down, whatever was done before, once no view is being sent:
  cancelling succeeds and draining the remaining views leaves no visit. Of the calls of \<open>reap\<close> that
  follow, with a release callback that may fail, each returns zero exactly if \<open>destroy\<close> then succeeds;
  and if the callback fails no more than \<open>n\<close> times from here on, \<open>n + 1\<close> of them are enough.\<close>

theorem visit_shutdown_completes:
  assumes "vq_create mem c = Inr q0" and "vq_run release ops (ctx, q0) = (ctx', q, fed)"
    and "visit_total (stats q) = 0 \<or> \<not> sending (vq_at q 0)"
  shows "(let (ret, q1) = vq_cancel q; q2 = vq_drain (visit_total (stats q1)) q1 in
      ret = 0 \<and> visit_total (stats q2) = 0 \<and>
      (\<forall>n. let (err, ctx2, q3) = vq_reaps n release ctx' q2 in (err = 0 \<longleftrightarrow> vq_destroy q3 = 0) \<and>
        (\<forall>faults. fails_at_most release faults \<and> faults ctx' \<le> n \<longrightarrow> err = 0)))"
proof -
  have q: "vq_ok q fed" by (rule run_vq_ok [OF assms(1,2)])
  let ?q = "q\<lparr>cancelled := True\<rparr>" and ?n = "visit_total (stats q)"
  have ns: "\<not> sending v" if v: "v \<in> set (active q)" for v
  proof (cases "v \<in> set (tl (active q))")
    case False
    obtain w ws where act: "active q = w # ws" using v by (cases "active q") auto
    have n: "0 < ?n" using act length_active [of q] by simp
    have "v = vq_at q 0"
      using False v act vq_at_active [OF vq_booksD(1) [OF vq_okD(1) [OF q]] n] by simp
    then show ?thesis using assms(3) n by simp
  qed (rule vq_okD(7) [OF q])
  have books: "vq_books ?q" using vq_okD(1) [OF q] by simp
  have n: "?n = visit_total (stats ?q)" by simp
  note loop = cancel_loop [OF books n refl, of 0]
  obtain q1 where q1: "vq_cancel q = (0, q1)"
  proof -
    have "set [0..<?n] \<subseteq> {..<visit_total (stats ?q)}" by auto
    from fold_cancel_ret [OF books this, of 0] ns have "fst (vq_cancel q) = 0" by (simp add: vq_cancel_def)
    then show ?thesis using that by (metis prod.collapse)
  qed
  have q1ok: "vq_ok q1 fed" using cancel_vq_ok [OF q] q1 by simp
  have act1: "active q1 = map (cancelled_visit (preserve_partial (vq_cfg q))) (active q)"
    using loop(3) q1 by (simp add: vq_cancel_def)
  have "v_result v \<noteq> VISIT_ADMITTED \<and> \<not> sending v" if "v \<in> set (active q1)" for v
    using that ns by (auto simp: act1 cancelled_visit_def terminated_def discarded_def)
  then have q2: "vq_ok (vq_drain (visit_total (stats q1)) q1) fed"
    "active (vq_drain (visit_total (stats q1)) q1) = []" (is "active ?q2 = []")
    using drain_empties [OF q1ok _ refl] by auto
  have "(err = 0 \<longleftrightarrow> vq_destroy q3 = 0) \<and> (fails_at_most release faults \<and> faults ctx' \<le> n \<longrightarrow> err = 0)"
    if "vq_reaps n release ctx' ?q2 = (err, c2, q3)" for n err c2 q3 faults
    using reaps_empty [OF q2 that] by blast
  moreover have "visit_total (stats ?q2) = 0" using q2(2) by (simp add: active_def)
  ultimately show ?thesis by (simp add: q1 split: prod.split) blast
qed

subsection \<open>A concrete run\<close>

definition vq_demo :: vq_config where
  "vq_demo = \<lparr>block_count = 5, headroom_blocks = 1, maximum_visits = 2, block_samples = 6,
     vq_rate_hz = 1000000, maximum_bytes = 1000, maximum_age_ticks = 10000,
     drain_bytes_per_second = 1000000, bytes_per_sample = 4, maximum_visit_ms = 1,
     preserve_partial = False\<rparr>"

text \<open>Ten samples from 2 on are captured in two blocks of six.\<close>

definition vq_demo_ops :: "vq_op list" where
  "vq_demo_ops = [Reserve 7 10 2, Bind 7 2, Feed 11 100 0 6, Feed 12 200 6 6, Close_Window 7 12]"

definition vq_demo_release :: "unit \<Rightarrow> u64 \<Rightarrow> int \<times> unit" where
  "vq_demo_release = (\<lambda>c t. (0, c))"

definition vq_d0 :: visit_queue where "vq_d0 = projr (vq_create True vq_demo)"
definition vq_d1 :: visit_queue where "vq_d1 = snd (vq_reserve vq_d0 7 10 2)"
definition vq_d2 :: visit_queue where "vq_d2 = snd (vq_bind vq_d1 7 2)"
definition vq_d3 :: visit_queue where "vq_d3 = snd (vq_feed vq_d2 11 100 0 6)"
definition vq_d4 :: visit_queue where "vq_d4 = snd (vq_feed vq_d3 12 200 6 6)"
definition vq_d5 :: visit_queue where "vq_d5 = snd (vq_close_window vq_d4 7 12)"

lemma vq_d0:
  "vq_create True vq_demo = Inr vq_d0" "vq_cfg vq_d0 = vq_demo" "visit_total (stats vq_d0) = 0"
  "leased_blocks (stats vq_d0) = 0" "reserved_blocks (stats vq_d0) = 0" "reserved_bytes (stats vq_d0) = 0"
  "vq_head vq_d0 = 0" "have_source vq_d0 = False" "have_id vq_d0 = False" "cancelled vq_d0 = False"
  "length (vq_visits vq_d0) = 64" "blocks vq_d0 = replicate 64 zero_block" "last_valid_end vq_d0 = 0"
  by (simp_all add: vq_d0_def vq_create_def vq_demo_def scan_rate_valid_def)

lemma upt_demo: "[0..<5] = [0, 1, 2, 3, 4::nat]" "[0..<1] = [0::nat]" "[0..<Suc 0] = [0::nat]"
  by (simp_all add: upt_rec)

definition vq_demo_visit :: vq_visit where
  "vq_demo_visit = fresh_visit 7 10 2 3 40"

lemma vq_d1:
  "vq_cfg vq_d1 = vq_demo" "visit_total (stats vq_d1) = 1"
  "leased_blocks (stats vq_d1) = 0" "reserved_blocks (stats vq_d1) = 3"
  "vq_head vq_d1 = 0" "have_source vq_d1 = False" "cancelled vq_d1 = False"
  "length (vq_visits vq_d1) = 64" "blocks vq_d1 = replicate 64 zero_block" "last_valid_end vq_d1 = 0"
  "vq_visits vq_d1 ! 0 = vq_demo_visit"
  by (simp_all add: vq_d1_def vq_reserve_def Let_def vq_d0 vq_demo_def vq_set_def vq_index_def
      vq_demo_visit_def fresh_visit_def)

lemma vq_d2:
  "vq_cfg vq_d2 = vq_demo" "visit_total (stats vq_d2) = 1"
  "leased_blocks (stats vq_d2) = 0" "reserved_blocks (stats vq_d2) = 3"
  "vq_head vq_d2 = 0" "have_source vq_d2 = False" "cancelled vq_d2 = False"
  "length (vq_visits vq_d2) = 64" "blocks vq_d2 = replicate 64 zero_block"
  "vq_visits vq_d2 ! 0 = vq_demo_visit\<lparr>v_start := 2, v_next := 2, v_end := 12, bound := True\<rparr>"
  by (simp_all add: vq_d2_def vq_bind_def Let_def vq_d1 vq_at_def vq_index_def vq_set_def
      vq_demo_visit_def fresh_visit_def zero_vq_visit_def)

definition vq_demo_slice :: vq_slice where
  "vq_demo_slice = \<lparr>slice_token = 11, slice_data = 100, slice_offset = 8, slice_bytes = 16\<rparr>"

lemma vq_d3:
  "vq_cfg vq_d3 = vq_demo" "visit_total (stats vq_d3) = 1" "fst (vq_feed vq_d2 11 100 0 6) = 0"
  "leased_blocks (stats vq_d3) = 1" "reserved_blocks (stats vq_d3) = 2"
  "vq_head vq_d3 = 0" "have_source vq_d3 = True" "cancelled vq_d3 = False" "last_source_end vq_d3 = 6"
  "length (vq_visits vq_d3) = 64"
  "blocks vq_d3 = (replicate 64 zero_block)[4 := \<lparr>blk_token = 11, blk_data = 100, refs = 1, owned = True\<rparr>]"
  "vq_visits vq_d3 ! 0 = vq_demo_visit\<lparr>v_start := 2, v_next := 6, v_end := 12, bound := True,
     v_block := [4], v_slices := [vq_demo_slice], remaining_blocks := 2\<rparr>"
  by (simp_all add: vq_d3_def vq_feed_def vq_feed_visit_def Let_def vq_d2 vq_at_def vq_index_def vq_set_def
      vq_demo_def vq_demo_visit_def fresh_visit_def zero_vq_visit_def upt_demo zero_block_def uint_dec
      vq_demo_slice_def)

definition vq_demo_slice2 :: vq_slice where
  "vq_demo_slice2 = \<lparr>slice_token = 12, slice_data = 200, slice_offset = 0, slice_bytes = 24\<rparr>"

lemma vq_d4:
  "vq_cfg vq_d4 = vq_demo" "visit_total (stats vq_d4) = 1" "fst (vq_feed vq_d3 12 200 6 6) = 0"
  "vq_head vq_d4 = 0" "length (vq_visits vq_d4) = 64"
  "vq_visits vq_d4 ! 0 = vq_demo_visit\<lparr>v_start := 2, v_next := 12, v_end := 12, bound := True,
     v_block := [4, 3], v_slices := [vq_demo_slice, vq_demo_slice2], remaining_blocks := 0\<rparr>"
  by (simp_all add: vq_d4_def vq_feed_def vq_feed_visit_def Let_def vq_d3 vq_at_def vq_index_def vq_set_def
      vq_demo_def vq_demo_visit_def fresh_visit_def zero_vq_visit_def upt_demo zero_block_def uint_dec
      vq_demo_slice2_def nth_update_if)

lemma vq_d5:
  "vq_cfg vq_d5 = vq_demo" "visit_total (stats vq_d5) = 1" "vq_head vq_d5 = 0" "length (vq_visits vq_d5) = 64"
  "vq_visits vq_d5 ! 0 = vq_demo_visit\<lparr>v_start := 2, v_next := 12, v_end := 12, bound := True,
     v_block := [4, 3], v_slices := [vq_demo_slice, vq_demo_slice2], remaining_blocks := 0,
     closed := True, v_result := VISIT_COMPLETE\<rparr>"
  by (simp_all add: vq_d5_def vq_close_window_def Let_def vq_d4 vq_at_def vq_index_def vq_set_def
      vq_demo_visit_def fresh_visit_def zero_vq_visit_def upt_demo)

lemma vq_demo_run:
  "vq_run release (take 3 vq_demo_ops) (x, vq_d0) = (x, vq_d3, [(11, 0)])"
  "vq_run (logged vq_demo_release) vq_demo_ops (((), []), vq_d0) = (((), []), vq_d5, [(12, 6), (11, 0)])"
proof -
  have f: "vq_feed vq_d2 11 100 0 6 = (0, vq_d3)" "vq_feed vq_d3 12 200 6 6 = (0, vq_d4)"
    using vq_d3(3) vq_d4(3) by (simp_all add: vq_d3_def vq_d4_def prod_eq_iff)
  show "vq_run release (take 3 vq_demo_ops) (x, vq_d0) = (x, vq_d3, [(11, 0)])"
    "vq_run (logged vq_demo_release) vq_demo_ops (((), []), vq_d0) = (((), []), vq_d5, [(12, 6), (11, 0)])"
    by (simp_all add: vq_run_def vq_demo_ops_def f vq_d1_def [symmetric] vq_d2_def [symmetric] vq_d5_def [symmetric])
qed

definition vq_demo_view :: vq_view where
  "vq_demo_view = \<lparr>view_id = 7, view_start = 2, view_end = 12, view_result = VISIT_COMPLETE,
     view_slices = [vq_demo_slice, vq_demo_slice2]\<rparr>"

lemma vq_demo_take: "vq_take vq_d5 = (Inr vq_demo_view, snd (vq_take vq_d5))"
  by (simp add: vq_take_def Let_def vq_d5 vq_at_def vq_index_def vq_demo_view_def vq_demo_visit_def
      fresh_visit_def zero_vq_visit_def)

theorem visit_view_exact_witness:
  "tiles (origin [(12, 6), (11, 0)]) 4 24 8 (view_slices vq_demo_view) 48 \<and>
   (\<exists>samples now. 0 < samples \<and> Reserve 7 samples now \<in> set vq_demo_ops \<and> Bind 7 2 \<in> set vq_demo_ops \<and>
      (12::nat) = 2 + unat samples)"
  using visit_view_exact [OF vq_d0(1) vq_demo_run(2) vq_demo_take]
  by (simp add: vq_demo_view_def vq_demo_def)

theorem visit_gap_iff_missing_witness:
  "v_result (vq_at (snd (vq_feed vq_d3 12 200 7 6)) 0) = VISIT_INVALID_GAP \<and>
   v_result (vq_at vq_d4 0) = VISIT_ADMITTED"
proof -
  have f: "vq_feed vq_d3 12 200 7 6 = (0, snd (vq_feed vq_d3 12 200 7 6))"
    "vq_feed vq_d3 12 200 6 6 = (0, vq_d4)"
    by (simp_all add: vq_feed_def Let_def vq_d3 vq_at_def vq_index_def vq_demo_def upt_demo zero_block_def
        prod_eq_iff vq_d4_def vq_demo_visit_def nth_update_if)
  have at: "vq_at vq_d3 0 = vq_visits vq_d3 ! 0" "0 < visit_total (stats vq_d3)"
    "v_result (vq_at vq_d3 0) = VISIT_ADMITTED"
    by (simp_all add: vq_at_def vq_index_def vq_d3 vq_demo_visit_def fresh_visit_def)
  have "v_result (vq_at (snd (vq_feed vq_d3 12 200 7 6)) 0) = VISIT_INVALID_GAP"
    using visit_gap_iff_missing [OF vq_d0(1) vq_demo_run(1) f(1) at(2,3)] by (simp add: at(1) vq_d3)
  moreover have "v_result (vq_at vq_d4 0) = VISIT_ADMITTED"
    using visit_gap_iff_missing [OF vq_d0(1) vq_demo_run(1) f(2) at(2,3)]
    by (simp add: at(1) vq_d3 vq_demo_visit_def fresh_visit_def zero_vq_visit_def)
  ultimately show ?thesis ..
qed

theorem visit_leases_conserved_witness:
  "mset (map fst [(12 :: u64, 6 :: u64), (11, 0)]) = mset (leased_tokens vq_d5) \<and>
   leased_blocks (stats vq_d5) = length (leased_tokens vq_d5)"
  using visit_leases_conserved [OF vq_d0(1) vq_demo_run(2)] by simp

theorem visit_view_pinned_witness:
  "\<exists>s q f new. fold (vq_call (logged vq_demo_release)) [Cancel, Reap] (((), []), snd (vq_take vq_d5), [(12, 6), (11, 0)])
     = (((), s), q, f) \<and> s = [] @ new \<and> 11 \<notin> set new \<and> (\<exists>i \<in> owned_slots (blocks q). blk_token (blocks q ! i) = 11)"
proof -
  obtain x q f where r: "fold (vq_call (logged vq_demo_release)) [Cancel, Reap]
      (((), []), snd (vq_take vq_d5), [(12, 6), (11, 0)]) = (x, q, f)" by (rule prod_cases3)
  obtain s where x: "x = ((), s)" by (cases x) simp
  note r = r [unfolded x]
  have "Complete_Send (view_id vq_demo_view) \<notin> set [Cancel, Reap]" by simp
  from visit_view_pinned [OF vq_d0(1) vq_demo_run(2) vq_demo_take r this] show ?thesis
    using r by (auto simp: vq_demo_view_def vq_demo_slice_def)
qed

theorem visit_refusals_atomic_witness:
  "vq_take vq_d3 = (Inl (- EAGAIN), vq_d3) \<and> snd (vq_complete_send vq_d3 7) = vq_d3"
proof -
  have t: "vq_take vq_d3 = (Inl (- EAGAIN), snd (vq_take vq_d3))"
    "vq_complete_send vq_d3 7 = (- EINVAL, snd (vq_complete_send vq_d3 7))"
    by (simp_all add: vq_take_def vq_complete_send_def Let_def vq_d3 vq_at_def vq_index_def vq_demo_visit_def
        fresh_visit_def zero_vq_visit_def)
  show ?thesis
    using visit_refusals_atomic [OF vq_d0(1) vq_demo_run(1), of 7 0 0 _ _ 0 _ _ 0 0 0 0 _ _ _ _]
      t by (metis neg_equal_0_iff_equal zero_neq_numeral)
qed

text \<open>A callback that fails as often as its context says: one failure, two calls of \<open>reap\<close>.\<close>

definition vq_demo_flaky :: "nat \<Rightarrow> u64 \<Rightarrow> int \<times> nat" where
  "vq_demo_flaky n token = (if n = 0 then (0, 0) else (- 5, n - 1))"

lemma vq_demo_flaky: "fails_at_most vq_demo_flaky id"
  by (auto simp: fails_at_most_def vq_demo_flaky_def)

theorem visit_shutdown_completes_witness:
  "(let (ret, q1) = vq_cancel vq_d3; q2 = vq_drain (visit_total (stats q1)) q1;
      (err, ctx2, q3) = vq_reaps 1 vq_demo_flaky 1 q2 in ret = 0 \<and> err = 0 \<and> vq_destroy q3 = 0)"
proof -
  have "visit_total (stats vq_d3) = 0 \<or> \<not> sending (vq_at vq_d3 0)"
    by (simp add: vq_d3 vq_at_def vq_index_def vq_demo_visit_def fresh_visit_def zero_vq_visit_def)
  note all = visit_shutdown_completes [OF vq_d0(1) vq_demo_run(1) [of vq_demo_flaky 1] this, unfolded Let_def]
  obtain ret q1 where q1: "vq_cancel vq_d3 = (ret, q1)" by fastforce
  obtain err c2 q3 where q3: "vq_reaps 1 vq_demo_flaky 1 (vq_drain (visit_total (stats q1)) q1) = (err, c2, q3)"
    by (metis prod_cases3)
  have "ret = 0" using all by (simp add: q1)
  moreover have "(err = 0 \<longleftrightarrow> vq_destroy q3 = 0) \<and>
      (\<forall>faults. fails_at_most vq_demo_flaky faults \<and> faults 1 \<le> 1 \<longrightarrow> err = 0)"
    using all q3 unfolding q1 prod.case by (elim conjE allE [of _ "1 :: nat"]) (simp only: prod.case, blast)
  ultimately have "ret = 0 \<and> err = 0 \<and> vq_destroy q3 = 0" using vq_demo_flaky by (metis id_apply order_refl)
  then show ?thesis by (simp only: q1 q3 Let_def prod.case)
qed

end
