(* ===== verification/Wire_Records.thy ===== *)
theory Wire_Records
  imports Le_Codec
begin

text \<open>
  Records that are written field by field at ascending offsets of a zeroed buffer. A sequence of
  calls \<open>put32(p + k, v); put64(p + l, w); ...\<close> is the list of its offsets and values. The main
  lemma says what a message must contain to be the result: the fields, and zeros between them.
  Then the CRC-32 that \<open>spf-scan-protocol.c\<close> and \<open>spf-counter-metadata.c\<close> append to a record.
\<close>

subsection \<open>Fields\<close>

datatype wire_field = F8 u8 | F16 u16 | F32 u32 | F64 u64 | FBytes "u8 list"

fun put_field :: "u8 list \<Rightarrow> nat \<Rightarrow> wire_field \<Rightarrow> u8 list" where
  "put_field p k (F8 b) = put_u8 p k b"
| "put_field p k (F16 h) = put_le16 p k h"
| "put_field p k (F32 w) = put_le32 p k w"
| "put_field p k (F64 d) = put_le64 p k d"
| "put_field p k (FBytes bs) = take k p @ bs @ drop (k + length bs) p"

fun put_fields :: "u8 list \<Rightarrow> (nat \<times> wire_field) list \<Rightarrow> u8 list" where
  "put_fields p [] = p"
| "put_fields p ((k, f) # fs) = put_fields (put_field p k f) fs"

lemma put_fields_append: "put_fields p (fs @ gs) = put_fields (put_fields p fs) gs"
  by (induction p fs rule: put_fields.induct) simp_all

fun field_size :: "wire_field \<Rightarrow> nat" where
  "field_size (F8 b) = 1"
| "field_size (F16 h) = 2"
| "field_size (F32 w) = 4"
| "field_size (F64 d) = 8"
| "field_size (FBytes bs) = length bs"

definition le16_bytes :: "u16 \<Rightarrow> u8 list" where
  "le16_bytes v = [ucast v, ucast (drop_bit 8 v)]"

definition le32_bytes :: "u32 \<Rightarrow> u8 list" where
  "le32_bytes v = [ucast v, ucast (drop_bit 8 v), ucast (drop_bit 16 v), ucast (drop_bit 24 v)]"

fun field_bytes :: "wire_field \<Rightarrow> u8 list" where
  "field_bytes (F8 b) = [b]"
| "field_bytes (F16 h) = le16_bytes h"
| "field_bytes (F32 w) = le32_bytes w"
| "field_bytes (F64 d) = le32_bytes (ucast d) @ le32_bytes (ucast (drop_bit 32 d))"
| "field_bytes (FBytes bs) = bs"

lemma length_field_bytes [simp]: "length (field_bytes f) = field_size f"
  by (cases f) (simp_all add: le16_bytes_def le32_bytes_def)

text \<open>What a message has at the offset of a field.\<close>

fun has_field :: "u8 list \<Rightarrow> nat \<Rightarrow> wire_field \<Rightarrow> bool" where
  "has_field w k (F8 b) \<longleftrightarrow> w ! k = b"
| "has_field w k (F16 h) \<longleftrightarrow> get_le16 w k = h"
| "has_field w k (F32 v) \<longleftrightarrow> get_le32 w k = v"
| "has_field w k (F64 d) \<longleftrightarrow> get_le64 w k = d"
| "has_field w k (FBytes bs) \<longleftrightarrow> take (length bs) (drop k w) = bs"

text \<open>Bytes of a list by position.\<close>

lemma take_drop_1: "k + 1 \<le> length w \<Longrightarrow> take 1 (drop k w) = [w ! k]"
  by (simp add: Cons_nth_drop_Suc [symmetric] take_Cons')

lemma take_drop_Suc: "k < length w \<Longrightarrow> take (Suc n) (drop k w) = w ! k # take n (drop (Suc k) w)"
  by (simp add: Cons_nth_drop_Suc [symmetric])

lemma take_drop_2: "k + 2 \<le> length w \<Longrightarrow> take 2 (drop k w) = [w ! k, w ! (k + 1)]"
  by (simp add: numeral_2_eq_2 take_drop_Suc)

lemma take_drop_4: "k + 4 \<le> length w \<Longrightarrow> take 4 (drop k w) = [w ! k, w ! (k + 1), w ! (k + 2), w ! (k + 3)]"
  using take_add [of 2 2 "drop k w"] take_drop_2 [of k w] take_drop_2 [of "k + 2" w]
  by (simp add: add.commute eval_nat_numeral)

lemma le16_bytes_get: "k + 2 \<le> length w \<Longrightarrow> le16_bytes (get_le16 w k) = take 2 (drop k w)"
  by (simp add: le16_bytes_def get_bytes take_drop_2)

lemma le32_bytes_get: "k + 4 \<le> length w \<Longrightarrow> le32_bytes (get_le32 w k) = take 4 (drop k w)"
  by (simp add: le32_bytes_def get_bytes take_drop_4)

lemma le16_bytes_inject: "le16_bytes a = le16_bytes b \<longleftrightarrow> a = b"
proof
  assume e: "le16_bytes a = le16_bytes b"
  have "a = ucast (ucast a :: u8) OR push_bit 8 (ucast (ucast (drop_bit 8 a) :: u8))"
    by (rule join16 [symmetric])
  also have "\<dots> = ucast (ucast b :: u8) OR push_bit 8 (ucast (ucast (drop_bit 8 b) :: u8))"
    using e by (simp only: le16_bytes_def list.inject)
  also have "\<dots> = b" by (rule join16)
  finally show "a = b" .
qed simp

lemma le32_bytes_inject: "le32_bytes a = le32_bytes b \<longleftrightarrow> a = b"
proof
  assume e: "le32_bytes a = le32_bytes b"
  have "a = ucast (ucast a :: u8) OR push_bit 8 (ucast (ucast (drop_bit 8 a) :: u8))
      OR push_bit 16 (ucast (ucast (drop_bit 16 a) :: u8)) OR push_bit 24 (ucast (ucast (drop_bit 24 a) :: u8))"
    by (rule join32 [symmetric])
  also have "\<dots> = ucast (ucast b :: u8) OR push_bit 8 (ucast (ucast (drop_bit 8 b) :: u8))
      OR push_bit 16 (ucast (ucast (drop_bit 16 b) :: u8)) OR push_bit 24 (ucast (ucast (drop_bit 24 b) :: u8))"
    using e by (simp only: le32_bytes_def list.inject)
  also have "\<dots> = b" by (rule join32)
  finally show "a = b" .
qed simp

lemma u64_halves:
  assumes "ucast a = (ucast b :: u32)" and "ucast (drop_bit 32 a) = (ucast (drop_bit 32 b) :: u32)"
  shows "a = (b::u64)"
proof -
  have "a = ucast (ucast a :: u32) OR push_bit 32 (ucast (ucast (drop_bit 32 a) :: u32))"
    by (rule join64 [symmetric])
  also have "\<dots> = b" unfolding assms by (rule join64)
  finally show ?thesis .
qed

lemma has_field_iff:
  assumes "k + field_size f \<le> length w"
  shows "has_field w k f \<longleftrightarrow> take (field_size f) (drop k w) = field_bytes f"
proof (cases f)
  case (F64 d)
  have "take 8 (drop k w) = take 4 (drop k w) @ take 4 (drop (k + 4) w)"
    using take_add [of 4 4 "drop k w"] by (simp add: add.commute)
  also have "\<dots> = le32_bytes (ucast (get_le64 w k)) @ le32_bytes (ucast (drop_bit 32 (get_le64 w k)))"
    using assms F64 by (simp add: le32_bytes_get get_bytes(7,8))
  finally have "take 8 (drop k w) = field_bytes f \<longleftrightarrow>
      le32_bytes (ucast (get_le64 w k)) = le32_bytes (ucast d) \<and>
      le32_bytes (ucast (drop_bit 32 (get_le64 w k))) = le32_bytes (ucast (drop_bit 32 d))"
    by (simp add: F64 append_eq_append_conv le32_bytes_def del: get_bytes)
  then show ?thesis using u64_halves [of "get_le64 w k" d] by (auto simp: F64 le32_bytes_inject)
qed (use assms in \<open>simp_all add: take_drop_Suc le16_bytes_get [symmetric] le32_bytes_get [symmetric]
    le16_bytes_inject le32_bytes_inject\<close>)

fun poke :: "u8 list \<Rightarrow> nat \<Rightarrow> u8 list \<Rightarrow> u8 list" where
  "poke p k [] = p"
| "poke p k (b # bs) = poke (p[k := b]) (Suc k) bs"

lemma poke_pieces: "k + length bs \<le> length p \<Longrightarrow> poke p k bs = take k p @ bs @ drop (k + length bs) p"
proof (induction p k bs rule: poke.induct)
  case (2 p k b bs)
  then show ?case by (simp add: take_Suc_conv_app_nth nth_list_update)
qed simp

lemma put_poke:
  "put_u8 p k b = poke p k [b]" "put_le16 p k h = poke p k (le16_bytes h)"
  "put_le32 p k v = poke p k (le32_bytes v)"
  "put_le64 p k d = poke (poke p k (le32_bytes (ucast d))) (k + 4) (le32_bytes (ucast (drop_bit 32 d)))"
  by (simp_all add: put_u8_def put_le16_def put_le32_def put_le64_def le16_bytes_def le32_bytes_def
      eval_nat_numeral)

lemma put_field_pieces:
  assumes "k + field_size f \<le> length p"
  shows "put_field p k f = take k p @ field_bytes f @ drop (k + field_size f) p"
proof (cases f)
  case (F64 d)
  have l: "length (le32_bytes v) = 4" for v by (simp add: le32_bytes_def)
  show ?thesis
    using assms by (simp add: F64 put_poke poke_pieces l add.commute)
qed (use assms in \<open>simp_all add: put_poke poke_pieces le16_bytes_def le32_bytes_def eval_nat_numeral del: poke.simps\<close>)

subsection \<open>Layouts\<close>

text \<open>Fields at ascending offsets between \<open>lo\<close> and \<open>hi\<close>, and the bytes they make.\<close>

fun ascending :: "nat \<Rightarrow> (nat \<times> wire_field) list \<Rightarrow> nat \<Rightarrow> bool" where
  "ascending lo [] hi \<longleftrightarrow> lo \<le> hi"
| "ascending lo ((k, f) # fs) hi \<longleftrightarrow> lo \<le> k \<and> ascending (k + field_size f) fs hi"

fun layout :: "nat \<Rightarrow> (nat \<times> wire_field) list \<Rightarrow> nat \<Rightarrow> u8 list" where
  "layout lo [] hi = replicate (hi - lo) 0"
| "layout lo ((k, f) # fs) hi = replicate (k - lo) 0 @ field_bytes f @ layout (k + field_size f) fs hi"

text \<open>A message has the fields, and zeros everywhere else.\<close>

fun fields_ok :: "nat \<Rightarrow> (nat \<times> wire_field) list \<Rightarrow> nat \<Rightarrow> u8 list \<Rightarrow> bool" where
  "fields_ok lo [] hi w \<longleftrightarrow> all_zero w lo (hi - lo)"
| "fields_ok lo ((k, f) # fs) hi w \<longleftrightarrow>
     all_zero w lo (k - lo) \<and> has_field w k f \<and> fields_ok (k + field_size f) fs hi w"

lemma ascending_le: "ascending lo fs hi \<Longrightarrow> lo \<le> hi"
  by (induction lo fs hi rule: ascending.induct) auto

lemma ascending_mono: "ascending lo fs hi \<Longrightarrow> hi \<le> hi' \<Longrightarrow> ascending lo fs hi'"
  by (induction lo fs hi rule: ascending.induct) auto

lemma length_layout: "ascending lo fs hi \<Longrightarrow> length (layout lo fs hi) = hi - lo"
proof (induction lo fs hi rule: ascending.induct)
  case (2 lo k f fs hi)
  then show ?case using ascending_le [of "k + field_size f" fs hi] by simp
qed simp

lemma all_zero_replicate: "k + n \<le> length w \<Longrightarrow> all_zero w k n \<longleftrightarrow> take n (drop k w) = replicate n 0"
  by (auto simp: all_zero_iff list_eq_iff_nth_eq)

text \<open>Writing the fields into zeros from \<open>lo\<close> on gives the layout.\<close>

lemma put_fields_layout:
  assumes "ascending lo fs hi" and "lo \<le> length xs" "length xs = lo"
  shows "put_fields (xs @ replicate (hi - lo) 0 @ ys) fs = xs @ layout lo fs hi @ ys"
  using assms
proof (induction lo fs hi arbitrary: xs rule: ascending.induct)
  case (2 lo k f fs hi)
  let ?e = "k + field_size f"
  have le: "lo \<le> k" "?e \<le> hi" using "2.prems"(1) ascending_le [of ?e fs hi] by auto
  let ?p = "xs @ replicate (hi - lo) 0 @ ys"
  have "take k ?p = xs @ replicate (k - lo) 0" using le "2.prems" by (simp add: min_def)
  moreover have "drop ?e ?p = replicate (hi - ?e) 0 @ ys" using le "2.prems" by simp
  ultimately have "put_field ?p k f = (xs @ replicate (k - lo) 0 @ field_bytes f) @ replicate (hi - ?e) 0 @ ys"
    using le "2.prems" by (simp add: put_field_pieces)
  moreover have "length (xs @ replicate (k - lo) 0 @ field_bytes f) = ?e" using le "2.prems" by simp
  ultimately show ?case
    using "2.IH" [of "xs @ replicate (k - lo) 0 @ field_bytes f"] "2.prems"(1) by simp
qed simp

lemma fields_ok_layout:
  assumes "ascending lo fs hi" and "hi \<le> length w"
  shows "fields_ok lo fs hi w \<longleftrightarrow> take (hi - lo) (drop lo w) = layout lo fs hi"
  using assms
proof (induction lo fs hi rule: ascending.induct)
  case (1 lo hi)
  then show ?case by (simp add: all_zero_replicate)
next
  case (2 lo k f fs hi)
  let ?e = "k + field_size f"
  have le: "lo \<le> k" "?e \<le> hi" using "2.prems"(1) ascending_le [of ?e fs hi] by auto
  have "hi - lo = (k - lo) + (field_size f + (hi - ?e))" using le by simp
  then have "take (hi - lo) (drop lo w)
      = take (k - lo) (drop lo w) @ take (field_size f + (hi - ?e)) (drop (k - lo) (drop lo w))"
    by (simp only: take_add)
  also have "\<dots> = take (k - lo) (drop lo w) @ take (field_size f) (drop k w) @ take (hi - ?e) (drop ?e w)"
  proof -
    have "drop (k - lo) (drop lo w) = drop k w" using le by simp
    moreover have "take (field_size f + (hi - ?e)) (drop k w)
        = take (field_size f) (drop k w) @ take (hi - ?e) (drop ?e w)"
      by (simp only: take_add drop_drop add.commute)
    ultimately show ?thesis by simp
  qed
  finally have "take (hi - lo) (drop lo w)
      = take (k - lo) (drop lo w) @ take (field_size f) (drop k w) @ take (hi - ?e) (drop ?e w)" .
  moreover have "length (take (k - lo) (drop lo w)) = k - lo" "length (take (field_size f) (drop k w)) = field_size f"
    using le "2.prems"(2) by simp_all
  ultimately show ?case
    using le "2.prems" "2.IH" by (simp add: has_field_iff all_zero_replicate append_eq_append_conv)
qed

text \<open>The result of writing the fields into a zeroed buffer.\<close>

lemma put_fields_iff:
  assumes "ascending 0 fs n" and "length w = n"
  shows "put_fields (replicate n 0) fs = w \<longleftrightarrow> fields_ok 0 fs n w"
  using put_fields_layout [OF assms(1), of "[]" "[]"] fields_ok_layout [OF assms(1), of w] assms(2) by auto

lemma length_put_fields: "ascending 0 fs n \<Longrightarrow> length (put_fields (replicate n 0) fs) = n"
  using put_fields_layout [of 0 fs n "[]" "[]"] length_layout [of 0 fs n] by simp

text \<open>Reserved fields that a decoder reads as numbers.\<close>

lemma all_zero_add:
  "k + m + n \<le> length w \<Longrightarrow> all_zero w k (m + n) \<longleftrightarrow> all_zero w k m \<and> all_zero w (k + m) n"
  unfolding all_zero_def by (simp add: take_add add.commute)

lemma all_zero_0 [simp]: "all_zero w k 0"
  by (simp add: all_zero_def)

lemma get_zero_iff:
  "k + 1 \<le> length w \<Longrightarrow> all_zero w k 1 \<longleftrightarrow> w ! k = 0"
  "k + 2 \<le> length w \<Longrightarrow> all_zero w k 2 \<longleftrightarrow> get_le16 w k = 0"
  "k + 4 \<le> length w \<Longrightarrow> all_zero w k 4 \<longleftrightarrow> get_le32 w k = 0"
  "k + 8 \<le> length w \<Longrightarrow> all_zero w k 8 \<longleftrightarrow> get_le64 w k = 0"
  using has_field_iff [of k "F8 0" w] has_field_iff [of k "F16 0" w] has_field_iff [of k "F32 0" w]
    has_field_iff [of k "F64 0" w]
  by (simp_all add: all_zero_replicate le16_bytes_def le32_bytes_def eval_nat_numeral)

subsection \<open>CRC-32\<close>

text \<open>\<open>crc32\<close> of the first \<open>n\<close> bytes, one bit at a time with the reversed polynomial.\<close>

definition crc_bit :: "u32 \<Rightarrow> u32" where
  "crc_bit crc = drop_bit 1 crc XOR (0xedb88320 AND - (crc AND 1))"

definition crc_byte :: "u32 \<Rightarrow> u8 \<Rightarrow> u32" where
  "crc_byte crc b = (crc_bit ^^ 8) (crc XOR ucast b)"

definition crc32 :: "u8 list \<Rightarrow> nat \<Rightarrow> u32" where
  "crc32 p n = NOT (foldl crc_byte (- 1) (take n p))"

lemma crc32_cong: "take n p = take n q \<Longrightarrow> crc32 p n = crc32 q n"
  by (simp add: crc32_def)

text \<open>The step is injective: the polynomial has its top bit set, so the bit shifted out can be
  read off the result.\<close>

lemma crc_bit_odd: "bit crc 0 \<Longrightarrow> crc_bit crc = drop_bit 1 crc XOR 0xedb88320"
  and crc_bit_even: "\<not> bit crc 0 \<Longrightarrow> crc_bit crc = drop_bit 1 crc"
  by (simp_all add: crc_bit_def and_one_eq bit_0 odd_iff_mod_2_eq_one even_iff_mod_2_eq_zero)

lemma bit_crc_bit:
  assumes "n < 32"
  shows "bit (crc_bit crc) n \<longleftrightarrow> (n < 31 \<and> bit crc (Suc n)) \<noteq> (bit crc 0 \<and> bit (0xedb88320 :: u32) n)"
  using assms by (cases "bit crc 0") (auto simp: crc_bit_odd crc_bit_even bit_simps dest: bit_imp_le_length)

lemma crc_bit_inj: "inj crc_bit"
proof (rule injI)
  fix a b assume e: "crc_bit a = crc_bit b"
  have "bit (crc_bit c) 31 \<longleftrightarrow> bit c 0" for c
    by (subst bit_crc_bit) simp_all
  then have z: "bit a 0 \<longleftrightarrow> bit b 0" using e by metis
  show "a = b"
  proof (rule bit_word_eqI)
    fix n assume n: "n < LENGTH(32)"
    show "bit a n \<longleftrightarrow> bit b n"
    proof (cases n)
      case (Suc m)
      then have "bit (crc_bit a) m \<longleftrightarrow> bit (crc_bit b) m" "m < 31" "m < 32" using e n by simp_all
      then show ?thesis using z Suc by (auto simp: bit_crc_bit)
    qed (use z in simp)
  qed
qed

lemma xor_cancel:
  fixes x y z :: u32
  shows "x XOR z = y XOR z \<longleftrightarrow> x = y" and "z XOR x = z XOR y \<longleftrightarrow> x = y"
proof -
  have "(x XOR z) XOR z = x" for x :: u32 by (simp add: xor.assoc)
  then show "x XOR z = y XOR z \<longleftrightarrow> x = y" by metis
  then show "z XOR x = z XOR y \<longleftrightarrow> x = y" by (simp only: xor.commute [of z])
qed

lemma crc_byte_inj: "crc_byte c b = crc_byte c' b' \<longleftrightarrow> c XOR ucast b = c' XOR ucast b'"
  unfolding crc_byte_def by (rule inj_eq [OF inj_fn [OF crc_bit_inj]])

lemma foldl_crc_inj: "foldl crc_byte c bs = foldl crc_byte c' bs \<longleftrightarrow> c = c'"
proof (induction bs arbitrary: c c')
  case (Cons b bs)
  then show ?case by (simp add: crc_byte_inj xor_cancel)
qed simp

lemma ucast_u8_inject: "(ucast (a::u8) :: u32) = ucast b \<longleftrightarrow> a = b"
proof -
  have "ucast (ucast (c::u8) :: u32) = c" for c
    by (rule bit_word_eqI) (simp add: bit_simps)
  then show ?thesis by metis
qed

text \<open>Changing one byte changes the CRC.\<close>

lemma crc32_detects:
  assumes "i < n" and "n \<le> length p" and "b \<noteq> p ! i"
  shows "crc32 (p[i := b]) n \<noteq> crc32 p n"
proof
  assume e: "crc32 (p[i := b]) n = crc32 p n"
  have i: "i < length p" using assms by simp
  let ?c = "foldl crc_byte (- 1) (take i p)"
  obtain r where r: "r = drop (Suc i) (take n p)" by simp
  have q: "take n (p[i := b]) = take i p @ b # r"
    using assms(1) i by (simp add: r upd_conv_take_nth_drop take_Cons' drop_take)
  have p: "take n p = take i p @ p ! i # r"
    using assms(1) i id_take_nth_drop [of i "take n p"] by (simp add: r min_def)
  from e have "foldl crc_byte (- 1) (take n (p[i := b])) = foldl crc_byte (- 1) (take n p)"
    by (metis crc32_def bit.compl_eq_compl_iff)
  then have "foldl crc_byte (crc_byte ?c b) r = foldl crc_byte (crc_byte ?c (p ! i)) r"
    by (simp only: q p foldl_append foldl_Cons)
  then have "?c XOR ucast b = ?c XOR ucast (p ! i)" by (simp only: foldl_crc_inj crc_byte_inj)
  then have "(ucast b :: u32) = ucast (p ! i)" by (simp only: xor_cancel)
  then show False using assms(3) by (simp only: ucast_u8_inject)
qed

text \<open>A record that ends with the CRC of what precedes it.\<close>

lemma sealed_iff:
  assumes "ascending 0 fs m" and "n = m + 4" and "length w = n"
  shows "put_le32 (put_fields (replicate n 0) fs) m (crc32 (put_fields (replicate n 0) fs) m) = w
    \<longleftrightarrow> fields_ok 0 fs m w \<and> get_le32 w m = crc32 w m"
proof -
  let ?p = "put_fields (replicate n 0) fs" and ?l = "layout 0 fs m"
  have p: "?p = ?l @ replicate 4 0"
    using put_fields_layout [OF assms(1), of "[]" "replicate 4 0"] assms(2) by (simp add: replicate_add)
  have l: "length ?l = m" using length_layout [OF assms(1)] by simp
  have crc: "crc32 ?p m = crc32 ?l m" by (rule crc32_cong) (simp add: p l)
  have put: "put_le32 ?p m v = ?l @ le32_bytes v" for v
    using put_field_pieces [of m "F32 v" ?p] l by (simp add: p)
  have ok: "fields_ok 0 fs m w \<longleftrightarrow> take m w = ?l"
    using fields_ok_layout [OF assms(1), of w] assms(2,3) by simp
  have get: "get_le32 w m = v \<longleftrightarrow> drop m w = le32_bytes v" for v
    using has_field_iff [of m "F32 v" w] assms(2,3) by simp
  have "?l @ le32_bytes (crc32 ?l m) = w \<longleftrightarrow> take m w = ?l \<and> drop m w = le32_bytes (crc32 ?l m)"
    using l by (metis append_eq_conv_conj)
  also have "\<dots> \<longleftrightarrow> take m w = ?l \<and> drop m w = le32_bytes (crc32 w m)"
    using l crc32_cong [of m ?l w] by auto
  finally show ?thesis by (simp add: put crc ok get)
qed

end
