(* ===== verification/Scan_Wire.thy ===== *)
theory Scan_Wire
  imports Wire_Records Scan_Policy
begin

unbundle bit_operations_syntax

text \<open>
  The common part of the scan messages (\<open>iiod/spf-scan-protocol.c\<close>): the header of 16 bytes, the
  CRC at the end, the versions each message may have, the sample rates each version allows; and
  the messages about a running session: time queries and times, control and status.

  An encoder gets the size of the caller's buffer and returns the bytes it writes there.
\<close>

abbreviation (input) MAGIC_CAPS :: u32 where "MAGIC_CAPS \<equiv> 0x50435053"
abbreviation (input) MAGIC_SETUP :: u32 where "MAGIC_SETUP \<equiv> 0x51535053"
abbreviation (input) MAGIC_VISIT :: u32 where "MAGIC_VISIT \<equiv> 0x52565053"
abbreviation (input) MAGIC_FEEDBACK :: u32 where "MAGIC_FEEDBACK \<equiv> 0x42465053"
abbreviation (input) MAGIC_ACK :: u32 where "MAGIC_ACK \<equiv> 0x41465053"
abbreviation (input) MAGIC_TERMINAL :: u32 where "MAGIC_TERMINAL \<equiv> 0x54465053"
abbreviation (input) MAGIC_TIME_QUERY :: u32 where "MAGIC_TIME_QUERY \<equiv> 0x51545053"
abbreviation (input) MAGIC_TIME :: u32 where "MAGIC_TIME \<equiv> 0x41545053"
abbreviation (input) MAGIC_CONTROL :: u32 where "MAGIC_CONTROL \<equiv> 0x51435053"
abbreviation (input) MAGIC_STATUS :: u32 where "MAGIC_STATUS \<equiv> 0x53435053"
abbreviation (input) PROTOCOL_FEATURES :: u32 where "PROTOCOL_FEATURES \<equiv> 0xff"

subsection \<open>Header and CRC\<close>

definition header :: "u8 list \<Rightarrow> u32 \<Rightarrow> u16 \<Rightarrow> u32 \<Rightarrow> u8 list" where
  "header p magic bytes flags = put_fields p
     [(0, F32 magic), (4, F16 SCAN_PROTOCOL_VERSION), (6, F16 bytes), (8, F32 PROTOCOL_FEATURES),
      (12, F32 flags)]"

definition rate_header :: "u8 list \<Rightarrow> u16 \<Rightarrow> u8 list" where
  "rate_header p version = (if version \<noteq> 0 then put_le16 p 4 version else p)"

definition rate_version :: "u8 list \<Rightarrow> u16" where
  "rate_version p = (if p ! 4 = ucast SCAN_PROTOCOL_VERSION then 0 else ucast (p ! 4))"

text \<open>\<open>put32(p + n, crc32(p, n))\<close>.\<close>

definition seal :: "u8 list \<Rightarrow> nat \<Rightarrow> u8 list" where
  "seal p n = put_le32 p n (crc32 p n)"

text \<open>The versions that \<open>check\<close> accepts for a message.\<close>

definition version_accepted :: "u32 \<Rightarrow> u16 \<Rightarrow> bool" where
  "version_accepted magic v \<longleftrightarrow> v = SCAN_PROTOCOL_VERSION \<or>
     (magic = MAGIC_CAPS \<or> magic = MAGIC_SETUP \<or> magic = MAGIC_VISIT) \<and>
       (v = RUNTIME_RATE_VERSION \<or> v = RANDOM_DWELL_VERSION \<or> v = FIXED_DWELL_VERSION \<or>
        v = CONTINUOUS_VERSION) \<or>
     (magic = MAGIC_CONTROL \<or> magic = MAGIC_STATUS) \<and> v = CONTINUOUS_VERSION"

definition scan_check :: "u8 list \<Rightarrow> nat \<Rightarrow> u32 \<Rightarrow> u32 \<Rightarrow> int" where
  "scan_check p expected magic flags =
     (if length p \<noteq> expected then - EMSGSIZE
      else if get_le32 p 0 \<noteq> magic \<or> \<not> version_accepted magic (get_le16 p 4) \<or>
          unat (get_le16 p 6) \<noteq> expected then - EPROTONOSUPPORT
      else if get_le32 p 8 \<noteq> PROTOCOL_FEATURES \<or> get_le32 p 12 \<noteq> flags \<or>
          get_le32 p (expected - 4) \<noteq> crc32 p (expected - 4) then - EBADMSG
      else 0)"

definition digest_present :: "u8 list \<Rightarrow> bool" where
  "digest_present d \<longleftrightarrow> \<not> all_zero d 0 32"

lemma scan_check_0:
  "scan_check p expected magic flags = 0 \<longleftrightarrow> length p = expected \<and> get_le32 p 0 = magic \<and>
     version_accepted magic (get_le16 p 4) \<and> unat (get_le16 p 6) = expected \<and>
     get_le32 p 8 = PROTOCOL_FEATURES \<and> get_le32 p 12 = flags \<and>
     get_le32 p (expected - 4) = crc32 p (expected - 4)"
  by (auto simp: scan_check_def)

text \<open>A zero field of the header writes the protocol's first version.\<close>

definition wire_version :: "u16 \<Rightarrow> u16" where
  "wire_version v = (if v = 0 then SCAN_PROTOCOL_VERSION else v)"

definition header_fields :: "u32 \<Rightarrow> u16 \<Rightarrow> u16 \<Rightarrow> u32 \<Rightarrow> (nat \<times> wire_field) list" where
  "header_fields magic version bytes flags =
     [(0, F32 magic), (4, F16 version), (6, F16 bytes), (8, F32 PROTOCOL_FEATURES), (12, F32 flags)]"

lemma header_fields:
  assumes "16 \<le> n"
  shows "rate_header (put_fields (replicate n 0) (header_fields magic SCAN_PROTOCOL_VERSION bytes flags)) v
      = put_fields (replicate n 0) (header_fields magic (wire_version v) bytes flags)"
    and "header (replicate n 0) magic bytes flags
      = put_fields (replicate n 0) (header_fields magic SCAN_PROTOCOL_VERSION bytes flags)"
proof -
  show "header (replicate n 0) magic bytes flags
      = put_fields (replicate n 0) (header_fields magic SCAN_PROTOCOL_VERSION bytes flags)"
    by (simp add: header_def header_fields_def)
  have put: "put_fields (replicate n 0) (header_fields magic u bytes flags) = w
      \<longleftrightarrow> fields_ok 0 (header_fields magic u bytes flags) n w" if "length w = n" for u w
    by (rule put_fields_iff [OF _ that]) (use assms in \<open>simp add: header_fields_def\<close>)
  define p where "p = put_fields (replicate n 0) (header_fields magic SCAN_PROTOCOL_VERSION bytes flags)"
  have l: "length p = n" unfolding p_def
    by (rule length_put_fields) (use assms in \<open>simp add: header_fields_def\<close>)
  have "fields_ok 0 (header_fields magic SCAN_PROTOCOL_VERSION bytes flags) n p"
    using put [OF l, of SCAN_PROTOCOL_VERSION] p_def by metis
  then have "fields_ok 0 (header_fields magic v bytes flags) n (put_le16 p 4 v)"
    using assms l by (simp add: header_fields_def get_put_disjoint all_zero_iff nth_put_outside)
  then have "put_le16 p 4 v = put_fields (replicate n 0) (header_fields magic v bytes flags)"
    using put [of "put_le16 p 4 v" v] l by simp
  then show "rate_header (put_fields (replicate n 0) (header_fields magic SCAN_PROTOCOL_VERSION bytes flags)) v
      = put_fields (replicate n 0) (header_fields magic (wire_version v) bytes flags)"
    by (simp add: rate_header_def wire_version_def p_def)
qed

text \<open>What a message must contain to be the sealed record with a given header and given fields.\<close>

lemma seal_iff:
  assumes "ascending 16 fs m" and "n = m + 4"
  shows "seal (put_fields (put_fields (replicate n 0) (header_fields magic v bytes flags)) fs) m = w
    \<longleftrightarrow> length w = n \<and> get_le32 w 0 = magic \<and> get_le16 w 4 = v \<and> get_le16 w 6 = bytes \<and>
      get_le32 w 8 = PROTOCOL_FEATURES \<and> get_le32 w 12 = flags \<and> fields_ok 16 fs m w \<and>
      get_le32 w m = crc32 w m"
proof (cases "length w = n")
  case True
  have "ascending 0 (header_fields magic v bytes flags @ fs) m"
    using assms(1) by (simp add: header_fields_def)
  from sealed_iff [OF this assms(2) True] show ?thesis
    using True by (simp add: seal_def header_fields_def flip: put_fields_append)
next
  case False
  have "ascending 0 (header_fields magic v bytes flags @ fs) n"
    using ascending_mono [OF assms(1), of n] assms(2) by (simp add: header_fields_def)
  from length_put_fields [OF this]
  have "length (seal (put_fields (put_fields (replicate n 0) (header_fields magic v bytes flags)) fs) m) = n"
    by (simp add: seal_def put_fields_append)
  then show ?thesis using False by auto
qed

text \<open>A single changed byte makes \<open>check\<close> fail.\<close>

lemma get_le32_update:
  assumes "k \<le> i" "i < k + 4" "k + 4 \<le> length w" and "b \<noteq> w ! i"
  shows "get_le32 (w[i := b]) k \<noteq> get_le32 w k"
proof
  assume e: "get_le32 (w[i := b]) k = get_le32 w k"
  have "take 4 (drop k (w[i := b])) = take 4 (drop k w)"
    using le32_bytes_get [of k w] le32_bytes_get [of k "w[i := b]"] assms(3) e by simp
  then have "take 4 (drop k (w[i := b])) ! (i - k) = take 4 (drop k w) ! (i - k)" by simp
  then show False using assms by simp
qed

lemma scan_check_corrupt:
  assumes ok: "scan_check w n magic flags = 0" and i: "i < n" and b: "b \<noteq> w ! i" and n: "4 \<le> n"
  shows "scan_check (w[i := b]) n magic' flags' \<noteq> 0"
proof (cases "i < n - 4")
  case True
  have "crc32 (w[i := b]) (n - 4) \<noteq> crc32 w (n - 4)"
    using crc32_detects [OF True _ b] ok by (simp add: scan_check_0)
  moreover have "get_le32 (w[i := b]) (n - 4) = get_le32 w (n - 4)"
    using True by (simp add: get_le32_def)
  ultimately show ?thesis using ok by (simp add: scan_check_0)
next
  case False
  have "get_le32 (w[i := b]) (n - 4) \<noteq> get_le32 w (n - 4)"
    using get_le32_update [OF _ _ _ b, of "n - 4"] False i n ok by (simp add: scan_check_0)
  moreover have "crc32 (w[i := b]) (n - 4) = crc32 w (n - 4)"
    by (rule crc32_cong) (use False in simp)
  ultimately show ?thesis using ok by (simp add: scan_check_0)
qed

text \<open>The version a decoder stores, against the one the encoder wrote.\<close>

lemma rate_version_get:
  assumes "get_le16 p 4 = v" and "unat v < 256"
  shows "rate_version p = (if v = 1 then 0 else v)"
proof -
  have p4: "p ! 4 = ucast v" using get_bytes(1) [of p 4] assms(1) by simp
  have "ucast (ucast v :: u8) = v"
    using assms(2) by (simp add: word_unat_eq_iff unsigned_ucast_eq take_bit_eq_mod unat_mod)
  then show ?thesis
    using p4 by (auto simp: rate_version_def)
qed

lemma version_accepted_small: "version_accepted magic v \<Longrightarrow> unat v < 256"
  by (auto simp: version_accepted_def)

subsection \<open>Time queries and times\<close>

record scan_time_query =
  tq_request :: u64
  tq_session :: u64
  tq_generation :: u64

record scan_time =
  tm_identity :: scan_time_query
  tm_boot_id :: "u8 list"
  tm_epoch :: u64
  tm_counter :: u64
  tm_before_ns :: u64
  tm_after_ns :: u64
  tm_sample_rate_hz :: u32
  tm_maximum_age_ns :: u64

definition time_query_encode :: "nat \<Rightarrow> scan_time_query \<Rightarrow> u8 list res" where
  "time_query_encode bytes q =
     (if tq_request q = 0 \<or> tq_session q = 0 \<or> tq_generation q = 0 then Inl (- EINVAL)
      else if bytes < 48 then Inl (- ENOSPC)
      else let p = header (replicate 48 0) MAGIC_TIME_QUERY 48 1;
          p = put_fields p [(16, F64 (tq_request q)), (24, F64 (tq_session q)),
            (32, F64 (tq_generation q))]
        in Inr (seal p 44))"

definition time_query_decode :: "u8 list \<Rightarrow> scan_time_query res" where
  "time_query_decode p =
     (let ret = scan_check p 48 MAGIC_TIME_QUERY 1 in
      if ret \<noteq> 0 then Inl ret
      else if get_le32 p 40 \<noteq> 0 \<or> get_le64 p 16 = 0 \<or> get_le64 p 24 = 0 \<or> get_le64 p 32 = 0
      then Inl (- EINVAL)
      else Inr \<lparr>tq_request = get_le64 p 16, tq_session = get_le64 p 24,
        tq_generation = get_le64 p 32\<rparr>)"

definition time_encode :: "nat \<Rightarrow> scan_time \<Rightarrow> u8 list res" where
  "time_encode bytes t =
     (if tq_request (tm_identity t) = 0 \<or> tq_session (tm_identity t) = 0 \<or>
         tq_generation (tm_identity t) = 0 \<or> all_zero (tm_boot_id t) 0 16 \<or> tm_epoch t = 0 \<or>
         tm_sample_rate_hz t = 0 \<or> tm_after_ns t < tm_before_ns t
      then Inl (- EINVAL)
      else if bytes < 128 then Inl (- ENOSPC)
      else let p = header (replicate 128 0) MAGIC_TIME 128 1;
          p = put_fields p [(16, F64 (tq_request (tm_identity t))),
            (24, F64 (tq_session (tm_identity t))), (32, F64 (tq_generation (tm_identity t))),
            (40, FBytes (tm_boot_id t)), (56, F64 (tm_epoch t)), (64, F64 (tm_counter t)),
            (72, F64 (tm_before_ns t)), (80, F64 (tm_after_ns t)),
            (88, F32 (tm_sample_rate_hz t)), (92, F32 64), (96, F64 (tm_maximum_age_ns t))]
        in Inr (seal p 124))"

definition time_read :: "u8 list \<Rightarrow> scan_time" where
  "time_read p = \<lparr>tm_identity = \<lparr>tq_request = get_le64 p 16, tq_session = get_le64 p 24,
          tq_generation = get_le64 p 32\<rparr>, tm_boot_id = take 16 (drop 40 p),
        tm_epoch = get_le64 p 56, tm_counter = get_le64 p 64, tm_before_ns = get_le64 p 72,
        tm_after_ns = get_le64 p 80, tm_sample_rate_hz = get_le32 p 88,
        tm_maximum_age_ns = get_le64 p 96\<rparr>"

definition time_decode :: "u8 list \<Rightarrow> scan_time res" where
  "time_decode p =
     (let ret = scan_check p 128 MAGIC_TIME 1 in
      if ret \<noteq> 0 then Inl ret
      else if get_le32 p 92 \<noteq> 64 \<or> \<not> all_zero p 104 20 then Inl (- EINVAL)
      else let t = time_read p
        in case time_encode 128 t of Inl e \<Rightarrow> Inl e | Inr w \<Rightarrow> Inr t)"

subsection \<open>Control and status\<close>

record scan_control =
  co_request :: u64
  co_session :: u64
  co_generation :: u64
  co_flags :: u32

record scan_status =
  ss_identity :: scan_control
  ss_planned :: u64
  ss_delivered :: u64
  ss_counter :: u64
  ss_valid_start :: u64
  ss_valid_end :: u64
  ss_sweep :: u64
  ss_state :: u32
  ss_target :: u32
  ss_queued_visits :: u32
  ss_error :: i32
  ss_terminal_state :: u32
  ss_terminal_reason :: u32
  ss_restore_after :: u64
  ss_restored_flags :: u32

definition control_encode :: "nat \<Rightarrow> scan_control \<Rightarrow> u8 list res" where
  "control_encode bytes q =
     (if co_request q = 0 \<or> co_session q = 0 \<or> co_generation q = 0 \<or>
         (co_flags q \<noteq> 1 \<and> co_flags q \<noteq> 2) then Inl (- EINVAL)
      else if bytes < 48 then Inl (- ENOSPC)
      else let p = header (replicate 48 0) MAGIC_CONTROL 48 (co_flags q);
          p = rate_header p CONTINUOUS_VERSION;
          p = put_fields p [(16, F64 (co_request q)), (24, F64 (co_session q)),
            (32, F64 (co_generation q))]
        in Inr (seal p 44))"

definition control_decode :: "u8 list \<Rightarrow> scan_control res" where
  "control_decode p =
     (if length p \<noteq> 48 then Inl (- EMSGSIZE)
      else let flags = get_le32 p 12 in
      if flags \<noteq> 1 \<and> flags \<noteq> 2 then Inl (- EINVAL)
      else let ret = scan_check p 48 MAGIC_CONTROL flags in
      if ret \<noteq> 0 then Inl ret
      else if p ! 4 \<noteq> ucast CONTINUOUS_VERSION \<or> get_le32 p 40 \<noteq> 0 \<or> get_le64 p 16 = 0 \<or>
          get_le64 p 24 = 0 \<or> get_le64 p 32 = 0 then Inl (- EINVAL)
      else Inr \<lparr>co_request = get_le64 p 16, co_session = get_le64 p 24,
        co_generation = get_le64 p 32, co_flags = flags\<rparr>)"

definition status_invalid :: "scan_status \<Rightarrow> bool" where
  "status_invalid s \<longleftrightarrow> co_request (ss_identity s) = 0 \<or> co_session (ss_identity s) = 0 \<or>
     co_generation (ss_identity s) = 0 \<or> ss_state s < 1 \<or> 4 < ss_state s"

definition status_encode :: "nat \<Rightarrow> scan_status \<Rightarrow> u8 list res" where
  "status_encode bytes s =
     (if status_invalid s then Inl (- EINVAL)
      else if bytes < 128 then Inl (- ENOSPC)
      else let p = header (replicate 128 0) MAGIC_STATUS 128 1;
          p = rate_header p CONTINUOUS_VERSION;
          p = put_fields p [(16, F64 (co_request (ss_identity s))),
            (24, F64 (co_session (ss_identity s))), (32, F64 (co_generation (ss_identity s))),
            (40, F64 (ss_planned s)), (48, F64 (ss_delivered s)), (56, F64 (ss_counter s)),
            (64, F64 (ss_valid_start s)), (72, F64 (ss_valid_end s)), (80, F64 (ss_sweep s)),
            (88, F32 (ss_state s)), (92, F32 (ss_target s)), (96, F32 (ss_queued_visits s)),
            (100, F32 (ss_error s)), (104, F32 (ss_terminal_state s)),
            (108, F32 (ss_terminal_reason s)), (112, F64 (ss_restore_after s)),
            (120, F32 (ss_restored_flags s))]
        in Inr (seal p 124))"

definition status_read :: "u8 list \<Rightarrow> scan_status" where
  "status_read p = \<lparr>ss_identity = \<lparr>co_request = get_le64 p 16, co_session = get_le64 p 24,
          co_generation = get_le64 p 32, co_flags = 1\<rparr>,
        ss_planned = get_le64 p 40, ss_delivered = get_le64 p 48, ss_counter = get_le64 p 56,
        ss_valid_start = get_le64 p 64, ss_valid_end = get_le64 p 72, ss_sweep = get_le64 p 80,
        ss_state = get_le32 p 88, ss_target = get_le32 p 92, ss_queued_visits = get_le32 p 96,
        ss_error = get_le32 p 100, ss_terminal_state = get_le32 p 104,
        ss_terminal_reason = get_le32 p 108, ss_restore_after = get_le64 p 112,
        ss_restored_flags = get_le32 p 120\<rparr>"

definition status_decode :: "u8 list \<Rightarrow> scan_status res" where
  "status_decode p =
     (let ret = scan_check p 128 MAGIC_STATUS 1 in
      if ret \<noteq> 0 then Inl ret
      else if p ! 4 \<noteq> ucast CONTINUOUS_VERSION then Inl (- EINVAL)
      else let s = status_read p
        in if status_invalid s then Inl (- EINVAL) else Inr s)"

subsection \<open>Exactness\<close>

text \<open>
  The proofs have one shape: \<open>seal_iff\<close> says which messages the encoder makes, the decoder's tests
  say which it takes, and both are the same conditions on the fields.
\<close>

lemma control_version:
  "version_accepted MAGIC_CONTROL v \<longleftrightarrow> v = 1 \<or> v = 5"
  "version_accepted MAGIC_STATUS v \<longleftrightarrow> v = 1 \<or> v = 5"
  "version_accepted MAGIC_TIME v \<longleftrightarrow> v = 1" "version_accepted MAGIC_TIME_QUERY v \<longleftrightarrow> v = 1"
  by (auto simp: version_accepted_def)

lemma unat_eq_iff_of_nat: "unat (v::u16) = n \<longleftrightarrow> v = of_nat n \<and> n < 2 ^ 16"
  using unsigned_less [of v] by (auto simp: unat_of_nat take_bit_nat_eq_self)

lemma scan_check_continuous:
  assumes "magic = MAGIC_CONTROL \<or> magic = MAGIC_STATUS"
  shows "scan_check p n magic flags = 0 \<and> p ! 4 = ucast CONTINUOUS_VERSION \<longleftrightarrow>
    length p = n \<and> get_le32 p 0 = magic \<and> get_le16 p 4 = CONTINUOUS_VERSION \<and>
    unat (get_le16 p 6) = n \<and> get_le32 p 8 = PROTOCOL_FEATURES \<and> get_le32 p 12 = flags \<and>
    get_le32 p (n - 4) = crc32 p (n - 4)"
proof -
  have "(get_le16 p 4 = 1 \<or> get_le16 p 4 = 5) \<and> p ! 4 = 5 \<longleftrightarrow> get_le16 p 4 = 5"
    using get_bytes(1) [of p 4] by auto
  moreover have "version_accepted magic v \<longleftrightarrow> v = 1 \<or> v = 5" for v
    using assms control_version by auto
  ultimately show ?thesis by (auto simp: scan_check_0)
qed

lemmas codec_simps = header_fields seal_iff get_zero_iff scan_check_0 control_version
  unat_eq_iff_of_nat wire_version_def Let_def

lemma time_query_exact: "time_query_decode w = Inr q \<longleftrightarrow> time_query_encode 48 q = Inr w"
  by (cases q) (auto simp: time_query_encode_def time_query_decode_def codec_simps
      simp del: put_fields.simps cong: conj_cong)

lemma time_read_eq: "time_read w = t \<longleftrightarrow> get_le64 w 16 = tq_request (tm_identity t) \<and>
    get_le64 w 24 = tq_session (tm_identity t) \<and> get_le64 w 32 = tq_generation (tm_identity t) \<and>
    take 16 (drop 40 w) = tm_boot_id t \<and> get_le64 w 56 = tm_epoch t \<and>
    get_le64 w 64 = tm_counter t \<and> get_le64 w 72 = tm_before_ns t \<and>
    get_le64 w 80 = tm_after_ns t \<and> get_le32 w 88 = tm_sample_rate_hz t \<and>
    get_le64 w 96 = tm_maximum_age_ns t"
  by (cases t; cases "tm_identity t") (auto simp: time_read_def)

lemma time_exact:
  "time_decode w = Inr t \<longleftrightarrow> length (tm_boot_id t) = 16 \<and> time_encode 128 t = Inr w"
proof -
  have "time_decode w = Inr t \<longleftrightarrow> scan_check w 128 MAGIC_TIME 1 = 0 \<and> get_le32 w 92 = 64 \<and>
      all_zero w 104 20 \<and> (\<exists>v. time_encode 128 t = Inr v) \<and> time_read w = t"
    by (auto simp: time_decode_def Let_def split: sum.splits)
  moreover have "length (tm_boot_id t) = 16" if "take 16 (drop 40 w) = tm_boot_id t" "length w = 128"
    using that by (auto dest: arg_cong [where f = length])
  ultimately show ?thesis
    by (auto simp: time_encode_def time_read_eq codec_simps simp del: put_fields.simps cong: conj_cong)
qed

lemma control_exact: "control_decode w = Inr q \<longleftrightarrow> control_encode 48 q = Inr w"
proof -
  have "control_decode w = Inr q \<longleftrightarrow>
      (scan_check w 48 MAGIC_CONTROL (co_flags q) = 0 \<and> w ! 4 = ucast CONTINUOUS_VERSION) \<and>
      (co_flags q = 1 \<or> co_flags q = 2) \<and> get_le32 w 40 = 0 \<and> co_request q \<noteq> 0 \<and>
      co_session q \<noteq> 0 \<and> co_generation q \<noteq> 0 \<and> get_le64 w 16 = co_request q \<and>
      get_le64 w 24 = co_session q \<and> get_le64 w 32 = co_generation q"
    by (cases q) (auto simp: control_decode_def Let_def scan_check_0)
  also have "\<dots> \<longleftrightarrow> control_encode 48 q = Inr w"
    unfolding scan_check_continuous [OF disjI1 [OF refl]]
    by (auto simp: control_encode_def codec_simps simp del: put_fields.simps cong: conj_cong)
  finally show ?thesis .
qed

lemma status_read_eq: "status_read w = s \<longleftrightarrow> get_le64 w 16 = co_request (ss_identity s) \<and> get_le64 w 24 = co_session (ss_identity s) \<and>
    get_le64 w 32 = co_generation (ss_identity s) \<and> 1 = co_flags (ss_identity s) \<and> get_le64 w 40 = ss_planned s \<and>
    get_le64 w 48 = ss_delivered s \<and> get_le64 w 56 = ss_counter s \<and>
    get_le64 w 64 = ss_valid_start s \<and> get_le64 w 72 = ss_valid_end s \<and>
    get_le64 w 80 = ss_sweep s \<and> get_le32 w 88 = ss_state s \<and> get_le32 w 92 = ss_target s \<and>
    get_le32 w 96 = ss_queued_visits s \<and> get_le32 w 100 = ss_error s \<and>
    get_le32 w 104 = ss_terminal_state s \<and> get_le32 w 108 = ss_terminal_reason s \<and>
    get_le64 w 112 = ss_restore_after s \<and> get_le32 w 120 = ss_restored_flags s"
  by (auto simp: status_read_def intro!: scan_status.equality scan_control.equality)

lemma status_exact:
  "status_decode w = Inr s \<longleftrightarrow> co_flags (ss_identity s) = 1 \<and> status_encode 128 s = Inr w"
proof -
  have "status_decode w = Inr s \<longleftrightarrow> \<not> status_invalid s \<and>
      (scan_check w 128 MAGIC_STATUS 1 = 0 \<and> w ! 4 = ucast CONTINUOUS_VERSION) \<and> status_read w = s"
    by (auto simp: status_decode_def Let_def)
  also have "\<dots> \<longleftrightarrow> co_flags (ss_identity s) = 1 \<and> status_encode 128 s = Inr w"
    unfolding scan_check_continuous [OF disjI2 [OF refl]]
    by (auto simp: status_encode_def status_read_eq codec_simps simp del: put_fields.simps cong: conj_cong)
  finally show ?thesis .
qed

end
