(* ===== verification/Scan_Messages.thy ===== *)
theory Scan_Messages
  imports Scan_Wire
begin

unbundle bit_operations_syntax

text \<open>
  The messages of a scan session (\<open>iiod/spf-scan-protocol.c\<close>): the server's capabilities, the
  client's setup, the record of a visit, feedback and its acknowledgement, and the terminal record.
  Every message has one validation, which the encoder and the decoder both call.
\<close>

abbreviation (input) RATE_MASK_FIXED :: u32 where "RATE_MASK_FIXED \<equiv> 31"
abbreviation (input) RATE_MASK_RANDOM_DWELL :: u32 where "RATE_MASK_RANDOM_DWELL \<equiv> 369"
abbreviation (input) RATE_MASK_CONTINUOUS :: u32 where "RATE_MASK_CONTINUOUS \<equiv> 369"
abbreviation (input) RATE_1P25M :: u32 where "RATE_1P25M \<equiv> 256"
abbreviation (input) RATE_2P5M :: u32 where "RATE_2P5M \<equiv> 16"
abbreviation (input) RATE_MODE_SETUP_VALIDATED :: u32 where "RATE_MODE_SETUP_VALIDATED \<equiv> 1"
abbreviation (input) RATE_MODE_GAIN_OBSERVATION :: u32 where "RATE_MODE_GAIN_OBSERVATION \<equiv> 2"
abbreviation (input) RATE_MIN :: u32 where "RATE_MIN \<equiv> 520833"
abbreviation (input) RATE_MAX :: u32 where "RATE_MAX \<equiv> 61440000"
abbreviation (input) SCAN_RX1 :: u32 where "SCAN_RX1 \<equiv> 1"
abbreviation (input) SCAN_RX1_RX2 :: u32 where "SCAN_RX1_RX2 \<equiv> 3"
abbreviation (input) FORMAT_CI16 :: u32 where "FORMAT_CI16 \<equiv> 1"
abbreviation (input) SETUP_FLAGS :: u32 where "SETUP_FLAGS \<equiv> 1"
abbreviation (input) VISIT_FLAGS :: u32 where "VISIT_FLAGS \<equiv> 1"
abbreviation (input) VISIT_FLAG_MASK :: u32 where "VISIT_FLAG_MASK \<equiv> 3"
abbreviation (input) TERMINAL_FLAGS :: u32 where "TERMINAL_FLAGS \<equiv> 1"
abbreviation (input) TERMINAL_COMPLETED :: u32 where "TERMINAL_COMPLETED \<equiv> 1"
abbreviation (input) TERMINAL_FAILED :: u32 where "TERMINAL_FAILED \<equiv> 3"
abbreviation (input) RESULT_COMPLETE :: u32 where "RESULT_COMPLETE \<equiv> 1"
abbreviation (input) RESULT_CANCELLED :: u32 where "RESULT_CANCELLED \<equiv> 5"

subsection \<open>Sample rates\<close>

definition rate_flag :: "u32 \<Rightarrow> u32" where
  "rate_flag rate =
     (if rate = 1250000 then 256 else if rate = 2500000 then 16 else if rate = 5000000 then 32
      else if rate = 7500000 then 64 else if rate = 8000000 then 128 else if rate = 10000000 then 1
      else if rate = 15000000 then 2 else if rate = 20000000 then 4
      else if rate = 30000000 then 8 else 0)"

definition rate_valid :: "u32 \<Rightarrow> u16 \<Rightarrow> bool" where
  "rate_valid rate version =
     (if version = 0 \<or> version = SCAN_PROTOCOL_VERSION then rate_flag rate AND RATE_MASK_FIXED \<noteq> 0
      else if version = RANDOM_DWELL_VERSION then rate_flag rate AND RATE_MASK_RANDOM_DWELL \<noteq> 0
      else if version = CONTINUOUS_VERSION then rate_flag rate AND RATE_MASK_CONTINUOUS \<noteq> 0
      else if version = FIXED_DWELL_VERSION then rate = 2500000
      else version = RUNTIME_RATE_VERSION \<and> scan_rate_valid rate)"

subsection \<open>Capabilities\<close>

record scan_caps =
  ca_version :: u16
  ca_rate_mode :: u32
  ca_minimum_rate_hz :: u32
  ca_maximum_rate_hz :: u32
  ca_rate_mask :: u32
  ca_rx_mask :: u32
  ca_formats :: u32
  ca_maximum_targets :: u32
  ca_maximum_profiles :: u32
  ca_minimum_dwell_ms :: u32
  ca_maximum_dwell_ms :: u32
  ca_maximum_duration_ms :: u32
  ca_maximum_queue_bytes :: u64
  ca_maximum_queue_age_ms :: u32
  ca_feedback_capacity :: u32
  ca_maximum_feedback_age_ms :: u32
  ca_maximum_application_delay_ms :: u32
  ca_maximum_bandwidth_hz :: u32
  ca_source_counter_bits :: u32

definition caps_default :: scan_caps where
  "caps_default = \<lparr>ca_version = 0, ca_rate_mode = 0, ca_minimum_rate_hz = 0,
     ca_maximum_rate_hz = 0, ca_rate_mask = RATE_MASK_FIXED, ca_rx_mask = SCAN_RX1_RX2,
     ca_formats = FORMAT_CI16, ca_maximum_targets = SCAN_TARGETS,
     ca_maximum_profiles = SCAN_TARGETS, ca_minimum_dwell_ms = 20, ca_maximum_dwell_ms = 240,
     ca_maximum_duration_ms = 300000, ca_maximum_queue_bytes = 200000000,
     ca_maximum_queue_age_ms = 10000, ca_feedback_capacity = ACK_CAPACITY,
     ca_maximum_feedback_age_ms = 10000, ca_maximum_application_delay_ms = 10000,
     ca_maximum_bandwidth_hz = 56000000, ca_source_counter_bits = 64\<rparr>"

definition caps_validate :: "scan_caps \<Rightarrow> int" where
  "caps_validate c = (let v = ca_version c in
     if (if v = CONTINUOUS_VERSION then
           ca_rate_mode c \<noteq> 0 \<or> ca_minimum_rate_hz c \<noteq> 0 \<or> ca_maximum_rate_hz c \<noteq> 0 \<or>
           (ca_rate_mask c \<noteq> RATE_2P5M \<and> ca_rate_mask c \<noteq> RATE_MASK_CONTINUOUS) \<or>
           ca_minimum_dwell_ms c \<noteq> 20 \<or> ca_maximum_dwell_ms c \<noteq> 20 \<or>
           ca_maximum_duration_ms c \<noteq> 0
         else if v = RANDOM_DWELL_VERSION then
           ca_rate_mode c \<noteq> RATE_MODE_GAIN_OBSERVATION \<or> ca_minimum_rate_hz c \<noteq> 0 \<or>
           ca_maximum_rate_hz c \<noteq> 0 \<or>
           (ca_rate_mask c \<noteq> RATE_MASK_RANDOM_DWELL \<and>
            ca_rate_mask c \<noteq> RATE_MASK_RANDOM_DWELL AND NOT RATE_1P25M) \<or>
           ca_minimum_dwell_ms c \<noteq> 120 \<or> ca_maximum_dwell_ms c \<noteq> 360
         else if v = FIXED_DWELL_VERSION then
           ca_rate_mode c \<noteq> 0 \<or> ca_minimum_rate_hz c \<noteq> 0 \<or> ca_maximum_rate_hz c \<noteq> 0 \<or>
           ca_rate_mask c \<noteq> RATE_2P5M \<or> ca_minimum_dwell_ms c \<noteq> 120 \<or>
           ca_maximum_dwell_ms c \<noteq> 360
         else if v = RUNTIME_RATE_VERSION then
           ca_rate_mode c \<noteq> RATE_MODE_SETUP_VALIDATED \<or> ca_minimum_rate_hz c < RATE_MIN \<or>
           RATE_MAX < ca_maximum_rate_hz c \<or> ca_maximum_rate_hz c < ca_minimum_rate_hz c
         else (v \<noteq> 0 \<and> v \<noteq> SCAN_PROTOCOL_VERSION) \<or> ca_rate_mode c \<noteq> 0 \<or>
           ca_minimum_rate_hz c \<noteq> 0 \<or> ca_maximum_rate_hz c \<noteq> 0)
     then - EINVAL
     else if (v \<noteq> CONTINUOUS_VERSION \<and> v \<noteq> RANDOM_DWELL_VERSION \<and> v \<noteq> FIXED_DWELL_VERSION \<and>
          ca_rate_mask c \<noteq> RATE_MASK_FIXED) \<or>
         ca_rx_mask c \<noteq> SCAN_RX1_RX2 \<or> ca_formats c \<noteq> FORMAT_CI16 \<or>
         ca_maximum_targets c \<noteq> SCAN_TARGETS \<or> ca_maximum_profiles c \<noteq> SCAN_TARGETS \<or>
         (v \<noteq> CONTINUOUS_VERSION \<and> v \<noteq> RANDOM_DWELL_VERSION \<and> v \<noteq> FIXED_DWELL_VERSION \<and>
          (ca_minimum_dwell_ms c \<noteq> 20 \<or> ca_maximum_dwell_ms c \<noteq> 240)) \<or>
         (v \<noteq> CONTINUOUS_VERSION \<and> ca_maximum_duration_ms c \<noteq> 300000) \<or>
         ca_maximum_queue_bytes c \<noteq> 200000000 \<or> ca_maximum_queue_age_ms c \<noteq> 10000 \<or>
         ca_feedback_capacity c \<noteq> ACK_CAPACITY \<or> ca_maximum_feedback_age_ms c \<noteq> 10000 \<or>
         ca_maximum_application_delay_ms c \<noteq> 10000 \<or> ca_maximum_bandwidth_hz c \<noteq> 56000000 \<or>
         ca_source_counter_bits c \<noteq> 64
     then - EINVAL else 0)"

definition caps_fields :: "scan_caps \<Rightarrow> (nat \<times> wire_field) list" where
  "caps_fields c = [(16, F32 (ca_rate_mask c)), (20, F32 (ca_rx_mask c)),
     (24, F32 (ca_formats c)), (28, F32 (ca_maximum_targets c)),
     (32, F32 (ca_maximum_profiles c)), (36, F32 (ca_minimum_dwell_ms c)),
     (40, F32 (ca_maximum_dwell_ms c)), (44, F32 (ca_maximum_duration_ms c)),
     (48, F64 (ca_maximum_queue_bytes c)), (56, F32 (ca_maximum_queue_age_ms c)),
     (60, F32 (ca_feedback_capacity c)), (64, F32 (ca_maximum_feedback_age_ms c)),
     (68, F32 (ca_maximum_application_delay_ms c)), (72, F32 (ca_maximum_bandwidth_hz c)),
     (76, F32 (ca_source_counter_bits c)), (80, F32 (ca_rate_mode c)),
     (84, F32 (ca_minimum_rate_hz c)), (88, F32 (ca_maximum_rate_hz c))]"

definition caps_encode :: "nat \<Rightarrow> scan_caps \<Rightarrow> u8 list res" where
  "caps_encode bytes c =
     (if caps_validate c \<noteq> 0 then Inl (- EINVAL)
      else if bytes < 96 then Inl (- ENOSPC)
      else let p = header (replicate 96 0) MAGIC_CAPS 96 0; p = rate_header p (ca_version c)
        in Inr (seal (put_fields p (caps_fields c)) 92))"

definition caps_read :: "u8 list \<Rightarrow> scan_caps" where
  "caps_read p = \<lparr>ca_version = rate_version p, ca_rate_mode = get_le32 p 80,
     ca_minimum_rate_hz = get_le32 p 84, ca_maximum_rate_hz = get_le32 p 88,
     ca_rate_mask = get_le32 p 16, ca_rx_mask = get_le32 p 20, ca_formats = get_le32 p 24,
     ca_maximum_targets = get_le32 p 28, ca_maximum_profiles = get_le32 p 32,
     ca_minimum_dwell_ms = get_le32 p 36, ca_maximum_dwell_ms = get_le32 p 40,
     ca_maximum_duration_ms = get_le32 p 44, ca_maximum_queue_bytes = get_le64 p 48,
     ca_maximum_queue_age_ms = get_le32 p 56, ca_feedback_capacity = get_le32 p 60,
     ca_maximum_feedback_age_ms = get_le32 p 64,
     ca_maximum_application_delay_ms = get_le32 p 68, ca_maximum_bandwidth_hz = get_le32 p 72,
     ca_source_counter_bits = get_le32 p 76\<rparr>"

definition caps_decode :: "u8 list \<Rightarrow> scan_caps res" where
  "caps_decode p =
     (let ret = scan_check p 96 MAGIC_CAPS 0 in
      if ret \<noteq> 0 then Inl ret
      else if rate_version p = 0 \<and> \<not> all_zero p 80 12 then Inl (- EBADMSG)
      else let out = caps_read p
        in if caps_validate out \<noteq> 0 then Inl (- EBADMSG) else Inr out)"

subsection \<open>Setups\<close>

record scan_target =
  tg_channel :: u32
  tg_profile :: u32
  tg_frequency_hz :: u64
  tg_baseline_weight :: u32
  tg_profile_crc32 :: u32

record scan_setup =
  su_version :: u16
  su_session :: u64
  su_generation :: u64
  su_seed :: u64
  su_source_rate_hz :: u32
  su_bandwidth_hz :: u32
  su_duration_ms :: u32
  su_dwell_ms :: u32
  su_transition_budget_ms :: u32
  su_maximum_revisit_ms :: u32
  su_feedback_age_ms :: u32
  su_application_delay_ms :: u32
  su_decay_ms :: u32
  su_maximum_boost :: u32
  su_maximum_queue_bytes :: u64
  su_maximum_queue_age_ms :: u32
  su_maximum_queue_visits :: u32
  su_target_count :: u32
  su_rx_mask :: u32
  su_format :: u32
  su_flags :: u32
  su_digest :: "u8 list"
  su_targets :: "scan_target list"

definition setup_policy :: "scan_setup \<Rightarrow> policy_config" where
  "setup_policy s = \<lparr>session = su_session s, generation = su_generation s, seed = su_seed s,
     protocol_version = su_version s, source_rate_hz = su_source_rate_hz s,
     targets = su_target_count s, duration_ms = su_duration_ms s, dwell_ms = su_dwell_ms s,
     transition_budget_ms = su_transition_budget_ms s,
     maximum_revisit_ms = su_maximum_revisit_ms s, feedback_age_ms = su_feedback_age_ms s,
     application_delay_ms = su_application_delay_ms s, decay_ms = su_decay_ms s,
     maximum_boost = su_maximum_boost s,
     baseline = map tg_baseline_weight (take (unat (su_target_count s)) (su_targets s))
       @ replicate (SCAN_TARGETS - unat (su_target_count s)) 0,
     analysis_digest = su_digest s\<rparr>"

text \<open>The loop over the targets in use: the profiles and the targets before the current one.\<close>

fun targets_ok :: "u16 \<Rightarrow> u32 \<Rightarrow> scan_target list \<Rightarrow> scan_target list \<Rightarrow> bool" where
  "targets_ok v profiles before [] = True"
| "targets_ok v profiles before (t # ts) =
     (if SCAN_TARGETS \<le> tg_profile t \<or> profiles AND push_bit (unat (tg_profile t)) 1 \<noteq> 0 \<or>
         tg_frequency_hz t < 70000000 \<or> 6000000000 < tg_frequency_hz t \<or>
         tg_baseline_weight t = 0 \<or> 1024 < tg_baseline_weight t \<or>
         (v = CONTINUOUS_VERSION \<and> tg_baseline_weight t \<noteq> 1) then False
      else if list_ex (\<lambda>b. tg_channel b = tg_channel t) before then False
      else targets_ok v (profiles OR push_bit (unat (tg_profile t)) 1) (before @ [t]) ts)"

definition zero_target :: scan_target where
  "zero_target = \<lparr>tg_channel = 0, tg_profile = 0, tg_frequency_hz = 0, tg_baseline_weight = 0,
     tg_profile_crc32 = 0\<rparr>"

definition setup_validate :: "scan_setup \<Rightarrow> int" where
  "setup_validate s = (let v = su_version s; n = unat (su_target_count s) in
     if \<not> rate_valid (su_source_rate_hz s) v \<or> su_bandwidth_hz s < 200000 \<or>
        su_source_rate_hz s < su_bandwidth_hz s \<or> su_maximum_queue_bytes s = 0 \<or>
        200000000 < su_maximum_queue_bytes s \<or> su_maximum_queue_age_ms s = 0 \<or>
        10000 < su_maximum_queue_age_ms s \<or> su_maximum_queue_visits s = 0 \<or>
        64 < su_maximum_queue_visits s \<or> su_target_count s = 0 \<or>
        SCAN_TARGETS < su_target_count s \<or>
        (su_rx_mask s \<noteq> SCAN_RX1 \<and> su_rx_mask s \<noteq> SCAN_RX1_RX2) \<or>
        ((v = RANDOM_DWELL_VERSION \<or> v = FIXED_DWELL_VERSION) \<and> su_rx_mask s \<noteq> SCAN_RX1_RX2) \<or>
        su_format s \<noteq> FORMAT_CI16 \<or> su_flags s \<noteq> SETUP_FLAGS \<or> \<not> digest_present (su_digest s)
     then - EINVAL
     else if \<not> targets_ok v 0 [] (take n (su_targets s)) then - EINVAL
     else if list_ex (\<lambda>t. t \<noteq> zero_target) (drop n (su_targets s)) then - EINVAL
     else policy_validate (setup_policy s))"

definition target_fields :: "nat \<Rightarrow> scan_target \<Rightarrow> (nat \<times> wire_field) list" where
  "target_fields k t = [(k, F32 (tg_channel t)), (k + 4, F32 (tg_profile t)),
     (k + 8, F64 (tg_frequency_hz t)), (k + 16, F32 (tg_baseline_weight t)),
     (k + 20, F32 (tg_profile_crc32 t))]"

definition setup_fields :: "scan_setup \<Rightarrow> (nat \<times> wire_field) list" where
  "setup_fields s = [(16, F64 (su_session s)), (24, F64 (su_generation s)), (32, F64 (su_seed s)),
     (40, F32 (su_source_rate_hz s)), (44, F32 (su_bandwidth_hz s)), (48, F32 (su_duration_ms s)),
     (52, F32 (su_dwell_ms s)), (56, F32 (su_transition_budget_ms s)),
     (60, F32 (su_maximum_revisit_ms s)), (64, F32 (su_feedback_age_ms s)),
     (68, F32 (su_application_delay_ms s)), (72, F32 (su_decay_ms s)),
     (76, F32 (su_maximum_boost s)), (80, F64 (su_maximum_queue_bytes s)),
     (88, F32 (su_maximum_queue_age_ms s)), (92, F32 (su_maximum_queue_visits s)),
     (96, F32 (su_target_count s)), (100, F32 (su_rx_mask s)), (104, F32 (su_format s)),
     (112, FBytes (su_digest s))]
     @ concat (map (\<lambda>i. target_fields (144 + i * 24) (su_targets s ! i)) [0..<SCAN_TARGETS])"

definition setup_encode :: "nat \<Rightarrow> scan_setup \<Rightarrow> u8 list res" where
  "setup_encode bytes s =
     (if setup_validate s \<noteq> 0 then Inl (- EINVAL)
      else if bytes < 352 then Inl (- ENOSPC)
      else let p = header (replicate 352 0) MAGIC_SETUP 352 SETUP_FLAGS;
          p = rate_header p (su_version s)
        in Inr (seal (put_fields p (setup_fields s)) 348))"

definition target_read :: "u8 list \<Rightarrow> nat \<Rightarrow> scan_target" where
  "target_read p k = \<lparr>tg_channel = get_le32 p k, tg_profile = get_le32 p (k + 4),
     tg_frequency_hz = get_le64 p (k + 8), tg_baseline_weight = get_le32 p (k + 16),
     tg_profile_crc32 = get_le32 p (k + 20)\<rparr>"

definition setup_read :: "u8 list \<Rightarrow> scan_setup" where
  "setup_read p = \<lparr>su_version = rate_version p, su_session = get_le64 p 16,
     su_generation = get_le64 p 24, su_seed = get_le64 p 32, su_source_rate_hz = get_le32 p 40,
     su_bandwidth_hz = get_le32 p 44, su_duration_ms = get_le32 p 48, su_dwell_ms = get_le32 p 52,
     su_transition_budget_ms = get_le32 p 56, su_maximum_revisit_ms = get_le32 p 60,
     su_feedback_age_ms = get_le32 p 64, su_application_delay_ms = get_le32 p 68,
     su_decay_ms = get_le32 p 72, su_maximum_boost = get_le32 p 76,
     su_maximum_queue_bytes = get_le64 p 80, su_maximum_queue_age_ms = get_le32 p 88,
     su_maximum_queue_visits = get_le32 p 92, su_target_count = get_le32 p 96,
     su_rx_mask = get_le32 p 100, su_format = get_le32 p 104, su_flags = get_le32 p 12,
     su_digest = take 32 (drop 112 p),
     su_targets = map (\<lambda>i. target_read p (144 + i * 24)) [0..<SCAN_TARGETS]\<rparr>"

definition setup_decode :: "u8 list \<Rightarrow> scan_setup res" where
  "setup_decode p =
     (let ret = scan_check p 352 MAGIC_SETUP SETUP_FLAGS in
      if ret \<noteq> 0 then Inl ret
      else if get_le32 p 108 \<noteq> 0 \<or> \<not> all_zero p 336 12 then Inl (- EBADMSG)
      else let out = setup_read p
        in if setup_validate out \<noteq> 0 then Inl (- EBADMSG) else Inr out)"

subsection \<open>Visits\<close>

record visit_record =
  vr_version :: u16
  vr_session :: u64
  vr_generation :: u64
  vr_visit :: u64
  vr_selection_counter :: u64
  vr_transition_before :: u64
  vr_transition_after :: u64
  vr_valid_start :: u64
  vr_valid_end :: u64
  vr_frequency_hz :: u64
  vr_iq_bytes :: u64
  vr_missing_before :: u64
  vr_bandwidth_hz :: u32
  vr_source_rate_hz :: u32
  vr_target :: u32
  vr_profile :: u32
  vr_result :: u32
  vr_eligible_mask :: u32
  vr_effective_weight :: u32
  vr_profile_crc32 :: u32
  vr_flags :: u32
  vr_gain_counter :: u64
  vr_gain_duration_ns :: u32
  vr_rx1_gain :: u8
  vr_rx2_gain :: u8
  vr_gain_valid :: u8

definition visit_validate :: "visit_record \<Rightarrow> int" where
  "visit_validate r =
     (if vr_session r = 0 \<or> vr_generation r = 0 \<or>
         vr_transition_after r < vr_transition_before r \<or>
         vr_valid_start r < vr_transition_after r \<or> vr_valid_end r < vr_valid_start r \<or>
         vr_frequency_hz r < 70000000 \<or> 6000000000 < vr_frequency_hz r \<or>
         \<not> rate_valid (vr_source_rate_hz r) (vr_version r) \<or> vr_bandwidth_hz r < 200000 \<or>
         56000000 < vr_bandwidth_hz r \<or> SCAN_TARGETS \<le> vr_target r \<or>
         SCAN_TARGETS \<le> vr_profile r \<or> RESULT_CANCELLED < vr_result r \<or>
         vr_eligible_mask r AND NOT 0xff \<noteq> 0 \<or> vr_flags r AND VISIT_FLAGS = 0 \<or>
         vr_flags r AND NOT VISIT_FLAG_MASK \<noteq> 0
      then - EINVAL
      else let samples = vr_valid_end r - vr_valid_start r;
          complete = (vr_result r = RESULT_COMPLETE);
          continuous = (vr_version r = CONTINUOUS_VERSION)
        in if UINT64_MAX div 8 < samples then - EINVAL
      else if (\<not> continuous \<and> complete \<noteq> (vr_iq_bytes r \<noteq> 0)) \<or>
          (continuous \<and> (scan_ticks (vr_source_rate_hz r) 20 < samples \<or>
            (complete \<and> samples \<noteq> scan_ticks (vr_source_rate_hz r) 20))) \<or>
          ((complete \<or> continuous) \<and> vr_iq_bytes r \<noteq> samples * 4 \<and> vr_iq_bytes r \<noteq> samples * 8) \<or>
          (vr_gain_valid r \<noteq> 0 \<and>
            (vr_version r \<noteq> RANDOM_DWELL_VERSION \<or> vr_gain_counter r < vr_valid_end r \<or>
             0x7f < vr_rx1_gain r \<or> 0x7f < vr_rx2_gain r)) \<or>
          (vr_gain_valid r = 0 \<and>
            (vr_gain_counter r \<noteq> 0 \<or> vr_gain_duration_ns r \<noteq> 0 \<or> vr_rx1_gain r \<noteq> 0 \<or>
             vr_rx2_gain r \<noteq> 0))
      then - EINVAL else 0)"

definition visit_fields :: "visit_record \<Rightarrow> (nat \<times> wire_field) list" where
  "visit_fields r = [(16, F64 (vr_session r)), (24, F64 (vr_generation r)), (32, F64 (vr_visit r)),
     (40, F64 (vr_selection_counter r)), (48, F64 (vr_transition_before r)),
     (56, F64 (vr_transition_after r)), (64, F64 (vr_valid_start r)), (72, F64 (vr_valid_end r)),
     (80, F64 (vr_frequency_hz r)), (88, F64 (vr_iq_bytes r)), (96, F64 (vr_missing_before r)),
     (104, F32 (vr_bandwidth_hz r)), (108, F32 (vr_source_rate_hz r)), (112, F32 (vr_target r)),
     (116, F32 (vr_profile r)), (120, F32 (vr_result r)), (124, F32 (vr_eligible_mask r)),
     (128, F32 (vr_effective_weight r)), (132, F32 (vr_profile_crc32 r)), (136, F32 (vr_flags r)),
     (140, F64 (vr_gain_counter r)), (148, F8 (vr_rx1_gain r)), (149, F8 (vr_rx2_gain r)),
     (150, F8 (vr_gain_valid r)), (152, F32 (vr_gain_duration_ns r))]"

definition visit_encode :: "nat \<Rightarrow> visit_record \<Rightarrow> u8 list res" where
  "visit_encode bytes r =
     (if visit_validate r \<noteq> 0 then Inl (- EINVAL)
      else if bytes < 160 then Inl (- ENOSPC)
      else let p = header (replicate 160 0) MAGIC_VISIT 160 (vr_flags r);
          p = rate_header p (vr_version r)
        in Inr (seal (put_fields p (visit_fields r)) 156))"

definition visit_read :: "u8 list \<Rightarrow> visit_record" where
  "visit_read p = \<lparr>vr_version = rate_version p, vr_session = get_le64 p 16,
     vr_generation = get_le64 p 24, vr_visit = get_le64 p 32, vr_selection_counter = get_le64 p 40,
     vr_transition_before = get_le64 p 48, vr_transition_after = get_le64 p 56,
     vr_valid_start = get_le64 p 64, vr_valid_end = get_le64 p 72, vr_frequency_hz = get_le64 p 80,
     vr_iq_bytes = get_le64 p 88, vr_missing_before = get_le64 p 96,
     vr_bandwidth_hz = get_le32 p 104, vr_source_rate_hz = get_le32 p 108,
     vr_target = get_le32 p 112, vr_profile = get_le32 p 116, vr_result = get_le32 p 120,
     vr_eligible_mask = get_le32 p 124, vr_effective_weight = get_le32 p 128,
     vr_profile_crc32 = get_le32 p 132, vr_flags = get_le32 p 136, vr_gain_counter = get_le64 p 140,
     vr_gain_duration_ns = get_le32 p 152, vr_rx1_gain = p ! 148, vr_rx2_gain = p ! 149,
     vr_gain_valid = p ! 150\<rparr>"

definition visit_decode :: "u8 list \<Rightarrow> visit_record res" where
  "visit_decode p =
     (if length p \<noteq> 160 then Inl (- EMSGSIZE)
      else let ret = scan_check p 160 MAGIC_VISIT (get_le32 p 12) in
      if ret \<noteq> 0 then Inl ret
      else let out = visit_read p in
      if p ! 151 \<noteq> 0 \<or> 1 < vr_gain_valid out then Inl (- EBADMSG)
      else if vr_flags out \<noteq> get_le32 p 12 \<or> visit_validate out \<noteq> 0 then Inl (- EBADMSG)
      else Inr out)"

subsection \<open>Feedback and acknowledgements\<close>

definition feedback_validate :: "scan_feedback \<Rightarrow> int" where
  "feedback_validate f =
     (if fb_session f = 0 \<or> fb_generation f = 0 \<or> fb_sequence f = 0 \<or>
         fb_valid_end f \<le> fb_valid_start f \<or> SCAN_TARGETS \<le> fb_target f \<or>
         OUTCOME_QUIET < fb_outcome f \<or> \<not> digest_present (fb_digest f)
      then - EINVAL else 0)"

definition feedback_fields :: "scan_feedback \<Rightarrow> (nat \<times> wire_field) list" where
  "feedback_fields f = [(16, F64 (fb_session f)), (24, F64 (fb_generation f)),
     (32, F64 (fb_sequence f)), (40, F64 (fb_visit f)), (48, F64 (fb_valid_start f)),
     (56, F64 (fb_valid_end f)), (64, F32 (fb_target f)), (68, F32 (fb_outcome f)),
     (72, FBytes (fb_digest f))]"

definition feedback_encode :: "nat \<Rightarrow> scan_feedback \<Rightarrow> u8 list res" where
  "feedback_encode bytes f =
     (if feedback_validate f \<noteq> 0 then Inl (- EINVAL)
      else if bytes < 112 then Inl (- ENOSPC)
      else let p = header (replicate 112 0) MAGIC_FEEDBACK 112 0
        in Inr (seal (put_fields p (feedback_fields f)) 108))"

definition feedback_read :: "u8 list \<Rightarrow> scan_feedback" where
  "feedback_read p = \<lparr>fb_session = get_le64 p 16, fb_generation = get_le64 p 24,
     fb_sequence = get_le64 p 32, fb_visit = get_le64 p 40, fb_valid_start = get_le64 p 48,
     fb_valid_end = get_le64 p 56, fb_target = get_le32 p 64, fb_outcome = get_le32 p 68,
     fb_digest = take 32 (drop 72 p)\<rparr>"

definition feedback_decode :: "u8 list \<Rightarrow> scan_feedback res" where
  "feedback_decode p =
     (let ret = scan_check p 112 MAGIC_FEEDBACK 0 in
      if ret \<noteq> 0 then Inl ret
      else if get_le32 p 104 \<noteq> 0 then Inl (- EBADMSG)
      else let out = feedback_read p
        in if feedback_validate out \<noteq> 0 then Inl (- EBADMSG) else Inr out)"

text \<open>
  The result of an acknowledgement is a number on the wire; a number that no constant of the
  enumeration has fails the validation.
\<close>

definition feedback_results :: "feedback_result list" where
  "feedback_results = [FB_ACCEPTED, FB_DUPLICATE, FB_EXPIRED, FB_WRONG_SESSION, FB_REJECTED,
     FB_SUPERSEDED, FB_MAILBOX_FULL, FB_APPLIED, FB_CANCELLED]"

fun result_code :: "feedback_result \<Rightarrow> u32" where
  "result_code FB_ACCEPTED = 0"
| "result_code FB_DUPLICATE = 1"
| "result_code FB_EXPIRED = 2"
| "result_code FB_WRONG_SESSION = 3"
| "result_code FB_REJECTED = 4"
| "result_code FB_SUPERSEDED = 5"
| "result_code FB_MAILBOX_FULL = 6"
| "result_code FB_APPLIED = 7"
| "result_code FB_CANCELLED = 8"

definition ack_validate :: "scan_ack \<Rightarrow> int" where
  "ack_validate a =
     (if ack_sequence a = 0 \<or> SCAN_TARGETS \<le> ack_target a \<or>
         result_code FB_CANCELLED < result_code (ack_result a) \<or>
         (ack_result a = FB_APPLIED) \<noteq> (ack_first_visit a \<noteq> UINT64_MAX)
      then - EINVAL else 0)"

definition ack_fields :: "scan_ack \<Rightarrow> (nat \<times> wire_field) list" where
  "ack_fields a = [(16, F64 (ack_sequence a)), (24, F64 (ack_source_visit a)),
     (32, F64 (ack_first_visit a)), (40, F64 (ack_received a)), (48, F64 (ack_application a)),
     (56, F32 (of_nat (ack_target a))), (60, F32 (result_code (ack_result a))),
     (64, F32 (ack_old_boost a)), (68, F32 (ack_new_boost a))]"

definition ack_encode :: "nat \<Rightarrow> scan_ack \<Rightarrow> u8 list res" where
  "ack_encode bytes a =
     (if ack_validate a \<noteq> 0 then Inl (- EINVAL)
      else if bytes < 96 then Inl (- ENOSPC)
      else let p = header (replicate 96 0) MAGIC_ACK 96 0
        in Inr (seal (put_fields p (ack_fields a)) 92))"

definition ack_read :: "u8 list \<Rightarrow> scan_ack" where
  "ack_read p = \<lparr>ack_sequence = get_le64 p 16, ack_source_visit = get_le64 p 24,
     ack_first_visit = get_le64 p 32, ack_received = get_le64 p 40, ack_application = get_le64 p 48,
     ack_target = unat (get_le32 p 56), ack_result = feedback_results ! unat (get_le32 p 60),
     ack_old_boost = get_le32 p 64, ack_new_boost = get_le32 p 68\<rparr>"

definition ack_decode :: "u8 list \<Rightarrow> scan_ack res" where
  "ack_decode p =
     (let ret = scan_check p 96 MAGIC_ACK 0 in
      if ret \<noteq> 0 then Inl ret
      else if \<not> all_zero p 72 20 then Inl (- EBADMSG)
      else if result_code FB_CANCELLED < get_le32 p 60 then Inl (- EBADMSG)
      else let out = ack_read p
        in if ack_validate out \<noteq> 0 then Inl (- EBADMSG) else Inr out)"

subsection \<open>The terminal record\<close>

record scan_terminal =
  te_session :: u64
  te_generation :: u64
  te_final_counter :: u64
  te_restore_before :: u64
  te_restore_after :: u64
  te_planned :: u64
  te_delivered :: u64
  te_skipped :: u64
  te_invalid :: u64
  te_cancelled :: u64
  te_iq_bytes :: u64
  te_state :: u32
  te_reason :: u32
  te_error :: i32
  te_flags :: u32

definition terminal_validate :: "scan_terminal \<Rightarrow> int" where
  "terminal_validate t =
     (if te_session t = 0 \<or> te_generation t = 0 \<or> te_restore_after t < te_restore_before t \<or>
         te_state t < TERMINAL_COMPLETED \<or> TERMINAL_FAILED < te_state t \<or>
         (te_state t = TERMINAL_COMPLETED \<and> te_error t \<noteq> 0) \<or>
         (te_state t = TERMINAL_COMPLETED \<and> te_restore_before t < te_final_counter t) \<or>
         (te_state t = TERMINAL_FAILED \<and> 0 \<le> sint (te_error t)) \<or>
         te_flags t \<noteq> TERMINAL_FLAGS \<or> te_planned t < te_delivered t
      then - EINVAL
      else let remaining = te_planned t - te_delivered t in
      if remaining < te_skipped t then - EINVAL
      else let remaining = remaining - te_skipped t in
      if remaining < te_invalid t then - EINVAL
      else let remaining = remaining - te_invalid t in
      if te_cancelled t \<noteq> remaining then - EINVAL else 0)"

definition terminal_fields :: "scan_terminal \<Rightarrow> (nat \<times> wire_field) list" where
  "terminal_fields t = [(16, F64 (te_session t)), (24, F64 (te_generation t)),
     (32, F64 (te_final_counter t)), (40, F64 (te_restore_before t)),
     (48, F64 (te_restore_after t)), (56, F64 (te_planned t)), (64, F64 (te_delivered t)),
     (72, F64 (te_skipped t)), (80, F64 (te_invalid t)), (88, F64 (te_cancelled t)),
     (96, F64 (te_iq_bytes t)), (104, F32 (te_state t)), (108, F32 (te_reason t)),
     (112, F32 (te_error t)), (116, F32 (te_flags t))]"

definition terminal_encode :: "nat \<Rightarrow> scan_terminal \<Rightarrow> u8 list res" where
  "terminal_encode bytes t =
     (if terminal_validate t \<noteq> 0 then Inl (- EINVAL)
      else if bytes < 128 then Inl (- ENOSPC)
      else let p = header (replicate 128 0) MAGIC_TERMINAL 128 (te_flags t)
        in Inr (seal (put_fields p (terminal_fields t)) 124))"

definition terminal_read :: "u8 list \<Rightarrow> scan_terminal" where
  "terminal_read p = \<lparr>te_session = get_le64 p 16, te_generation = get_le64 p 24,
     te_final_counter = get_le64 p 32, te_restore_before = get_le64 p 40,
     te_restore_after = get_le64 p 48, te_planned = get_le64 p 56, te_delivered = get_le64 p 64,
     te_skipped = get_le64 p 72, te_invalid = get_le64 p 80, te_cancelled = get_le64 p 88,
     te_iq_bytes = get_le64 p 96, te_state = get_le32 p 104, te_reason = get_le32 p 108,
     te_error = get_le32 p 112, te_flags = get_le32 p 116\<rparr>"

definition terminal_decode :: "u8 list \<Rightarrow> scan_terminal res" where
  "terminal_decode p =
     (if length p \<noteq> 128 then Inl (- EMSGSIZE)
      else let ret = scan_check p 128 MAGIC_TERMINAL (get_le32 p 12) in
      if ret \<noteq> 0 then Inl ret
      else if get_le32 p 120 \<noteq> 0 then Inl (- EBADMSG)
      else let out = terminal_read p
        in if te_flags out \<noteq> get_le32 p 12 \<or> terminal_validate out \<noteq> 0 then Inl (- EBADMSG)
        else Inr out)"

end
