(* ===== verification/Scan_Exact.thy ===== *)
theory Scan_Exact
  imports Scan_Messages Scan_Feedback
begin

unbundle bit_operations_syntax

text \<open>
  What the codecs of the scan messages guarantee: every decoder accepts exactly the messages that
  the encoder makes, no single corrupted byte passes, accepted records are consistent over the
  integers, and an accepted setup makes a scan policy that can be started.
\<close>

subsection \<open>The records a decoder reads\<close>

lemma caps_read_eq: "caps_read w = c \<longleftrightarrow> rate_version w = ca_version c \<and>
    get_le32 w 80 = ca_rate_mode c \<and> get_le32 w 84 = ca_minimum_rate_hz c \<and>
    get_le32 w 88 = ca_maximum_rate_hz c \<and> get_le32 w 16 = ca_rate_mask c \<and>
    get_le32 w 20 = ca_rx_mask c \<and> get_le32 w 24 = ca_formats c \<and>
    get_le32 w 28 = ca_maximum_targets c \<and> get_le32 w 32 = ca_maximum_profiles c \<and>
    get_le32 w 36 = ca_minimum_dwell_ms c \<and> get_le32 w 40 = ca_maximum_dwell_ms c \<and>
    get_le32 w 44 = ca_maximum_duration_ms c \<and> get_le64 w 48 = ca_maximum_queue_bytes c \<and>
    get_le32 w 56 = ca_maximum_queue_age_ms c \<and> get_le32 w 60 = ca_feedback_capacity c \<and>
    get_le32 w 64 = ca_maximum_feedback_age_ms c \<and>
    get_le32 w 68 = ca_maximum_application_delay_ms c \<and>
    get_le32 w 72 = ca_maximum_bandwidth_hz c \<and> get_le32 w 76 = ca_source_counter_bits c"
  by (cases c) (simp add: caps_read_def)

lemma target_read_eq: "target_read w k = t \<longleftrightarrow> get_le32 w k = tg_channel t \<and>
    get_le32 w (k + 4) = tg_profile t \<and> get_le64 w (k + 8) = tg_frequency_hz t \<and>
    get_le32 w (k + 16) = tg_baseline_weight t \<and> get_le32 w (k + 20) = tg_profile_crc32 t"
  by (cases t) (simp add: target_read_def)

lemma setup_read_eq: "setup_read w = s \<longleftrightarrow> rate_version w = su_version s \<and>
    get_le64 w 16 = su_session s \<and> get_le64 w 24 = su_generation s \<and> get_le64 w 32 = su_seed s \<and>
    get_le32 w 40 = su_source_rate_hz s \<and> get_le32 w 44 = su_bandwidth_hz s \<and>
    get_le32 w 48 = su_duration_ms s \<and> get_le32 w 52 = su_dwell_ms s \<and>
    get_le32 w 56 = su_transition_budget_ms s \<and> get_le32 w 60 = su_maximum_revisit_ms s \<and>
    get_le32 w 64 = su_feedback_age_ms s \<and> get_le32 w 68 = su_application_delay_ms s \<and>
    get_le32 w 72 = su_decay_ms s \<and> get_le32 w 76 = su_maximum_boost s \<and>
    get_le64 w 80 = su_maximum_queue_bytes s \<and> get_le32 w 88 = su_maximum_queue_age_ms s \<and>
    get_le32 w 92 = su_maximum_queue_visits s \<and> get_le32 w 96 = su_target_count s \<and>
    get_le32 w 100 = su_rx_mask s \<and> get_le32 w 104 = su_format s \<and> get_le32 w 12 = su_flags s \<and>
    take 32 (drop 112 w) = su_digest s \<and>
    map (\<lambda>i. target_read w (144 + i * 24)) [0..<SCAN_TARGETS] = su_targets s"
  by (cases s) (simp add: setup_read_def del: upt_rec_numeral)

lemma visit_read_eq: "visit_read w = r \<longleftrightarrow> rate_version w = vr_version r \<and>
    get_le64 w 16 = vr_session r \<and> get_le64 w 24 = vr_generation r \<and> get_le64 w 32 = vr_visit r \<and>
    get_le64 w 40 = vr_selection_counter r \<and> get_le64 w 48 = vr_transition_before r \<and>
    get_le64 w 56 = vr_transition_after r \<and> get_le64 w 64 = vr_valid_start r \<and>
    get_le64 w 72 = vr_valid_end r \<and> get_le64 w 80 = vr_frequency_hz r \<and>
    get_le64 w 88 = vr_iq_bytes r \<and> get_le64 w 96 = vr_missing_before r \<and>
    get_le32 w 104 = vr_bandwidth_hz r \<and> get_le32 w 108 = vr_source_rate_hz r \<and>
    get_le32 w 112 = vr_target r \<and> get_le32 w 116 = vr_profile r \<and> get_le32 w 120 = vr_result r \<and>
    get_le32 w 124 = vr_eligible_mask r \<and> get_le32 w 128 = vr_effective_weight r \<and>
    get_le32 w 132 = vr_profile_crc32 r \<and> get_le32 w 136 = vr_flags r \<and>
    get_le64 w 140 = vr_gain_counter r \<and> get_le32 w 152 = vr_gain_duration_ns r \<and>
    w ! 148 = vr_rx1_gain r \<and> w ! 149 = vr_rx2_gain r \<and> w ! 150 = vr_gain_valid r"
  by (cases r) (simp add: visit_read_def)

lemma feedback_read_eq: "feedback_read w = f \<longleftrightarrow> get_le64 w 16 = fb_session f \<and>
    get_le64 w 24 = fb_generation f \<and> get_le64 w 32 = fb_sequence f \<and> get_le64 w 40 = fb_visit f \<and>
    get_le64 w 48 = fb_valid_start f \<and> get_le64 w 56 = fb_valid_end f \<and>
    get_le32 w 64 = fb_target f \<and> get_le32 w 68 = fb_outcome f \<and> take 32 (drop 72 w) = fb_digest f"
  by (cases f) (simp add: feedback_read_def)

lemma ack_read_eq: "ack_read w = a \<longleftrightarrow> get_le64 w 16 = ack_sequence a \<and>
    get_le64 w 24 = ack_source_visit a \<and> get_le64 w 32 = ack_first_visit a \<and>
    get_le64 w 40 = ack_received a \<and> get_le64 w 48 = ack_application a \<and>
    unat (get_le32 w 56) = ack_target a \<and> feedback_results ! unat (get_le32 w 60) = ack_result a \<and>
    get_le32 w 64 = ack_old_boost a \<and> get_le32 w 68 = ack_new_boost a"
  by (cases a) (simp add: ack_read_def)

lemma terminal_read_eq: "terminal_read w = t \<longleftrightarrow> get_le64 w 16 = te_session t \<and>
    get_le64 w 24 = te_generation t \<and> get_le64 w 32 = te_final_counter t \<and>
    get_le64 w 40 = te_restore_before t \<and> get_le64 w 48 = te_restore_after t \<and>
    get_le64 w 56 = te_planned t \<and> get_le64 w 64 = te_delivered t \<and> get_le64 w 72 = te_skipped t \<and>
    get_le64 w 80 = te_invalid t \<and> get_le64 w 88 = te_cancelled t \<and> get_le64 w 96 = te_iq_bytes t \<and>
    get_le32 w 104 = te_state t \<and> get_le32 w 108 = te_reason t \<and> get_le32 w 112 = te_error t \<and>
    get_le32 w 116 = te_flags t"
  by (cases t) (simp add: terminal_read_def)

subsection \<open>Versions\<close>

lemma word_le_5: "v \<le> (5::u16) \<longleftrightarrow> v = 0 \<or> v = 1 \<or> v = 2 \<or> v = 3 \<or> v = 4 \<or> v = 5"
proof
  assume "v \<le> 5"
  then have "unat v \<in> {0, 1, 2, 3, 4, 5}" by (auto simp: word_le_nat_alt)
  then have "of_nat (unat v) \<in> (of_nat ` {0, 1, 2, 3, 4, 5} :: u16 set)" by (rule imageI)
  then show "v = 0 \<or> v = 1 \<or> v = 2 \<or> v = 3 \<or> v = 4 \<or> v = 5" by simp
qed auto

lemma rate_valid_version: "rate_valid rate v \<Longrightarrow> v \<le> 5"
  by (auto simp: rate_valid_def split: if_splits)

lemma caps_validate_version: "caps_validate c = 0 \<Longrightarrow> ca_version c \<le> 5"
  by (auto simp: caps_validate_def Let_def split: if_splits)

lemma setup_validate_version: "setup_validate s = 0 \<Longrightarrow> su_version s \<le> 5"
  using rate_valid_version by (auto simp: setup_validate_def Let_def split: if_splits)

lemma visit_validate_version: "visit_validate r = 0 \<Longrightarrow> vr_version r \<le> 5"
  using rate_valid_version by (auto simp: visit_validate_def Let_def split: if_splits)

text \<open>Header and version of the messages whose version the decoder stores.\<close>

lemma versioned_check:
  assumes "magic = MAGIC_CAPS \<or> magic = MAGIC_SETUP \<or> magic = MAGIC_VISIT" and "v \<le> 5"
  shows "scan_check p n magic flags = 0 \<and> rate_version p = v \<and> R \<longleftrightarrow>
    v \<noteq> 1 \<and> length p = n \<and> get_le32 p 0 = magic \<and> get_le16 p 4 = wire_version v \<and>
    unat (get_le16 p 6) = n \<and> get_le32 p 8 = PROTOCOL_FEATURES \<and> get_le32 p 12 = flags \<and>
    get_le32 p (n - 4) = crc32 p (n - 4) \<and> R"
proof -
  have "version_accepted magic (get_le16 p 4) \<and> rate_version p = v
      \<longleftrightarrow> v \<noteq> 1 \<and> get_le16 p 4 = wire_version v"
  proof (cases "version_accepted magic (get_le16 p 4)")
    case True
    then have "rate_version p = (if get_le16 p 4 = 1 then 0 else get_le16 p 4)"
      by (rule rate_version_get [OF refl version_accepted_small])
    moreover have "get_le16 p 4 \<noteq> 0" using True by (auto simp: version_accepted_def)
    ultimately show ?thesis using True by (auto simp: wire_version_def)
  next
    case False
    then have "get_le16 p 4 \<noteq> wire_version v"
      using assms by (auto simp: version_accepted_def word_le_5 wire_version_def)
    then show ?thesis using False by simp
  qed
  then show ?thesis by (auto simp: scan_check_0)
qed

subsection \<open>Exactness\<close>

lemma caps_exact: "caps_decode w = Inr c \<longleftrightarrow> ca_version c \<noteq> 1 \<and> caps_encode 96 c = Inr w"
proof (cases "caps_validate c = 0")
  case True
  have z: "ca_rate_mode c = 0 \<and> ca_minimum_rate_hz c = 0 \<and> ca_maximum_rate_hz c = 0"
    if "ca_version c = 0"
    using True that by (auto simp: caps_validate_def Let_def split: if_splits)
  have "all_zero w 80 12 \<longleftrightarrow> get_le32 w 80 = 0 \<and> get_le32 w 84 = 0 \<and> get_le32 w 88 = 0"
    if "length w = 96"
    using all_zero_add [of 80 4 8 w] all_zero_add [of 84 4 4 w] get_zero_iff(3) [of _ w] that by simp
  moreover have "caps_decode w = Inr c \<longleftrightarrow> scan_check w 96 MAGIC_CAPS 0 = 0 \<and>
      \<not> (rate_version w = 0 \<and> \<not> all_zero w 80 12) \<and> caps_read w = c"
    using True by (auto simp: caps_decode_def Let_def)
  ultimately have "caps_decode w = Inr c \<longleftrightarrow> scan_check w 96 MAGIC_CAPS 0 = 0 \<and> caps_read w = c"
    using z by (auto simp: caps_read_eq scan_check_0)
  also have "\<dots> \<longleftrightarrow> ca_version c \<noteq> 1 \<and> caps_encode 96 c = Inr w"
    unfolding caps_read_eq versioned_check [OF disjI1 [OF refl] caps_validate_version [OF True]]
    using True by (auto simp: caps_encode_def caps_fields_def codec_simps
      simp del: put_fields.simps cong: conj_cong)
  finally show ?thesis .
next
  case False
  then show ?thesis by (auto simp: caps_decode_def caps_encode_def Let_def split: if_splits)
qed

text \<open>The fields of a target at offset \<open>k\<close> of a setup.\<close>

lemma target_fields_simps:
  "ascending k (target_fields k t @ fs) hi \<longleftrightarrow> ascending (k + 24) fs hi"
  "fields_ok k (target_fields k t @ fs) hi w \<longleftrightarrow> target_read w k = t \<and> fields_ok (k + 24) fs hi w"
  by (auto simp: target_fields_def target_read_eq add.assoc)

lemmas target_fields_last = target_fields_simps [where fs = "[]", simplified]

lemma upto_targets: "[0..<SCAN_TARGETS] = [0, 1, 2, 3, 4, 5, 6, 7 :: nat]"
  by (simp add: upt_rec)

lemma eight_eq: "length ts = 8 \<Longrightarrow> [a, b, c, d, e, f, g, h] = ts \<longleftrightarrow> a = ts ! 0 \<and> b = ts ! 1 \<and>
    c = ts ! 2 \<and> d = ts ! 3 \<and> e = ts ! 4 \<and> f = ts ! 5 \<and> g = ts ! 6 \<and> h = ts ! 7"
  by (auto simp: list_eq_iff_nth_eq All_less_Suc eval_nat_numeral)

lemma setup_exact:
  "setup_decode w = Inr s \<longleftrightarrow> su_version s \<noteq> 1 \<and> length (su_digest s) = 32 \<and>
     length (su_targets s) = SCAN_TARGETS \<and> setup_encode 352 s = Inr w"
proof (cases "setup_validate s = 0")
  case True
  have flags: "su_flags s = SETUP_FLAGS"
    using True by (auto simp: setup_validate_def Let_def split: if_splits)
  have len: "length (su_targets s) = 8 \<and> length (su_digest s) = 32"
    if "setup_read w = s" "length w = 352"
    using that by (auto simp: setup_read_def)
  have "setup_decode w = Inr s \<longleftrightarrow> scan_check w 352 MAGIC_SETUP SETUP_FLAGS = 0 \<and>
      get_le32 w 108 = 0 \<and> all_zero w 336 12 \<and> setup_read w = s"
    using True by (auto simp: setup_decode_def Let_def)
  also have "\<dots> \<longleftrightarrow> length (su_digest s) = 32 \<and> length (su_targets s) = 8 \<and>
      get_le32 w 108 = 0 \<and> all_zero w 336 12 \<and>
      (scan_check w 352 MAGIC_SETUP SETUP_FLAGS = 0 \<and> setup_read w = s)"
    using len by (auto simp: scan_check_0)
  also have "\<dots> \<longleftrightarrow> su_version s \<noteq> 1 \<and> length (su_digest s) = 32 \<and>
     length (su_targets s) = 8 \<and> setup_encode 352 s = Inr w"
    unfolding setup_read_eq versioned_check [OF disjI2 [OF disjI1 [OF refl]] setup_validate_version [OF True]]
    using True flags
    by (auto simp: setup_encode_def setup_fields_def codec_simps eight_eq
        upto_targets target_fields_simps target_fields_last simp del: put_fields.simps upt_rec_numeral cong: conj_cong)
  finally show ?thesis .
next
  case False
  then show ?thesis by (auto simp: setup_decode_def setup_encode_def Let_def split: if_splits)
qed

lemma visit_exact:
  "visit_decode w = Inr r \<longleftrightarrow> vr_version r \<noteq> 1 \<and> vr_gain_valid r \<le> 1 \<and> visit_encode 160 r = Inr w"
proof (cases "visit_validate r = 0")
  case True
  have gap: "all_zero w 151 (Suc 0) \<longleftrightarrow> w ! 151 = 0" if "length w = 160"
    using get_zero_iff(1) [of 151 w] that by simp
  have "visit_decode w = Inr r \<longleftrightarrow> w ! 151 = 0 \<and> vr_gain_valid r \<le> 1 \<and>
      (scan_check w 160 MAGIC_VISIT (vr_flags r) = 0 \<and> visit_read w = r)"
    using True by (auto simp: visit_decode_def Let_def scan_check_0)
  also have "\<dots> \<longleftrightarrow> vr_version r \<noteq> 1 \<and> vr_gain_valid r \<le> 1 \<and> visit_encode 160 r = Inr w"
    unfolding visit_read_eq
      versioned_check [OF disjI2 [OF disjI2 [OF refl]] visit_validate_version [OF True]]
    using True by (auto simp: visit_encode_def visit_fields_def codec_simps gap
        simp del: put_fields.simps cong: conj_cong)
  finally show ?thesis .
next
  case False
  then show ?thesis by (auto simp: visit_decode_def visit_encode_def Let_def split: if_splits)
qed

text \<open>The messages of the first version.\<close>

lemma first_version_check:
  assumes "magic = MAGIC_FEEDBACK \<or> magic = MAGIC_ACK \<or> magic = MAGIC_TERMINAL"
  shows "scan_check p n magic flags = 0 \<longleftrightarrow> length p = n \<and> get_le32 p 0 = magic \<and>
    get_le16 p 4 = 1 \<and> unat (get_le16 p 6) = n \<and> get_le32 p 8 = PROTOCOL_FEATURES \<and>
    get_le32 p 12 = flags \<and> get_le32 p (n - 4) = crc32 p (n - 4)"
  using assms by (auto simp: scan_check_0 version_accepted_def)

lemma feedback_exact:
  "feedback_decode w = Inr f \<longleftrightarrow> length (fb_digest f) = 32 \<and> feedback_encode 112 f = Inr w"
proof (cases "feedback_validate f = 0")
  case True
  have len: "length (fb_digest f) = 32" if "feedback_read w = f" "length w = 112"
    using that by (auto simp: feedback_read_def)
  have "feedback_decode w = Inr f \<longleftrightarrow> length (fb_digest f) = 32 \<and>
      scan_check w 112 MAGIC_FEEDBACK 0 = 0 \<and> get_le32 w 104 = 0 \<and> feedback_read w = f"
    using True len by (auto simp: feedback_decode_def Let_def scan_check_0)
  also have "\<dots> \<longleftrightarrow> length (fb_digest f) = 32 \<and> feedback_encode 112 f = Inr w"
    unfolding feedback_read_eq first_version_check [OF disjI1 [OF refl]]
    using True by (auto simp: feedback_encode_def feedback_fields_def codec_simps
        simp del: put_fields.simps cong: conj_cong)
  finally show ?thesis .
next
  case False
  then show ?thesis by (auto simp: feedback_decode_def feedback_encode_def Let_def split: if_splits)
qed

lemma result_code_nth:
  "result_code r \<le> 8" "feedback_results ! unat (result_code r) = r"
  "c \<le> 8 \<Longrightarrow> feedback_results ! unat c = r \<longleftrightarrow> c = result_code r"
proof -
  show le: "result_code r \<le> 8" and n: "feedback_results ! unat (result_code r) = r" for r
    by (cases r; simp add: feedback_results_def)+
  have d: "distinct feedback_results" "length feedback_results = 9" by (simp_all add: feedback_results_def)
  show "feedback_results ! unat c = r \<longleftrightarrow> c = result_code r" if "c \<le> 8"
  proof -
    have "unat c < 9" "unat (result_code r) < 9"
      using that le [of r] by (simp_all add: word_le_nat_alt)
    then have "feedback_results ! unat c = feedback_results ! unat (result_code r)
        \<longleftrightarrow> unat c = unat (result_code r)"
      using d by (simp only: nth_eq_iff_index_eq)
    then show ?thesis by (simp only: n) (simp add: word_unat_eq_iff)
  qed
qed

lemma ack_exact: "ack_decode w = Inr a \<longleftrightarrow> ack_encode 96 a = Inr w"
proof (cases "ack_validate a = 0")
  case True
  then have t: "ack_target a < 8" by (auto simp: ack_validate_def split: if_splits)
  then have tgt: "unat v = ack_target a \<longleftrightarrow> v = of_nat (ack_target a)" for v :: u32
    by (auto simp: unat_of_nat take_bit_nat_eq_self
        dest: arg_cong [where f = "of_nat :: nat \<Rightarrow> u32"])
  have "ack_decode w = Inr a \<longleftrightarrow> scan_check w 96 MAGIC_ACK 0 = 0 \<and> all_zero w 72 20 \<and>
      get_le32 w 60 \<le> 8 \<and> ack_read w = a"
    using True by (auto simp: ack_decode_def Let_def)
  also have "\<dots> \<longleftrightarrow> scan_check w 96 MAGIC_ACK 0 = 0 \<and> all_zero w 72 20 \<and>
      get_le64 w 16 = ack_sequence a \<and>
      get_le64 w 24 = ack_source_visit a \<and> get_le64 w 32 = ack_first_visit a \<and>
      get_le64 w 40 = ack_received a \<and> get_le64 w 48 = ack_application a \<and>
      get_le32 w 56 = of_nat (ack_target a) \<and> get_le32 w 60 = result_code (ack_result a) \<and>
      get_le32 w 64 = ack_old_boost a \<and> get_le32 w 68 = ack_new_boost a"
    using result_code_nth by (auto simp: ack_read_eq tgt)
  also have "\<dots> \<longleftrightarrow> ack_encode 96 a = Inr w"
    unfolding first_version_check [OF disjI2 [OF disjI1 [OF refl]]]
    using True by (auto simp: ack_encode_def ack_fields_def codec_simps
        simp del: put_fields.simps cong: conj_cong)
  finally show ?thesis .
next
  case False
  then show ?thesis by (auto simp: ack_decode_def ack_encode_def Let_def split: if_splits)
qed

lemma terminal_exact: "terminal_decode w = Inr t \<longleftrightarrow> terminal_encode 128 t = Inr w"
proof (cases "terminal_validate t = 0")
  case True
  have "terminal_decode w = Inr t \<longleftrightarrow> scan_check w 128 MAGIC_TERMINAL (te_flags t) = 0 \<and>
      get_le32 w 120 = 0 \<and> terminal_read w = t"
    using True by (auto simp: terminal_decode_def Let_def scan_check_0)
  also have "\<dots> \<longleftrightarrow> terminal_encode 128 t = Inr w"
    unfolding terminal_read_eq first_version_check [OF disjI2 [OF disjI2 [OF refl]]]
    using True by (auto simp: terminal_encode_def terminal_fields_def codec_simps
        simp del: put_fields.simps cong: conj_cong)
  finally show ?thesis .
next
  case False
  then show ?thesis by (auto simp: terminal_decode_def terminal_encode_def Let_def split: if_splits)
qed

subsection \<open>Corruption\<close>

definition accepts :: "(u8 list \<Rightarrow> 'r res) \<Rightarrow> u8 list \<Rightarrow> bool" where
  "accepts decode w \<longleftrightarrow> (\<exists>r. decode w = Inr r)"

text \<open>A decoder that accepts nothing but what \<open>check\<close> accepts.\<close>

definition checked :: "(u8 list \<Rightarrow> bool) \<Rightarrow> bool" where
  "checked d \<longleftrightarrow> (\<exists>n magic. 4 \<le> n \<and> (\<forall>w. d w \<longrightarrow> (\<exists>flags. scan_check w n magic flags = 0)))"

lemma corrupt_rejected:
  assumes "checked d" and acc: "d w" and i: "i < length w" and b: "b \<noteq> w ! i"
  shows "\<not> d (w[i := b])"
proof
  assume acc': "d (w[i := b])"
  obtain n magic where n: "4 \<le> n" and c: "\<And>w. d w \<Longrightarrow> \<exists>flags. scan_check w n magic flags = 0"
    using assms(1) unfolding checked_def by blast
  obtain f f' where f: "scan_check w n magic f = 0" and f': "scan_check (w[i := b]) n magic f' = 0"
    using c [OF acc] c [OF acc'] by blast
  have "i < n" using f i by (simp add: scan_check_0)
  then show False using scan_check_corrupt [OF f _ b n] f' by blast
qed

lemma accepts_checked:
  "accepts time_query_decode w \<Longrightarrow> \<exists>flags. scan_check w 48 MAGIC_TIME_QUERY flags = 0"
  "accepts time_decode w \<Longrightarrow> \<exists>flags. scan_check w 128 MAGIC_TIME flags = 0"
  "accepts control_decode w \<Longrightarrow> \<exists>flags. scan_check w 48 MAGIC_CONTROL flags = 0"
  "accepts status_decode w \<Longrightarrow> \<exists>flags. scan_check w 128 MAGIC_STATUS flags = 0"
  "accepts caps_decode w \<Longrightarrow> \<exists>flags. scan_check w 96 MAGIC_CAPS flags = 0"
  "accepts setup_decode w \<Longrightarrow> \<exists>flags. scan_check w 352 MAGIC_SETUP flags = 0"
  "accepts visit_decode w \<Longrightarrow> \<exists>flags. scan_check w 160 MAGIC_VISIT flags = 0"
  "accepts feedback_decode w \<Longrightarrow> \<exists>flags. scan_check w 112 MAGIC_FEEDBACK flags = 0"
  "accepts ack_decode w \<Longrightarrow> \<exists>flags. scan_check w 96 MAGIC_ACK flags = 0"
  "accepts terminal_decode w \<Longrightarrow> \<exists>flags. scan_check w 128 MAGIC_TERMINAL flags = 0"
  unfolding accepts_def time_query_decode_def time_decode_def control_decode_def status_decode_def
    caps_decode_def setup_decode_def visit_decode_def feedback_decode_def ack_decode_def
    terminal_decode_def Let_def
  by (auto split: if_split_asm)

definition scan_decoders :: "(u8 list \<Rightarrow> bool) list" where
  "scan_decoders = [accepts time_query_decode, accepts time_decode, accepts control_decode,
     accepts status_decode, accepts caps_decode, accepts setup_decode, accepts visit_decode,
     accepts feedback_decode, accepts ack_decode, accepts terminal_decode]"

lemma scan_decoders_checked: "d \<in> set scan_decoders \<Longrightarrow> checked d"
proof -
  have *: "checked d" if "\<And>w. d w \<Longrightarrow> \<exists>flags. scan_check w n magic flags = 0" "4 \<le> n" for d n magic
    using that unfolding checked_def by blast
  show "d \<in> set scan_decoders \<Longrightarrow> checked d"
    unfolding scan_decoders_def list.set insert_iff empty_iff
    by (elim disjE FalseE; hypsubst; rule *; (erule accepts_checked)?; simp?)
qed

text \<open>C31: No corrupted byte is missed. If a message is accepted by one of the ten decoders of the
scan protocol and any one of its bytes is changed to any other value, the decoder rejects it.\<close>

theorem scan_corruption_detected:
  assumes "d \<in> set scan_decoders" and "d w" and "i < length w" and "b \<noteq> w ! i"
  shows "\<not> d (w[i := b])"
  by (rule corrupt_rejected [OF scan_decoders_checked [OF assms(1)] assms(2-4)])

definition demo_control :: scan_control where
  "demo_control = \<lparr>co_request = 5, co_session = 7, co_generation = 1, co_flags = 2\<rparr>"

definition demo_control_wire :: "u8 list" where
  "demo_control_wire = projr (control_encode 48 demo_control)"

lemma demo_control_wire: "control_decode demo_control_wire = Inr demo_control"
  unfolding control_exact
  by (simp add: demo_control_wire_def control_encode_def demo_control_def Let_def)

lemma demo_control_length: "length demo_control_wire = 48"
  using demo_control_wire by (auto simp: control_decode_def split: if_splits)

lemma not_word_neq: "NOT b \<noteq> (b :: u8)"
proof
  assume "NOT b = b"
  then have "bit (NOT b) 0 = bit b 0" by simp
  then show False by (simp add: bit_not_iff)
qed

theorem scan_corruption_detected_witness:
  "accepts control_decode demo_control_wire \<and>
   \<not> accepts control_decode (demo_control_wire[20 := NOT (demo_control_wire ! 20)])"
proof -
  have a: "accepts control_decode demo_control_wire"
    unfolding accepts_def using demo_control_wire by blast
  with scan_corruption_detected [of "accepts control_decode" demo_control_wire 20, OF _ a _ not_word_neq]
  show ?thesis by (simp add: scan_decoders_def demo_control_length)
qed

subsection \<open>Codecs\<close>

interpretation caps_wire: wire_codec "\<lambda>c. ca_version c \<noteq> 1" "caps_encode 96" caps_decode
  by unfold_locales (simp_all add: caps_exact)

interpretation setup_wire: wire_codec "\<lambda>s. su_version s \<noteq> 1 \<and> length (su_digest s) = 32 \<and>
    length (su_targets s) = SCAN_TARGETS" "setup_encode 352" setup_decode
  by unfold_locales (simp_all add: setup_exact)

interpretation visit_wire: wire_codec "\<lambda>r. vr_version r \<noteq> 1 \<and> vr_gain_valid r \<le> 1"
    "visit_encode 160" visit_decode
  by unfold_locales (simp_all add: visit_exact)

interpretation feedback_wire: wire_codec "\<lambda>f. length (fb_digest f) = 32" "feedback_encode 112"
    feedback_decode
  by unfold_locales (simp_all add: feedback_exact)

interpretation ack_wire: wire_codec "\<lambda>_. True" "ack_encode 96" ack_decode
  by unfold_locales (simp_all add: ack_exact)

interpretation terminal_wire: wire_codec "\<lambda>_. True" "terminal_encode 128" terminal_decode
  by unfold_locales (simp_all add: terminal_exact)

interpretation time_query_wire: wire_codec "\<lambda>_. True" "time_query_encode 48" time_query_decode
  by unfold_locales (simp_all add: time_query_exact)

interpretation time_wire: wire_codec "\<lambda>t. length (tm_boot_id t) = 16" "time_encode 128" time_decode
  by unfold_locales (simp_all add: time_exact)

interpretation control_wire: wire_codec "\<lambda>_. True" "control_encode 48" control_decode
  by unfold_locales (simp_all add: control_exact)

interpretation status_wire: wire_codec "\<lambda>s. co_flags (ss_identity s) = 1" "status_encode 128"
    status_decode
  by unfold_locales (simp_all add: status_exact)

text \<open>Version 1 may also be given as 1 to an encoder: the message is the same as for 0.\<close>

lemma rate_header_1: "16 \<le> n \<Longrightarrow> rate_header (header (replicate n 0) magic bytes flags) 1
    = rate_header (header (replicate n 0) magic bytes flags) 0"
  by (simp add: header_fields wire_version_def)

lemma rate_valid_1: "rate_valid rate 1 = rate_valid rate 0"
  by (simp add: rate_valid_def)

lemma policy_validate_1:
  "policy_validate (c\<lparr>protocol_version := 0\<rparr>) = policy_validate (c\<lparr>protocol_version := 1\<rparr>)"
  unfolding policy_validate_def Let_def by (simp split del: if_split cong: if_cong)

lemma setup_first_version: "su_version s = 1 \<Longrightarrow> setup_encode n (s\<lparr>su_version := 0\<rparr>) = setup_encode n s"
proof -
  assume v: "su_version s = 1"
  have targets: "targets_ok 0 q before ts = targets_ok 1 q before ts" for q before ts
    by (induction "1 :: u16" q before ts rule: targets_ok.induct) simp_all
  have "setup_policy s = (setup_policy s)\<lparr>protocol_version := 1\<rparr>"
    "setup_policy (s\<lparr>su_version := 0\<rparr>) = (setup_policy s)\<lparr>protocol_version := 0\<rparr>"
    using v by (simp_all add: setup_policy_def)
  then have policy: "policy_validate (setup_policy (s\<lparr>su_version := 0\<rparr>)) = policy_validate (setup_policy s)"
    using policy_validate_1 [of "setup_policy s"] by metis
  have "setup_validate (s\<lparr>su_version := 0\<rparr>) = setup_validate s"
    using v by (simp add: setup_validate_def rate_valid_1 targets policy Let_def)
  then show ?thesis
    using v by (simp add: setup_encode_def setup_fields_def rate_header_1 Let_def)
qed

lemma visit_first_version: "vr_version r = 1 \<Longrightarrow> visit_encode n (r\<lparr>vr_version := 0\<rparr>) = visit_encode n r"
proof -
  assume v: "vr_version r = 1"
  have "visit_validate (r\<lparr>vr_version := 0\<rparr>) = visit_validate r"
    using v by (simp add: visit_validate_def rate_valid_1 Let_def)
  then show ?thesis
    using v by (simp add: visit_encode_def visit_fields_def rate_header_1 Let_def)
qed

text \<open>C32: Setups, capabilities and visit records are exact. The decoder returns a record if and only
if the message is the one that the encoder makes of it (so every other sequence of bytes is
rejected, reserved bytes included, and decoding loses nothing), where the record has the version
number 0 for the first version of the protocol; for a record with version number 1 the encoder makes the
same message. No two messages decode to the same record, and the default capabilities can be sent.\<close>

theorem scan_session_wire_exact:
  "(setup_decode w = Inr s \<longleftrightarrow> su_version s \<noteq> 1 \<and> length (su_digest s) = 32 \<and>
     length (su_targets s) = 8 \<and> setup_encode 352 s = Inr w) \<and>
   setup_encode n (s\<lparr>su_version := 1\<rparr>) = setup_encode n (s\<lparr>su_version := 0\<rparr>) \<and>
   (visit_decode w = Inr r \<longleftrightarrow> vr_version r \<noteq> 1 \<and> vr_gain_valid r \<le> 1 \<and> visit_encode 160 r = Inr w) \<and>
   visit_encode n (r\<lparr>vr_version := 1\<rparr>) = visit_encode n (r\<lparr>vr_version := 0\<rparr>) \<and>
   (caps_decode w = Inr c \<longleftrightarrow> ca_version c \<noteq> 1 \<and> caps_encode 96 c = Inr w) \<and>
   (\<exists>v. caps_encode 96 caps_default = Inr v \<and> caps_decode v = Inr caps_default)"
proof (intro conjI)
  show "setup_encode n (s\<lparr>su_version := 1\<rparr>) = setup_encode n (s\<lparr>su_version := 0\<rparr>)"
    using setup_first_version [of "s\<lparr>su_version := 1\<rparr>" n] by simp
  show "visit_encode n (r\<lparr>vr_version := 1\<rparr>) = visit_encode n (r\<lparr>vr_version := 0\<rparr>)"
    using visit_first_version [of "r\<lparr>vr_version := 1\<rparr>" n] by simp
  have "caps_validate caps_default = 0" by code_simp
  then obtain v where "caps_encode 96 caps_default = Inr v" by (simp add: caps_encode_def Let_def)
  then show "\<exists>v. caps_encode 96 caps_default = Inr v \<and> caps_decode v = Inr caps_default"
    by (auto simp: caps_exact) (simp add: caps_default_def)
qed (rule setup_wire.decode_iff [unfolded conj_assoc] visit_wire.decode_iff [unfolded conj_assoc]
    caps_wire.decode_iff)+

text \<open>Feedback, acknowledgements and terminal records are exact: the decoder returns a record if
and only if the message is the one that the encoder makes of it, and the length of a digest is
always 32 bytes.\<close>

lemma scan_feedback_wire_exact:
  "(feedback_decode w = Inr f \<longleftrightarrow> length (fb_digest f) = 32 \<and> feedback_encode 112 f = Inr w) \<and>
   (ack_decode w = Inr a \<longleftrightarrow> ack_encode 96 a = Inr w) \<and>
   (terminal_decode w = Inr t \<longleftrightarrow> terminal_encode 128 t = Inr w)"
  using feedback_wire.decode_iff ack_wire.decode_iff terminal_wire.decode_iff by simp

text \<open>Time queries and times, control requests and statuses are exact: the decoder returns a
record if and only if the message is the one that the encoder makes of it. A decoded status always
has the flags 1 in its identity, a decoded time a boot identifier of 16 bytes.\<close>

lemma scan_control_wire_exact:
  "(time_query_decode w = Inr q \<longleftrightarrow> time_query_encode 48 q = Inr w) \<and>
   (time_decode w = Inr t \<longleftrightarrow> length (tm_boot_id t) = 16 \<and> time_encode 128 t = Inr w) \<and>
   (control_decode w = Inr c \<longleftrightarrow> control_encode 48 c = Inr w) \<and>
   (status_decode w = Inr s \<longleftrightarrow> co_flags (ss_identity s) = 1 \<and> status_encode 128 s = Inr w)"
  using time_query_wire.decode_iff time_wire.decode_iff control_wire.decode_iff
    status_wire.decode_iff by simp

text \<open>C34: The other seven messages of the scan protocol are exact: feedback, acknowledgements and
terminal records, time queries and times, control requests and statuses. Each decoder returns a
record if and only if the message is the one that the encoder makes of it; a decoded digest has 32
bytes, a boot identifier 16, and the identity of a status the flags 1.\<close>

theorem scan_messages_wire_exact:
  "(feedback_decode w = Inr f \<longleftrightarrow> length (fb_digest f) = 32 \<and> feedback_encode 112 f = Inr w) \<and>
   (ack_decode w = Inr a \<longleftrightarrow> ack_encode 96 a = Inr w) \<and>
   (terminal_decode w = Inr te \<longleftrightarrow> terminal_encode 128 te = Inr w) \<and>
   (time_query_decode w = Inr q \<longleftrightarrow> time_query_encode 48 q = Inr w) \<and>
   (time_decode w = Inr t \<longleftrightarrow> length (tm_boot_id t) = 16 \<and> time_encode 128 t = Inr w) \<and>
   (control_decode w = Inr c \<longleftrightarrow> control_encode 48 c = Inr w) \<and>
   (status_decode w = Inr s \<longleftrightarrow> co_flags (ss_identity s) = 1 \<and> status_encode 128 s = Inr w)"
  using scan_feedback_wire_exact scan_control_wire_exact by blast

subsection \<open>Accepted setups\<close>

lemma bit_mark: "k < 32 \<Longrightarrow> bit ((p::u32) OR push_bit k 1) j \<longleftrightarrow> bit p j \<or> j = k"
  by (auto simp: bit_simps)

lemma targets_ok_distinct:
  assumes "targets_ok v profiles before ts"
  shows "(\<forall>t \<in> set ts. tg_profile t < 8 \<and> 70000000 \<le> tg_frequency_hz t \<and>
       tg_frequency_hz t \<le> 6000000000 \<and> \<not> bit profiles (unat (tg_profile t)) \<and>
       tg_channel t \<notin> tg_channel ` set before) \<and>
     distinct (map tg_profile ts) \<and> distinct (map tg_channel ts)"
  using assms
proof (induction v profiles before ts rule: targets_ok.induct)
  case (2 v profiles before t ts)
  from "2.prems" have t: "tg_profile t < 8" "\<not> bit profiles (unat (tg_profile t))"
    "70000000 \<le> tg_frequency_hz t" "tg_frequency_hz t \<le> 6000000000"
    "tg_channel t \<notin> tg_channel ` set before"
    and rest: "targets_ok v (profiles OR push_bit (unat (tg_profile t)) 1) (before @ [t]) ts"
    by (auto simp: bit_iff_and_push_bit_not_eq_0 list_ex_iff not_less not_le split: if_split_asm)
  have k: "unat (tg_profile t) < 32" using t(1) by (simp add: word_less_nat_alt)
  note ih = "2.IH" [OF _ _ rest]
  have "(\<forall>u \<in> set ts. tg_profile u < 8 \<and> 70000000 \<le> tg_frequency_hz u \<and>
       tg_frequency_hz u \<le> 6000000000 \<and>
       \<not> bit (profiles OR push_bit (unat (tg_profile t)) 1) (unat (tg_profile u)) \<and>
       tg_channel u \<notin> tg_channel ` set (before @ [t])) \<and>
     distinct (map tg_profile ts) \<and> distinct (map tg_channel ts)"
    by (rule ih) (use "2.prems" in \<open>auto split: if_split_asm\<close>)
  then show ?case using t unfolding bit_mark [OF k] by (auto simp: image_iff)
qed simp

lemma setup_validate_parts:
  assumes "setup_validate s = 0"
  shows "targets_ok (su_version s) 0 [] (take (unat (su_target_count s)) (su_targets s))"
    "policy_validate (setup_policy s) = 0" "unat (su_target_count s) \<le> 8"
    "\<forall>t \<in> set (drop (unat (su_target_count s)) (su_targets s)). t = zero_target"
  using assms by (auto simp: setup_validate_def Let_def list_ex_iff word_le_nat_alt not_less
      split: if_split_asm)

lemma policy_create_succeeds:
  assumes "policy_validate c = 0" and "unat start < 2 ^ 63"
  shows "\<exists>p. policy_create True True c start = Inr p"
proof -
  have c: "config_ok c" by (rule policy_validate_config_ok [OF assms(1)])
  let ?d = "unat (ticks c (duration_ms c))" and ?r = "unat (ticks c (maximum_revisit_ms c))"
  have "unat (source_rate_hz c) * unat (duration_ms c) \<le> 61440000 * 300000"
    "unat (source_rate_hz c) * unat (maximum_revisit_ms c) \<le> 61440000 * 10000"
    using c by - (rule mult_le_mono; simp add: config_ok_def)+
  from this [THEN div_le_mono, of 1000] have sum_t: "?d \<le> 18432000000" "?r \<le> 614400000"
    by (simp_all add: unat_ticks_u32)
  then have "unat (ticks c (duration_ms c) + ticks c (maximum_revisit_ms c)) = ?d + ?r"
    by (intro unat_add_small) simp
  then have "start \<le> UINT64_MAX - (ticks c (duration_ms c) + ticks c (maximum_revisit_ms c))"
    using sum_t assms(2) by (simp only: le_max_minus_iff) simp
  then have fits: "\<not> UINT64_MAX - ticks c (duration_ms c) - ticks c (maximum_revisit_ms c) < start"
    by (simp add: diff_diff_add not_less)
  let ?w = "if protocol_version c = RANDOM_DWELL_VERSION then 120 else dwell_ms c"
  have "20 \<le> unat ?w" using c by (simp add: config_ok_def)
  then have "unat (duration_ms c) div unat ?w \<le> unat (duration_ms c) div 20"
    by (intro div_le_mono2) simp_all
  also have "\<dots> \<le> 300000 div 20" using c by (intro div_le_mono) (simp add: config_ok_def)
  finally have "unat (duration_ms c) div unat ?w \<le> 15000" by simp
  then have q: "unat (duration_ms c div ?w) \<le> 15000" by (simp add: unat_div)
  then have "unat (duration_ms c div ?w + 1) = unat (duration_ms c div ?w) + 1"
    by (simp add: unat_word_ariths)
  then have "unat (ucast (duration_ms c div ?w + 1) :: u64) \<le> 16384" using q by simp
  then have "\<not> SCAN_MAX_VISITS < (ucast (duration_ms c div ?w + 1) :: u64)"
    by (simp add: not_less word_le_nat_alt)
  then show ?thesis using fits assms(1) by (simp add: policy_create_def Let_def)
qed

text \<open>C30: A setup that is accepted can be started. Whenever the decoder accepts a setup message, the
policy built from it can be created at every start counter below \<open>2 ^ 63\<close> (no range, overflow
or size check of the creation refuses it), with the setup's weights; the targets in use have
distinct channels and distinct Fast Lock profiles below 8 and frequencies from 70 MHz to 6 GHz, and
the other entries are zero.\<close>

theorem scan_setup_starts_policy:
  assumes "setup_decode w = Inr s" and "unat start < 2 ^ 63" and "n = unat (su_target_count s)"
  shows "(\<exists>p. policy_create True True (setup_policy s) start = Inr p \<and> config p = setup_policy s) \<and>
    0 < n \<and> n \<le> 8 \<and> length (su_targets s) = 8 \<and>
    (\<forall>i < n. baseline (setup_policy s) ! i = tg_baseline_weight (su_targets s ! i) \<and>
       0 < unat (tg_baseline_weight (su_targets s ! i))) \<and>
    distinct (map tg_channel (take n (su_targets s))) \<and> distinct (map tg_profile (take n (su_targets s))) \<and>
    (\<forall>t \<in> set (take n (su_targets s)). unat (tg_profile t) < 8 \<and>
       70000000 \<le> unat (tg_frequency_hz t) \<and> unat (tg_frequency_hz t) \<le> 6000000000) \<and>
    (\<forall>t \<in> set (drop n (su_targets s)). t = zero_target)"
proof -
  have v: "setup_validate s = 0" and l: "length (su_targets s) = 8"
    using assms(1) by (auto simp: setup_exact setup_encode_def split: if_splits)
  note p = setup_validate_parts [OF v, folded assms(3)]
  obtain q where q: "policy_create True True (setup_policy s) start = Inr q"
    using policy_create_succeeds [OF p(2) assms(2)] by blast
  have ok: "config_ok (setup_policy s)" by (rule policy_validate_config_ok [OF p(2)])
  have b: "baseline (setup_policy s) ! i = tg_baseline_weight (su_targets s ! i)" if "i < n" for i
    using that l p(3) assms(3) by (simp add: setup_policy_def nth_append)
  moreover have "0 < n" "0 < unat (baseline (setup_policy s) ! i)" if "i < n" for i
    using ok that assms(3) by (auto simp: config_ok_def setup_policy_def)
  moreover have "0 < n" using ok assms(3) by (simp add: config_ok_def setup_policy_def)
  ultimately show ?thesis
    using targets_ok_distinct [OF p(1)] p(3,4) q policy_create_fields(2) [OF q] l
    by (auto simp: word_less_nat_alt word_le_nat_alt)
qed

definition demo_setup :: scan_setup where
  "demo_setup = \<lparr>su_version = 0, su_session = 7, su_generation = 1, su_seed = 42,
     su_source_rate_hz = 2500000, su_bandwidth_hz = 2000000, su_duration_ms = 4000,
     su_dwell_ms = 120, su_transition_budget_ms = 10, su_maximum_revisit_ms = 1000,
     su_feedback_age_ms = 1000, su_application_delay_ms = 1000, su_decay_ms = 1000,
     su_maximum_boost = 4, su_maximum_queue_bytes = 1000000, su_maximum_queue_age_ms = 1000,
     su_maximum_queue_visits = 8, su_target_count = 2, su_rx_mask = 1, su_format = 1, su_flags = 1,
     su_digest = replicate 31 0 @ [1],
     su_targets = \<lparr>tg_channel = 1, tg_profile = 0, tg_frequency_hz = 100000000,
         tg_baseline_weight = 3, tg_profile_crc32 = 9\<rparr>
       # \<lparr>tg_channel = 2, tg_profile = 1, tg_frequency_hz = 200000000,
         tg_baseline_weight = 1, tg_profile_crc32 = 9\<rparr> # replicate 6 zero_target\<rparr>"

definition demo_setup_wire :: "u8 list" where
  "demo_setup_wire = projr (setup_encode 352 demo_setup)"

lemma demo_setup_wire: "setup_decode demo_setup_wire = Inr demo_setup"
proof -
  have "setup_validate demo_setup = 0" by code_simp
  then show ?thesis
    unfolding setup_exact demo_setup_wire_def by (simp add: setup_encode_def Let_def)
      (simp add: demo_setup_def)
qed

theorem scan_setup_starts_policy_witness:
  "(\<exists>p. policy_create True True (setup_policy demo_setup) 1000 = Inr p) \<and>
   distinct (map tg_channel (take 2 (su_targets demo_setup)))"
proof -
  have "(2 :: nat) = unat (su_target_count demo_setup)" by (simp add: demo_setup_def)
  with scan_setup_starts_policy [OF demo_setup_wire, of 1000 2] show ?thesis by auto
qed

subsection \<open>Accepted reports\<close>

text \<open>C33: Accepted reports are consistent over the integers, whatever their 64-bit fields are. In a
visit record the counters are in order, a complete visit (and any visit of the continuous mode) has
exactly four or eight bytes for each of its samples, and in the continuous mode a visit has at most
the samples of 20 milliseconds, a complete one exactly that many. In a terminal record every planned visit
is delivered, skipped, invalid or cancelled, and a completed session has no error and was restored
after its last sample.\<close>

theorem scan_reports_consistent:
  assumes "visit_decode w = Inr r" and "terminal_decode v = Inr t"
    and "samples = unat (vr_valid_end r) - unat (vr_valid_start r)"
    and "limit = unat (vr_source_rate_hz r) * 20 div 1000"
  shows "unat (vr_transition_before r) \<le> unat (vr_transition_after r) \<and>
    unat (vr_transition_after r) \<le> unat (vr_valid_start r) \<and>
    unat (vr_valid_start r) \<le> unat (vr_valid_end r) \<and>
    (vr_result r = 1 \<or> vr_version r = 5 \<longrightarrow>
       unat (vr_iq_bytes r) = 4 * samples \<or> unat (vr_iq_bytes r) = 8 * samples) \<and>
    (vr_version r \<noteq> 5 \<longrightarrow> (vr_result r = 1 \<longleftrightarrow> 0 < unat (vr_iq_bytes r))) \<and>
    (vr_version r = 5 \<longrightarrow> samples \<le> limit \<and> (vr_result r = 1 \<longrightarrow> samples = limit)) \<and>
    unat (te_planned t) = unat (te_delivered t) + unat (te_skipped t) + unat (te_invalid t)
      + unat (te_cancelled t) \<and>
    (te_state t = 1 \<longrightarrow> te_error t = 0 \<and> unat (te_final_counter t) \<le> unat (te_restore_after t)) \<and>
    (te_state t = 3 \<longrightarrow> sint (te_error t) < 0)"
proof -
  have v: "visit_validate r = 0" using assms(1) by (auto simp: visit_exact visit_encode_def split: if_splits)
  have u: "terminal_validate t = 0"
    using assms(2) by (auto simp: terminal_exact terminal_encode_def split: if_splits)
  let ?s = "vr_valid_end r - vr_valid_start r"
  have order: "vr_transition_before r \<le> vr_transition_after r"
    "vr_transition_after r \<le> vr_valid_start r" "vr_valid_start r \<le> vr_valid_end r"
    and small: "\<not> UINT64_MAX div 8 < ?s"
    and rest: "vr_version r \<noteq> 5 \<longrightarrow> (vr_result r = 1) = (vr_iq_bytes r \<noteq> 0)"
      "vr_version r = 5 \<longrightarrow> ?s \<le> scan_ticks (vr_source_rate_hz r) 20 \<and>
         (vr_result r = 1 \<longrightarrow> ?s = scan_ticks (vr_source_rate_hz r) 20)"
      "vr_result r = 1 \<or> vr_version r = 5 \<longrightarrow> vr_iq_bytes r = ?s * 4 \<or> vr_iq_bytes r = ?s * 8"
    using v unfolding visit_validate_def Let_def by (auto simp: not_less split: if_split_asm)
  have s: "unat ?s = samples" using order(3) assms(3) by (simp add: unat_sub word_le_nat_alt)
  have "samples \<le> unat (UINT64_MAX div 8)" using small s by (simp add: not_less word_le_nat_alt)
  then have "unat (d * 4) = 4 * samples" "unat (d * 8) = 8 * samples" if "unat d = samples" for d :: u64
    using that by (simp_all add: unat_word_ariths unat_div)
  then have mult: "unat (?s * 4) = 4 * samples" "unat (?s * 8) = 8 * samples" using s by blast+
  have "unat (vr_source_rate_hz r) < 2 ^ 32" using unsigned_less [of "vr_source_rate_hz r"] by simp
  then have "unat (vr_source_rate_hz r) * 20 < 2 ^ 64" by simp
  then have l: "unat (scan_ticks (vr_source_rate_hz r) 20) = limit"
    using assms(4) by (simp add: scan_ticks_def unat_div unat_word_ariths(2))
  have planned: "unat (te_planned t) = unat (te_delivered t) + unat (te_skipped t) + unat (te_invalid t)
      + unat (te_cancelled t)" and
    final: "te_state t = 1 \<longrightarrow> te_error t = 0 \<and> te_final_counter t \<le> te_restore_before t"
      "te_state t = 3 \<longrightarrow> sint (te_error t) < 0" "te_restore_before t \<le> te_restore_after t"
  proof -
    have c: "te_delivered t \<le> te_planned t" "te_skipped t \<le> te_planned t - te_delivered t"
      "te_invalid t \<le> te_planned t - te_delivered t - te_skipped t"
      "te_cancelled t = te_planned t - te_delivered t - te_skipped t - te_invalid t"
      using u by (auto simp: terminal_validate_def Let_def not_less split: if_split_asm)
    then show "unat (te_planned t) = unat (te_delivered t) + unat (te_skipped t) + unat (te_invalid t)
      + unat (te_cancelled t)"
      by (simp add: unat_sub word_le_nat_alt)
    show "te_state t = 1 \<longrightarrow> te_error t = 0 \<and> te_final_counter t \<le> te_restore_before t"
      "te_state t = 3 \<longrightarrow> sint (te_error t) < 0" "te_restore_before t \<le> te_restore_after t"
      using u by (auto simp: terminal_validate_def Let_def not_less split: if_split_asm)
  qed
  have nats: "unat (vr_transition_before r) \<le> unat (vr_transition_after r)"
    "unat (vr_transition_after r) \<le> unat (vr_valid_start r)"
    "unat (vr_valid_start r) \<le> unat (vr_valid_end r)"
    using order by (simp_all add: word_le_nat_alt)
  have bytes: "vr_result r = 1 \<or> vr_version r = 5 \<longrightarrow>
      unat (vr_iq_bytes r) = 4 * samples \<or> unat (vr_iq_bytes r) = 8 * samples"
    using rest(3) mult by metis
  have nonzero: "vr_version r \<noteq> 5 \<longrightarrow> (vr_result r = 1 \<longleftrightarrow> 0 < unat (vr_iq_bytes r))"
    using rest(1) by (simp add: unat_gt_0)
  have bound: "vr_version r = 5 \<longrightarrow> samples \<le> limit \<and> (vr_result r = 1 \<longrightarrow> samples = limit)"
    using rest(2) s l by (metis word_le_nat_alt)
  have restored: "te_state t = 1 \<longrightarrow> te_error t = 0 \<and> unat (te_final_counter t) \<le> unat (te_restore_after t)"
    using final(1,3) by (auto simp: word_le_nat_alt)
  show ?thesis
    by (intro conjI nats bytes nonzero bound planned restored final(2))
qed

definition demo_visit :: visit_record where
  "demo_visit = \<lparr>vr_version = 0, vr_session = 7, vr_generation = 1, vr_visit = 3,
     vr_selection_counter = 900, vr_transition_before = 1000, vr_transition_after = 1100,
     vr_valid_start = 1200, vr_valid_end = 301200, vr_frequency_hz = 100000000,
     vr_iq_bytes = 1200000, vr_missing_before = 0, vr_bandwidth_hz = 2000000,
     vr_source_rate_hz = 2500000, vr_target = 1, vr_profile = 1, vr_result = 1,
     vr_eligible_mask = 3, vr_effective_weight = 65536, vr_profile_crc32 = 9, vr_flags = 1,
     vr_gain_counter = 0, vr_gain_duration_ns = 0, vr_rx1_gain = 0, vr_rx2_gain = 0,
     vr_gain_valid = 0\<rparr>"

definition demo_terminal :: scan_terminal where
  "demo_terminal = \<lparr>te_session = 7, te_generation = 1, te_final_counter = 400000,
     te_restore_before = 400100, te_restore_after = 400200, te_planned = 10, te_delivered = 6,
     te_skipped = 2, te_invalid = 1, te_cancelled = 1, te_iq_bytes = 7200000, te_state = 1,
     te_reason = 0, te_error = 0, te_flags = 1\<rparr>"

theorem scan_reports_consistent_witness:
  "visit_decode (projr (visit_encode 160 demo_visit)) = Inr demo_visit \<and>
   terminal_decode (projr (terminal_encode 128 demo_terminal)) = Inr demo_terminal \<and>
   (unat (vr_iq_bytes demo_visit) = 4 * 300000 \<or> unat (vr_iq_bytes demo_visit) = 8 * 300000) \<and>
   unat (te_planned demo_terminal) = unat (te_delivered demo_terminal)
     + unat (te_skipped demo_terminal) + unat (te_invalid demo_terminal)
     + unat (te_cancelled demo_terminal)"
proof -
  have "visit_validate demo_visit = 0" by code_simp
  then have v: "visit_decode (projr (visit_encode 160 demo_visit)) = Inr demo_visit"
    unfolding visit_exact by (simp add: visit_encode_def Let_def) (simp add: demo_visit_def)
  have "terminal_validate demo_terminal = 0" by code_simp
  then have t: "terminal_decode (projr (terminal_encode 128 demo_terminal)) = Inr demo_terminal"
    unfolding terminal_exact by (simp add: terminal_encode_def Let_def)
  show ?thesis
    using v t scan_reports_consistent [OF v t refl refl] by (simp add: demo_visit_def)
qed

end
