(* ===== verification/Scan_Delivery.thy ===== *)
theory Scan_Delivery
  imports Scan_Exact
begin

text \<open>
  The scan policy and the scan protocol together: every acknowledgement that the client of the
  policy takes (\<open>spf_scan_policy_take_ack\<close>) passes the validation of the acknowledgement message,
  so the server can always send it.
\<close>

definition ack_sound :: "scan_ack \<Rightarrow> bool" where
  "ack_sound a \<longleftrightarrow> ack_target a < 8 \<and> (ack_result a = FB_APPLIED) = (ack_first_visit a \<noteq> UINT64_MAX)"

definition acks_sound :: "scan_policy \<Rightarrow> bool" where
  "acks_sound p \<longleftrightarrow> policy_shape p \<and> (\<forall>a \<in> set (ack_queue p). ack_sound a)"

lemma acks_sound_fields:
  assumes "acks_sound p" "pending p' = pending p" "acks p' = acks p" "ack_head p' = ack_head p"
    "ack_count p' = ack_count p" "pending_count p' = pending_count p" "config p' = config p"
    "length (channel_sequence p') = length (channel_sequence p)"
  shows "acks_sound p'"
  using assms by (simp add: acks_sound_def policy_shape_def pending_items_def ack_queue_def)

lemma acks_sound_terminal:
  assumes sound: "acks_sound p" and i: "i < 8" and occ: "pf_occupied (pending p ! i)"
    and res: "res = FB_APPLIED \<Longrightarrow> visit_count p \<noteq> UINT64_MAX"
  shows "acks_sound (terminal_ack p i res now b a)"
proof -
  have shape: "policy_shape p" using sound by (simp add: acks_sound_def)
  have "ack_count p + pending_count p \<le> 64" using shape by (simp add: policy_shape_def)
  then have "ack_count p < 64" using pending_count_pos [OF shape i occ] by linarith
  then have len: "length (acks p) = 64" "ack_head p < 64" "ack_count p < 64"
    using shape by (simp_all add: policy_shape_def)
  let ?q = "terminal_ack p i res now b a"
  define x where "x = \<lparr>ack_sequence = fb_sequence (pf_value (pending p ! i)),
    ack_source_visit = fb_visit (pf_value (pending p ! i)),
    ack_first_visit = (if res = FB_APPLIED then visit_count p else UINT64_MAX),
    ack_received = pf_received (pending p ! i), ack_application = now, ack_target = i,
    ack_result = res, ack_old_boost = b, ack_new_boost = a\<rparr>"
  then have x: "ack_sound x" "acks ?q = (acks p)[(ack_head p + ack_count p) mod 64 := x]"
    "ack_count ?q = Suc (ack_count p)" "ack_head ?q = ack_head p"
    using i res by (simp_all add: terminal_ack_def Let_def ack_sound_def)
  have "ack_queue ?q = ack_queue p @ [x]"
    using ring_view_enqueue [of "ack_count p" "acks p" "ack_head p" x] len x
    by (simp add: ack_queue_def)
  then show ?thesis
    using sound terminal_ack_moves(1) [OF shape i occ refl] x(1) by (auto simp: acks_sound_def)
qed

lemma acks_sound_apply:
  assumes "acks_sound p" and i: "i < 8" and v: "visit_count p \<noteq> UINT64_MAX"
  shows "acks_sound (apply_pending p now i) \<and> visit_count (apply_pending p now i) = visit_count p"
proof (cases "pf_occupied (pending p ! i)")
  case True
  have step: "acks_sound (terminal_ack r i res now b a)"
    if "pending r = pending p" "acks_sound r" "visit_count r = visit_count p" for r res b a
    using that True v by (intro acks_sound_terminal i) simp_all
  show ?thesis
    unfolding apply_pending_def Let_def
    by (auto intro!: step assms(1) acks_sound_fields [OF assms(1)])
qed (simp add: apply_pending_def Let_def assms)

lemma acks_sound_weigh:
  "\<forall>i \<in> set is. i < 8 \<Longrightarrow> acks_sound p \<Longrightarrow> visit_count p \<noteq> UINT64_MAX \<Longrightarrow>
   acks_sound (fst (weigh_targets m now is (p, ws, t)))"
proof (induction m now "is" "(p, ws, t)" arbitrary: p ws t rule: weigh_targets.induct)
  case (2 m now i "is" p ws t)
  then show ?case using acks_sound_apply [of p i now] by (simp add: Let_def)
qed simp

lemma not_max_less: "\<not> UINT64_MAX < (x::u64)"
proof -
  have "unat x \<le> 18446744073709551615" using unat_u64_less [of x] by linarith
  then show ?thesis by (simp add: word_less_nat_alt)
qed

lemma acks_sound_select:
  assumes sel: "policy_select p now = Some (ret, p')" and sound: "acks_sound p"
  shows "acks_sound p'"
proof -
  have n: "unat (targets (config p)) \<le> 8"
    using sound by (simp add: acks_sound_def policy_shape_def)
  have ordered: "acks_sound (snd (select_ordered p now))"
    by (simp add: select_ordered_def Let_def acks_sound_fields [OF sound] sound)
  have drawn: "acks_sound p'" if "select_drawn p now m = Some (ret, p')" "visit_count p \<noteq> UINT64_MAX" for m
  proof -
    obtain q ws t where w: "weigh_targets m now [0..<unat (targets (config p))]
        (p, replicate 8 0, 0) = (q, ws, t)"
      by (metis prod_cases3)
    have q: "acks_sound q"
      using acks_sound_weigh [of "[0..<unat (targets (config p))]" p m now "replicate 8 0" 0]
        n w sound that(2) by simp
    show ?thesis
      using that w by (auto simp: select_drawn_def Let_def acks_sound_fields [OF q]
          split: option.splits prod.splits if_splits)
  qed
  have "visit_count p \<noteq> UINT64_MAX" if "\<not> max_visits p \<le> visit_count p"
    using that not_max_less [of "max_visits p"] by (auto simp: not_le)
  then show ?thesis
    using sel ordered drawn sound
    by (auto simp: policy_select_def Let_def split: if_split_asm)
qed

lemma acks_sound_cancel: "acks_sound p \<Longrightarrow> i < 8 \<Longrightarrow> acks_sound (cancel_pending now i p)"
  by (auto simp: cancel_pending_def Let_def intro: acks_sound_terminal)

lemma acks_sound_cancel_all:
  "acks_sound p \<Longrightarrow> \<forall>i \<in> set is. i < 8 \<Longrightarrow> acks_sound (fold (cancel_pending now) is p)"
  by (induction "is" arbitrary: p) (simp_all add: acks_sound_cancel)

lemma acks_sound_stop: "acks_sound p \<Longrightarrow> acks_sound (policy_stop p now)"
proof -
  assume p: "acks_sound p"
  then have "\<forall>i \<in> set [0..<unat (targets (config p))]. i < 8"
    by (auto simp: acks_sound_def policy_shape_def)
  note c = acks_sound_cancel_all [OF p this]
  show ?thesis
    unfolding policy_stop_def Let_def using p by (auto intro: acks_sound_fields [OF c])
qed

lemma acks_sound_feedback:
  assumes acc: "policy_feedback p f now = (FB_ACCEPTED, p')" and sound: "acks_sound p"
  shows "acks_sound p' \<and> fb_sequence f \<noteq> 0"
proof -
  have shape: "policy_shape p" using sound by (simp add: acks_sound_def)
  let ?t = "unat (fb_target f)"
  let ?q = "if pf_occupied (pending p ! ?t)
    then terminal_ack p ?t FB_SUPERSEDED now (decayed p ?t now) (decayed p ?t now) else p"
  have tn: "fb_target f < targets (config p)" "fb_sequence f \<noteq> 0"
    and same: "acks p' = acks ?q" "ack_head p' = ack_head ?q" "ack_count p' = ack_count ?q"
    using acc by (auto simp: policy_feedback_def Let_def not_le split: if_split_asm)
  then have "?t < 8" using shape by (auto simp: policy_shape_def word_less_nat_alt)
  then have "acks_sound ?q" using sound by (auto intro: acks_sound_terminal)
  then show ?thesis
    using feedback_accepted(1) [OF shape acc] same tn(2)
    unfolding acks_sound_def ack_queue_def by metis
qed

text \<open>The invariant of a run: the acknowledgements taken so far and those in the queue.\<close>

definition delivered_ok :: "policy_history \<Rightarrow> bool" where
  "delivered_ok = (\<lambda>(acc, taken, p). acks_sound p \<and> (\<forall>a \<in> set taken. ack_sound a) \<and> 0 \<notin> set acc)"

lemma delivered_ok_exec:
  assumes ok: "delivered_ok (acc, taken, p)" and ex: "policy_exec a (acc, taken, p) = Some h"
  shows "delivered_ok h"
proof (cases a)
  case (Feedback f now)
  obtain res p' where f: "policy_feedback p f now = (res, p')" by fastforce
  show ?thesis
  proof (cases "res = FB_ACCEPTED")
    case True
    with acks_sound_feedback [of p f now p'] f ok ex Feedback show ?thesis
      by (auto simp: delivered_ok_def)
  next
    case False
    with feedback_refused [OF f] ok ex Feedback f show ?thesis by simp
  qed
next
  case TakeAck
  obtain r p' where t: "policy_take_ack p = (r, p')" by fastforce
  show ?thesis
  proof (cases r)
    case (Inl e)
    then have "p' = p" using t by (auto simp: policy_take_ack_def split: if_split_asm)
    with ok ex TakeAck t Inl show ?thesis by simp
  next
    case (Inr b)
    have "policy_shape p" using ok by (simp add: delivered_ok_def acks_sound_def)
    from take_ack_books(1,8) [OF this t [unfolded Inr]] ok ex TakeAck t Inr
    show ?thesis by (auto simp: delivered_ok_def acks_sound_def)
  qed
qed (use ok ex acks_sound_select acks_sound_stop in \<open>auto simp: delivered_ok_def policy_commit_def
    policy_finish_visit_def Let_def intro: acks_sound_fields split: option.splits prod.splits\<close>)

lemma delivered_ok_run: "policy_run as h = Some h' \<Longrightarrow> delivered_ok h \<Longrightarrow> delivered_ok h'"
proof (induction as arbitrary: h)
  case (Cons a as)
  obtain acc taken p where h: "h = (acc, taken, p)" by (metis prod_cases3)
  from Cons.prems(1) obtain h1 where "policy_exec a h = Some h1" "policy_run as h1 = Some h'"
    by (auto split: option.splits)
  with Cons.IH delivered_ok_exec Cons.prems(2) h show ?case by blast
qed simp

text \<open>C29: Acknowledgements can always be sent. Over any sequence of calls on a created policy, every
acknowledgement that is taken passes the validation of the wire format and is received as it was
sent; its sequence number is one of an accepted feedback.\<close>

theorem scan_acks_deliverable:
  assumes "policy_create mem vmem c start = Inr p"
    and "policy_run ops ([], [], p) = Some (acc, taken, q)" and "a \<in> set taken"
  shows "(\<exists>w. ack_encode 96 a = Inr w \<and> ack_decode w = Inr a) \<and> ack_sequence a \<in> set acc"
proof -
  have books: "books_ok ([], [], p)" by (rule books_ok_create [OF assms(1)])
  have "acks_sound p"
    using books by (simp add: acks_sound_def books_ok_def ack_queue_def policy_create_fields [OF assms(1)])
  then have d: "delivered_ok (acc, taken, q)"
    by (intro delivered_ok_run [OF assms(2)]) (simp add: delivered_ok_def)
  have "books_ok (acc, taken, q)" by (rule books_ok_run [OF assms(2) books])
  then have "mset acc = mset (map ack_sequence taken) + outstanding q" by (simp add: books_ok_def)
  then have "set (map ack_sequence taken) \<subseteq> set acc"
    by (metis mset_subset_eq_add_left set_mset_mono set_mset_mset)
  then have s: "ack_sequence a \<in> set acc" using assms(3) by auto
  then have "ack_validate a = 0"
    using d assms(3) result_code_nth(1) [of "ack_result a"]
    by (auto simp: delivered_ok_def ack_sound_def ack_validate_def not_less)
  then obtain w where w: "ack_encode 96 a = Inr w" by (simp add: ack_encode_def Let_def)
  have "ack_decode w = Inr a" using w by (simp add: ack_exact)
  then show ?thesis using w s by blast
qed

theorem scan_acks_deliverable_witness:
  "\<exists>a taken q. policy_run demo_calls ([], [], demo_policy) = Some ([5, 6], taken, q) \<and>
     a \<in> set taken \<and> ack_sequence a = 5 \<and> (\<exists>w. ack_encode 96 a = Inr w \<and> ack_decode w = Inr a)"
proof -
  obtain taken q where run: "policy_run demo_calls ([], [], demo_policy) = Some ([5, 6], taken, q)"
    and t: "map (\<lambda>a. (ack_sequence a, ack_result a)) taken = [(5, FB_SUPERSEDED)]"
    using demo_run_end_eq by (auto simp: demo_run_end_def)
  then obtain a where "taken = [a]" "ack_sequence a = 5" by (cases taken) auto
  with run scan_acks_deliverable [OF demo_policy_create run, of a] show ?thesis by auto
qed

end
