(* ===== verification/Wire_Patch.thy ===== *)
theory Wire_Patch
  imports Wire_Records
begin

text \<open>
  Formats made from another format by overwriting fixed fields: the major versions 2 to 4 of the
  hop protocol reuse the encoder and the decoder of version 1 on a copy whose version, length and
  feature fields are patched. The locale states when that gives an exact codec again.
\<close>

subsection \<open>Overwriting fields\<close>

definition patched :: "(nat \<times> wire_field) list \<Rightarrow> u8 list \<Rightarrow> bool" where
  "patched fs w \<longleftrightarrow> list_all (\<lambda>(k, f). has_field w k f) fs"

lemma patched_simps [simp]: "patched [] w"
  "patched ((k, f) # fs) w \<longleftrightarrow> has_field w k f \<and> patched fs w"
  by (simp_all add: patched_def)

lemma length_put_field [simp]: "k + field_size f \<le> length p \<Longrightarrow> length (put_field p k f) = length p"
  by (simp add: put_field_pieces)

lemma nth_put_field:
  assumes "k + field_size f \<le> length p"
  shows "put_field p k f ! i = (if k \<le> i \<and> i < k + field_size f then field_bytes f ! (i - k) else p ! i)"
  using assms by (auto simp: put_field_pieces nth_append)

lemma put_field_commute:
  assumes "k + field_size f \<le> j" and "j + field_size g \<le> length p"
  shows "put_field (put_field p k f) j g = put_field (put_field p j g) k f"
  using assms by (intro nth_equalityI) (auto simp: nth_put_field)

lemma put_field_twice:
  assumes "k + field_size f \<le> length p" and "field_size g = field_size f"
  shows "put_field (put_field p k f) k g = put_field p k g"
  using assms by (intro nth_equalityI) (auto simp: nth_put_field)

lemma put_field_same:
  assumes "k + field_size f \<le> length p" and "has_field p k f"
  shows "put_field p k f = p"
proof -
  have "p = take k p @ take (field_size f) (drop k p) @ drop (k + field_size f) p"
    by (metis append_take_drop_id drop_drop add.commute)
  then show ?thesis using assms by (simp add: put_field_pieces has_field_iff)
qed

lemma has_field_put_field:
  assumes "k + field_size f \<le> length p" shows "has_field (put_field p k f) k f"
  using assms by (simp add: has_field_iff put_field_pieces)

lemma has_field_put_field_other:
  assumes "j + field_size g \<le> k \<or> k + field_size f \<le> j"
    and "k + field_size f \<le> length p" and "j + field_size g \<le> length p"
  shows "has_field (put_field p k f) j g \<longleftrightarrow> has_field p j g"
proof -
  have "take (field_size g) (drop j (put_field p k f)) = take (field_size g) (drop j p)"
    using assms by (intro nth_equalityI) (auto simp: nth_put_field)
  then show ?thesis using assms by (simp add: has_field_iff)
qed

lemma length_put_fields_in: "ascending lo fs hi \<Longrightarrow> hi \<le> length p \<Longrightarrow> length (put_fields p fs) = length p"
proof (induction lo fs hi arbitrary: p rule: ascending.induct)
  case (2 lo k f fs hi)
  then have "k + field_size f \<le> length p" using ascending_le by fastforce
  then show ?case using 2 by simp
qed simp

lemma put_fields_commute:
  "k + field_size f \<le> lo \<Longrightarrow> ascending lo fs hi \<Longrightarrow> hi \<le> length p \<Longrightarrow>
   put_fields (put_field p k f) fs = put_field (put_fields p fs) k f"
proof (induction lo fs hi arbitrary: p rule: ascending.induct)
  case (2 lo j g fs hi)
  have le: "j + field_size g \<le> hi" using "2.prems"(2) ascending_le [of "j + field_size g" fs hi] by simp
  have "put_fields (put_field p k f) ((j, g) # fs) = put_fields (put_field (put_field p j g) k f) fs"
    using put_field_commute [of k f j g p] "2.prems" le by simp
  also have "\<dots> = put_field (put_fields (put_field p j g) fs) k f"
    using "2.IH" "2.prems" le by simp
  finally show ?case by simp
qed simp

lemma ascending_sizes:
  "map (\<lambda>(k, f). (k, field_size f)) gs = map (\<lambda>(k, f). (k, field_size f)) fs \<Longrightarrow>
   ascending lo fs hi \<Longrightarrow> ascending lo gs hi"
  by (induction lo fs hi arbitrary: gs rule: ascending.induct) auto

text \<open>Restoring what the fields were.\<close>

lemma put_fields_restore:
  assumes "ascending lo fs hi" and "hi \<le> length p" and "patched gs p"
    and "map (\<lambda>(k, f). (k, field_size f)) gs = map (\<lambda>(k, f). (k, field_size f)) fs"
  shows "put_fields (put_fields p fs) gs = p"
  using assms
proof (induction lo fs hi arbitrary: gs rule: ascending.induct)
  case (2 lo k f fs hi)
  from "2.prems"(4) obtain g gs' where gs: "gs = (k, g) # gs'" "field_size g = field_size f"
    "map (\<lambda>(k, f). (k, field_size f)) gs' = map (\<lambda>(k, f). (k, field_size f)) fs"
    by auto
  have asc: "ascending (k + field_size f) fs hi" using "2.prems"(1) by simp
  have k: "k + field_size f \<le> length p" using ascending_le [OF asc] "2.prems"(2) by simp
  have "put_fields (put_fields p ((k, f) # fs)) gs
      = put_fields (put_field (put_fields (put_field p k f) fs) k g) gs'"
    by (simp add: gs(1))
  also have "put_field (put_fields (put_field p k f) fs) k g = put_fields (put_field (put_field p k f) k g) fs"
    using put_fields_commute [of k g "k + field_size f" fs hi "put_field p k f"] asc k "2.prems"(2) gs(2)
    by simp
  also have "put_field (put_field p k f) k g = p"
    using put_field_twice [OF k gs(2)] put_field_same [of k g p] k gs "2.prems"(3) by simp
  finally show ?case using "2.IH" [of gs'] asc "2.prems"(2,3) gs by simp
qed simp

lemma patched_put_fields:
  "ascending lo fs hi \<Longrightarrow> hi \<le> length p \<Longrightarrow> patched fs (put_fields p fs)"
proof (induction lo fs hi arbitrary: p rule: ascending.induct)
  case (2 lo k f fs hi)
  have asc: "ascending (k + field_size f) fs hi" using "2.prems"(1) by simp
  have k: "k + field_size f \<le> length p" using ascending_le [OF asc] "2.prems"(2) by simp
  have "put_fields (put_field p k f) fs = put_field (put_fields p fs) k f"
    using put_fields_commute [OF order_refl asc "2.prems"(2)] .
  moreover have "length (put_fields p fs) = length p" by (rule length_put_fields_in [OF asc "2.prems"(2)])
  ultimately have "has_field (put_fields (put_field p k f) fs) k f"
    using k by (simp add: has_field_put_field)
  then show ?case using "2.IH" [of "put_field p k f"] asc k "2.prems"(2) by simp
qed simp

lemma put_fields_append_in:
  "ascending lo fs hi \<Longrightarrow> hi \<le> length p \<Longrightarrow> put_fields (p @ q) fs = put_fields p fs @ q"
proof (induction lo fs hi arbitrary: p rule: ascending.induct)
  case (2 lo k f fs hi)
  have asc: "ascending (k + field_size f) fs hi" using "2.prems"(1) by simp
  have k: "k + field_size f \<le> length p" using ascending_le [OF asc] "2.prems"(2) by simp
  then have "put_field (p @ q) k f = put_field p k f @ q" by (simp add: put_field_pieces)
  then show ?case using "2.IH" [of "put_field p k f"] asc k "2.prems"(2) by simp
qed simp

subsection \<open>Patched codecs\<close>

text \<open>
  The base format has the fields \<open>olds\<close>; the new format has \<open>news\<close> in their place. Overwriting is
  undone exactly, so the new format is exact if the base format is.
\<close>

locale patched_codec = wire_codec +
  fixes news olds :: "(nat \<times> wire_field) list" and hi :: nat
  assumes news: "ascending 0 news hi"
    and same: "map (\<lambda>(k, f). (k, field_size f)) olds = map (\<lambda>(k, f). (k, field_size f)) news"
    and base: "decode w = Inr r \<Longrightarrow> hi \<le> length w \<and> patched olds w"
begin

lemma patch_iff:
  "hi \<le> length w \<and> patched news w \<and> decode (put_fields w olds) = Inr r
   \<longleftrightarrow> wf r \<and> (\<exists>v. encode r = Inr v \<and> put_fields v news = w)"
proof
  have olds: "ascending 0 olds hi"
    using news same ascending_sizes by metis
  assume l: "hi \<le> length w \<and> patched news w \<and> decode (put_fields w olds) = Inr r"
  then have "put_fields (put_fields w olds) news = w"
    by (intro put_fields_restore [OF olds]) (simp_all add: same)
  with encode_decode [of "put_fields w olds" r] l
  show "wf r \<and> (\<exists>v. encode r = Inr v \<and> put_fields v news = w)" by blast
next
  assume "wf r \<and> (\<exists>v. encode r = Inr v \<and> put_fields v news = w)"
  then obtain v where v: "wf r" "encode r = Inr v" "put_fields v news = w" by blast
  have d: "decode v = Inr r" by (rule decode_encode [OF v(1,2)])
  note b = base [OF d]
  have "put_fields w olds = v"
    using put_fields_restore [OF news _ _ same] b v(3) by blast
  moreover have "length w = length v" "patched news w"
    using length_put_fields_in [OF news] patched_put_fields [OF news] b v(3) by auto
  ultimately show "hi \<le> length w \<and> patched news w \<and> decode (put_fields w olds) = Inr r"
    using b d by simp
qed

end

end
