(* ===== verification/Hop_Adaptive.thy ===== *)
theory Hop_Adaptive
  imports Hop_Records Wire_Patch
begin

unbundle bit_operations_syntax

text \<open>
  The adaptive hop protocol (\<open>iiod/spf-hop-adaptive-protocol.c\<close>): requests of the major versions 2
  (adaptive order), 3 and 4 (decisions of the host at one or several sample rates), sidecars with
  the choice behind every event, statuses, and the host's feedback. Plans, events and statuses of
  version 1 are reused: their encoder and decoder work on a copy with the fields of version 1.
\<close>

abbreviation (input) HOP_ADAPTIVE_VERSION :: u16 where "HOP_ADAPTIVE_VERSION \<equiv> 2"
abbreviation (input) HOP_ADAPTIVE_FEATURES :: u32 where "HOP_ADAPTIVE_FEATURES \<equiv> 0x3f"
abbreviation (input) HOP_HOST_FEATURES :: u32 where "HOP_HOST_FEATURES \<equiv> 0x7f"
abbreviation (input) HOP_MULTIRATE_FEATURES :: u32 where "HOP_MULTIRATE_FEATURES \<equiv> 0xff"
abbreviation (input) HOP_ADAPTIVE_REQUEST_BYTES :: "'a::numeral" where "HOP_ADAPTIVE_REQUEST_BYTES \<equiv> 352"
abbreviation (input) HOP_ADAPTIVE_EVENT_BYTES :: "'a::numeral" where "HOP_ADAPTIVE_EVENT_BYTES \<equiv> 144"
abbreviation (input) HOP_HOST_REQUEST_BYTES :: "'a::numeral" where "HOP_HOST_REQUEST_BYTES \<equiv> 416"
abbreviation (input) HOP_HOST_FEEDBACK_BYTES :: "'a::numeral" where "HOP_HOST_FEEDBACK_BYTES \<equiv> 160"
abbreviation (input) HOP_SIDECAR_MAX_BYTES :: "'a::numeral" where "HOP_SIDECAR_MAX_BYTES \<equiv> 704"
abbreviation (input) HOP_ADAPTIVE_SIDECAR_MAX_BYTES :: "'a::numeral" where
  "HOP_ADAPTIVE_SIDECAR_MAX_BYTES \<equiv> 1216"
abbreviation (input) HOP_SHADOW :: u32 where "HOP_SHADOW \<equiv> 1"
abbreviation (input) HOP_ADAPTIVE :: u32 where "HOP_ADAPTIVE \<equiv> 2"
abbreviation (input) HOP_CHOICE_FAULT_FALLBACK :: u32 where "HOP_CHOICE_FAULT_FALLBACK \<equiv> 4"

record hop_policy =
  hp_generation :: u64
  hp_mode :: u32
  hp_warmup_visits :: u32
  hp_missed_dwells :: u32
  hp_active_weight :: u32
  hp_quiet_weight :: u32
  hp_cooldown_ms :: u32
  hp_maximum_revisit_ms :: u32
  hp_hop_budget_ms :: u32
  hp_maximum_result_age_ms :: u32
  hp_unhealthy_limit :: u32

record hop_host =
  hh_enabled :: u32
  hh_rx :: u32
  hh_decision_rate_hz :: u32
  hh_factor :: u32
  hh_phase :: u32
  hh_delay :: u32
  hh_supported_start :: u32
  hh_supported_end :: u32
  hh_sha256 :: "u8 list"

record adaptive_request =
  geometry :: hop_request
  policy :: hop_policy
  host :: hop_host

record hop_feedback =
  hf_session :: u64
  hf_generation :: u64
  hf_stream_id :: u64
  hf_visit :: u64
  hf_event_sequence :: u64
  hf_valid_start :: u64
  hf_valid_end :: u64
  hf_source_rate_hz :: u32
  hf_decision_rate_hz :: u32
  hf_rx :: u32
  hf_target :: u32
  hf_outcome :: u32
  hf_healthy :: u32
  hf_screen_mask :: u32
  hf_confirmation_mask :: u32
  hf_supported_start :: u32
  hf_supported_end :: u32
  hf_factor :: u32
  hf_phase :: u32
  hf_delay :: u32
  hf_sha256 :: "u8 list"

record hop_choice =
  hc_decision_counter :: u64
  hc_basis_visit :: u64
  hc_cooldown_remaining :: u64
  hc_generation :: u64
  hc_proposed_target :: u32
  hc_reason :: u32
  hc_active_mask :: u32
  hc_quiet_mask :: u32
  hc_consecutive_misses :: u32
  hc_mode :: u32

record adaptive_sidecar =
  as_geometry :: hop_sidecar
  as_choices :: "hop_choice list"

definition zero_host :: hop_host where
  "zero_host = \<lparr>hh_enabled = 0, hh_rx = 0, hh_decision_rate_hz = 0, hh_factor = 0, hh_phase = 0,
     hh_delay = 0, hh_supported_start = 0, hh_supported_end = 0, hh_sha256 = replicate 32 0\<rparr>"

definition zero_hop_choice :: hop_choice where
  "zero_hop_choice = \<lparr>hc_decision_counter = 0, hc_basis_visit = 0, hc_cooldown_remaining = 0,
     hc_generation = 0, hc_proposed_target = 0, hc_reason = 0, hc_active_mask = 0,
     hc_quiet_mask = 0, hc_consecutive_misses = 0, hc_mode = 0\<rparr>"

subsection \<open>Policies\<close>

definition valid_policy :: "adaptive_request \<Rightarrow> int \<Rightarrow> int" where
  "valid_policy r hst =
     (let p = policy r; g = geometry r in
      if hp_generation p = 0 \<or> (hp_mode p \<noteq> HOP_SHADOW \<and> hp_mode p \<noteq> HOP_ADAPTIVE) \<or>
         (if hst = 1 then sample_rate_hz g \<noteq> 10000000
          else if hst = 2 then sample_rate_hz g \<noteq> 15000000 \<and> sample_rate_hz g \<noteq> 20000000
          else sample_rate_hz g \<noteq> 2500000 \<and> sample_rate_hz g \<noteq> 5000000) \<or>
         dwell_samples g \<noteq> sample_rate_hz g * 120 div 1000 \<or> 2500 < dwell_count g \<or>
         hp_warmup_visits p = 0 \<or> 16 < hp_warmup_visits p \<or>
         dwell_count g < ucast (hp_warmup_visits p * HOP_PROFILE_COUNT) \<or>
         hp_missed_dwells p = 0 \<or> 32 < hp_missed_dwells p \<or> hp_quiet_weight p = 0 \<or>
         hp_active_weight p < hp_quiet_weight p \<or> 16 < hp_active_weight p \<or>
         hp_cooldown_ms p = 0 \<or> 30000 < hp_cooldown_ms p \<or> hp_hop_budget_ms p < 120 \<or>
         1000 < hp_hop_budget_ms p \<or> 30000 < hp_maximum_revisit_ms p \<or>
         hp_maximum_revisit_ms p < hp_hop_budget_ms p * HOP_PROFILE_COUNT \<or>
         hp_maximum_result_age_ms p = 0 \<or> 10000 < hp_maximum_result_age_ms p \<or>
         hp_unhealthy_limit p = 0 \<or> 32 < hp_unhealthy_limit p
      then - EINVAL else 0)"

definition policy_fields :: "nat \<Rightarrow> hop_policy \<Rightarrow> (nat \<times> wire_field) list" where
  "policy_fields k c = [(k, F64 (hp_generation c)), (k + 8, F32 (hp_mode c)),
     (k + 12, F32 (hp_warmup_visits c)), (k + 16, F32 (hp_missed_dwells c)),
     (k + 20, F32 (hp_active_weight c)), (k + 24, F32 (hp_quiet_weight c)),
     (k + 28, F32 (hp_cooldown_ms c)), (k + 32, F32 (hp_maximum_revisit_ms c)),
     (k + 36, F32 (hp_hop_budget_ms c)), (k + 40, F32 (hp_maximum_result_age_ms c)),
     (k + 44, F32 (hp_unhealthy_limit c))]"

definition policy_encode :: "u8 list \<Rightarrow> nat \<Rightarrow> hop_policy \<Rightarrow> u8 list" where
  "policy_encode p k c = put_fields p (policy_fields k c)"

definition policy_decode :: "u8 list \<Rightarrow> nat \<Rightarrow> hop_policy" where
  "policy_decode p k = \<lparr>hp_generation = get_le64 p k, hp_mode = get_le32 p (k + 8),
     hp_warmup_visits = get_le32 p (k + 12), hp_missed_dwells = get_le32 p (k + 16),
     hp_active_weight = get_le32 p (k + 20), hp_quiet_weight = get_le32 p (k + 24),
     hp_cooldown_ms = get_le32 p (k + 28), hp_maximum_revisit_ms = get_le32 p (k + 32),
     hp_hop_budget_ms = get_le32 p (k + 36), hp_maximum_result_age_ms = get_le32 p (k + 40),
     hp_unhealthy_limit = get_le32 p (k + 44)\<rparr>"

subsection \<open>Requests\<close>

text \<open>The version, length, feature and event size fields of a request, and those of version 1.\<close>

definition request_marks :: "u16 \<Rightarrow> u16 \<Rightarrow> u32 \<Rightarrow> (nat \<times> wire_field) list" where
  "request_marks version bytes features = [(4, F16 version), (6, F16 bytes), (8, F32 features),
     (76, F16 HOP_ADAPTIVE_EVENT_BYTES)]"

definition request_v1_marks :: "(nat \<times> wire_field) list" where
  "request_v1_marks = [(4, F16 HOP_PROTOCOL_VERSION), (6, F16 HOP_REQUEST_BYTES),
     (8, F32 HOP_REQUIRED_FEATURES), (76, F16 HOP_EVENT_BYTES)]"

definition request_v2_encode :: "nat \<Rightarrow> adaptive_request \<Rightarrow> u8 list res" where
  "request_v2_encode size_b r =
     (if size_b < HOP_ADAPTIVE_REQUEST_BYTES then Inl (- ENOSPC)
      else if valid_policy r 0 \<noteq> 0 then Inl (- EINVAL)
      else if host r \<noteq> zero_host then Inl (- EINVAL)
      else case request_encode (replicate HOP_REQUEST_BYTES 0) (geometry r) of
        Inl e \<Rightarrow> Inl e
      | Inr v \<Rightarrow> let p = v @ replicate 64 0;
            p = put_fields p (request_marks HOP_ADAPTIVE_VERSION HOP_ADAPTIVE_REQUEST_BYTES
              HOP_ADAPTIVE_FEATURES)
          in Inr (policy_encode p HOP_REQUEST_BYTES (policy r)))"

definition request_v2_decode :: "u8 list \<Rightarrow> adaptive_request res" where
  "request_v2_decode p =
     (if length p \<noteq> HOP_ADAPTIVE_REQUEST_BYTES then Inl (- EMSGSIZE)
      else if get_le32 p 0 \<noteq> HOP_REQUEST_MAGIC \<or> get_le16 p 4 \<noteq> HOP_ADAPTIVE_VERSION \<or>
          unat (get_le16 p 6) \<noteq> length p then Inl (- EPROTONOSUPPORT)
      else if get_le32 p 8 \<noteq> HOP_ADAPTIVE_FEATURES \<or>
          get_le16 p 76 \<noteq> HOP_ADAPTIVE_EVENT_BYTES \<or> get_le64 p 336 \<noteq> 0 \<or> get_le64 p 344 \<noteq> 0
      then Inl (- EBADMSG)
      else case request_decode (put_fields (take HOP_REQUEST_BYTES p) request_v1_marks) of
        Inl e \<Rightarrow> Inl e
      | Inr g \<Rightarrow> let out = \<lparr>geometry = g, policy = policy_decode p HOP_REQUEST_BYTES,
            host = zero_host\<rparr>
          in if valid_policy out 0 \<noteq> 0 then Inl (- EBADMSG) else Inr out)"

definition hop_digest_present :: "u8 list \<Rightarrow> bool" where
  "hop_digest_present d \<longleftrightarrow> fold (\<lambda>b any. any OR (ucast b :: u32)) (take 32 d) 0 \<noteq> 0"

definition host_fields :: "u32 \<Rightarrow> hop_host \<Rightarrow> (nat \<times> wire_field) list" where
  "host_fields enabled h = [(352, F32 enabled), (356, F32 (hh_rx h)),
     (360, F32 (hh_decision_rate_hz h)), (364, F32 (hh_factor h)), (368, F32 (hh_phase h)),
     (372, F32 (hh_delay h)), (376, F32 (hh_supported_start h)), (380, F32 (hh_supported_end h)),
     (384, FBytes (hh_sha256 h))]"

definition host_decode :: "u8 list \<Rightarrow> u32 \<Rightarrow> hop_host" where
  "host_decode p enabled = \<lparr>hh_enabled = enabled, hh_rx = get_le32 p 356,
     hh_decision_rate_hz = get_le32 p 360, hh_factor = get_le32 p 364, hh_phase = get_le32 p 368,
     hh_delay = get_le32 p 372, hh_supported_start = get_le32 p 376,
     hh_supported_end = get_le32 p 380, hh_sha256 = take 32 (drop 384 p)\<rparr>"

definition request_v3_encode :: "nat \<Rightarrow> adaptive_request \<Rightarrow> u8 list res" where
  "request_v3_encode size_b r =
     (let h = host r in
      if size_b < HOP_HOST_REQUEST_BYTES then Inl (- ENOSPC)
      else if valid_policy r 1 \<noteq> 0 \<or> hh_enabled h \<noteq> 1 \<or> 1 < hh_rx h \<or>
          hh_decision_rate_hz h \<noteq> 2500000 \<or> hh_factor h \<noteq> 4 \<or> hh_phase h \<noteq> 0 \<or>
          hh_delay h \<noteq> 80 \<or> hh_supported_start h \<noteq> 40 \<or> hh_supported_end h \<noteq> 300000 \<or>
          \<not> hop_digest_present (hh_sha256 h) then Inl (- EINVAL)
      else case request_encode (replicate HOP_REQUEST_BYTES 0) (geometry r) of
        Inl e \<Rightarrow> Inl e
      | Inr v \<Rightarrow> let p = v @ replicate 128 0;
            p = put_fields p (request_marks 3 HOP_HOST_REQUEST_BYTES HOP_HOST_FEATURES);
            p = policy_encode p HOP_REQUEST_BYTES (policy r)
          in Inr (put_fields p (host_fields (hh_enabled h) h)))"

definition request_v3_decode :: "u8 list \<Rightarrow> adaptive_request res" where
  "request_v3_decode p =
     (if length p \<noteq> HOP_HOST_REQUEST_BYTES then Inl (- EMSGSIZE)
      else if get_le32 p 0 \<noteq> HOP_REQUEST_MAGIC \<or> get_le16 p 4 \<noteq> 3 \<or>
          unat (get_le16 p 6) \<noteq> length p then Inl (- EPROTONOSUPPORT)
      else if get_le32 p 8 \<noteq> HOP_HOST_FEATURES \<or> get_le16 p 76 \<noteq> HOP_ADAPTIVE_EVENT_BYTES \<or>
          get_le64 p 336 \<noteq> 0 \<or> get_le64 p 344 \<noteq> 0 then Inl (- EBADMSG)
      else case request_decode (put_fields (take HOP_REQUEST_BYTES p) request_v1_marks) of
        Inl e \<Rightarrow> Inl e
      | Inr g \<Rightarrow> let out = \<lparr>geometry = g, policy = policy_decode p HOP_REQUEST_BYTES,
            host = host_decode p (get_le32 p 352)\<rparr>
          in case request_v3_encode HOP_HOST_REQUEST_BYTES out of
            Inl e \<Rightarrow> Inl e
          | Inr v \<Rightarrow> Inr out)"

definition multirate_host_geometry :: "adaptive_request \<Rightarrow> int" where
  "multirate_host_geometry r =
     (let h = host r in
      if sample_rate_hz (geometry r) = 15000000 then
        (if hh_factor h = 6 \<and> hh_delay h = 100 \<and> hh_supported_start h = 34 then 0 else - EINVAL)
      else if sample_rate_hz (geometry r) = 20000000 then
        (if hh_factor h = 8 \<and> hh_delay h = 128 \<and> hh_supported_start h = 32 then 0 else - EINVAL)
      else - EINVAL)"

definition request_v4_encode :: "nat \<Rightarrow> adaptive_request \<Rightarrow> u8 list res" where
  "request_v4_encode size_b r =
     (let h = host r in
      if size_b < HOP_HOST_REQUEST_BYTES then Inl (- ENOSPC)
      else if multirate_host_geometry r \<noteq> 0 \<or> valid_policy r 2 \<noteq> 0 \<or> hh_enabled h \<noteq> 1 \<or>
          hh_rx h \<noteq> 0 \<or> hh_decision_rate_hz h \<noteq> 2500000 \<or> hh_phase h \<noteq> 0 \<or>
          hh_supported_end h \<noteq> 300000 \<or> \<not> hop_digest_present (hh_sha256 h) then Inl (- EINVAL)
      else case request_encode (replicate HOP_REQUEST_BYTES 0) (geometry r) of
        Inl e \<Rightarrow> Inl e
      | Inr v \<Rightarrow> let p = v @ replicate 128 0;
            p = put_fields p (request_marks 4 HOP_HOST_REQUEST_BYTES HOP_MULTIRATE_FEATURES);
            p = policy_encode p HOP_REQUEST_BYTES (policy r)
          in Inr (put_fields p (host_fields 2 h)))"

definition request_v4_decode :: "u8 list \<Rightarrow> adaptive_request res" where
  "request_v4_decode p =
     (if length p \<noteq> HOP_HOST_REQUEST_BYTES then Inl (- EMSGSIZE)
      else if get_le32 p 0 \<noteq> HOP_REQUEST_MAGIC \<or> get_le16 p 4 \<noteq> 4 \<or>
          unat (get_le16 p 6) \<noteq> length p \<or> get_le32 p 8 \<noteq> HOP_MULTIRATE_FEATURES \<or>
          get_le32 p 352 \<noteq> 2 then Inl (- EPROTONOSUPPORT)
      else if get_le16 p 76 \<noteq> HOP_ADAPTIVE_EVENT_BYTES \<or> get_le64 p 336 \<noteq> 0 \<or>
          get_le64 p 344 \<noteq> 0 then Inl (- EBADMSG)
      else case request_decode (put_fields (take HOP_REQUEST_BYTES p) request_v1_marks) of
        Inl e \<Rightarrow> Inl e
      | Inr g \<Rightarrow> let out = \<lparr>geometry = g, policy = policy_decode p HOP_REQUEST_BYTES,
            host = host_decode p 1\<rparr>
          in case request_v4_encode HOP_HOST_REQUEST_BYTES out of
            Inl e \<Rightarrow> Inl (- EBADMSG)
          | Inr v \<Rightarrow> if v \<noteq> p then Inl (- EBADMSG) else Inr out)"

definition adaptive_configuration :: "nat \<Rightarrow> adaptive_request \<Rightarrow> u8 list res" where
  "adaptive_configuration size_b r =
     (if size_b < HOP_HOST_REQUEST_BYTES then Inl (- ENOSPC)
      else case (if hh_enabled (host r) \<noteq> 0 then
            (if sample_rate_hz (geometry r) = 10000000
             then request_v3_encode HOP_HOST_REQUEST_BYTES r
             else request_v4_encode HOP_HOST_REQUEST_BYTES r)
          else request_v2_encode HOP_HOST_REQUEST_BYTES r) of
        Inl e \<Rightarrow> Inl e
      | Inr v \<Rightarrow> Inr (v @ replicate (HOP_HOST_REQUEST_BYTES - length v) 0))"

subsection \<open>Choices and sidecars\<close>

definition choice_validate :: "hop_choice \<Rightarrow> hop_event \<Rightarrow> int" where
  "choice_validate c e =
     (let d = device e in
      if hc_generation c = 0 \<or> HOP_PROFILE_COUNT \<le> hc_proposed_target c \<or>
         HOP_CHOICE_FAULT_FALLBACK < hc_reason c \<or>
         255 < hc_active_mask c OR hc_quiet_mask c \<or> hc_active_mask c AND hc_quiet_mask c \<noteq> 0 \<or>
         32 < hc_consecutive_misses c \<or> 150000000 < hc_cooldown_remaining c \<or>
         (hc_basis_visit c \<noteq> UINT64_MAX \<and> dwell_index d \<le> hc_basis_visit c) \<or>
         transition_before d < hc_decision_counter c \<or>
         (hc_mode c \<noteq> HOP_SHADOW \<and> hc_mode c \<noteq> HOP_ADAPTIVE) \<or>
         (hc_mode c = HOP_ADAPTIVE \<and> hc_proposed_target c \<noteq> ucast (to_profile d)) \<or>
         (hc_mode c = HOP_SHADOW \<and> ucast (to_profile d) \<noteq> dwell_index d mod 8)
      then - EINVAL else 0)"

definition choice_fields :: "hop_choice \<Rightarrow> (nat \<times> wire_field) list" where
  "choice_fields c = [(0, F64 (hc_decision_counter c)), (8, F64 (hc_basis_visit c)),
     (16, F64 (hc_cooldown_remaining c)), (24, F64 (hc_generation c)),
     (32, F32 (hc_proposed_target c)), (36, F32 (hc_reason c)), (40, F32 (hc_active_mask c)),
     (44, F32 (hc_quiet_mask c)), (48, F32 (hc_consecutive_misses c)), (52, F32 (hc_mode c))]"

definition choice_encode :: "u8 list \<Rightarrow> hop_choice \<Rightarrow> u8 list" where
  "choice_encode p c = put_fields p (choice_fields c)"

definition choice_decode :: "u8 list \<Rightarrow> nat \<Rightarrow> hop_choice" where
  "choice_decode p k = \<lparr>hc_decision_counter = get_le64 p k, hc_basis_visit = get_le64 p (k + 8),
     hc_cooldown_remaining = get_le64 p (k + 16), hc_generation = get_le64 p (k + 24),
     hc_proposed_target = get_le32 p (k + 32), hc_reason = get_le32 p (k + 36),
     hc_active_mask = get_le32 p (k + 40), hc_quiet_mask = get_le32 p (k + 44),
     hc_consecutive_misses = get_le32 p (k + 48), hc_mode = get_le32 p (k + 52)\<rparr>"

text \<open>
  The loop of the encoder copies the 80 bytes of event \<open>i\<close> and writes the choice into the 64 zero
  bytes behind it: \<open>adaptive_entry\<close>.
\<close>

definition adaptive_entry :: "u8 list \<Rightarrow> hop_choice list \<Rightarrow> nat \<Rightarrow> u8 list" where
  "adaptive_entry old cs i = take HOP_EVENT_BYTES (drop (HOP_SIDECAR_HEADER_BYTES + i * HOP_EVENT_BYTES) old)
     @ choice_encode (replicate 64 0) (cs ! i)"

definition sidecar_v2_encode :: "nat \<Rightarrow> adaptive_sidecar \<Rightarrow> u8 list res" where
  "sidecar_v2_encode size_b s =
     (let g = as_geometry s in
      if HOP_EVENT_CAPACITY < event_count g then Inl (- EINVAL)
      else let n = unat (event_count g);
          bytes = HOP_SIDECAR_HEADER_BYTES + n * HOP_ADAPTIVE_EVENT_BYTES in
      if size_b < bytes then Inl (- ENOSPC)
      else case sidecar_encode (replicate HOP_SIDECAR_MAX_BYTES 0) g of
        Inl e \<Rightarrow> Inl e
      | Inr (_, old) \<Rightarrow>
          (let p = put_fields (take HOP_SIDECAR_HEADER_BYTES old) [(4, F16 HOP_ADAPTIVE_VERSION),
             (8, F32 (of_nat bytes)), (12, F32 HOP_ADAPTIVE_FEATURES)]
           in if list_ex (\<lambda>i. choice_validate (as_choices s ! i) (events g ! i) \<noteq> 0) [0..<n]
           then Inl (- EINVAL)
           else Inr (p @ concat (map (adaptive_entry old (as_choices s)) [0..<n]))))"

definition sidecar_v2_decode :: "u8 list \<Rightarrow> adaptive_sidecar res" where
  "sidecar_v2_decode p =
     (if length p < HOP_SIDECAR_HEADER_BYTES then Inl (- EMSGSIZE)
      else if get_le32 p 0 \<noteq> HOP_SIDECAR_MAGIC \<or> get_le16 p 4 \<noteq> HOP_ADAPTIVE_VERSION \<or>
          get_le16 p 6 \<noteq> HOP_SIDECAR_HEADER_BYTES then Inl (- EPROTONOSUPPORT)
      else let n = unat (get_le16 p 20) in
      if HOP_EVENT_CAPACITY < n \<or> unat (get_le32 p 8) \<noteq> length p \<or>
         length p \<noteq> HOP_SIDECAR_HEADER_BYTES + n * HOP_ADAPTIVE_EVENT_BYTES \<or>
         get_le32 p 12 \<noteq> HOP_ADAPTIVE_FEATURES then Inl (- EBADMSG)
      else let bytes = HOP_SIDECAR_HEADER_BYTES + n * HOP_EVENT_BYTES;
          old = put_fields (take HOP_SIDECAR_HEADER_BYTES p) [(4, F16 HOP_PROTOCOL_VERSION),
             (8, F32 (of_nat bytes)), (12, F32 HOP_REQUIRED_FEATURES)];
          entry = (\<lambda>i. HOP_SIDECAR_HEADER_BYTES + i * HOP_ADAPTIVE_EVENT_BYTES)
        in if list_ex (\<lambda>i. get_le64 p (entry i + 136) \<noteq> 0) [0..<n] then Inl (- EBADMSG)
      else case sidecar_decode (old @
            concat (map (\<lambda>i. take HOP_EVENT_BYTES (drop (entry i) p)) [0..<n])) of
        Inl e \<Rightarrow> Inl e
      | Inr g \<Rightarrow> let cs = map (\<lambda>i. choice_decode p (entry i + HOP_EVENT_BYTES)) [0..<n]
            @ replicate (HOP_EVENT_CAPACITY - n) zero_hop_choice
          in if list_ex (\<lambda>i. choice_validate (cs ! i) (events g ! i) \<noteq> 0) [0..<n]
          then Inl (- EBADMSG) else Inr \<lparr>as_geometry = g, as_choices = cs\<rparr>)"

definition sidecar_v3_encode :: "nat \<Rightarrow> adaptive_sidecar \<Rightarrow> u8 list res" where
  "sidecar_v3_encode size_b s =
     (case sidecar_v2_encode size_b s of
        Inl e \<Rightarrow> Inl e
      | Inr p \<Rightarrow> Inr (put_fields p [(4, F16 3), (12, F32 HOP_HOST_FEATURES)]))"

definition sidecar_v3_decode :: "u8 list \<Rightarrow> adaptive_sidecar res" where
  "sidecar_v3_decode p =
     (if length p < HOP_SIDECAR_HEADER_BYTES \<or> HOP_ADAPTIVE_SIDECAR_MAX_BYTES < length p
      then Inl (- EMSGSIZE)
      else if get_le16 p 4 \<noteq> 3 \<or> get_le32 p 12 \<noteq> HOP_HOST_FEATURES then Inl (- EPROTONOSUPPORT)
      else sidecar_v2_decode (put_fields p
        [(4, F16 HOP_ADAPTIVE_VERSION), (12, F32 HOP_ADAPTIVE_FEATURES)]))"

subsection \<open>Statuses\<close>

definition status_v2_encode :: "nat \<Rightarrow> hop_status \<Rightarrow> u8 list res" where
  "status_v2_encode size_b s =
     (if size_b < HOP_STATUS_BYTES then Inl (- ENOSPC)
      else case hop_status_encode (replicate HOP_STATUS_BYTES 0) s of
        Inl e \<Rightarrow> Inl e
      | Inr p \<Rightarrow> Inr (put_fields p [(4, F16 HOP_ADAPTIVE_VERSION), (8, F32 HOP_ADAPTIVE_FEATURES)]))"

definition status_v2_decode :: "u8 list \<Rightarrow> hop_status res" where
  "status_v2_decode p =
     (if length p \<noteq> HOP_STATUS_BYTES then Inl (- EMSGSIZE)
      else if get_le32 p 0 \<noteq> HOP_STATUS_MAGIC \<or> get_le16 p 4 \<noteq> HOP_ADAPTIVE_VERSION \<or>
          unat (get_le16 p 6) \<noteq> length p then Inl (- EPROTONOSUPPORT)
      else if get_le32 p 8 \<noteq> HOP_ADAPTIVE_FEATURES then Inl (- EBADMSG)
      else hop_status_decode (put_fields p
        [(4, F16 HOP_PROTOCOL_VERSION), (8, F32 HOP_REQUIRED_FEATURES)]))"

definition status_v3_encode :: "nat \<Rightarrow> hop_status \<Rightarrow> u8 list res" where
  "status_v3_encode size_b s =
     (case status_v2_encode size_b s of
        Inl e \<Rightarrow> Inl e
      | Inr p \<Rightarrow> Inr (put_fields p [(4, F16 3), (8, F32 HOP_HOST_FEATURES)]))"

subsection \<open>Feedback of the host\<close>

definition feedback_valid :: "hop_feedback \<Rightarrow> bool" where
  "feedback_valid f \<longleftrightarrow>
     (let length_ok = \<lambda>n. hf_valid_end f - hf_valid_start f = n;
        geometry = (hf_source_rate_hz f = 10000000 \<and> hf_factor f = 4 \<and> hf_delay f = 80 \<and>
            hf_supported_start f = 40 \<and> length_ok 1200000) \<or>
          (hf_source_rate_hz f = 15000000 \<and> hf_factor f = 6 \<and> hf_delay f = 100 \<and>
            hf_supported_start f = 34 \<and> length_ok 1800000) \<or>
          (hf_source_rate_hz f = 20000000 \<and> hf_factor f = 8 \<and> hf_delay f = 128 \<and>
            hf_supported_start f = 32 \<and> length_ok 2400000)
      in hf_session f \<noteq> 0 \<and> hf_generation f \<noteq> 0 \<and> hf_stream_id f \<noteq> 0 \<and> hf_visit f < 2500 \<and>
         hf_event_sequence f = hf_visit f \<and> hf_valid_start f < hf_valid_end f \<and> geometry \<and>
         hf_decision_rate_hz f = 2500000 \<and> hf_rx f \<le> 1 \<and> hf_target f < 8 \<and> hf_outcome f \<le> 2 \<and>
         hf_healthy f \<le> 1 \<and> (hf_healthy f \<noteq> 0 \<or> hf_outcome f = 0) \<and> hf_screen_mask f \<le> 63 \<and>
         (hf_healthy f = 0 \<or> hf_screen_mask f = 63) \<and> hf_confirmation_mask f \<le> 32 \<and>
         hf_confirmation_mask f AND (hf_confirmation_mask f - 1) = 0 \<and>
         (hf_outcome f \<noteq> 1 \<or> hf_confirmation_mask f \<noteq> 0) \<and> hf_supported_end f = 300000 \<and>
         hf_phase f = 0 \<and> hop_digest_present (hf_sha256 f))"

definition hop_feedback_fields :: "u8 \<Rightarrow> u16 \<Rightarrow> hop_feedback \<Rightarrow> (nat \<times> wire_field) list" where
  "hop_feedback_fields digit version f = [(0, FBytes [0x48, 0x46, 0x42, digit]), (4, F16 version),
     (6, F16 HOP_HOST_FEEDBACK_BYTES), (8, F64 (hf_session f)), (16, F64 (hf_generation f)),
     (24, F64 (hf_stream_id f)), (32, F64 (hf_visit f)), (40, F64 (hf_event_sequence f)),
     (48, F64 (hf_valid_start f)), (56, F64 (hf_valid_end f)), (64, F32 (hf_source_rate_hz f)),
     (68, F32 (hf_decision_rate_hz f)), (72, F32 (hf_rx f)), (76, F32 (hf_target f)),
     (80, F32 (hf_outcome f)), (84, F32 (hf_healthy f)), (88, F32 (hf_screen_mask f)),
     (92, F32 (hf_confirmation_mask f)), (96, F32 (hf_supported_start f)),
     (100, F32 (hf_supported_end f)), (104, F32 (hf_factor f)), (108, F32 (hf_phase f)),
     (112, F32 (hf_delay f)), (120, FBytes (hf_sha256 f))]"

definition feedback_v1_encode :: "nat \<Rightarrow> hop_feedback \<Rightarrow> u8 list res" where
  "feedback_v1_encode size_b f =
     (if \<not> feedback_valid f then Inl (- EINVAL)
      else if hf_source_rate_hz f \<noteq> 10000000 then Inl (- EINVAL)
      else if size_b < HOP_HOST_FEEDBACK_BYTES then Inl (- ENOSPC)
      else Inr (put_fields (replicate HOP_HOST_FEEDBACK_BYTES 0) (hop_feedback_fields 0x31 1 f)))"

definition feedback_v2_encode :: "nat \<Rightarrow> hop_feedback \<Rightarrow> u8 list res" where
  "feedback_v2_encode size_b f =
     (if \<not> feedback_valid f \<or> hf_source_rate_hz f = 10000000 then Inl (- EINVAL)
      else if size_b < HOP_HOST_FEEDBACK_BYTES then Inl (- ENOSPC)
      else Inr (put_fields (replicate HOP_HOST_FEEDBACK_BYTES 0) (hop_feedback_fields 0x32 2 f)))"

definition host_feedback_encode :: "nat \<Rightarrow> hop_feedback \<Rightarrow> u8 list res" where
  "host_feedback_encode size_b f =
     (if hf_source_rate_hz f = 10000000 then feedback_v1_encode size_b f
      else feedback_v2_encode size_b f)"

definition hop_feedback_read :: "u8 list \<Rightarrow> hop_feedback" where
  "hop_feedback_read p = \<lparr>hf_session = get_le64 p 8, hf_generation = get_le64 p 16,
     hf_stream_id = get_le64 p 24, hf_visit = get_le64 p 32, hf_event_sequence = get_le64 p 40,
     hf_valid_start = get_le64 p 48, hf_valid_end = get_le64 p 56,
     hf_source_rate_hz = get_le32 p 64, hf_decision_rate_hz = get_le32 p 68,
     hf_rx = get_le32 p 72, hf_target = get_le32 p 76, hf_outcome = get_le32 p 80,
     hf_healthy = get_le32 p 84, hf_screen_mask = get_le32 p 88,
     hf_confirmation_mask = get_le32 p 92, hf_supported_start = get_le32 p 96,
     hf_supported_end = get_le32 p 100, hf_factor = get_le32 p 104, hf_phase = get_le32 p 108,
     hf_delay = get_le32 p 112, hf_sha256 = take 32 (drop 120 p)\<rparr>"

definition feedback_v1_decode :: "u8 list \<Rightarrow> hop_feedback res" where
  "feedback_v1_decode p =
     (if length p \<noteq> HOP_HOST_FEEDBACK_BYTES then Inl (- EMSGSIZE)
      else if take 4 p \<noteq> [0x48, 0x46, 0x42, 0x31] \<or> get_le16 p 4 \<noteq> 1 \<or>
          unat (get_le16 p 6) \<noteq> length p then Inl (- EPROTONOSUPPORT)
      else if get_le32 p 116 \<noteq> 0 \<or> get_le64 p 152 \<noteq> 0 then Inl (- EBADMSG)
      else let out = hop_feedback_read p
        in if \<not> feedback_valid out then Inl (- EBADMSG) else Inr out)"

definition feedback_v2_decode :: "u8 list \<Rightarrow> hop_feedback res" where
  "feedback_v2_decode p =
     (if length p \<noteq> HOP_HOST_FEEDBACK_BYTES then Inl (- EMSGSIZE)
      else if take 4 p \<noteq> [0x48, 0x46, 0x42, 0x32] \<or> get_le16 p 4 \<noteq> 2 \<or>
          unat (get_le16 p 6) \<noteq> length p then Inl (- EPROTONOSUPPORT)
      else if get_le32 p 116 \<noteq> 0 \<or> get_le64 p 152 \<noteq> 0 then Inl (- EBADMSG)
      else let out = hop_feedback_read p
        in case feedback_v2_encode HOP_HOST_FEEDBACK_BYTES out of
          Inl e \<Rightarrow> Inl (- EBADMSG)
        | Inr v \<Rightarrow> if v \<noteq> p then Inl (- EBADMSG) else Inr out)"

end
