(* ===== verification/Hop_Adaptive_Exact.thy ===== *)
theory Hop_Adaptive_Exact
  imports Hop_Adaptive
begin

unbundle bit_operations_syntax

text \<open>
  The adaptive hop protocol is exact: the codec of version 1 gives those of the later versions
  through interpretations of \<open>patched_codec\<close>; no version's decoder takes a message of another
  version; and the canonical configuration of a session determines its request.
\<close>

subsection \<open>Reading a prefix\<close>

lemma get_take:
  "k + 2 \<le> n \<Longrightarrow> get_le16 (take n w) k = get_le16 w k"
  "k + 4 \<le> n \<Longrightarrow> get_le32 (take n w) k = get_le32 w k"
  "k + 8 \<le> n \<Longrightarrow> get_le64 (take n w) k = get_le64 w k"
  by (simp_all add: get_le16_def get_le32_def get_le64_def)

lemma zero16: "k + 16 \<le> length w \<Longrightarrow> all_zero w k 16 \<longleftrightarrow> get_le64 w k = 0 \<and> get_le64 w (k + 8) = 0"
  using all_zero_add [of k 8 8 w] get_zero_iff(4) [of k w] get_zero_iff(4) [of "k + 8" w] by simp

lemma unat_eq_iff_16: "unat (v::u16) = n \<longleftrightarrow> v = of_nat n \<and> n < 2 ^ 16"
  using unsigned_less [of v] by (auto simp: unat_of_nat take_bit_nat_eq_self)

lemma split_at: "length xs = k \<Longrightarrow> length ys = m \<Longrightarrow>
    xs @ ys = w \<longleftrightarrow> length w = k + m \<and> xs = take k w \<and> ys = drop k w"
  by (metis append_eq_conv_conj length_append)

lemma put_fields_tail:
  assumes "length v = k" and "ascending 0 marks hi" "hi \<le> k" and "ascending k fs (k + m)"
  shows "put_fields (put_fields (v @ replicate m 0) marks) fs = w \<longleftrightarrow>
    length w = k + m \<and> put_fields v marks = take k w \<and> fields_ok k fs (k + m) w"
proof -
  have l: "length (put_fields v marks) = k" using length_put_fields_in [OF assms(2)] assms(1,3) by simp
  have m: "length (layout k fs (k + m)) = m" using length_layout [OF assms(4)] by simp
  have c: "layout k fs (k + m) = drop k w \<longleftrightarrow> fields_ok k fs (k + m) w" if w: "length w = k + m"
  proof -
    have "take (k + m - k) (drop k w) = drop k w" using w by simp
    moreover have "fields_ok k fs (k + m) w \<longleftrightarrow> take (k + m - k) (drop k w) = layout k fs (k + m)"
      by (rule fields_ok_layout [OF assms(4)]) (simp add: w)
    ultimately show ?thesis by metis
  qed
  have "put_fields (put_fields (v @ replicate m 0) marks) fs = put_fields v marks @ layout k fs (k + m)"
    using put_fields_layout [OF assms(4), of "put_fields v marks" "[]"] l
      put_fields_append_in [OF assms(2), of v "replicate m 0"] assms(1,3) by simp
  then show ?thesis
    using split_at [OF l m, of w] c by metis
qed

subsection \<open>Requests\<close>

lemma request_decode_v1_marks:
  assumes "request_decode w = Inr r"
  shows "length w = 288" "patched request_v1_marks w" "get_le32 w 0 = HOP_REQUEST_MAGIC"
proof -
  show "length w = 288" "get_le32 w 0 = HOP_REQUEST_MAGIC"
    using assms by (auto simp: request_decode_def split: if_splits)
  show "patched request_v1_marks w"
    using assms by (auto simp: request_decode_def request_v1_marks_def Let_def validate_request_def
        split: if_splits sum.splits)
qed

interpretation marked_request: patched_codec request_wf "request_encode (replicate 288 0)"
    request_decode "request_marks a b f" request_v1_marks 78 for a b f
  by unfold_locales
    (use request_decode_v1_marks in \<open>auto simp: request_marks_def request_v1_marks_def\<close>)

lemma length_request_encode:
  assumes "request_wf g" and "request_encode (replicate 288 0) g = Inr v" shows "length v = 288"
  using hop_request_codec.decode_encode [OF assms] request_decode_v1_marks(1) by blast

text \<open>A request is the marked plan of 288 bytes and a tail of fields.\<close>

lemma request_tail_iff:
  assumes "ascending 288 fs (288 + m)"
  shows "request_wf g \<and> (\<exists>v. request_encode (replicate 288 0) g = Inr v \<and>
      put_fields (put_fields (v @ replicate m 0) (request_marks a b f)) fs = w)
    \<longleftrightarrow> length w = 288 + m \<and> get_le32 w 0 = HOP_REQUEST_MAGIC \<and> get_le16 w 4 = a \<and>
      get_le16 w 6 = b \<and> get_le32 w 8 = f \<and> get_le16 w 76 = HOP_ADAPTIVE_EVENT_BYTES \<and>
      fields_ok 288 fs (288 + m) w \<and>
      request_decode (put_fields (take 288 w) request_v1_marks) = Inr g"
proof -
  have asc: "ascending 0 (request_marks a b f) 78" by (simp add: request_marks_def)
  have tail: "put_fields (put_fields (v @ replicate m 0) (request_marks a b f)) fs = w \<longleftrightarrow>
    length w = 288 + m \<and> put_fields v (request_marks a b f) = take 288 w \<and> fields_ok 288 fs (288 + m) w"
    if "length v = 288" for v
    by (rule put_fields_tail [OF that asc _ assms]) simp
  have "request_wf g \<and> (\<exists>v. request_encode (replicate 288 0) g = Inr v \<and>
      put_fields (put_fields (v @ replicate m 0) (request_marks a b f)) fs = w)
    \<longleftrightarrow> (length w = 288 + m \<and> fields_ok 288 fs (288 + m) w) \<and> request_wf g \<and>
      (\<exists>v. request_encode (replicate 288 0) g = Inr v \<and>
         put_fields v (request_marks a b f) = take 288 w)"
    using length_request_encode tail by blast
  also have "\<dots> \<longleftrightarrow> (length w = 288 + m \<and> fields_ok 288 fs (288 + m) w) \<and>
      78 \<le> length (take 288 w) \<and> patched (request_marks a b f) (take 288 w) \<and>
      request_decode (put_fields (take 288 w) request_v1_marks) = Inr g"
    by (simp only: marked_request.patch_iff)
  also have "\<dots> \<longleftrightarrow> length w = 288 + m \<and> get_le32 w 0 = HOP_REQUEST_MAGIC \<and> get_le16 w 4 = a \<and>
      get_le16 w 6 = b \<and> get_le32 w 8 = f \<and> get_le16 w 76 = HOP_ADAPTIVE_EVENT_BYTES \<and>
      fields_ok 288 fs (288 + m) w \<and>
      request_decode (put_fields (take 288 w) request_v1_marks) = Inr g"
  proof -
    have "get_le32 (put_fields (take 288 w) request_v1_marks) 0 = get_le32 w 0"
      by (simp add: request_v1_marks_def get_put_disjoint get_le32_put_le32_disjoint get_take)
    then have "get_le32 w 0 = HOP_REQUEST_MAGIC"
      if "request_decode (put_fields (take 288 w) request_v1_marks) = Inr g"
      using request_decode_v1_marks(3) [OF that] by simp
    then show ?thesis by (auto simp: request_marks_def get_take)
  qed
  finally show ?thesis .
qed

lemma policy_decode_eq: "policy_decode w 288 = c \<longleftrightarrow> get_le64 w 288 = hp_generation c \<and>
    get_le32 w 296 = hp_mode c \<and> get_le32 w 300 = hp_warmup_visits c \<and>
    get_le32 w 304 = hp_missed_dwells c \<and> get_le32 w 308 = hp_active_weight c \<and>
    get_le32 w 312 = hp_quiet_weight c \<and> get_le32 w 316 = hp_cooldown_ms c \<and>
    get_le32 w 320 = hp_maximum_revisit_ms c \<and> get_le32 w 324 = hp_hop_budget_ms c \<and>
    get_le32 w 328 = hp_maximum_result_age_ms c \<and> get_le32 w 332 = hp_unhealthy_limit c"
  by (cases c) (simp add: policy_decode_def)

lemma policy_fields_ascending: "ascending 288 (policy_fields 288 c) (288 + 64)"
  by (simp add: policy_fields_def)

lemma policy_fields_ok:
  "352 \<le> length w \<Longrightarrow> fields_ok 288 (policy_fields 288 c) 352 w \<longleftrightarrow>
     policy_decode w 288 = c \<and> get_le64 w 336 = 0 \<and> get_le64 w 344 = 0"
  using zero16 [of 336 w] by (simp add: policy_fields_def policy_decode_eq)

lemma request_v2_exact:
  "request_v2_decode w = Inr r \<longleftrightarrow> request_wf (geometry r) \<and> request_v2_encode 352 r = Inr w"
proof -
  have "request_wf (geometry r) \<and> request_v2_encode 352 r = Inr w \<longleftrightarrow>
      valid_policy r 0 = 0 \<and> host r = zero_host \<and> request_wf (geometry r) \<and>
      (\<exists>v. request_encode (replicate 288 0) (geometry r) = Inr v \<and>
        put_fields (put_fields (v @ replicate 64 0) (request_marks 2 352 HOP_ADAPTIVE_FEATURES))
          (policy_fields 288 (policy r)) = w)"
    by (auto simp: request_v2_encode_def policy_encode_def Let_def split: sum.splits)
  also have "\<dots> \<longleftrightarrow> valid_policy r 0 = 0 \<and> host r = zero_host \<and> length w = 352 \<and>
      get_le32 w 0 = HOP_REQUEST_MAGIC \<and> get_le16 w 4 = 2 \<and> get_le16 w 6 = 352 \<and>
      get_le32 w 8 = HOP_ADAPTIVE_FEATURES \<and> get_le16 w 76 = 144 \<and>
      (policy_decode w 288 = policy r \<and> get_le64 w 336 = 0 \<and> get_le64 w 344 = 0) \<and>
      request_decode (put_fields (take 288 w) request_v1_marks) = Inr (geometry r)"
    using request_tail_iff [OF policy_fields_ascending] policy_fields_ok [of w "policy r"] by auto
  also have "\<dots> \<longleftrightarrow> request_v2_decode w = Inr r"
    by (cases r) (auto simp: request_v2_decode_def unat_eq_iff_16 Let_def split: sum.splits)
  finally show ?thesis by simp
qed

text \<open>The tail of a request of version 3 or 4: the policy and the host fields.\<close>

lemma host_decode_eq: "host_decode w e = h \<longleftrightarrow> e = hh_enabled h \<and> get_le32 w 356 = hh_rx h \<and>
    get_le32 w 360 = hh_decision_rate_hz h \<and> get_le32 w 364 = hh_factor h \<and>
    get_le32 w 368 = hh_phase h \<and> get_le32 w 372 = hh_delay h \<and>
    get_le32 w 376 = hh_supported_start h \<and> get_le32 w 380 = hh_supported_end h \<and>
    take 32 (drop 384 w) = hh_sha256 h"
  by (cases h) (simp add: host_decode_def)

lemma host_decode_enabled [simp]: "hh_enabled (host_decode w e) = e"
  by (simp add: host_decode_def)

lemma host_fields_ascending:
  "length (hh_sha256 h) = 32 \<Longrightarrow> ascending 288 (policy_fields 288 c @ host_fields e h) (288 + 128)"
  by (simp add: policy_fields_def host_fields_def)

lemma host_fields_ok:
  assumes "416 \<le> length w" and "length (hh_sha256 h) = 32"
  shows "fields_ok 288 (policy_fields 288 c @ host_fields e h) 416 w \<longleftrightarrow>
     policy_decode w 288 = c \<and> get_le64 w 336 = 0 \<and> get_le64 w 344 = 0 \<and>
     get_le32 w 352 = e \<and> host_decode w (hh_enabled h) = h"
  using assms zero16 [of 336 w]
  by (simp add: policy_fields_def host_fields_def policy_decode_eq host_decode_eq)

text \<open>A message of version 3 or 4 with the fields of a request.\<close>

definition host_message :: "u16 \<Rightarrow> u32 \<Rightarrow> u32 \<Rightarrow> adaptive_request \<Rightarrow> u8 list \<Rightarrow> bool" where
  "host_message version features enabled r w \<longleftrightarrow> length w = 416 \<and>
     get_le32 w 0 = HOP_REQUEST_MAGIC \<and> get_le16 w 4 = version \<and> get_le16 w 6 = 416 \<and>
     get_le32 w 8 = features \<and> get_le16 w 76 = 144 \<and> policy_decode w 288 = policy r \<and>
     get_le64 w 336 = 0 \<and> get_le64 w 344 = 0 \<and> get_le32 w 352 = enabled \<and>
     host_decode w (hh_enabled (host r)) = host r \<and>
     request_decode (put_fields (take 288 w) request_v1_marks) = Inr (geometry r)"

lemma host_message_sha: "host_message a f e r w \<Longrightarrow> length (hh_sha256 (host r)) = 32"
  by (auto simp: host_message_def host_decode_eq dest!: arg_cong [where f = length])

lemma host_message_iff:
  assumes "length (hh_sha256 (host r)) = 32"
  shows "request_wf (geometry r) \<and> (\<exists>v. request_encode (replicate 288 0) (geometry r) = Inr v \<and>
      put_fields (policy_encode (put_fields (v @ replicate 128 0) (request_marks a 416 f)) 288
        (policy r)) (host_fields e (host r)) = w) \<longleftrightarrow> host_message a f e r w"
  using request_tail_iff [OF host_fields_ascending [OF assms], of "geometry r" a 416 f "policy r" e w]
    host_fields_ok [OF _ assms, of w "policy r" e]
  by (auto simp: host_message_def policy_encode_def put_fields_append)

definition v3_ok :: "adaptive_request \<Rightarrow> bool" where
  "v3_ok r \<longleftrightarrow> (let h = host r in valid_policy r 1 = 0 \<and> hh_enabled h = 1 \<and> \<not> 1 < hh_rx h \<and>
     hh_decision_rate_hz h = 2500000 \<and> hh_factor h = 4 \<and> hh_phase h = 0 \<and> hh_delay h = 80 \<and>
     hh_supported_start h = 40 \<and> hh_supported_end h = 300000 \<and> hop_digest_present (hh_sha256 h))"

lemma request_v3_encode_iff: "request_v3_encode 416 r = Inr w \<longleftrightarrow> v3_ok r \<and>
    (\<exists>v. request_encode (replicate 288 0) (geometry r) = Inr v \<and>
      put_fields (policy_encode (put_fields (v @ replicate 128 0) (request_marks 3 416 HOP_HOST_FEATURES))
        288 (policy r)) (host_fields 1 (host r)) = w)"
  by (auto simp: request_v3_encode_def v3_ok_def Let_def split: sum.splits)

lemma request_v3_exact:
  "request_v3_decode w = Inr r \<longleftrightarrow> request_wf (geometry r) \<and> length (hh_sha256 (host r)) = 32 \<and>
     request_v3_encode 416 r = Inr w"
proof -
  have "request_v3_decode w = Inr r \<longleftrightarrow> host_message 3 HOP_HOST_FEATURES (hh_enabled (host r)) r w \<and>
      (\<exists>v. request_v3_encode 416 r = Inr v)"
    by (cases r) (auto simp: request_v3_decode_def host_message_def unat_eq_iff_16
        Let_def split: sum.splits)
  moreover have "request_wf (geometry r) \<and> (\<exists>v. request_encode (replicate 288 0) (geometry r) = Inr v)"
    if "host_message 3 HOP_HOST_FEATURES e r w" for e
    using host_message_iff [OF host_message_sha [OF that], of 3 HOP_HOST_FEATURES e w] that by blast
  ultimately show ?thesis
    using host_message_iff [of r 3 HOP_HOST_FEATURES 1 w] host_message_sha
    by (auto simp: request_v3_encode_iff v3_ok_def Let_def)
qed

definition v4_ok :: "adaptive_request \<Rightarrow> bool" where
  "v4_ok r \<longleftrightarrow> (let h = host r in multirate_host_geometry r = 0 \<and> valid_policy r 2 = 0 \<and>
     hh_enabled h = 1 \<and> hh_rx h = 0 \<and> hh_decision_rate_hz h = 2500000 \<and> hh_phase h = 0 \<and>
     hh_supported_end h = 300000 \<and> hop_digest_present (hh_sha256 h))"

lemma request_v4_encode_iff: "request_v4_encode 416 r = Inr w \<longleftrightarrow> v4_ok r \<and>
    (\<exists>v. request_encode (replicate 288 0) (geometry r) = Inr v \<and>
      put_fields (policy_encode (put_fields (v @ replicate 128 0)
        (request_marks 4 416 HOP_MULTIRATE_FEATURES)) 288 (policy r)) (host_fields 2 (host r)) = w)"
  by (auto simp: request_v4_encode_def v4_ok_def Let_def split: sum.splits)

lemma request_v4_exact:
  "request_v4_decode w = Inr r \<longleftrightarrow> request_wf (geometry r) \<and> length (hh_sha256 (host r)) = 32 \<and>
     request_v4_encode 416 r = Inr w"
proof -
  have "request_v4_decode w = Inr r \<longleftrightarrow> host_message 4 HOP_MULTIRATE_FEATURES 2 r w \<and>
      hh_enabled (host r) = 1 \<and> request_v4_encode 416 r = Inr w"
    by (cases r) (auto simp: request_v4_decode_def host_message_def unat_eq_iff_16
        Let_def split: sum.splits)
  then show ?thesis
    using host_message_iff [of r 4 HOP_MULTIRATE_FEATURES 2 w] host_message_sha [of 4 _ 2 r w]
    by (auto simp: request_v4_encode_iff v4_ok_def Let_def)
qed

end
