(* ===== verification/Hop_Adaptive_Sidecar.thy ===== *)
theory Hop_Adaptive_Sidecar
  imports Hop_Adaptive_Exact
begin

unbundle bit_operations_syntax

text \<open>
  The sidecars of the adaptive hop protocol: 64 bytes of header and 144 bytes for each event, of
  which the first 80 are the event of version 1 and the rest its choice. Their codec is exact.
\<close>

subsection \<open>Chunks\<close>

text \<open>A list that is a sequence of chunks of \<open>m\<close> bytes.\<close>

lemma concat_chunks:
  assumes "\<And>i. i < n \<Longrightarrow> length (f i) = m"
  shows "concat (map f [0..<n]) = b \<longleftrightarrow> length b = n * m \<and> (\<forall>i < n. take m (drop (i * m) b) = f i)"
  using assms
proof (induction n arbitrary: b)
  case (Suc n)
  have fn: "length (f n) = m" and ih: "concat (map f [0..<n]) = c \<longleftrightarrow>
      length c = n * m \<and> (\<forall>i < n. take m (drop (i * m) c) = f i)" for c
    using Suc by simp_all
  have len: "length (concat (map f [0..<n])) = n * m" using ih [of "concat (map f [0..<n])"] by simp
  have t: "take m (drop (i * m) (take (n * m) b)) = take m (drop (i * m) b)" if "i < n" for i
  proof -
    have "Suc i * m \<le> n * m" using that by (intro mult_le_mono1) simp
    then show ?thesis by (simp add: drop_take min_def)
  qed
  have "concat (map f [0..<Suc n]) = b \<longleftrightarrow> length b = n * m + m \<and>
      concat (map f [0..<n]) = take (n * m) b \<and> f n = drop (n * m) b"
    using split_at [OF len fn, of b] by simp
  also have "\<dots> \<longleftrightarrow> length b = n * m + m \<and> (\<forall>i < n. take m (drop (i * m) b) = f i) \<and>
      take m (drop (n * m) b) = f n"
    using ih [of "take (n * m) b"] t by auto
  also have "\<dots> \<longleftrightarrow> length b = Suc n * m \<and> (\<forall>i < Suc n. take m (drop (i * m) b) = f i)"
    by (auto simp: less_Suc_eq add.commute)
  finally show ?case .
qed auto

lemma header_and_chunks:
  assumes "length h = k" and "\<And>i. i < n \<Longrightarrow> length (f i) = m"
  shows "h @ concat (map f [0..<n]) = w \<longleftrightarrow>
    length w = k + n * m \<and> h = take k w \<and> (\<forall>i < n. take m (drop (k + i * m) w) = f i)"
proof -
  have len: "length (concat (map f [0..<n])) = n * m"
    using concat_chunks [of n f m, OF assms(2)] by blast
  show ?thesis
    using split_at [OF assms(1) len, of w] concat_chunks [of n f m "drop k w", OF assms(2)]
    by (auto simp: add.commute)
qed

lemma padded_iff:
  assumes "n \<le> k"
  shows "xs = map f [0..<n] @ replicate (k - n) z \<longleftrightarrow>
    length xs = k \<and> drop n xs = replicate (k - n) z \<and> (\<forall>i < n. f i = xs ! i)" (is "_ = ?l \<longleftrightarrow> ?r")
proof
  assume r: ?r
  then have "take n xs = map f [0..<n]" using assms by (intro nth_equalityI) auto
  then show "xs = ?l" using r by (metis append_take_drop_id)
qed (use assms in \<open>auto simp: nth_append\<close>)

lemma get_drop:
  "get_le16 (drop k w) j = get_le16 w (k + j)" "get_le32 (drop k w) j = get_le32 w (k + j)"
  "get_le64 (drop k w) j = get_le64 w (k + j)" if "k \<le> length w"
  using that by (simp_all add: get_le16_def get_le32_def get_le64_def add.assoc add.commute
      add.left_commute)

subsection \<open>Entries\<close>

lemma choice_decode_eq: "choice_decode w k = c \<longleftrightarrow> get_le64 w k = hc_decision_counter c \<and>
    get_le64 w (k + 8) = hc_basis_visit c \<and> get_le64 w (k + 16) = hc_cooldown_remaining c \<and>
    get_le64 w (k + 24) = hc_generation c \<and> get_le32 w (k + 32) = hc_proposed_target c \<and>
    get_le32 w (k + 36) = hc_reason c \<and> get_le32 w (k + 40) = hc_active_mask c \<and>
    get_le32 w (k + 44) = hc_quiet_mask c \<and> get_le32 w (k + 48) = hc_consecutive_misses c \<and>
    get_le32 w (k + 52) = hc_mode c"
  by (cases c) (simp add: choice_decode_def)

lemma choice_fields_ascending: "ascending 0 (choice_fields c) 64"
  by (simp add: choice_fields_def)

lemma length_choice_encode: "length (choice_encode (replicate 64 0) c) = 64"
  unfolding choice_encode_def by (rule length_put_fields [OF choice_fields_ascending])

lemma choice_encode_iff:
  assumes "k + 64 \<le> length w"
  shows "take 64 (drop k w) = choice_encode (replicate 64 0) c \<longleftrightarrow>
    choice_decode w k = c \<and> get_le64 w (k + 56) = 0"
proof -
  define v where "v = take 64 (drop k w)"
  have l: "length v = 64" using assms by (simp add: v_def)
  have g: "get_le64 v j = get_le64 w (k + j)" if "j + 8 \<le> 64" for j
    using that assms by (simp add: v_def get_take get_drop)
  have h: "get_le32 v j = get_le32 w (k + j)" if "j + 4 \<le> 64" for j
    using that assms by (simp add: v_def get_take get_drop)
  have "choice_encode (replicate 64 0) c = v \<longleftrightarrow> fields_ok 0 (choice_fields c) 64 v"
    unfolding choice_encode_def by (rule put_fields_iff [OF choice_fields_ascending l])
  also have "\<dots> \<longleftrightarrow> choice_decode w k = c \<and> get_le64 w (k + 56) = 0"
    using l get_zero_iff(4) [of 56 v]
    by (simp add: choice_fields_def choice_decode_eq g h conj_ac)
  finally show ?thesis by (metis v_def)
qed

lemma entry_iff:
  assumes "k + 144 \<le> length w" and "length e = 80"
  shows "take 144 (drop k w) = e @ choice_encode (replicate 64 0) c \<longleftrightarrow>
    take 80 (drop k w) = e \<and> choice_decode w (k + 80) = c \<and> get_le64 w (k + 136) = 0"
proof -
  have "take 144 (drop k w) = take 80 (drop k w) @ take 64 (drop (k + 80) w)"
    using take_add [of 80 64 "drop k w"] by (simp add: add.commute)
  moreover have "length (take 80 (drop k w)) = length e" using assms by simp
  ultimately show ?thesis
    using choice_encode_iff [of "k + 80" w c] assms(1)
    by (simp add: append_eq_append_conv add.assoc)
qed

subsection \<open>The encoder of version 1 in a longer buffer\<close>

lemma put_append:
  "k < length p \<Longrightarrow> put_u8 (p @ q) k b = put_u8 p k b @ q"
  "k + 2 \<le> length p \<Longrightarrow> put_le16 (p @ q) k h = put_le16 p k h @ q"
  "k + 4 \<le> length p \<Longrightarrow> put_le32 (p @ q) k v = put_le32 p k v @ q"
  "k + 8 \<le> length p \<Longrightarrow> put_le64 (p @ q) k d = put_le64 p k d @ q"
  by (simp_all add: put_u8_def put_le16_def put_le32_def put_le64_def list_update_append1)

lemma encode_event_append: "k + 80 \<le> length p \<Longrightarrow> encode_event (p @ q) k e = encode_event p k e @ q"
  by (simp add: encode_event_def Let_def put_append)

lemma encode_events_append:
  "64 + (i + length es) * 80 \<le> length p \<Longrightarrow> encode_events (p @ q) i es = encode_events p i es @ q"
proof (induction p i es rule: encode_events.induct)
  case (2 p i e es)
  then have "64 + i * 80 + 80 \<le> length p" "64 + (Suc i + length es) * 80 \<le> length p" by simp_all
  with 2 show ?case by (simp add: encode_event_append)
qed simp

lemma sidecar_encode_append:
  assumes "length p = sidecar_record_bytes (event_count s)"
  shows "sidecar_encode (p @ q) s = (case sidecar_encode p s of Inl e \<Rightarrow> Inl e
    | Inr (n, w) \<Rightarrow> Inr (n, w @ q))"
proof -
  have n: "64 \<le> length p" "length p = 64 + unat (event_count s) * 80"
    using assms by (simp_all add: sidecar_record_bytes_def)
  have "64 + length (take (unat (event_count s)) (events s)) * 80 \<le> length p" using n by simp
  then show ?thesis
    using n by (simp add: sidecar_encode_def sidecar_record_bytes_def Let_def clear_bytes_def put_append
        encode_events_append)
qed

lemma sidecar_encode_max:
  assumes "event_count s \<le> 8"
  shows "sidecar_encode (replicate 704 0) s = Inr (n, v) \<longleftrightarrow> (\<exists>w. sidecar_record s = Inr w \<and>
      n = sidecar_record_bytes (event_count s) \<and>
      v = w @ replicate (704 - sidecar_record_bytes (event_count s)) 0)"
proof -
  let ?n = "sidecar_record_bytes (event_count s)"
  have "?n \<le> 704" using assms by (simp add: sidecar_record_bytes_def word_le_nat_alt)
  then have "replicate 704 (0::u8) = replicate ?n 0 @ replicate (704 - ?n) 0"
    by (simp flip: replicate_add)
  then have e: "sidecar_encode (replicate 704 0) s = (case sidecar_encode (replicate ?n 0) s of
      Inl e \<Rightarrow> Inl e | Inr (n, w) \<Rightarrow> Inr (n, w @ replicate (704 - ?n) 0))"
    using sidecar_encode_append [of "replicate ?n 0" s "replicate (704 - ?n) 0"] by simp
  have n: "fst x = ?n" if "sidecar_encode (replicate ?n 0) s = Inr x" for x
    using that by (auto simp: sidecar_encode_def Let_def split: if_splits)
  show ?thesis
    using n unfolding e by (fastforce simp: sidecar_record_def split: sum.splits prod.splits)
qed

lemma sidecar_encode_error:
  assumes "event_count s \<le> 8" and "sidecar_encode (replicate 704 0) s = Inl e"
  shows "sidecar_record s \<noteq> Inr w"
  using sidecar_encode_max [OF assms(1)] assms(2) by (metis Inl_Inr_False)

subsection \<open>Sidecars of version 2\<close>

definition sidecar_v2_wf :: "adaptive_sidecar \<Rightarrow> bool" where
  "sidecar_v2_wf s \<longleftrightarrow> sidecar_wf (as_geometry s) \<and> length (as_choices s) = 8 \<and>
     drop (unat (event_count (as_geometry s))) (as_choices s)
       = replicate (8 - unat (event_count (as_geometry s))) zero_hop_choice"

text \<open>The version, length and feature fields of a sidecar with \<open>n\<close> events.\<close>

definition sidecar_marks :: "u16 \<Rightarrow> nat \<Rightarrow> u32 \<Rightarrow> (nat \<times> wire_field) list" where
  "sidecar_marks version bytes features = [(4, F16 version), (8, F32 (of_nat bytes)), (12, F32 features)]"

lemma sidecar_marks_ascending: "ascending 0 (sidecar_marks a b f) 16"
  by (simp add: sidecar_marks_def)

lemma sidecar_marks_others:
  "16 \<le> length p \<Longrightarrow> get_le32 (put_fields p (sidecar_marks a b f)) 0 = get_le32 p 0"
  "16 \<le> length p \<Longrightarrow> get_le16 (put_fields p (sidecar_marks a b f)) 6 = get_le16 p 6"
  "16 \<le> length p \<Longrightarrow> get_le16 (put_fields p (sidecar_marks a b f)) 20 = get_le16 p 20"
  by (simp_all add: sidecar_marks_def get_put_disjoint get_le32_put_le32_disjoint)

definition sidecar_header :: "u16 \<Rightarrow> u32 \<Rightarrow> nat \<Rightarrow> u16 \<Rightarrow> u8 list \<Rightarrow> bool" where
  "sidecar_header version features bytes n w \<longleftrightarrow> 64 \<le> length w \<and> get_le32 w 0 = HOP_SIDECAR_MAGIC \<and>
     get_le16 w 4 = version \<and> get_le16 w 6 = 64 \<and> get_le32 w 8 = of_nat bytes \<and>
     get_le32 w 12 = features \<and> get_le16 w 20 = n"

lemma sidecar_decode_header:
  assumes "sidecar_decode r = Inr g"
  shows "sidecar_header HOP_PROTOCOL_VERSION HOP_REQUIRED_FEATURES (64 + unat (event_count g) * 80)
      (event_count g) r"
    and "event_count g \<le> 8" and "length r = 64 + unat (event_count g) * 80"
proof -
  have c: "event_count g = get_le16 r 20" "get_le16 r 20 \<le> 8" "unat (get_le32 r 8) = length r"
    "get_le32 r 8 = 64 + ucast (get_le16 r 20) * 80" "64 \<le> length r" "get_le32 r 0 = HOP_SIDECAR_MAGIC"
    "get_le16 r 4 = HOP_PROTOCOL_VERSION" "get_le16 r 6 = 64" "get_le32 r 12 = HOP_REQUIRED_FEATURES"
    using assms by (auto simp: sidecar_decode_def Let_def split: if_splits sum.splits)
  then show "event_count g \<le> 8" by simp
  have b: "get_le32 r 8 = of_nat (64 + unat (event_count g) * 80)"
    using record_bytes_u32(1) [OF c(2)] c by (simp add: sidecar_record_bytes_def)
  then show "length r = 64 + unat (event_count g) * 80"
    using record_bytes_u32(2) [OF c(2)] c(1,3) by (simp add: sidecar_record_bytes_def)
  show "sidecar_header HOP_PROTOCOL_VERSION HOP_REQUIRED_FEATURES (64 + unat (event_count g) * 80)
      (event_count g) r"
    using b c by (simp add: sidecar_header_def)
qed

lemma header_patched: "sidecar_header a f b n w \<Longrightarrow> patched (sidecar_marks a b f) (take 64 w)"
  by (simp add: sidecar_header_def sidecar_marks_def get_take)

lemma header_swap:
  assumes "sidecar_header a f b n r" and "64 \<le> length w"
  shows "put_fields (take 64 r) (sidecar_marks a' b' f') = take 64 w \<longleftrightarrow>
    sidecar_header a' f' b' n w \<and> put_fields (take 64 w) (sidecar_marks a b f) = take 64 r"
    (is "?l = take 64 w \<longleftrightarrow> ?r")
proof
  have l: "16 \<le> length (take 64 r)" using assms(1) by (simp add: sidecar_header_def)
  have same: "map (\<lambda>(k, f). (k, field_size f)) (sidecar_marks a b f)
      = map (\<lambda>(k, f). (k, field_size f)) (sidecar_marks a' b' f')"
    by (simp add: sidecar_marks_def)
  {
    assume e: "?l = take 64 w"
    have "put_fields (take 64 w) (sidecar_marks a b f) = take 64 r"
      using put_fields_restore [OF sidecar_marks_ascending l header_patched [OF assms(1)] same] e by simp
    moreover have "sidecar_header a' f' b' n w"
    proof -
      have "patched (sidecar_marks a' b' f') (take 64 w)"
        using patched_put_fields [OF sidecar_marks_ascending l, of a' b' f'] e by simp
      moreover have "get_le32 (take 64 w) 0 = get_le32 (take 64 r) 0"
        "get_le16 (take 64 w) 6 = get_le16 (take 64 r) 6" "get_le16 (take 64 w) 20 = get_le16 (take 64 r) 20"
        using sidecar_marks_others [OF l, of a' b' f'] e by simp_all
      ultimately show ?thesis
        using assms by (simp add: sidecar_header_def sidecar_marks_def get_take)
    qed
    ultimately show ?r by blast
  next
    assume r: ?r
    have "16 \<le> length (take 64 w)" using assms(2) by simp
    then show "?l = take 64 w"
      using put_fields_restore [OF sidecar_marks_ascending [of a b f] _ header_patched same [symmetric]] r
      by metis
  }
qed

text \<open>
  The common form of a sidecar's record: the record \<open>r\<close> of version 1 of its geometry, with another
  header and every event followed by its choice.
\<close>

definition choices_ok :: "adaptive_sidecar \<Rightarrow> bool" where
  "choices_ok s \<longleftrightarrow> list_all (\<lambda>i. choice_validate (as_choices s ! i) (events (as_geometry s) ! i) = 0)
     [0..<unat (event_count (as_geometry s))]"

definition sidecar_v2_form :: "adaptive_sidecar \<Rightarrow> u8 list \<Rightarrow> u8 list \<Rightarrow> bool" where
  "sidecar_v2_form s r w \<longleftrightarrow> (let n = unat (event_count (as_geometry s)) in
     length w = 64 + n * 144 \<and>
     put_fields (take 64 r) (sidecar_marks 2 (64 + n * 144) HOP_ADAPTIVE_FEATURES) = take 64 w \<and>
     (\<forall>i < n. take 80 (drop (64 + i * 144) w) = take 80 (drop (64 + i * 80) r) \<and>
        choice_decode w (64 + i * 144 + 80) = as_choices s ! i \<and> get_le64 w (64 + i * 144 + 136) = 0))"

lemma chunk_le: "i < n \<Longrightarrow> 64 + n * m \<le> k \<Longrightarrow> 64 + i * m + m \<le> (k::nat)"
proof -
  assume "i < n" "64 + n * m \<le> k"
  then have "Suc i * m \<le> n * m" by (intro mult_le_mono1) simp
  then show ?thesis using \<open>64 + n * m \<le> k\<close> by simp
qed

lemma sidecar_v2_encode_iff:
  assumes "sidecar_v2_wf s"
  shows "sidecar_v2_encode 1216 s = Inr w \<longleftrightarrow> event_count (as_geometry s) \<le> 8 \<and> choices_ok s \<and>
    (\<exists>r. sidecar_record (as_geometry s) = Inr r \<and> sidecar_v2_form s r w)"
proof (cases "event_count (as_geometry s) \<le> 8")
  case True
  define n where "n = unat (event_count (as_geometry s))"
  have n: "n \<le> 8" using True by (simp add: n_def word_le_nat_alt)
  have size: "\<not> 1216 < 64 + n * 144" using n by simp
  have wf: "sidecar_wf (as_geometry s)" using assms by (simp add: sidecar_v2_wf_def)
  have form: "put_fields (take 64 (r @ z)) (sidecar_marks 2 (64 + n * 144) HOP_ADAPTIVE_FEATURES)
      @ concat (map (adaptive_entry (r @ z) (as_choices s)) [0..<n]) = w \<longleftrightarrow> sidecar_v2_form s r w"
    if r: "sidecar_record (as_geometry s) = Inr r" for r z
  proof -
    have len: "length r = 64 + n * 80"
      using sidecar_decode_header(3) [OF sidecar_decode_encode [OF wf r]] by (simp add: n_def)
    have h: "length (put_fields (take 64 r) (sidecar_marks 2 (64 + n * 144) HOP_ADAPTIVE_FEATURES)) = 64"
      using length_put_fields_in [OF sidecar_marks_ascending, of "take 64 r"] len by simp
    have e: "adaptive_entry (r @ z) (as_choices s) i
        = take 80 (drop (64 + i * 80) r) @ choice_encode (replicate 64 0) (as_choices s ! i)"
      "length (take 80 (drop (64 + i * 80) r)) = 80" if "i < n" for i
      using chunk_le [OF that, of 80 "length r"] len by (simp_all add: adaptive_entry_def)
    have m: "map (adaptive_entry (r @ z) (as_choices s)) [0..<n] = map (\<lambda>i. take 80 (drop (64 + i * 80) r)
        @ choice_encode (replicate 64 0) (as_choices s ! i)) [0..<n]"
      using e(1) by simp
    have "put_fields (take 64 (r @ z)) (sidecar_marks 2 (64 + n * 144) HOP_ADAPTIVE_FEATURES)
        @ concat (map (adaptive_entry (r @ z) (as_choices s)) [0..<n]) = w \<longleftrightarrow>
      length w = 64 + n * 144 \<and>
      put_fields (take 64 r) (sidecar_marks 2 (64 + n * 144) HOP_ADAPTIVE_FEATURES) = take 64 w \<and>
      (\<forall>i < n. take 144 (drop (64 + i * 144) w)
        = take 80 (drop (64 + i * 80) r) @ choice_encode (replicate 64 0) (as_choices s ! i))"
      unfolding m using header_and_chunks [OF h, of n "\<lambda>i. take 80 (drop (64 + i * 80) r)
        @ choice_encode (replicate 64 0) (as_choices s ! i)" 144 w] e(2) len
      by (simp add: length_choice_encode)
    also have "\<dots> \<longleftrightarrow> sidecar_v2_form s r w"
      unfolding sidecar_v2_form_def Let_def n_def [symmetric]
      using entry_iff [OF _ e(2), where w = w] chunk_le [of _ n 144 "length w"]
      by (simp cong: conj_cong)
    finally show ?thesis .
  qed
  have enc: "sidecar_v2_encode 1216 s = Inr w \<longleftrightarrow> choices_ok s \<and> (\<exists>m old.
      sidecar_encode (replicate 704 0) (as_geometry s) = Inr (m, old) \<and>
      put_fields (take 64 old) (sidecar_marks 2 (64 + n * 144) HOP_ADAPTIVE_FEATURES)
        @ concat (map (adaptive_entry old (as_choices s)) [0..<n]) = w)"
    using True size
    by (auto simp: sidecar_v2_encode_def Let_def n_def [symmetric] sidecar_marks_def choices_ok_def
        list_ex_iff list_all_iff simp del: put_fields.simps split: sum.splits)
  show ?thesis unfolding enc sidecar_encode_max [OF True] using form True by blast
next
  case False
  then show ?thesis by (simp add: sidecar_v2_encode_def Let_def not_le)
qed

lemma sidecar_v2_decode_iff:
  "sidecar_v2_decode w = Inr s \<longleftrightarrow> sidecar_v2_wf s \<and> choices_ok s \<and>
    (\<exists>r. sidecar_decode r = Inr (as_geometry s) \<and> sidecar_v2_form s r w)"
proof -
  define n where "n = unat (get_le16 w 20)"
  define old where "old = put_fields (take 64 w)
    (sidecar_marks HOP_PROTOCOL_VERSION (64 + n * 80) HOP_REQUIRED_FEATURES)
    @ concat (map (\<lambda>i. take 80 (drop (64 + i * 144) w)) [0..<n])"
  define cs where "cs = map (\<lambda>i. choice_decode w (64 + i * 144 + 80)) [0..<n]
    @ replicate (8 - n) zero_hop_choice"
  let ?g = "as_geometry s"
  have b: "unat (get_le32 w 8) = length w \<and> length w = 64 + n * 144 \<longleftrightarrow>
    length w = 64 + n * 144 \<and> get_le32 w 8 = of_nat (64 + n * 144)" if "n \<le> 8"
  proof -
    have "unat (of_nat (64 + n * 144) :: u32) = 64 + n * 144"
      using that by (simp add: unat_of_nat take_bit_nat_eq_self del: of_nat_add of_nat_mult)
    then show ?thesis by (metis word_unat_eq_iff)
  qed
  have dec: "sidecar_v2_decode w = Inr s \<longleftrightarrow> sidecar_header 2 HOP_ADAPTIVE_FEATURES (64 + n * 144)
      (get_le16 w 20) w \<and> n \<le> 8 \<and> length w = 64 + n * 144 \<and>
      (\<forall>i < n. get_le64 w (64 + i * 144 + 136) = 0) \<and> sidecar_decode old = Inr ?g \<and>
      as_choices s = cs \<and> (\<forall>i < n. choice_validate (cs ! i) (events ?g ! i) = 0)"
    using b
    by (cases s) (auto simp: sidecar_v2_decode_def Let_def sidecar_header_def old_def cs_def
        n_def [symmetric] sidecar_marks_def list_ex_iff not_le not_less simp del: put_fields.simps
        split: sum.splits)
  let ?marks = "sidecar_marks HOP_PROTOCOL_VERSION (64 + n * 80) HOP_REQUIRED_FEATURES"
  have len: "length (put_fields (take 64 w) ?marks) = 64" if "64 \<le> length w"
    using length_put_fields_in [OF sidecar_marks_ascending, of "take 64 w"] that by simp
  have count: "n = unat (event_count ?g)" if "sidecar_decode old = Inr ?g" "64 \<le> length w"
  proof -
    have "get_le16 old 20 = get_le16 (take 64 old) 20" by (simp add: get_take)
    also have "\<dots> = get_le16 (put_fields (take 64 w) ?marks) 20"
      using len [OF that(2)] by (simp add: old_def)
    also have "\<dots> = get_le16 w 20" using sidecar_marks_others(3) [of "take 64 w"] that(2) by (simp add: get_take)
    finally show ?thesis
      using sidecar_decode_header(1) [OF that(1)] by (simp add: sidecar_header_def n_def)
  qed
  have old_eq: "old = r \<longleftrightarrow> length r = 64 + n * 80 \<and> put_fields (take 64 w) ?marks = take 64 r \<and>
      (\<forall>i < n. take 80 (drop (64 + i * 80) r) = take 80 (drop (64 + i * 144) w))"
    if "length w = 64 + n * 144" for r
    unfolding old_def using that len chunk_le [of _ n 144 "length w"]
    by (intro header_and_chunks) auto
  have form: "sidecar_decode r = Inr ?g \<and> sidecar_v2_form s r w \<longleftrightarrow>
      sidecar_header 2 HOP_ADAPTIVE_FEATURES (64 + n * 144) (get_le16 w 20) w \<and> n \<le> 8 \<and>
      length w = 64 + n * 144 \<and> (\<forall>i < n. get_le64 w (64 + i * 144 + 136) = 0) \<and> r = old \<and>
      sidecar_decode old = Inr ?g \<and>
      (\<forall>i < n. choice_decode w (64 + i * 144 + 80) = as_choices s ! i)" for r
  proof -
    have "sidecar_v2_form s r w \<longleftrightarrow>
      sidecar_header 2 HOP_ADAPTIVE_FEATURES (64 + n * 144) (get_le16 w 20) w \<and> n \<le> 8 \<and>
      length w = 64 + n * 144 \<and> (\<forall>i < n. get_le64 w (64 + i * 144 + 136) = 0) \<and> r = old \<and>
      (\<forall>i < n. choice_decode w (64 + i * 144 + 80) = as_choices s ! i)" (is "_ \<longleftrightarrow> ?f")
      if d: "sidecar_decode r = Inr ?g"
    proof -
      define m where "m = unat (event_count ?g)"
      note h = sidecar_decode_header [OF d, folded m_def]
      have m8: "m \<le> 8" using h(2) by (simp add: m_def word_le_nat_alt)
      have swap: "64 \<le> length w \<Longrightarrow>
        put_fields (take 64 r) (sidecar_marks 2 (64 + m * 144) HOP_ADAPTIVE_FEATURES) = take 64 w \<longleftrightarrow>
        sidecar_header 2 HOP_ADAPTIVE_FEATURES (64 + m * 144) (event_count ?g) w \<and>
        put_fields (take 64 w) (sidecar_marks HOP_PROTOCOL_VERSION (64 + m * 80) HOP_REQUIRED_FEATURES)
          = take 64 r"
        by (rule header_swap [OF h(1)])
      show ?thesis
      proof (cases "n = m \<and> length w = 64 + m * 144 \<and> get_le16 w 20 = event_count ?g")
        case True
        then show ?thesis
          using swap old_eq [of r] h(3) m8
          by (simp add: sidecar_v2_form_def Let_def m_def [symmetric] eq_commute [of r old]) metis
      next
        case False
        have "\<not> sidecar_v2_form s r w"
        proof
          assume f: "sidecar_v2_form s r w"
          then have "length w = 64 + m * 144" by (simp add: sidecar_v2_form_def Let_def m_def)
          moreover have "get_le16 w 20 = event_count ?g"
            using swap f \<open>length w = _\<close> by (simp add: sidecar_v2_form_def Let_def m_def sidecar_header_def)
          ultimately show False using False by (simp add: n_def m_def)
        qed
        moreover have "\<not> ?f"
          using False count d h(1) by (auto simp: sidecar_header_def n_def m_def word_unat_eq_iff)
        ultimately show ?thesis by blast
      qed
    qed
    then show ?thesis by blast
  qed
  have cs: "as_choices s = cs \<longleftrightarrow> length (as_choices s) = 8 \<and>
      drop n (as_choices s) = replicate (8 - n) zero_hop_choice \<and>
      (\<forall>i < n. choice_decode w (64 + i * 144 + 80) = as_choices s ! i)" if "n \<le> 8"
    unfolding cs_def using padded_iff [OF that, of _ "\<lambda>i. choice_decode w (64 + i * 144 + 80)"] by simp
  have valid: "choices_ok s \<longleftrightarrow> (\<forall>i < n. choice_validate (cs ! i) (events ?g ! i) = 0)"
    if "as_choices s = cs" "n = unat (event_count ?g)"
    using that by (simp add: choices_ok_def list_all_iff Ball_def)
  have wf: "sidecar_v2_wf s \<longleftrightarrow> length (as_choices s) = 8 \<and>
      drop n (as_choices s) = replicate (8 - n) zero_hop_choice"
    if "sidecar_decode old = Inr ?g" "n = unat (event_count ?g)"
    using that hop_sidecar_codec.decode_iff by (simp add: sidecar_v2_wf_def)
  show ?thesis (is "?d \<longleftrightarrow> ?e")
  proof
    assume ?d
    then have d: "sidecar_decode old = Inr ?g" "n \<le> 8" "as_choices s = cs" "length w = 64 + n * 144"
      and v: "\<forall>i < n. choice_validate (cs ! i) (events ?g ! i) = 0"
      using dec by blast+
    have n: "n = unat (event_count ?g)" using count d(1,4) by simp
    have "sidecar_decode old = Inr ?g \<and> sidecar_v2_form s old w"
      using \<open>?d\<close> cs [OF d(2)] unfolding dec form by simp
    then show ?e using wf [OF d(1) n] valid [OF d(3) n] v cs [OF d(2)] d(3) by blast
  next
    assume e: ?e
    then obtain r where "sidecar_decode r = Inr ?g \<and> sidecar_v2_form s r w" by blast
    note f = this [unfolded form]
    then have n: "n = unat (event_count ?g)" using count by simp
    have "as_choices s = cs" using wf [OF _ n] cs e f by blast
    then show ?d using valid [OF _ n] e f unfolding dec by blast
  qed
qed

lemma sidecar_v2_exact:
  "sidecar_v2_decode w = Inr s \<longleftrightarrow> sidecar_v2_wf s \<and> sidecar_v2_encode 1216 s = Inr w"
proof -
  have "event_count (as_geometry s) \<le> 8" if "sidecar_decode r = Inr (as_geometry s)" for r
    by (rule sidecar_decode_header(2) [OF that])
  moreover have "sidecar_decode r = Inr (as_geometry s) \<longleftrightarrow> sidecar_record (as_geometry s) = Inr r"
    if "sidecar_v2_wf s" for r
    using that hop_sidecar_codec.decode_iff by (simp add: sidecar_v2_wf_def)
  ultimately show ?thesis
    unfolding sidecar_v2_decode_iff using sidecar_v2_encode_iff by blast
qed

interpretation sidecar_v2_codec: wire_codec sidecar_v2_wf "sidecar_v2_encode 1216" sidecar_v2_decode
  by unfold_locales (simp_all add: sidecar_v2_exact)

lemma sidecar_v2_decode_length: "sidecar_v2_decode w = Inr s \<Longrightarrow> length w \<in> {64..1216}"
  by (auto simp: sidecar_v2_decode_def Let_def not_less split: if_splits)

end
