(* ===== verification/Hop_Adaptive_Records.thy ===== *)
theory Hop_Adaptive_Records
  imports Hop_Adaptive_Sidecar
begin

unbundle bit_operations_syntax

text \<open>
  The properties of the adaptive hop protocol: every format is exact, no message is accepted by the
  decoders of two versions, and the canonical configuration determines the request.
\<close>

subsection \<open>Sidecars of version 3 and statuses of version 2\<close>

abbreviation (input) sidecar_v3_fields :: "(nat \<times> wire_field) list" where
  "sidecar_v3_fields \<equiv> [(4, F16 3), (12, F32 HOP_HOST_FEATURES)]"
abbreviation (input) sidecar_v2_fields :: "(nat \<times> wire_field) list" where
  "sidecar_v2_fields \<equiv> [(4, F16 HOP_ADAPTIVE_VERSION), (12, F32 HOP_ADAPTIVE_FEATURES)]"

interpretation sidecar_v3: patched_codec sidecar_v2_wf "sidecar_v2_encode 1216" sidecar_v2_decode
    sidecar_v3_fields sidecar_v2_fields 16
  by unfold_locales (auto simp: sidecar_v2_decode_def Let_def split: if_splits)

lemma sidecar_v3_exact:
  "sidecar_v3_decode w = Inr s \<longleftrightarrow> sidecar_v2_wf s \<and> sidecar_v3_encode 1216 s = Inr w"
proof -
  have l: "length (put_fields w sidecar_v2_fields) = length w" if "16 \<le> length w"
    using that by simp
  have "sidecar_v3_decode w = Inr s \<longleftrightarrow> 16 \<le> length w \<and> patched sidecar_v3_fields w \<and>
      sidecar_v2_decode (put_fields w sidecar_v2_fields) = Inr s"
    using sidecar_v2_decode_length [of "put_fields w sidecar_v2_fields" s] l
    by (auto simp: sidecar_v3_decode_def not_less simp del: put_fields.simps)
  also have "\<dots> \<longleftrightarrow> sidecar_v2_wf s \<and> (\<exists>v. sidecar_v2_encode 1216 s = Inr v \<and>
      put_fields v sidecar_v3_fields = w)"
    by (rule sidecar_v3.patch_iff)
  also have "\<dots> \<longleftrightarrow> sidecar_v2_wf s \<and> sidecar_v3_encode 1216 s = Inr w"
    by (auto simp: sidecar_v3_encode_def simp del: put_fields.simps split: sum.splits)
  finally show ?thesis .
qed

interpretation sidecar_v3_codec: wire_codec sidecar_v2_wf "sidecar_v3_encode 1216" sidecar_v3_decode
  by unfold_locales (simp_all add: sidecar_v3_exact)

abbreviation (input) status_v2_fields :: "(nat \<times> wire_field) list" where
  "status_v2_fields \<equiv> [(4, F16 HOP_ADAPTIVE_VERSION), (8, F32 HOP_ADAPTIVE_FEATURES)]"
abbreviation (input) status_v1_fields :: "(nat \<times> wire_field) list" where
  "status_v1_fields \<equiv> [(4, F16 HOP_PROTOCOL_VERSION), (8, F32 HOP_REQUIRED_FEATURES)]"

lemma hop_status_decode_header:
  assumes "hop_status_decode w = Inr s"
  shows "length w = 160" "get_le32 w 0 = HOP_STATUS_MAGIC" "get_le16 w 6 = 160"
    "patched status_v1_fields w"
  using assms by (auto simp: hop_status_decode_def Let_def unat_eq_iff_16 split: if_splits)

interpretation status_v2: patched_codec "\<lambda>_. True" "hop_status_encode (replicate 160 0)"
    hop_status_decode status_v2_fields status_v1_fields 12
  by unfold_locales (use hop_status_decode_header in auto)

lemma status_v2_exact: "status_v2_decode w = Inr s \<longleftrightarrow> status_v2_encode 160 s = Inr w"
proof -
  have l: "length (put_fields w status_v1_fields) = length w"
    "get_le32 (put_fields w status_v1_fields) 0 = get_le32 w 0"
    "get_le16 (put_fields w status_v1_fields) 6 = get_le16 w 6" if "12 \<le> length w"
    using that by (simp_all add: get_put_disjoint get_le32_put_le32_disjoint)
  have "status_v2_decode w = Inr s \<longleftrightarrow> 12 \<le> length w \<and> patched status_v2_fields w \<and>
      hop_status_decode (put_fields w status_v1_fields) = Inr s"
    using hop_status_decode_header [of "put_fields w status_v1_fields" s] l
    by (auto simp: status_v2_decode_def unat_eq_iff_16 simp del: put_fields.simps)
  also have "\<dots> \<longleftrightarrow> (\<exists>v. hop_status_encode (replicate 160 0) s = Inr v \<and>
      put_fields v status_v2_fields = w)"
    using status_v2.patch_iff by simp
  also have "\<dots> \<longleftrightarrow> status_v2_encode 160 s = Inr w"
    by (auto simp: status_v2_encode_def simp del: put_fields.simps split: sum.splits)
  finally show ?thesis .
qed

subsection \<open>Feedback\<close>

lemma hop_feedback_read_eq: "hop_feedback_read w = f \<longleftrightarrow> get_le64 w 8 = hf_session f \<and>
    get_le64 w 16 = hf_generation f \<and> get_le64 w 24 = hf_stream_id f \<and> get_le64 w 32 = hf_visit f \<and>
    get_le64 w 40 = hf_event_sequence f \<and> get_le64 w 48 = hf_valid_start f \<and>
    get_le64 w 56 = hf_valid_end f \<and> get_le32 w 64 = hf_source_rate_hz f \<and>
    get_le32 w 68 = hf_decision_rate_hz f \<and> get_le32 w 72 = hf_rx f \<and> get_le32 w 76 = hf_target f \<and>
    get_le32 w 80 = hf_outcome f \<and> get_le32 w 84 = hf_healthy f \<and>
    get_le32 w 88 = hf_screen_mask f \<and> get_le32 w 92 = hf_confirmation_mask f \<and>
    get_le32 w 96 = hf_supported_start f \<and> get_le32 w 100 = hf_supported_end f \<and>
    get_le32 w 104 = hf_factor f \<and> get_le32 w 108 = hf_phase f \<and> get_le32 w 112 = hf_delay f \<and>
    take 32 (drop 120 w) = hf_sha256 f"
  by (cases f) (simp add: hop_feedback_read_def)

lemma hop_feedback_ascending:
  "length (hf_sha256 f) = 32 \<Longrightarrow> ascending 0 (hop_feedback_fields d v f) 160"
  by (simp add: hop_feedback_fields_def)

lemma hop_feedback_form:
  assumes "length (hf_sha256 f) = 32"
  shows "put_fields (replicate 160 0) (hop_feedback_fields d v f) = w \<longleftrightarrow> length w = 160 \<and>
    take 4 w = [0x48, 0x46, 0x42, d] \<and> get_le16 w 4 = v \<and> get_le16 w 6 = 160 \<and>
    get_le32 w 116 = 0 \<and> get_le64 w 152 = 0 \<and> hop_feedback_read w = f"
proof (cases "length w = 160")
  case True
  have four: "Suc (Suc (Suc (Suc 0))) = 4" by simp
  have "fields_ok 0 (hop_feedback_fields d v f) 160 w \<longleftrightarrow> take 4 w = [0x48, 0x46, 0x42, d] \<and>
      get_le16 w 4 = v \<and> get_le16 w 6 = 160 \<and> get_le32 w 116 = 0 \<and> get_le64 w 152 = 0 \<and>
      hop_feedback_read w = f"
    using True assms get_zero_iff(3) [of 116 w] get_zero_iff(4) [of 152 w]
    by (simp add: hop_feedback_fields_def hop_feedback_read_eq four) blast
  then show ?thesis using put_fields_iff [OF hop_feedback_ascending [OF assms] True] True by simp
next
  case False
  then show ?thesis using length_put_fields [OF hop_feedback_ascending [OF assms], of d v] by auto
qed

lemma hop_feedback_read_sha: "length w = 160 \<Longrightarrow> length (hf_sha256 (hop_feedback_read w)) = 32"
  by (simp add: hop_feedback_read_def)

lemma feedback_v1_iff:
  "feedback_v1_decode w = Inr f \<longleftrightarrow> length (hf_sha256 f) = 32 \<and> feedback_valid f \<and>
     put_fields (replicate 160 0) (hop_feedback_fields 0x31 1 f) = w"
proof -
  have "feedback_v1_decode w = Inr f \<longleftrightarrow> length (hf_sha256 f) = 32 \<and> feedback_valid f \<and> length w = 160 \<and>
    take 4 w = [0x48, 0x46, 0x42, 0x31] \<and> get_le16 w 4 = 1 \<and> get_le16 w 6 = 160 \<and>
    get_le32 w 116 = 0 \<and> get_le64 w 152 = 0 \<and> hop_feedback_read w = f"
    using hop_feedback_read_sha [of w]
    by (auto simp: feedback_v1_decode_def Let_def unat_eq_iff_16 split: if_splits)
  then show ?thesis using hop_feedback_form [where f = f and d = "0x31" and v = 1 and w = w] by blast
qed

lemma feedback_v2_iff:
  "feedback_v2_decode w = Inr f \<longleftrightarrow> length (hf_sha256 f) = 32 \<and> feedback_v2_encode 160 f = Inr w"
proof -
  have "feedback_v2_decode w = Inr f \<longleftrightarrow> feedback_v2_encode 160 f = Inr w \<and> length w = 160 \<and>
    take 4 w = [0x48, 0x46, 0x42, 0x32] \<and> get_le16 w 4 = 2 \<and> get_le16 w 6 = 160 \<and>
    get_le32 w 116 = 0 \<and> get_le64 w 152 = 0 \<and> hop_feedback_read w = f"
    by (auto simp: feedback_v2_decode_def Let_def unat_eq_iff_16 split: if_splits sum.splits)
  moreover have "length (hf_sha256 f) = 32 \<Longrightarrow> feedback_v2_encode 160 f = Inr w \<Longrightarrow>
      put_fields (replicate 160 0) (hop_feedback_fields 0x32 2 f) = w"
    by (simp add: feedback_v2_encode_def split: if_splits)
  ultimately show ?thesis
    using hop_feedback_form [where f = f and d = "0x32" and v = 2 and w = w] hop_feedback_read_sha [of w] by blast
qed

subsection \<open>Versions\<close>

text \<open>The decoders read the version before anything they accept.\<close>

lemma request_version:
  "request_decode w = Inr g \<Longrightarrow> get_le16 w 4 = 1" "request_v2_decode w = Inr r \<Longrightarrow> get_le16 w 4 = 2"
  "request_v3_decode w = Inr r \<Longrightarrow> get_le16 w 4 = 3" "request_v4_decode w = Inr r \<Longrightarrow> get_le16 w 4 = 4"
  by (auto simp: request_decode_def request_v2_decode_def request_v3_decode_def request_v4_decode_def
      split: if_splits)

lemma report_version:
  "sidecar_decode w = Inr g \<Longrightarrow> get_le16 w 4 = 1" "sidecar_v2_decode w = Inr s \<Longrightarrow> get_le16 w 4 = 2"
  "sidecar_v3_decode w = Inr s \<Longrightarrow> get_le16 w 4 = 3"
  "hop_status_decode w = Inr t \<Longrightarrow> get_le16 w 4 = 1" "status_v2_decode w = Inr t \<Longrightarrow> get_le16 w 4 = 2"
  "feedback_v1_decode w = Inr f \<Longrightarrow> get_le16 w 4 = 1" "feedback_v2_decode w = Inr f \<Longrightarrow> get_le16 w 4 = 2"
  by (auto simp: sidecar_decode_def sidecar_v2_decode_def sidecar_v3_decode_def hop_status_decode_def
      status_v2_decode_def feedback_v1_decode_def feedback_v2_decode_def split: if_splits)

abbreviation accepts :: "'a res \<Rightarrow> bool" where "accepts r \<equiv> \<not> isl r"

lemma accepts_iff: "accepts r \<longleftrightarrow> (\<exists>x. r = Inr x)"
  by (cases r) auto

lemma one_version:
  "(a \<Longrightarrow> v = (1::u16)) \<Longrightarrow> (b \<Longrightarrow> v = 2) \<Longrightarrow> count_list [a, b] True \<le> 1"
  "(a \<Longrightarrow> v = (1::u16)) \<Longrightarrow> (b \<Longrightarrow> v = 2) \<Longrightarrow> (c \<Longrightarrow> v = 3) \<Longrightarrow> count_list [a, b, c] True \<le> 1"
  "(a \<Longrightarrow> v = (1::u16)) \<Longrightarrow> (b \<Longrightarrow> v = 2) \<Longrightarrow> (c \<Longrightarrow> v = 3) \<Longrightarrow> (d \<Longrightarrow> v = 4) \<Longrightarrow>
    count_list [a, b, c, d] True \<le> 1"
  by (cases a; cases b; cases c; cases d; simp)+

subsection \<open>Configurations\<close>

text \<open>The requests a decoder can return.\<close>

definition adaptive_wf :: "adaptive_request \<Rightarrow> bool" where
  "adaptive_wf r \<longleftrightarrow> request_wf (geometry r) \<and> length (hh_sha256 (host r)) = 32"

text \<open>The configuration is the message of the version the request asks for, padded with zeros.\<close>

lemma adaptive_configuration_cases:
  assumes "adaptive_wf r" and "adaptive_configuration 416 r = Inr c"
  shows "length c = 416 \<and> (get_le16 c 4 = 2 \<and> request_v2_decode (take 352 c) = Inr r \<or>
    get_le16 c 4 = 3 \<and> request_v3_decode c = Inr r \<or> get_le16 c 4 = 4 \<and> request_v4_decode c = Inr r)"
proof -
  have len: "request_v2_decode v = Inr r \<Longrightarrow> length v = 352" "request_v3_decode v = Inr r \<Longrightarrow> length v = 416"
    "request_v4_decode v = Inr r \<Longrightarrow> length v = 416" for v
    by (auto simp: request_v2_decode_def request_v3_decode_def request_v4_decode_def split: if_splits)
  have dec: "request_v2_encode 352 r = Inr v \<Longrightarrow> request_v2_decode v = Inr r"
    "request_v3_encode 416 r = Inr v \<Longrightarrow> request_v3_decode v = Inr r"
    "request_v4_encode 416 r = Inr v \<Longrightarrow> request_v4_decode v = Inr r" for v
    using assms(1) by (simp_all add: adaptive_wf_def request_v2_exact request_v3_exact request_v4_exact)
  have size: "request_v2_encode 416 r = request_v2_encode 352 r"
    by (simp add: request_v2_encode_def)
  obtain v where v: "c = v @ replicate (416 - length v) 0"
    and e: "(if hh_enabled (host r) \<noteq> 0 then (if sample_rate_hz (geometry r) = 10000000
        then request_v3_encode 416 r else request_v4_encode 416 r)
      else request_v2_encode 352 r) = Inr v"
    using assms(2) unfolding adaptive_configuration_def size by (auto split: sum.splits)
  have "request_v2_decode v = Inr r \<or> request_v3_decode v = Inr r \<or> request_v4_decode v = Inr r"
    using e dec by (auto split: if_splits)
  then show ?thesis
  proof (elim disjE)
    assume d: "request_v2_decode v = Inr r"
    have l: "length v = 352" by (rule len(1) [OF d])
    have t: "take 352 c = v" by (simp add: v l)
    have "get_le16 c 4 = get_le16 (take 352 c) 4" by (simp add: get_take)
    then show ?thesis using d l t request_version(2) [OF d] by (simp add: v)
  qed (use v len request_version in auto)
qed

subsection \<open>Properties\<close>

text \<open>C35: The requests of the versions 2, 3 and 4 are exact. Each decoder accepts exactly the
messages that its encoder writes (352 bytes for version 2, 416 for versions 3 and 4) for a request
whose plan has eight profiles and whose digest has 32 bytes, and returns that request.\<close>

theorem hop_adaptive_requests_exact:
  "(request_v2_decode w = Inr r \<longleftrightarrow> adaptive_wf r \<and> request_v2_encode 352 r = Inr w) \<and>
   (request_v3_decode w = Inr r \<longleftrightarrow> adaptive_wf r \<and> request_v3_encode 416 r = Inr w) \<and>
   (request_v4_decode w = Inr r \<longleftrightarrow> adaptive_wf r \<and> request_v4_encode 416 r = Inr w)"
proof -
  have "length (hh_sha256 (host r)) = 32" if "request_v2_encode 352 r = Inr w"
    using that by (auto simp: request_v2_encode_def zero_host_def split: if_splits)
  then show ?thesis
    by (auto simp: adaptive_wf_def request_v2_exact request_v3_exact request_v4_exact)
qed

text \<open>C38: The reports of the adaptive sessions are exact. The sidecars of the versions 2 and 3 (64
bytes and 144 for each event with its choice) and the statuses of version 2 decode exactly from what
their encoders write: from the plan's sidecar and one valid choice for every event, with the unused
choices cleared.\<close>

theorem hop_adaptive_reports_exact:
  "(sidecar_v2_decode w = Inr s \<longleftrightarrow> sidecar_v2_wf s \<and> sidecar_v2_encode 1216 s = Inr w) \<and>
   (sidecar_v3_decode w = Inr s \<longleftrightarrow> sidecar_v2_wf s \<and> sidecar_v3_encode 1216 s = Inr w) \<and>
   (status_v2_decode v = Inr t \<longleftrightarrow> status_v2_encode 160 t = Inr v)"
  by (simp add: sidecar_v2_exact sidecar_v3_exact status_v2_exact)

text \<open>C39: The host's feedback. The decoder of version 2 accepts exactly the messages written for
feedback at 15 or 20 MS/s; the decoder of version 1 accepts exactly the messages with the fields of
version 1 of any valid feedback, and for feedback at 10 MS/s these are the encoder's messages.\<close>

theorem hop_feedback_wire_exact:
  "(feedback_v1_decode w = Inr f \<longleftrightarrow> length (hf_sha256 f) = 32 \<and> feedback_valid f \<and>
     put_fields (replicate 160 0) (hop_feedback_fields 0x31 1 f) = w) \<and>
   (feedback_v1_decode w = Inr f \<and> hf_source_rate_hz f = 10000000 \<longleftrightarrow>
     length (hf_sha256 f) = 32 \<and> hf_source_rate_hz f = 10000000 \<and> host_feedback_encode 160 f = Inr w) \<and>
   (feedback_v2_decode w = Inr f \<longleftrightarrow>
     length (hf_sha256 f) = 32 \<and> hf_source_rate_hz f \<noteq> 10000000 \<and> host_feedback_encode 160 f = Inr w)"
  by (auto simp: feedback_v1_iff feedback_v2_iff host_feedback_encode_def feedback_v1_encode_def
      feedback_v2_encode_def simp del: put_fields.simps)

text \<open>C37: The versions are disjoint. At most one of the request decoders of the versions 1 to 4
accepts a message, and the same holds for the decoders of sidecars, of statuses and of feedback.\<close>

theorem hop_versions_disjoint:
  "count_list [accepts (request_decode w), accepts (request_v2_decode w), accepts (request_v3_decode w),
     accepts (request_v4_decode w)] True \<le> 1 \<and>
   count_list [accepts (sidecar_decode w), accepts (sidecar_v2_decode w), accepts (sidecar_v3_decode w)]
     True \<le> 1 \<and>
   count_list [accepts (hop_status_decode w), accepts (status_v2_decode w)] True \<le> 1 \<and>
   count_list [accepts (feedback_v1_decode w), accepts (feedback_v2_decode w)] True \<le> 1"
  by (intro conjI; rule one_version [where v = "get_le16 w 4"])
    (auto simp: accepts_iff intro: request_version report_version)

text \<open>C36: The canonical configuration determines the request: no two requests that a decoder can
return have the same 416 bytes of configuration, whatever their versions.\<close>

theorem adaptive_configuration_determines:
  "inj_on (adaptive_configuration 416) {r. adaptive_wf r \<and> accepts (adaptive_configuration 416 r)}"
proof (rule inj_onI, clarify)
  fix r s assume "adaptive_wf r" "adaptive_wf s" "accepts (adaptive_configuration 416 r)"
    and e: "adaptive_configuration 416 r = adaptive_configuration 416 s"
  then obtain c where "adaptive_configuration 416 r = Inr c" "adaptive_configuration 416 s = Inr c"
    by (auto simp: accepts_iff)
  with adaptive_configuration_cases [of r c] adaptive_configuration_cases [of s c]
  show "r = s" using \<open>adaptive_wf r\<close> \<open>adaptive_wf s\<close> by auto
qed

end
