(* ===== verification/Hop_Session.thy ===== *)
theory Hop_Session
  imports Hop_Adaptive_Records
begin

unbundle bit_operations_syntax

text \<open>
  The hop session (\<open>iiod/spf-hop-session.c\<close>): it submits a plan to a device, checks the tuning
  events the device reports with each block, emits a sidecar for the block, and restores the radio
  exactly once. The device's ports are code the session does not define: every operation takes the
  answers the device gives as arguments (of \<open>submit_plan\<close> a status, of \<open>drain_events\<close> a status,
  events and a drop count, of \<open>cancel_restore\<close> a status and a receipt), and they are arbitrary.

  Status codes are 32-bit words here, because the session stores them in its status record.
\<close>

record hop_receipt =
  rc_before :: u64
  rc_after :: u64
  rc_lo_frequency_hz :: u64
  rc_error :: i32
  rc_profile :: u8
  rc_flags :: u8

type_synonym restore_answer = "i32 \<times> hop_receipt"

record hop_session =
  hs_request :: hop_request
  hs_status :: hop_status
  hs_last_event :: hop_event
  hs_last_device_id :: u64
  hs_terminal_error :: i32
  hs_have_event :: bool
  hs_have_block :: bool
  hs_restore_called :: bool

record hop_session_v2 =
  h2_core :: hop_session
  h2_request :: adaptive_request
  h2_pending :: "hop_choice list"

subsection \<open>Counters, errors, restoring\<close>

definition center_matches_actual :: "u64 \<Rightarrow> u64 \<Rightarrow> i64 \<Rightarrow> bool" where
  "center_matches_actual center lo offset =
     (if 0 \<le> sint offset then lo \<le> UINT64_MAX - offset \<and> center = lo + offset
      else let magnitude = - (offset + 1) + 1 in magnitude \<le> lo \<and> center = lo - magnitude)"

definition extend_counter_near :: "u64 \<Rightarrow> u64 \<Rightarrow> u64" where
  "extend_counter_near reference observed =
     (let candidate = (reference AND 0xffffffff00000000) OR ucast (ucast observed :: u32) in
      if candidate < reference \<and> 0x80000000 < reference - candidate then candidate + 0x100000000
      else if reference < candidate \<and> 0x80000000 < candidate - reference \<and> 0x100000000 \<le> candidate
      then candidate - 0x100000000
      else candidate)"

definition hop_terminal :: "hop_session \<Rightarrow> bool" where
  "hop_terminal s \<longleftrightarrow> HOP_COMPLETED \<le> hop_state (hs_status s)"

definition normalize_error :: "i32 \<Rightarrow> i32" where
  "normalize_error e = (if 0 < sint e then - EIO else e)"

text \<open>The receipt, its counters extended to the epoch of the blocks.\<close>

definition anchor_receipt :: "hop_session \<Rightarrow> u64 \<Rightarrow> hop_receipt \<Rightarrow> hop_receipt" where
  "anchor_receipt s needed c =
     (if hs_have_block s then
        let reference = (if needed \<noteq> 0 then needed else last_block_end (hs_status s));
          before = extend_counter_near reference (rc_before c)
        in c\<lparr>rc_before := before, rc_after := extend_counter_near before (rc_after c)\<rparr>
      else c)"

definition hop_restore :: "hop_session \<Rightarrow> u16 \<Rightarrow> u16 \<Rightarrow> u64 \<Rightarrow> restore_answer \<Rightarrow> i32 \<times> hop_session" where
  "hop_restore s reason final_state needed answer =
     (if hs_restore_called s then (restore_error (hs_status s), s)
      else let st = hs_status s; ret = normalize_error (fst answer);
        c = anchor_receipt s needed (snd answer);
        err = (if ret \<noteq> 0 then ret else normalize_error (rc_error c));
        attested = (ret = 0 \<and> rc_error c = 0 \<and> rc_flags c = EVENT_FLAGS \<and>
          rc_before c \<le> rc_after c \<and> rc_lo_frequency_hz c \<noteq> 0);
        early = (reason = HOP_REASON_PLAN_COMPLETE \<and> rc_before c < needed);
        err = (if attested then (if early then - ERANGE else err)
          else if err = 0 then - EBADMSG else err);
        flags = hop_flags st OR STATUS_RESTORE_ATTEMPTED;
        flags = (if attested \<and> \<not> early then flags OR STATUS_RESTORE_SUCCEEDED else flags);
        st = st\<lparr>restore_before := rc_before c, restore_after := rc_after c,
          restored_lo_frequency_hz := rc_lo_frequency_hz c, restored_profile := rc_profile c,
          restore_error := err, hop_state := final_state, hop_reason := reason,
          hop_flags := flags OR STATUS_TERMINAL,
          final_counter := (if reason = HOP_REASON_PLAN_COMPLETE then needed else rc_before c)\<rparr>
      in if hop_flags st AND STATUS_RESTORE_SUCCEEDED = 0
         then (err, s\<lparr>hs_restore_called := True, hs_status := st\<lparr>hop_state := HOP_FAILED,
           hop_reason := HOP_REASON_RESTORE_ERROR, hop_error := err\<rparr>\<rparr>)
         else (0, s\<lparr>hs_restore_called := True, hs_status := st\<rparr>))"

definition hop_fail :: "hop_session \<Rightarrow> u16 \<Rightarrow> i32 \<Rightarrow> restore_answer \<Rightarrow> i32 \<times> hop_session" where
  "hop_fail s reason err answer =
     (if hop_terminal s
      then (if hs_terminal_error s \<noteq> 0 then hs_terminal_error s else - EPIPE, s)
      else let st = hs_status s; code = (if err \<noteq> 0 then err else - EIO);
        flags = (if reason = HOP_REASON_EVENT_OVERFLOW
          then hop_flags st OR STATUS_DEVICE_EVENT_OVERFLOW else hop_flags st);
        flags = (if reason = HOP_REASON_EVENT_SEQUENCE \<or> reason = HOP_REASON_COUNTER_DISCONTINUITY
          then flags OR STATUS_CONTINUITY_FAULT else flags);
        (ret, s) = hop_restore (s\<lparr>hs_status := st\<lparr>hop_error := code, hop_flags := flags\<rparr>\<rparr>) reason
          HOP_FAILED 0 answer;
        s = (if ret = 0 then s\<lparr>hs_status := (hs_status s)\<lparr>hop_state := HOP_FAILED,
          hop_reason := reason, hop_error := code\<rparr>\<rparr> else s);
        e = (if err \<noteq> 0 then err else if ret \<noteq> 0 then ret else - EIO)
      in (e, s\<lparr>hs_terminal_error := e\<rparr>))"

subsection \<open>Starting\<close>

definition zero_status :: hop_status where
  "zero_status = \<lparr>hop_state = 0, hop_reason = 0, hop_error = 0, hop_flags = 0, hop_session_id = 0,
     planned_dwells = 0, visits_started = 0, events_emitted = 0, next_event_sequence = 0,
     last_block_sequence = 0, last_block_end = 0, first_counter = 0, final_counter = 0,
     restore_before = 0, restore_after = 0, restored_lo_frequency_hz = 0, restore_error = 0,
     active_profile = 0, restored_profile = 0, startup_invalid_start = 0, startup_invalid_end = 0,
     device_dropped_events = 0\<rparr>"

definition hop_session_init :: "hop_request \<Rightarrow> hop_session res" where
  "hop_session_init r =
     (case request_encode (replicate HOP_REQUEST_BYTES 0) r of
        Inl e \<Rightarrow> Inl e
      | Inr w \<Rightarrow> Inr \<lparr>hs_request = r, hs_status = zero_status\<lparr>hop_state := HOP_IDLE,
          hop_flags := STATUS_RESTORE_REQUIRED, hop_session_id := request_session_id r,
          planned_dwells := dwell_count r, active_profile := PROFILE_NONE,
          restored_profile := PROFILE_NONE\<rparr>,
        hs_last_event = zero_event, hs_last_device_id = 0, hs_terminal_error = 0,
        hs_have_event = False, hs_have_block = False, hs_restore_called = False\<rparr>)"

definition hop_session_arm :: "hop_session \<Rightarrow> i32 \<times> hop_session" where
  "hop_session_arm s =
     (if hop_state (hs_status s) \<noteq> HOP_IDLE then (- EINVAL, s)
      else (0, s\<lparr>hs_status := (hs_status s)\<lparr>hop_state := HOP_ARMED\<rparr>\<rparr>))"

definition hop_session_start :: "hop_session \<Rightarrow> i32 \<Rightarrow> restore_answer \<Rightarrow> i32 \<times> hop_session" where
  "hop_session_start s submitted answer =
     (if hop_state (hs_status s) \<noteq> HOP_IDLE \<and> hop_state (hs_status s) \<noteq> HOP_ARMED then (- EINVAL, s)
      else let s = s\<lparr>hs_status := (hs_status s)\<lparr>hop_state := HOP_ARMED\<rparr>\<rparr>;
          ret = normalize_error submitted
        in if ret \<noteq> 0 then hop_fail s HOP_REASON_DEVICE_ERROR ret answer
        else (0, s\<lparr>hs_status := (hs_status s)\<lparr>hop_state := HOP_RUNNING\<rparr>\<rparr>))"

subsection \<open>Events\<close>

text \<open>
  The check of one device event; an adaptive session passes the event's choice and its policy. The
  result is an error code or the event with the span in which the samples are invalid.
\<close>

definition validate_device_event ::
  "hop_session \<Rightarrow> hop_device_event \<Rightarrow> (hop_choice \<times> hop_policy) option \<Rightarrow> i32 + hop_event" where
  "validate_device_event s d choice =
     (let st = hs_status s; r = hs_request s; last = hs_last_event s;
        no_recall = (event_flags d AND EVENT_NO_RECALL \<noteq> 0);
        expected_from = (if dwell_index d = 0 then PROFILE_NONE
          else if choice \<noteq> None then to_profile (device last)
          else ucast ((dwell_index d - 1) mod HOP_PROFILE_COUNT));
        profile = profiles r ! unat (to_profile d);
        start = (if hs_have_event s then invalid_end last + dwell_samples r else transition_before d);
        e = \<lparr>device = d, invalid_start = start, invalid_end =
          (if no_recall then start else transition_after d + transition_guard_samples r)\<rparr>
      in if event_sequence d \<noteq> next_event_sequence st \<or> dwell_index d \<noteq> visits_started st \<or>
            dwell_count r \<le> dwell_index d then Inl (- EILSEQ)
      else if dwell_index d = 0 \<and> event_kind d \<noteq> EVENT_STARTUP \<or>
            dwell_index d \<noteq> 0 \<and> event_kind d \<noteq> EVENT_RETUNE then Inl (- EILSEQ)
      else if from_profile d \<noteq> expected_from \<or> HOP_PROFILE_COUNT \<le> to_profile d \<or>
            (choice = None \<and> ucast (to_profile d) \<noteq> dwell_index d mod HOP_PROFILE_COUNT) \<or>
            event_flags d AND NOT EVENT_FLAGS_ALLOWED \<noteq> 0 \<or>
            event_flags d AND EVENT_FLAGS \<noteq> EVENT_FLAGS \<or>
            (\<not> no_recall \<and> device_event_id d = 0) \<or>
            (no_recall \<and> (event_kind d \<noteq> EVENT_RETUNE \<or> from_profile d \<noteq> to_profile d \<or>
              device_event_id d \<noteq> 0 \<or> transition_before d \<noteq> transition_after d)) \<or>
            transition_after d < transition_before d \<or>
            (\<not> no_recall \<and> UINT64_MAX - transition_guard_samples r < transition_after d)
      then Inl (- EBADMSG)
      else if hs_have_event s \<and> UINT64_MAX - dwell_samples r < invalid_end last then Inl (- ERANGE)
      else if event_fastlock_slot d \<noteq> ucast (fastlock_slot profile) \<or>
            actual_lo_frequency_hz d \<noteq> lo_frequency_hz profile \<or>
            actual_if_offset_hz d \<noteq> if_offset_hz r \<or>
            \<not> center_matches_actual (center_frequency_hz profile) (actual_lo_frequency_hz d)
              (actual_if_offset_hz d) then Inl (- EBADMSG)
      else if (case choice of None \<Rightarrow> False
          | Some (c, p) \<Rightarrow> hc_generation c \<noteq> hp_generation p \<or> hc_mode c \<noteq> hp_mode p \<or>
              choice_validate c e \<noteq> 0 \<or> hp_missed_dwells p < hc_consecutive_misses c \<or>
              sample_rate_hz r * ucast (hp_cooldown_ms p) div 1000 < hc_cooldown_remaining c \<or>
              (hs_have_event s \<and> hc_decision_counter c < invalid_start e)) then Inl (- EBADMSG)
      else if hs_have_event s then
        (if invalid_start e < invalid_end last \<or>
            (\<not> no_recall \<and> transition_before d < invalid_start e) \<or>
            (\<not> no_recall \<and> device_event_id d \<le> hs_last_device_id s) then Inl (- ERANGE)
         else if startup_invalid_start st \<le> invalid_start e \<and>
            capture_span_samples r \<le> invalid_start e - startup_invalid_start st then Inl (- ERANGE)
         else Inr e)
      else if event_sequence d \<noteq> 0 \<or> dwell_index d \<noteq> 0 then Inl (- EILSEQ)
      else Inr e)"

definition accept_event :: "hop_session \<Rightarrow> hop_event \<Rightarrow> hop_session" where
  "accept_event s e =
     (let d = device e; st = hs_status s;
        st = st\<lparr>next_event_sequence := next_event_sequence st + 1,
          visits_started := visits_started st + 1, active_profile := to_profile d\<rparr>;
        st = (if event_sequence d = 0 then st\<lparr>startup_invalid_start := invalid_start e,
          startup_invalid_end := invalid_end e, first_counter := invalid_start e\<rparr> else st)
      in s\<lparr>hs_last_event := e, hs_have_event := True, hs_status := st,
        hs_last_device_id :=
          (if device_event_id d \<noteq> 0 then device_event_id d else hs_last_device_id s)\<rparr>)"

text \<open>
  The loop over the drained events. The pending choices of an adaptive session are the last
  argument, and come back with their counters extended.
\<close>

fun session_events :: "hop_session \<Rightarrow> u64 \<Rightarrow> hop_policy option \<Rightarrow> hop_device_event list \<Rightarrow>
    hop_choice list \<Rightarrow> (i32 + hop_event list) \<times> hop_session \<times> hop_choice list" where
  "session_events s first p [] cs = (Inr [], s, cs)"
| "session_events s first p (d # ds) cs =
     (let before = extend_counter_near first (transition_before d);
        after = extend_counter_near before (transition_after d);
        d = d\<lparr>transition_before := before, transition_after := after\<rparr>;
        cs = (if p = None then cs
          else (hd cs)\<lparr>hc_decision_counter := extend_counter_near before
            (hc_decision_counter (hd cs))\<rparr> # tl cs)
      in case validate_device_event s d (map_option (Pair (hd cs)) p) of
        Inl e \<Rightarrow> (Inl e, s, cs)
      | Inr e \<Rightarrow> (case session_events (accept_event s e) first p ds (tl cs) of
          (r, s, cs') \<Rightarrow> (map_sum id (Cons e) r, s, take 1 cs @ cs')))"

definition maybe_complete :: "hop_session \<Rightarrow> u64 \<Rightarrow> restore_answer \<Rightarrow> i32 \<times> hop_session" where
  "maybe_complete s block_end answer =
     (let r = hs_request s; last = invalid_end (hs_last_event s); st = hs_status s in
      if \<not> hs_have_event s then (0, s)
      else if UINT64_MAX - dwell_samples r < last
      then hop_fail s HOP_REASON_PROTOCOL_ERROR (- EOVERFLOW) answer
      else let final = last + dwell_samples r in
      if final < startup_invalid_start st \<or>
         final - startup_invalid_start st < capture_span_samples r then (0, s)
      else if block_end < final then (0, s)
      else hop_restore s HOP_REASON_PLAN_COMPLETE HOP_COMPLETED final answer)"

subsection \<open>Blocks\<close>

definition block_discontinuous :: "hop_session \<Rightarrow> u64 \<Rightarrow> u64 \<Rightarrow> u64 \<Rightarrow> bool" where
  "block_discontinuous s sequence first block_end \<longleftrightarrow>
     (let r = hs_request s; st = hs_status s;
        sparse_wide_rate = (sample_rate_hz r = 15000000 \<or> sample_rate_hz r = 20000000);
        block_samples = block_end - first; missing = first - last_block_end st;
        skipped = (if sparse_wide_rate then missing div block_samples else 0)
      in hs_have_block s \<and>
        (first < last_block_end st \<or> UINT64_MAX - 1 - skipped < last_block_sequence st \<or>
         sequence \<noteq> last_block_sequence st + 1 + skipped \<or> (\<not> sparse_wide_rate \<and> missing \<noteq> 0)))"

type_synonym drain_answer = "i32 \<times> hop_device_event list \<times> u64"

text \<open>The end of a block whose events were accepted: completion, then the sidecar.\<close>

definition finish_block :: "hop_session \<Rightarrow> u64 \<Rightarrow> u64 \<Rightarrow> u64 \<Rightarrow> restore_answer \<Rightarrow> hop_event list \<Rightarrow>
    (i32 + hop_sidecar) \<times> hop_session" where
  "finish_block s sequence first block_end answer es =
     (let s = s\<lparr>hs_have_block := True, hs_status := (hs_status s)\<lparr>
          last_block_sequence := sequence, last_block_end := block_end\<rparr>\<rparr>;
        (ret, s) = maybe_complete s block_end answer; st = hs_status s; n = length es
      in if ret \<noteq> 0 then (Inl ret, s)
      else (Inr \<lparr>sidecar_flags = hop_flags st, sidecar_session_id = request_session_id (hs_request s),
          buffer_sequence = sequence, block_first_sample = first, block_end_sample = block_end,
          sidecar_state = hop_state st, sidecar_reason = hop_reason st, sidecar_error = hop_error st,
          event_count = of_nat n, events = es @ replicate (HOP_EVENT_CAPACITY - n) zero_event\<rparr>,
        s\<lparr>hs_status := st\<lparr>events_emitted := events_emitted st + of_nat n\<rparr>\<rparr>))"

definition session_on_block :: "hop_session \<Rightarrow> u64 \<Rightarrow> u64 \<Rightarrow> u64 \<Rightarrow> drain_answer \<Rightarrow> restore_answer \<Rightarrow>
    hop_policy option \<Rightarrow> hop_choice list \<Rightarrow> (i32 + hop_sidecar) \<times> hop_session \<times> hop_choice list" where
  "session_on_block s sequence first block_end drained answer p cs =
     (let failed = (\<lambda>(e, s) cs. (Inl e, s, cs)); (ret, ds, dropped) = drained;
        ret = normalize_error ret in
      if hop_state (hs_status s) \<noteq> HOP_RUNNING \<or> block_end \<le> first then (Inl (- EINVAL), s, cs)
      else if block_discontinuous s sequence first block_end
      then failed (hop_fail s HOP_REASON_COUNTER_DISCONTINUITY (- EILSEQ) answer) cs
      else if ret \<noteq> 0 then failed (hop_fail s HOP_REASON_DEVICE_ERROR ret answer) cs
      else if HOP_EVENT_CAPACITY < length ds
      then failed (hop_fail s HOP_REASON_PROTOCOL_ERROR (- EOVERFLOW) answer) cs
      else let s = s\<lparr>hs_status := (hs_status s)\<lparr>device_dropped_events := dropped\<rparr>\<rparr> in
      if dropped \<noteq> 0 then failed (hop_fail s HOP_REASON_EVENT_OVERFLOW (- EOVERFLOW) answer) cs
      else case session_events s first p ds cs of
        (Inl e, s, cs) \<Rightarrow> failed (hop_fail s (if e = - EILSEQ then HOP_REASON_EVENT_SEQUENCE
            else HOP_REASON_PROTOCOL_ERROR) e answer) cs
      | (Inr es, s, cs) \<Rightarrow> (case finish_block s sequence first block_end answer es of
          (r, s) \<Rightarrow> (r, s, cs)))"

definition hop_session_on_block :: "hop_session \<Rightarrow> u64 \<Rightarrow> u64 \<Rightarrow> u64 \<Rightarrow> drain_answer \<Rightarrow>
    restore_answer \<Rightarrow> (i32 + hop_sidecar) \<times> hop_session" where
  "hop_session_on_block s sequence first block_end drained answer =
     (case session_on_block s sequence first block_end drained answer None [] of
        (r, s, _) \<Rightarrow> (r, s))"

definition hop_session_cancel :: "hop_session \<Rightarrow> u16 \<Rightarrow> restore_answer \<Rightarrow> i32 \<times> hop_session" where
  "hop_session_cancel s reason answer =
     (if reason \<noteq> HOP_REASON_CLIENT_CLOSE \<and> reason \<noteq> HOP_REASON_CLIENT_DISCONNECT then (- EINVAL, s)
      else if hop_terminal s then (restore_error (hs_status s), s)
      else hop_restore s reason HOP_CANCELLED 0 answer)"

subsection \<open>Adaptive sessions\<close>

definition hop_session_v2_init :: "adaptive_request \<Rightarrow> hop_session_v2 res" where
  "hop_session_v2_init r =
     (case adaptive_configuration HOP_HOST_REQUEST_BYTES r of
        Inl e \<Rightarrow> Inl e
      | Inr w \<Rightarrow> (case hop_session_init (geometry r) of
          Inl e \<Rightarrow> Inl e
        | Inr s \<Rightarrow> Inr \<lparr>h2_core = s, h2_request = r,
            h2_pending = replicate HOP_EVENT_CAPACITY zero_hop_choice\<rparr>))"

definition hop_session_v2_arm :: "hop_session_v2 \<Rightarrow> i32 \<times> hop_session_v2" where
  "hop_session_v2_arm s = map_prod id (\<lambda>c. s\<lparr>h2_core := c\<rparr>) (hop_session_arm (h2_core s))"

definition hop_session_v2_start :: "hop_session_v2 \<Rightarrow> i32 \<Rightarrow> restore_answer \<Rightarrow> i32 \<times> hop_session_v2" where
  "hop_session_v2_start s submitted answer =
     map_prod id (\<lambda>c. s\<lparr>h2_core := c\<rparr>) (hop_session_start (h2_core s) submitted answer)"

text \<open>
  The drain port that the adaptive session gives its core: it keeps the choices and passes the
  events on. The port is called only where the core gets to \<open>drain_events\<close>.
\<close>

definition adaptive_drain :: "hop_session_v2 \<Rightarrow> i32 \<times> (hop_device_event \<times> hop_choice) list \<times> u64 \<Rightarrow>
    drain_answer \<times> hop_choice list" where
  "adaptive_drain s drained =
     (let (ret, xs, dropped) = drained in
      if ret \<noteq> 0 then ((ret, [], dropped), h2_pending s)
      else if HOP_EVENT_CAPACITY < length xs then ((- EOVERFLOW, [], dropped), h2_pending s)
      else ((0, map fst xs, dropped), map snd xs @ drop (length xs) (h2_pending s)))"

definition hop_session_v2_on_block :: "hop_session_v2 \<Rightarrow> u64 \<Rightarrow> u64 \<Rightarrow> u64 \<Rightarrow>
    i32 \<times> (hop_device_event \<times> hop_choice) list \<times> u64 \<Rightarrow> restore_answer \<Rightarrow>
    (i32 + adaptive_sidecar) \<times> hop_session_v2" where
  "hop_session_v2_on_block s sequence first block_end drained answer =
     (let c = h2_core s;
        drains = (hop_state (hs_status c) = HOP_RUNNING \<and> first < block_end \<and>
          \<not> block_discontinuous c sequence first block_end);
        (inner, pending) = adaptive_drain s drained;
        pending = (if drains then pending else h2_pending s)
      in case session_on_block c sequence first block_end inner answer
          (Some (policy (h2_request s))) pending of
        (r, c, cs) \<Rightarrow> (map_sum id (\<lambda>g. \<lparr>as_geometry = g, as_choices =
            take (unat (event_count g)) cs
            @ replicate (HOP_EVENT_CAPACITY - unat (event_count g)) zero_hop_choice\<rparr>) r,
          s\<lparr>h2_core := c, h2_pending := cs\<rparr>))"

definition hop_session_v2_cancel :: "hop_session_v2 \<Rightarrow> u16 \<Rightarrow> restore_answer \<Rightarrow> i32 \<times> hop_session_v2" where
  "hop_session_v2_cancel s reason answer =
     map_prod id (\<lambda>c. s\<lparr>h2_core := c\<rparr>) (hop_session_cancel (h2_core s) reason answer)"

end
