(* ===== verification/Hop_Session_Safe.thy ===== *)
theory Hop_Session_Safe
  imports Hop_Session
begin

unbundle bit_operations_syntax

text \<open>
  The life of a hop session: the state is consistent in the sense of the wire format at every
  moment, the radio is restored exactly once, and everything the session reports can be sent.
\<close>

subsection \<open>Counters\<close>

lemma center_matches_actual_eq: "center_matches_actual = center_matches_lo"
  by (intro ext) (simp add: center_matches_actual_def center_matches_lo_def)

subsection \<open>Restoring\<close>

lemma normalize_error_neg: "normalize_error e \<noteq> 0 \<Longrightarrow> sint (normalize_error e) < 0"
proof -
  assume n: "normalize_error e \<noteq> 0"
  have "sint (- 5 :: i32) < 0" by simp
  moreover have "sint e \<noteq> 0 \<or> e = 0" using signed_eq_0_iff by blast
  ultimately show ?thesis using n by (auto simp: normalize_error_def)
qed

lemma normalize_error_idem [simp]: "normalize_error (normalize_error e) = normalize_error e"
  by (simp add: normalize_error_def)

text \<open>The fields of a status that restoring does not touch.\<close>

definition keeps :: "hop_status \<Rightarrow> hop_status \<Rightarrow> bool" where
  "keeps a b \<longleftrightarrow> hop_session_id b = hop_session_id a \<and> planned_dwells b = planned_dwells a \<and>
     visits_started b = visits_started a \<and> events_emitted b = events_emitted a \<and>
     next_event_sequence b = next_event_sequence a \<and> last_block_sequence b = last_block_sequence a \<and>
     last_block_end b = last_block_end a \<and> first_counter b = first_counter a \<and>
     active_profile b = active_profile a \<and> startup_invalid_start b = startup_invalid_start a \<and>
     startup_invalid_end b = startup_invalid_end a \<and>
     device_dropped_events b = device_dropped_events a"

abbreviation (input) RESTORED :: u32 where "RESTORED \<equiv> 0x19"
abbreviation (input) UNRESTORED :: u32 where "UNRESTORED \<equiv> 0x09"

definition live_flags :: "u32 set" where "live_flags = {0x20, 0x22, 0x24}"

lemma anchor_receipt_fields [simp]:
  "rc_lo_frequency_hz (anchor_receipt s n c) = rc_lo_frequency_hz c"
  "rc_error (anchor_receipt s n c) = rc_error c" "rc_profile (anchor_receipt s n c) = rc_profile c"
  "rc_flags (anchor_receipt s n c) = rc_flags c"
  by (simp_all add: anchor_receipt_def Let_def)

lemma hop_restore_result:
  assumes nr: "\<not> hs_restore_called s" and fl: "hop_flags (hs_status s) \<in> live_flags"
  shows "\<exists>ret st. hop_restore s reason final needed answer =
      (ret, s\<lparr>hs_restore_called := True, hs_status := st\<rparr>) \<and> keeps (hs_status s) st \<and>
    restored_profile st = rc_profile (snd answer) \<and>
    (if ret = 0 then hop_state st = final \<and> hop_reason st = reason \<and>
        hop_error st = hop_error (hs_status s) \<and> hop_flags st = hop_flags (hs_status s) OR RESTORED \<and>
        (reason = HOP_REASON_PLAN_COMPLETE \<longrightarrow> final_counter st = needed \<and> needed \<le> restore_before st)
     else hop_state st = HOP_FAILED \<and> hop_reason st = HOP_REASON_RESTORE_ERROR \<and>
        hop_error st = ret \<and> sint ret < 0 \<and> hop_flags st = hop_flags (hs_status s) OR UNRESTORED)"
proof -
  have neg: "sint (- 34 :: i32) < 0" "sint (- 74 :: i32) < 0" by simp_all
  have e: "sint (normalize_error (fst answer)) < 0" if "normalize_error (fst answer) \<noteq> 0"
    by (rule normalize_error_neg [OF that])
  have c: "sint (normalize_error (rc_error (snd answer))) < 0"
    if "normalize_error (rc_error (snd answer)) \<noteq> 0"
    by (rule normalize_error_neg [OF that])
  have z: "normalize_error 0 = 0" by (simp add: normalize_error_def)
  let ?c = "anchor_receipt s needed (snd answer)"
  let ?att = "normalize_error (fst answer) = 0 \<and> rc_error ?c = 0 \<and> rc_flags ?c = EVENT_FLAGS \<and>
    rc_before ?c \<le> rc_after ?c \<and> rc_lo_frequency_hz ?c \<noteq> 0"
  let ?early = "reason = HOP_REASON_PLAN_COMPLETE \<and> rc_before ?c < needed"
  let ?r = "hop_restore s reason final needed answer"
  show ?thesis
  proof (intro exI [of _ "fst ?r"] exI [of _ "hs_status (snd ?r)"])
    show "?r = (fst ?r, s\<lparr>hs_restore_called := True, hs_status := hs_status (snd ?r)\<rparr>) \<and>
        keeps (hs_status s) (hs_status (snd ?r)) \<and>
        restored_profile (hs_status (snd ?r)) = rc_profile (snd answer) \<and>
        (if fst ?r = 0 then hop_state (hs_status (snd ?r)) = final \<and>
          hop_reason (hs_status (snd ?r)) = reason \<and>
          hop_error (hs_status (snd ?r)) = hop_error (hs_status s) \<and>
          hop_flags (hs_status (snd ?r)) = hop_flags (hs_status s) OR RESTORED \<and>
          (reason = HOP_REASON_PLAN_COMPLETE \<longrightarrow> final_counter (hs_status (snd ?r)) = needed \<and>
            needed \<le> restore_before (hs_status (snd ?r)))
        else hop_state (hs_status (snd ?r)) = HOP_FAILED \<and>
          hop_reason (hs_status (snd ?r)) = HOP_REASON_RESTORE_ERROR \<and>
          hop_error (hs_status (snd ?r)) = fst ?r \<and> sint (fst ?r) < 0 \<and>
          hop_flags (hs_status (snd ?r)) = hop_flags (hs_status s) OR UNRESTORED)"
    proof (cases "?att \<and> \<not> ?early")
      case True
      then show ?thesis using nr fl by (auto simp: hop_restore_def Let_def keeps_def live_flags_def)
    next
      case False
      define err where "err = (if normalize_error (fst answer) \<noteq> 0 then normalize_error (fst answer)
        else normalize_error (rc_error ?c))"
      define code where "code = (if ?att then (if ?early then - ERANGE else err)
        else if err = 0 then - EBADMSG else err)"
      have "err \<noteq> 0 \<Longrightarrow> sint err < 0" using e c by (simp add: err_def split: if_splits)
      then have code: "sint code < 0" using False neg unfolding code_def by auto
      then have "code \<noteq> 0" by auto
      obtain st where r: "?r = (code, s\<lparr>hs_restore_called := True, hs_status := st\<rparr>)"
        and st: "keeps (hs_status s) st" "restored_profile st = rc_profile (snd answer)"
          "hop_state st = HOP_FAILED" "hop_reason st = HOP_REASON_RESTORE_ERROR"
          "hop_error st = code" "hop_flags st = hop_flags (hs_status s) OR UNRESTORED"
      proof
        let ?st = "(hs_status s)\<lparr>restore_before := rc_before ?c, restore_after := rc_after ?c,
          restored_lo_frequency_hz := rc_lo_frequency_hz ?c, restored_profile := rc_profile ?c,
          restore_error := code, hop_state := HOP_FAILED, hop_reason := HOP_REASON_RESTORE_ERROR,
          hop_flags := hop_flags (hs_status s) OR UNRESTORED,
          final_counter := (if reason = HOP_REASON_PLAN_COMPLETE then needed else rc_before ?c),
          hop_error := code\<rparr>"
        have fl': "(hop_flags (hs_status s) OR 8) OR 1 = hop_flags (hs_status s) OR 9"
          "(hop_flags (hs_status s) OR 9) AND 0x10 = 0"
          using fl by (auto simp: live_flags_def)
        show "?r = (code, s\<lparr>hs_restore_called := True, hs_status := ?st\<rparr>)"
          using nr fl' unfolding hop_restore_def Let_def if_not_P [OF False] code_def err_def
          by (simp split del: if_split)
      qed (simp_all add: keeps_def)
      then show ?thesis using \<open>code \<noteq> 0\<close> code by simp
    qed
  qed
qed

lemma live_flags_20 [simp]: "0x20 \<in> live_flags"
  by (simp add: live_flags_def)

subsection \<open>The invariant\<close>

text \<open>
  A live session has never restored and reports no reason and no error; a terminal one has restored
  and its state is one the wire format allows.
\<close>

definition state_ok :: "hop_status \<Rightarrow> bool" where
  "state_ok st \<longleftrightarrow> validate_state (hop_state st) (hop_reason st) (hop_error st) (hop_flags st) = 0"

text \<open>A session that ends has the radio restored, or says that it is not.\<close>

definition settled :: "hop_status \<Rightarrow> bool" where
  "settled st \<longleftrightarrow> hop_flags st AND STATUS_RESTORE_SUCCEEDED \<noteq> 0 \<or>
     hop_state st = HOP_FAILED \<and> hop_reason st = HOP_REASON_RESTORE_ERROR"

definition session_ok :: "hop_session \<Rightarrow> bool" where
  "session_ok s \<longleftrightarrow> (let r = hs_request s; st = hs_status s in
     request_wf r \<and> validate_request r = 0 \<and> hop_session_id st = request_session_id r \<and>
     planned_dwells st = dwell_count r \<and> (active_profile st = PROFILE_NONE \<or> active_profile st < 8) \<and>
     state_ok st \<and> (hs_restore_called s \<longleftrightarrow> hop_terminal s) \<and> (hop_terminal s \<longrightarrow> settled st) \<and>
     (\<not> hop_terminal s \<longrightarrow> hop_flags st = STATUS_RESTORE_REQUIRED \<and> hop_reason st = 0 \<and>
        hop_error st = 0 \<and> restored_profile st = PROFILE_NONE))"

text \<open>Going terminal: what restoring leaves of an invariant session.\<close>

definition ended :: "hop_session \<Rightarrow> hop_session \<Rightarrow> restore_answer \<Rightarrow> bool" where
  "ended s s' answer \<longleftrightarrow> hs_request s' = hs_request s \<and> hs_last_event s' = hs_last_event s \<and>
     hs_have_event s' = hs_have_event s \<and> hs_have_block s' = hs_have_block s \<and>
     hs_restore_called s' \<and> hop_terminal s' \<and> state_ok (hs_status s') \<and>
     settled (hs_status s') \<and> keeps (hs_status s) (hs_status s') \<and> restored_profile (hs_status s') = rc_profile (snd answer)"

lemma hop_restore_ended:
  assumes "\<not> hs_restore_called s" and "hop_flags (hs_status s) = STATUS_RESTORE_REQUIRED"
    and "hop_error (hs_status s) = 0"
    and "final = HOP_CANCELLED \<and> (reason = HOP_REASON_CLIENT_CLOSE \<or> reason = HOP_REASON_CLIENT_DISCONNECT) \<or>
      final = HOP_COMPLETED \<and> reason = HOP_REASON_PLAN_COMPLETE"
    and "hop_restore s reason final needed answer = (ret, s')"
  shows "ended s s' answer" and "ret = 0 \<Longrightarrow> hop_state (hs_status s') = final \<and>
      (final = HOP_COMPLETED \<longrightarrow> final_counter (hs_status s') = needed)"
    and "ret \<noteq> 0 \<Longrightarrow> hop_state (hs_status s') = HOP_FAILED"
proof -
  from hop_restore_result [of s reason final needed answer] assms(1,2,5) obtain st
    where s': "s' = s\<lparr>hs_restore_called := True, hs_status := st\<rparr>" and k: "keeps (hs_status s) st"
      "restored_profile st = rc_profile (snd answer)"
      and r: "if ret = 0 then hop_state st = final \<and> hop_reason st = reason \<and>
          hop_error st = hop_error (hs_status s) \<and> hop_flags st = 0x39 \<and>
          (reason = HOP_REASON_PLAN_COMPLETE \<longrightarrow> final_counter st = needed \<and> needed \<le> restore_before st)
        else hop_state st = HOP_FAILED \<and> hop_reason st = HOP_REASON_RESTORE_ERROR \<and>
          hop_error st = ret \<and> sint ret < 0 \<and> hop_flags st = 0x29"
    by (auto split: if_splits)
  have "3 \<le> hop_state st \<and> state_ok st \<and> settled st"
  proof (cases "ret = 0")
    case True
    then show ?thesis using r assms(3,4) by (auto simp: state_ok_def validate_state_def settled_def)
  next
    case False
    then show ?thesis using r by (simp add: state_ok_def validate_state_def settled_def)
  qed
  then show "ended s s' answer" using s' k by (simp add: ended_def hop_terminal_def)
  show "ret = 0 \<Longrightarrow> hop_state (hs_status s') = final \<and>
      (final = HOP_COMPLETED \<longrightarrow> final_counter (hs_status s') = needed)"
    "ret \<noteq> 0 \<Longrightarrow> hop_state (hs_status s') = HOP_FAILED"
    using r s' assms(4) by auto
qed

definition fail_reason :: "u16 \<Rightarrow> bool" where
  "fail_reason reason \<longleftrightarrow> reason \<in> {HOP_REASON_DEVICE_ERROR, HOP_REASON_EVENT_OVERFLOW,
     HOP_REASON_EVENT_SEQUENCE, HOP_REASON_COUNTER_DISCONTINUITY, HOP_REASON_PROTOCOL_ERROR}"

lemma fail_reasonE:
  assumes "fail_reason reason"
  obtains "reason = 4" | "reason = 5" | "reason = 6" | "reason = 7" | "reason = 8"
  using assms by (auto simp: fail_reason_def)

lemma hop_fail_ended:
  assumes "\<not> hs_restore_called s" and "hop_flags (hs_status s) = STATUS_RESTORE_REQUIRED"
    and "\<not> hop_terminal s" and "fail_reason reason" and "sint err < 0"
    and "hop_fail s reason err answer = (ret, s')"
  shows "ended s s' answer" and "hop_state (hs_status s') = HOP_FAILED" and "ret = err"
proof -
  define flags where "flags = (if reason = HOP_REASON_EVENT_OVERFLOW then 0x22
    else if reason = HOP_REASON_EVENT_SEQUENCE \<or> reason = HOP_REASON_COUNTER_DISCONTINUITY then 0x24
    else (0x20::u32))"
  let ?s = "s\<lparr>hs_status := (hs_status s)\<lparr>hop_error := err, hop_flags := flags\<rparr>\<rparr>"
  have err: "err \<noteq> 0" using assms(5) by auto
  have live: "flags \<in> live_flags" by (simp add: flags_def live_flags_def)
  have c: "\<not> hs_restore_called ?s" "hop_flags (hs_status ?s) \<in> live_flags"
    using assms(1) live by simp_all
  obtain ret0 st
    where h': "hop_restore ?s reason HOP_FAILED 0 answer
        = (ret0, ?s\<lparr>hs_restore_called := True, hs_status := st\<rparr>)"
      and k': "keeps (hs_status ?s) st" and k: "restored_profile st = rc_profile (snd answer)"
      and r': "if ret0 = 0 then hop_state st = HOP_FAILED \<and> hop_reason st = reason \<and>
          hop_error st = hop_error (hs_status ?s) \<and> hop_flags st = hop_flags (hs_status ?s) OR RESTORED \<and>
          (reason = HOP_REASON_PLAN_COMPLETE \<longrightarrow> final_counter st = 0 \<and> 0 \<le> restore_before st)
        else hop_state st = HOP_FAILED \<and> hop_reason st = HOP_REASON_RESTORE_ERROR \<and>
          hop_error st = ret0 \<and> sint ret0 < 0 \<and> hop_flags st = hop_flags (hs_status ?s) OR UNRESTORED"
    using hop_restore_result [OF c, of reason HOP_FAILED 0 answer] by blast
  have h: "hop_restore ?s reason HOP_FAILED 0 answer
      = (ret0, s\<lparr>hs_restore_called := True, hs_status := st\<rparr>)"
    using h' by simp
  have kk: "keeps (hs_status s) st" using k' by (simp add: keeps_def)
  have r: "if ret0 = 0 then hop_state st = HOP_FAILED \<and> hop_reason st = reason \<and>
          hop_error st = err \<and> hop_flags st = flags OR RESTORED
        else hop_state st = HOP_FAILED \<and> hop_reason st = HOP_REASON_RESTORE_ERROR \<and>
          hop_error st = ret0 \<and> sint ret0 < 0 \<and> hop_flags st = flags OR UNRESTORED"
    using r' by (simp split: if_splits)
  have ok: "state_ok st \<and> settled st"
  proof (cases "ret0 = 0")
    case True
    then have "hop_state st = 5" "hop_reason st = reason" "hop_error st = err" "hop_flags st = flags OR 0x19"
      using r by simp_all
    then show ?thesis using assms(4,5)
      by (elim fail_reasonE) (simp_all add: state_ok_def validate_state_def flags_def settled_def)
  next
    case False
    then have "hop_state st = 5" "hop_reason st = 9" "sint (hop_error st) < 0" "hop_flags st = flags OR 9"
      using r by simp_all
    then show ?thesis using assms(4)
      by (elim fail_reasonE) (simp_all add: state_ok_def validate_state_def flags_def settled_def)
  qed
  have fl: "(if reason = HOP_REASON_EVENT_SEQUENCE \<or> reason = HOP_REASON_COUNTER_DISCONTINUITY
      then (if reason = HOP_REASON_EVENT_OVERFLOW then hop_flags (hs_status s) OR STATUS_DEVICE_EVENT_OVERFLOW
        else hop_flags (hs_status s)) OR STATUS_CONTINUITY_FAULT
      else (if reason = HOP_REASON_EVENT_OVERFLOW then hop_flags (hs_status s) OR STATUS_DEVICE_EVENT_OVERFLOW
        else hop_flags (hs_status s))) = flags"
    by (simp add: assms(2) flags_def)
  have "(ret, s') = (err, s\<lparr>hs_restore_called := True, hs_status := st, hs_terminal_error := err\<rparr>)"
  proof -
    have same: "st\<lparr>hop_state := HOP_FAILED, hop_reason := reason, hop_error := err\<rparr> = st" if "ret0 = 0"
      using r that by (intro hop_status.equality) simp_all
    have "hop_fail s reason err answer = (err, (if ret0 = 0
        then s\<lparr>hs_restore_called := True, hs_status := st\<lparr>hop_state := HOP_FAILED,
          hop_reason := reason, hop_error := err\<rparr>\<rparr>
        else s\<lparr>hs_restore_called := True, hs_status := st\<rparr>)\<lparr>hs_terminal_error := err\<rparr>)"
      using assms(3) err h unfolding hop_fail_def Let_def fl by simp
    then show ?thesis using same assms(6) by (simp split: if_splits)
  qed
  then show "ended s s' answer" "hop_state (hs_status s') = HOP_FAILED" "ret = err"
    using r k kk ok by (auto simp: ended_def hop_terminal_def split: if_splits)
qed

subsection \<open>Events\<close>

lemma slot_bound:
  assumes "request_wf r" and "validate_request r = 0" and "i < (8::u8)"
  shows "(ucast (fastlock_slot (profiles r ! unat i)) :: u16) < 8"
proof -
  have "unat i < length (profiles r)" using assms(1,3) by (simp add: request_wf_def word_less_nat_alt)
  then have "profiles r ! unat i \<in> set (profiles r)" by simp
  then have "fastlock_slot (profiles r ! unat i) < 8"
    using assms(1,2) validate_request_0_iff by (auto simp: plan_consistent_def profile_consistent_def word_less_nat_alt)
  then show ?thesis by (simp add: word_less_nat_alt unsigned_ucast_eq take_bit_nat_eq_self)
qed

lemma event_checked:
  assumes "validate_device_event s d choice = Inr e"
  shows "device e = d" and "event_sequence d = next_event_sequence (hs_status s)"
    and "dwell_index d = visits_started (hs_status s)" and "dwell_index d < dwell_count (hs_request s)"
    and "to_profile d < 8"
    and "event_fastlock_slot d = ucast (fastlock_slot (profiles (hs_request s) ! unat (to_profile d)))"
    and "actual_lo_frequency_hz d = lo_frequency_hz (profiles (hs_request s) ! unat (to_profile d))"
    and "actual_if_offset_hz d = if_offset_hz (hs_request s)"
    and "choice = None \<Longrightarrow> ucast (to_profile d) = dwell_index d mod 8"
    and "choice = Some (c, q) \<Longrightarrow> choice_validate c e = 0"
  using assms by (auto simp: validate_device_event_def Let_def not_le split: if_splits)

lemma event_spans:
  assumes "validate_device_event s d choice = Inr e" and "hs_have_event s"
  shows "invalid_start e = invalid_end (hs_last_event s) + dwell_samples (hs_request s)"
    and "\<not> UINT64_MAX - dwell_samples (hs_request s) < invalid_end (hs_last_event s)"
    and "\<not> (startup_invalid_start (hs_status s) \<le> invalid_start e \<and>
       capture_span_samples (hs_request s) \<le> invalid_start e - startup_invalid_start (hs_status s))"
  using assms by (auto simp: validate_device_event_def Let_def not_le split: if_splits)

lemma event_first:
  assumes "validate_device_event s d choice = Inr e" and "\<not> hs_have_event s"
  shows "event_sequence d = 0" "dwell_index d = 0" "invalid_start e = transition_before d"
  using assms by (auto simp: validate_device_event_def Let_def not_le split: if_splits)

lemma event_shape:
  assumes "validate_device_event s d choice = Inr e"
  shows "event_kind d = EVENT_STARTUP \<or> event_kind d = EVENT_RETUNE"
    and "event_flags d AND NOT EVENT_FLAGS_ALLOWED = 0" and "event_flags d AND EVENT_FLAGS = EVENT_FLAGS"
    and "transition_before d \<le> transition_after d"
    and "event_flags d AND EVENT_NO_RECALL \<noteq> 0 \<longrightarrow> event_kind d = EVENT_RETUNE \<and>
      from_profile d = to_profile d \<and> device_event_id d = 0 \<and>
      transition_before d = transition_after d \<and> invalid_start e = invalid_end e"
    and "event_flags d AND EVENT_NO_RECALL = 0 \<Longrightarrow>
      invalid_end e = transition_after d + transition_guard_samples (hs_request s)"
    and "event_flags d AND EVENT_NO_RECALL = 0 \<Longrightarrow>
      transition_after d \<le> UINT64_MAX - transition_guard_samples (hs_request s)"
    and "event_flags d AND EVENT_NO_RECALL = 0 \<Longrightarrow> hs_have_event s \<Longrightarrow>
      invalid_start e \<le> transition_before d"
    and "event_flags d AND EVENT_NO_RECALL = 0 \<longrightarrow> device_event_id d \<noteq> 0"
  using assms by (auto simp: validate_device_event_def Let_def not_le not_less split: if_splits)

text \<open>An event that passes the check passes the check of the wire format.\<close>

lemma event_valid:
  assumes "request_wf (hs_request s)" and "validate_request (hs_request s) = 0"
    and "validate_device_event s d choice = Inr e"
  shows "validate_event e = 0"
proof -
  have "event_fastlock_slot d < 8"
    using slot_bound [OF assms(1,2) event_checked(5) [OF assms(3)]] event_checked(6) [OF assms(3)] by simp
  moreover have "event_kind d = EVENT_STARTUP \<or> event_kind d = EVENT_RETUNE"
    using event_shape(1) [OF assms(3)] by blast
  moreover have "invalid_start e \<le> transition_before d \<and> transition_after d \<le> invalid_end e"
    if n: "event_flags d AND EVENT_NO_RECALL = 0"
  proof
    show "invalid_start e \<le> transition_before d"
      using event_shape(8) [OF assms(3) n] event_first(3) [OF assms(3)] by (cases "hs_have_event s") auto
    show "transition_after d \<le> invalid_end e"
      using event_shape(6,7) [OF assms(3) n] u64_add_mono by (simp add: le_max_minus_iff)
  qed
  ultimately show ?thesis
    using event_checked(1,5) [OF assms(3)] event_shape(2-5,9) [OF assms(3)]
    by (simp add: validate_event_def Let_def not_le not_less) blast
qed

end
