(* ===== verification/Hop_Session_Timeline.thy ===== *)
theory Hop_Session_Timeline
  imports Hop_Session_Safe
begin

unbundle bit_operations_syntax

text \<open>
  What a hop session accepts from its device is a timeline: events numbered from zero whose valid
  spans have exactly the dwell's length, and which end as soon as the capture span is covered.
\<close>

subsection \<open>Timelines\<close>

text \<open>Event \<open>i\<close> of a timeline; \<open>fixed\<close> is the order of a session without choices.\<close>

definition on_time :: "hop_request \<Rightarrow> bool \<Rightarrow> hop_event list \<Rightarrow> nat \<Rightarrow> bool" where
  "on_time r fixed es i \<longleftrightarrow> (let e = es ! i; d = device e in
     validate_event e = 0 \<and> unat (event_sequence d) = i \<and> unat (dwell_index d) = i \<and>
     i < unat (dwell_count r) \<and> (fixed \<longrightarrow> unat (to_profile d) = i mod 8) \<and>
     actual_lo_frequency_hz d = lo_frequency_hz (profiles r ! unat (to_profile d)) \<and>
     (i \<noteq> 0 \<longrightarrow> unat (invalid_start e) = unat (invalid_end (es ! (i - 1))) + unat (dwell_samples r) \<and>
        unat (invalid_start e) < unat (invalid_start (es ! 0)) + unat (capture_span_samples r)))"

definition timeline :: "hop_request \<Rightarrow> bool \<Rightarrow> hop_event list \<Rightarrow> bool" where
  "timeline r fixed es \<longleftrightarrow> (\<forall>i < length es. on_time r fixed es i)"

lemma on_time_append: "i < length es \<Longrightarrow> on_time r fixed (es @ xs) i = on_time r fixed es i"
proof -
  assume "i < length es"
  then have "i - 1 < length es" "0 < length es" by linarith+
  then show ?thesis using \<open>i < length es\<close> by (simp add: on_time_def Let_def nth_append)
qed

lemma timeline_Nil [simp]: "timeline r fixed []"
  by (simp add: timeline_def)

lemma timeline_snoc: "timeline r fixed (es @ [e]) \<longleftrightarrow> timeline r fixed es \<and> on_time r fixed (es @ [e]) (length es)"
  by (auto simp: timeline_def less_Suc_eq on_time_append)

lemma timeline_prefix: "timeline r fixed (es @ xs) \<Longrightarrow> timeline r fixed es"
  unfolding timeline_def by (metis on_time_append length_append trans_less_add1)

lemma timeline_length: "timeline r fixed es \<Longrightarrow> length es \<le> unat (dwell_count r)"
proof (cases "length es")
  case (Suc n)
  moreover assume "timeline r fixed es"
  ultimately have "on_time r fixed es n" by (simp add: timeline_def)
  then show ?thesis using Suc by (simp add: on_time_def Let_def)
qed simp

text \<open>The session's books over the accepted events.\<close>

definition accepted :: "bool \<Rightarrow> hop_session \<Rightarrow> hop_event list \<Rightarrow> bool" where
  "accepted fixed s es \<longleftrightarrow> (let st = hs_status s in timeline (hs_request s) fixed es \<and>
     next_event_sequence st = of_nat (length es) \<and> visits_started st = of_nat (length es) \<and>
     (hs_have_event s \<longleftrightarrow> es \<noteq> []) \<and>
     (es \<noteq> [] \<longrightarrow> hs_last_event s = last es \<and> startup_invalid_start st = invalid_start (hd es)))"

lemma accept_event_fields [simp]:
  "hs_request (accept_event s e) = hs_request s"
  "hs_last_event (accept_event s e) = e" "hs_have_event (accept_event s e)"
  "hs_have_block (accept_event s e) = hs_have_block s"
  "hs_restore_called (accept_event s e) = hs_restore_called s"
  "hs_terminal_error (accept_event s e) = hs_terminal_error s"
  "next_event_sequence (hs_status (accept_event s e)) = next_event_sequence (hs_status s) + 1"
  "visits_started (hs_status (accept_event s e)) = visits_started (hs_status s) + 1"
  "active_profile (hs_status (accept_event s e)) = to_profile (device e)"
  "startup_invalid_start (hs_status (accept_event s e))
    = (if event_sequence (device e) = 0 then invalid_start e else startup_invalid_start (hs_status s))"
  "hop_state (hs_status (accept_event s e)) = hop_state (hs_status s)"
  "hop_reason (hs_status (accept_event s e)) = hop_reason (hs_status s)"
  "hop_error (hs_status (accept_event s e)) = hop_error (hs_status s)"
  "hop_flags (hs_status (accept_event s e)) = hop_flags (hs_status s)"
  "hop_session_id (hs_status (accept_event s e)) = hop_session_id (hs_status s)"
  "planned_dwells (hs_status (accept_event s e)) = planned_dwells (hs_status s)"
  "restored_profile (hs_status (accept_event s e)) = restored_profile (hs_status s)"
  "events_emitted (hs_status (accept_event s e)) = events_emitted (hs_status s)"
  "last_block_sequence (hs_status (accept_event s e)) = last_block_sequence (hs_status s)"
  "last_block_end (hs_status (accept_event s e)) = last_block_end (hs_status s)"
  "final_counter (hs_status (accept_event s e)) = final_counter (hs_status s)"
  by (simp_all add: accept_event_def Let_def)

lemma accept_event_accepted:
  assumes plan: "request_wf (hs_request s)" "validate_request (hs_request s) = 0"
    and acc: "accepted fixed s es"
    and v: "validate_device_event s d choice = Inr e" and fixed: "fixed \<Longrightarrow> choice = None"
  shows "accepted fixed (accept_event s e) (es @ [e])"
proof -
  let ?r = "hs_request s" and ?n = "length es"
  have tl: "timeline ?r fixed es" and seq: "next_event_sequence (hs_status s) = of_nat ?n"
    and vis: "visits_started (hs_status s) = of_nat ?n" and have_iff: "hs_have_event s \<longleftrightarrow> es \<noteq> []"
    and last: "es \<noteq> [] \<Longrightarrow> hs_last_event s = last es"
      "es \<noteq> [] \<Longrightarrow> startup_invalid_start (hs_status s) = invalid_start (hd es)"
    using acc by (simp_all add: accepted_def Let_def)
  have n: "?n < 2 ^ 64"
    by (rule le_less_trans [OF timeline_length [OF tl]]) simp
  have un: "unat (of_nat ?n :: u64) = ?n" by (rule unat_of_nat_small [OF n])
  have d: "device e = d" by (rule event_checked(1) [OF v])
  have i: "unat (event_sequence d) = ?n" "unat (dwell_index d) = ?n" "?n < unat (dwell_count ?r)"
    using event_checked(2-4) [OF v] seq vis un by (simp_all add: word_less_nat_alt)
  have prof: "fixed \<Longrightarrow> unat (to_profile d) = ?n mod 8"
  proof -
    assume fixed
    then have "ucast (to_profile d) = dwell_index d mod 8"
      using event_checked(9) [OF v] fixed by simp
    then have "unat (ucast (to_profile d) :: u64) = unat (dwell_index d mod 8)" by simp
    moreover have "unat (to_profile d) < 256" using unsigned_less [of "to_profile d"] by simp
    ultimately show ?thesis
      using i(2) by (simp add: unsigned_ucast_eq unat_mod take_bit_nat_eq_self)
  qed
  have later: "unat (invalid_start e) = unat (invalid_end (last es)) + unat (dwell_samples ?r) \<and>
      unat (invalid_start e) < unat (invalid_start (hd es)) + unat (capture_span_samples ?r)" if "es \<noteq> []"
  proof -
    note sp = event_spans [OF v] have_iff that last
    have "invalid_end (last es) \<le> UINT64_MAX - dwell_samples ?r" using sp by (simp add: not_less)
    then have "unat (invalid_end (last es)) + unat (dwell_samples ?r) < 2 ^ 64"
      by (simp only: le_max_minus_iff)
    then have "unat (invalid_start e) = unat (invalid_end (last es)) + unat (dwell_samples ?r)"
      using sp by (simp add: unat_add_small)
    moreover have "unat (invalid_start e) < unat (invalid_start (hd es)) + unat (capture_span_samples ?r)"
    proof (cases "invalid_start (hd es) \<le> invalid_start e")
      case True
      then have "invalid_start e - invalid_start (hd es) < capture_span_samples ?r"
        using sp by (simp add: not_le)
      then show ?thesis using True by (simp add: word_less_nat_alt word_le_nat_alt unat_diff_small)
    next
      case False
      then show ?thesis by (simp add: word_le_nat_alt)
    qed
    ultimately show ?thesis ..
  qed
  have "on_time ?r fixed (es @ [e]) ?n"
    unfolding on_time_def Let_def nth_append_length d
    using event_valid [OF plan v] i prof event_checked(7) [OF v] later
    by (auto simp: nth_append last_conv_nth hd_conv_nth)
  then have "timeline ?r fixed (es @ [e])" using tl by (simp add: timeline_snoc)
  moreover have "event_sequence d = 0 \<longleftrightarrow> es = []" using i(1) by (metis length_0_conv unat_eq_zero)
  ultimately show ?thesis
    using seq vis last by (auto simp: accepted_def Let_def d add.commute)
qed

text \<open>The loop over the events of a block.\<close>

definition same_life :: "hop_session \<Rightarrow> hop_session \<Rightarrow> bool" where
  "same_life s s' \<longleftrightarrow> (let a = hs_status s; b = hs_status s' in
     hs_request s' = hs_request s \<and> hs_restore_called s' = hs_restore_called s \<and>
     hs_terminal_error s' = hs_terminal_error s \<and> hs_have_block s' = hs_have_block s \<and>
     hop_state b = hop_state a \<and> hop_reason b = hop_reason a \<and> hop_error b = hop_error a \<and>
     hop_flags b = hop_flags a \<and> hop_session_id b = hop_session_id a \<and>
     planned_dwells b = planned_dwells a \<and> restored_profile b = restored_profile a \<and>
     events_emitted b = events_emitted a \<and> last_block_sequence b = last_block_sequence a \<and>
     last_block_end b = last_block_end a \<and>
     (active_profile a = PROFILE_NONE \<or> active_profile a < 8 \<longrightarrow>
        active_profile b = PROFILE_NONE \<or> active_profile b < 8))"

lemma same_life_refl [simp]: "same_life s s"
  by (simp add: same_life_def)

lemma same_life_trans: "same_life s t \<Longrightarrow> same_life t u \<Longrightarrow> same_life s u"
  unfolding same_life_def Let_def by auto

lemma same_life_accept: "to_profile (device e) < 8 \<Longrightarrow> same_life s (accept_event s e)"
  by (simp add: same_life_def)

lemma same_life_session_ok: "session_ok s \<Longrightarrow> same_life s t \<Longrightarrow> session_ok t"
  unfolding same_life_def session_ok_def state_ok_def settled_def hop_terminal_def Let_def by auto

lemma event_refused: "validate_device_event s d choice = Inl e \<Longrightarrow> sint e < 0"
  by (auto simp: validate_device_event_def Let_def split: if_splits)

lemma session_events_accepted:
  assumes "session_events s first p ds cs = (res, s', cs')"
    and "request_wf (hs_request s)" "validate_request (hs_request s) = 0"
    and "accepted fixed s es" and "fixed \<Longrightarrow> p = None"
  shows "same_life s s' \<and> (\<exists>new. accepted fixed s' (es @ new) \<and> length new \<le> length ds \<and>
    (case res of Inl e \<Rightarrow> sint e < 0 | Inr xs \<Rightarrow> xs = new \<and> length xs = length ds))"
  using assms
proof (induction s first p ds cs arbitrary: res s' cs' es rule: session_events.induct)
  case (2 s first p d ds cs)
  define before where "before = extend_counter_near first (transition_before d)"
  define d' where "d' = d\<lparr>transition_before := before,
    transition_after := extend_counter_near before (transition_after d)\<rparr>"
  define c where "c = (if p = None then cs
    else (hd cs)\<lparr>hc_decision_counter := extend_counter_near before (hc_decision_counter (hd cs))\<rparr> # tl cs)"
  let ?v = "validate_device_event s d' (map_option (Pair (hd c)) p)"
  have run: "session_events s first p (d # ds) cs = (case ?v of Inl e \<Rightarrow> (Inl e, s, c)
      | Inr e \<Rightarrow> (case session_events (accept_event s e) first p ds (tl c) of
          (r, s, cs') \<Rightarrow> (map_sum id (Cons e) r, s, take 1 c @ cs')))"
    unfolding session_events.simps Let_def before_def d'_def c_def ..
  show ?case
  proof (cases ?v)
    case (Inl e)
    then have "res = Inl e" "s' = s" using "2.prems"(1) run by simp_all
    then show ?thesis using event_refused [OF Inl] "2.prems"(4) by (auto intro: exI [of _ "[]"])
  next
    case (Inr e)
    obtain r s1 c1 where rest: "session_events (accept_event s e) first p ds (tl c) = (r, s1, c1)"
      by (metis prod_cases3)
    have res: "res = map_sum id (Cons e) r" "s' = s1" using "2.prems"(1) run Inr rest by simp_all
    have to: "to_profile (device e) < 8" using event_checked(1,5) [OF Inr] by simp
    have "accepted fixed (accept_event s e) (es @ [e])"
      by (rule accept_event_accepted [OF "2.prems"(2,3,4) Inr]) (simp add: "2.prems"(5))
    with rest "2.prems"(2,3,5) "2.IH" [OF before_def refl d'_def c_def Inr, of r s1 c1 "es @ [e]"] have
      "same_life (accept_event s e) s1 \<and> (\<exists>new. accepted fixed s1 ((es @ [e]) @ new) \<and>
        length new \<le> length ds \<and> (case r of Inl e \<Rightarrow> sint e < 0 | Inr xs \<Rightarrow> xs = new \<and> length xs = length ds))"
      by simp
    then obtain new where "same_life (accept_event s e) s1" and new: "accepted fixed s1 (es @ e # new)"
      "length new \<le> length ds" "case r of Inl e \<Rightarrow> sint e < 0 | Inr xs \<Rightarrow> xs = new \<and> length xs = length ds"
      by auto
    then have "same_life s s1" using same_life_trans same_life_accept [OF to] by blast
    then show ?thesis using new res by (auto intro!: exI [of _ "e # new"] split: sum.splits)
  qed
qed (auto intro: exI [of _ "[]"])

text \<open>The choices that come with the events of an adaptive session.\<close>

lemma session_events_choices:
  assumes "session_events s first (Some q) ds cs = (Inr es, s', cs')" and "length ds \<le> length cs"
  shows "length cs' = length cs \<and> length es = length ds \<and>
    (\<forall>i < length ds. choice_validate (cs' ! i) (es ! i) = 0)"
  using assms
proof (induction ds arbitrary: s cs es s' cs')
  case (Cons d ds)
  define before where "before = extend_counter_near first (transition_before d)"
  define d' where "d' = d\<lparr>transition_before := before,
    transition_after := extend_counter_near before (transition_after d)\<rparr>"
  define x where "x = (hd cs)\<lparr>hc_decision_counter := extend_counter_near before (hc_decision_counter (hd cs))\<rparr>"
  have one: "take 1 (y # ys) = [y]" for y :: hop_choice and ys by simp
  have "session_events s first (Some q) (d # ds) cs = (case validate_device_event s d' (Some (x, q)) of
      Inl e \<Rightarrow> (Inl e, s, x # tl cs)
    | Inr e \<Rightarrow> (case session_events (accept_event s e) first (Some q) ds (tl cs) of
        (r, s, cs') \<Rightarrow> (map_sum id (Cons e) r, s, [x] @ cs')))"
    by (simp only: session_events.simps Let_def before_def d'_def x_def option.distinct if_False
        option.map list.sel one)
  note eq = this [symmetric, unfolded Cons.prems(1)]
  then obtain e where v: "validate_device_event s d' (Some (x, q)) = Inr e"
    by (cases "validate_device_event s d' (Some (x, q))") simp_all
  obtain r s1 c1 where run: "session_events (accept_event s e) first (Some q) ds (tl cs) = (r, s1, c1)"
    by (metis prod_cases3)
  have "map_sum id (Cons e) r = Inr es" and res2: "cs' = x # c1" using eq v run by simp_all
  then obtain es1 where res1: "es = e # es1" and r: "r = Inr es1" by (cases r) auto
  note rest = run [unfolded r] and res = res1 res2
  have "length ds \<le> length (tl cs)" using Cons.prems(2) by (cases cs) simp_all
  from Cons.IH [OF rest this] event_checked(10) [OF v refl] Cons.prems(2)
  show ?case by (cases cs) (auto simp: res nth_Cons split: nat.splits)
qed simp

lemma session_events_length:
  "session_events s first (Some q) ds cs = (r, s', cs') \<Longrightarrow> length ds \<le> length cs \<Longrightarrow>
   length cs' = length cs"
proof (induction ds arbitrary: s cs r s' cs')
  case (Cons d ds)
  obtain y ys where cs: "cs = y # ys" using Cons.prems(2) by (cases cs) simp_all
  show ?case
    using Cons.prems Cons.IH [of _ ys]
    by (fastforce simp: cs Let_def split: sum.splits prod.splits)
qed simp

subsection \<open>The invariant of a session and the events it has emitted\<close>

definition completed :: "hop_session \<Rightarrow> hop_event list \<Rightarrow> bool" where
  "completed s es \<longleftrightarrow> (let r = hs_request s; final = unat (final_counter (hs_status s)) in
     es \<noteq> [] \<and> final = unat (invalid_end (last es)) + unat (dwell_samples r) \<and>
     unat (invalid_start (hd es)) + unat (capture_span_samples r) \<le> final)"

definition live :: "bool \<Rightarrow> hop_session \<Rightarrow> hop_event list \<Rightarrow> hop_event list \<Rightarrow> bool" where
  "live fixed s es us \<longleftrightarrow> session_ok s \<and> \<not> hop_terminal s \<and> accepted fixed s (es @ us) \<and>
     events_emitted (hs_status s) = of_nat (length es)"

definition hop_inv :: "bool \<Rightarrow> u8 set \<Rightarrow> hop_session \<Rightarrow> hop_event list \<Rightarrow> bool" where
  "hop_inv fixed ps s es \<longleftrightarrow> session_ok s \<and> restored_profile (hs_status s) \<in> ps \<and>
     events_emitted (hs_status s) = of_nat (length es) \<and>
     (if hop_terminal s then (\<exists>us. accepted fixed s (es @ us)) \<and>
        (hop_state (hs_status s) = HOP_COMPLETED \<longrightarrow> completed s es)
      else accepted fixed s es)"

lemma inv_live: "hop_inv fixed ps s es \<Longrightarrow> \<not> hop_terminal s \<Longrightarrow> live fixed s es []"
  by (simp add: hop_inv_def live_def)

lemma live_inv: "live fixed s es [] \<Longrightarrow> PROFILE_NONE \<in> ps \<Longrightarrow> hop_inv fixed ps s es"
  by (simp add: hop_inv_def live_def session_ok_def Let_def)

lemma live_fields:
  assumes "live fixed s es us"
  shows "request_wf (hs_request s)" "validate_request (hs_request s) = 0"
    "accepted fixed s (es @ us)" "\<not> hs_restore_called s" "\<not> hop_terminal s"
    "hop_flags (hs_status s) = STATUS_RESTORE_REQUIRED" "hop_error (hs_status s) = 0"
  using assms by (simp_all add: live_def session_ok_def Let_def)

lemma live_same:
  "live fixed s es us \<Longrightarrow> same_life s s' \<Longrightarrow> accepted fixed s' (es @ us') \<Longrightarrow> live fixed s' es us'"
  using same_life_session_ok [of s s']
  by (simp add: live_def same_life_def hop_terminal_def Let_def)

lemma ended_ok:
  assumes "live fixed s es us" and "ended s s' answer"
  shows "session_ok s'" and "accepted fixed s' (es @ us)"
proof -
  have k: "keeps (hs_status s) (hs_status s')" and r: "hs_request s' = hs_request s"
    and ev: "hs_last_event s' = hs_last_event s" "hs_have_event s' = hs_have_event s"
    and t: "hs_restore_called s'" "hop_terminal s'" "state_ok (hs_status s')" "settled (hs_status s')"
    using assms(2) by (simp_all add: ended_def)
  show "session_ok s'"
    using assms(1) k r t unfolding session_ok_def live_def keeps_def Let_def by simp
  show "accepted fixed s' (es @ us)"
    using live_fields(3) [OF assms(1)] k r ev unfolding accepted_def keeps_def Let_def by simp
qed

lemma ended_inv:
  assumes "live fixed s es us" and "ended s s' answer" and "rc_profile (snd answer) \<in> ps"
    and "hop_state (hs_status s') = HOP_COMPLETED \<Longrightarrow> completed s' es"
  shows "hop_inv fixed ps s' es"
proof -
  have "events_emitted (hs_status s') = of_nat (length es)" "hop_terminal s'"
    "restored_profile (hs_status s') = rc_profile (snd answer)"
    using assms(1,2) by (simp_all add: live_def ended_def keeps_def)
  then show ?thesis using ended_ok [OF assms(1,2)] assms(3,4) by (auto simp: hop_inv_def)
qed

lemma fail_inv:
  assumes "live fixed s es us" and "fail_reason reason" "sint err < 0" "rc_profile (snd answer) \<in> ps"
    and "hop_fail s reason err answer = (ret, s')"
  shows "hop_inv fixed ps s' es" and "ret = err"
  using ended_inv [OF assms(1) hop_fail_ended(1) [OF live_fields(4,6,5) [OF assms(1)] assms(2,3,5)] assms(4)]
    hop_fail_ended(2,3) [OF live_fields(4,6,5) [OF assms(1)] assms(2,3,5)] by simp_all

lemma maybe_complete_cases:
  assumes l: "live fixed s es us" and run: "maybe_complete s block_end answer = (ret, s')"
    and ps: "rc_profile (snd answer) \<in> ps"
  shows "ret \<noteq> 0 \<Longrightarrow> hop_inv fixed ps s' es"
    and "ret = 0 \<Longrightarrow> s' = s \<or> ended s s' answer \<and> hop_state (hs_status s') = HOP_COMPLETED \<and>
      completed s' (es @ us)"
proof -
  let ?r = "hs_request s" and ?all = "es @ us"
  define final where "final = invalid_end (hs_last_event s) + dwell_samples ?r"
  have acc: "accepted fixed s ?all" by (rule live_fields(3) [OF l])
  let ?wait = "s' = s \<and> ret = 0"
  let ?over = "hop_fail s HOP_REASON_PROTOCOL_ERROR (- EOVERFLOW) answer = (ret, s')"
  let ?done = "hs_have_event s \<and> invalid_end (hs_last_event s) \<le> UINT64_MAX - dwell_samples ?r \<and>
    startup_invalid_start (hs_status s) \<le> final \<and>
    capture_span_samples ?r \<le> final - startup_invalid_start (hs_status s) \<and>
    hop_restore s HOP_REASON_PLAN_COMPLETE HOP_COMPLETED final answer = (ret, s')"
  have "?wait \<or> ?over \<or> ?done"
    using run by (auto simp: maybe_complete_def Let_def final_def not_less split: if_splits)
  moreover have "ret \<noteq> 0 \<and> hop_inv fixed ps s' es" if ?over
    using fail_inv [OF l _ _ ps that] by (simp add: fail_reason_def)
  moreover have "(ret \<noteq> 0 \<longrightarrow> hop_inv fixed ps s' es) \<and> (ret = 0 \<longrightarrow> ended s s' answer \<and>
      hop_state (hs_status s') = HOP_COMPLETED \<and> completed s' ?all)" if d: ?done
  proof -
    have re: "hop_restore s HOP_REASON_PLAN_COMPLETE HOP_COMPLETED final answer = (ret, s')"
      using d by blast
    have c: "HOP_COMPLETED = HOP_CANCELLED \<and> (HOP_REASON_PLAN_COMPLETE = HOP_REASON_CLIENT_CLOSE \<or>
        HOP_REASON_PLAN_COMPLETE = HOP_REASON_CLIENT_DISCONNECT) \<or>
      HOP_COMPLETED = HOP_COMPLETED \<and> HOP_REASON_PLAN_COMPLETE = HOP_REASON_PLAN_COMPLETE" by simp
    note e = hop_restore_ended [OF live_fields(4,6,7) [OF l] c re]
    have bad: "hop_inv fixed ps s' es" if "ret \<noteq> 0"
      using ended_inv [OF l e(1) ps] e(3) [OF that] by simp
    have "completed s' ?all" if "ret = 0"
    proof -
      have ne: "?all \<noteq> []" and last: "hs_last_event s = last ?all"
        and start: "startup_invalid_start (hs_status s) = invalid_start (hd ?all)"
        using acc d unfolding accepted_def Let_def by blast+
      have "unat (invalid_end (hs_last_event s)) + unat (dwell_samples ?r) < 2 ^ 64"
        using d by (simp only: le_max_minus_iff)
      then have f: "unat final = unat (invalid_end (last ?all)) + unat (dwell_samples ?r)"
        by (simp add: final_def last unat_add_small)
      have "unat (invalid_start (hd ?all)) + unat (capture_span_samples ?r) \<le> unat final"
      proof -
        have "invalid_start (hd ?all) \<le> final"
          and "unat (capture_span_samples ?r) \<le> unat (final - invalid_start (hd ?all))"
          using d start by (simp_all only: word_le_nat_alt)
        then show ?thesis by (simp add: unat_diff_small word_le_nat_alt)
      qed
      moreover have "final_counter (hs_status s') = final" "hs_request s' = ?r"
        using e(1,2) that by (simp_all add: ended_def)
      ultimately show ?thesis using f ne by (simp add: completed_def)
    qed
    then show ?thesis using bad e by blast
  qed
  ultimately show "ret \<noteq> 0 \<Longrightarrow> hop_inv fixed ps s' es"
    and "ret = 0 \<Longrightarrow> s' = s \<or> ended s s' answer \<and> hop_state (hs_status s') = HOP_COMPLETED \<and>
      completed s' ?all"
    by blast+
qed

subsection \<open>Blocks\<close>

definition used_events :: "hop_sidecar \<Rightarrow> hop_event list" where
  "used_events c = take (unat (event_count c)) (events c)"

definition sendable :: "hop_sidecar \<Rightarrow> bool" where
  "sendable c \<longleftrightarrow> sidecar_wf c \<and> (\<exists>w. sidecar_record c = Inr w)"

lemma timeline_valid: "timeline r fixed es \<Longrightarrow> e \<in> set es \<Longrightarrow> validate_event e = 0"
  by (metis in_set_conv_nth on_time_def timeline_def)

lemma emitted_sidecar:
  assumes "length es \<le> 8" and "\<forall>e \<in> set es. validate_event e = 0"
    and "events c = es @ replicate (8 - length es) zero_event" "event_count c = of_nat (length es)"
    and "validate_state (sidecar_state c) (sidecar_reason c) (sidecar_error c) (sidecar_flags c) = 0"
    and "sidecar_session_id c \<noteq> 0" "block_first_sample c < block_end_sample c"
  shows "used_events c = es" and "sendable c"
proof -
  have n: "unat (event_count c) = length es"
    using assms(1,4) by (simp add: unat_of_nat take_bit_nat_eq_self)
  then show u: "used_events c = es" by (simp add: used_events_def assms(3))
  have "\<not> 8 < event_count c" using assms(1) n by (simp add: word_less_nat_alt)
  moreover have "validate_events es = 0" using assms(2) by (simp add: validate_events_0_iff)
  ultimately have "\<exists>w. sidecar_record c = Inr w"
    using assms(5-7) u by (simp add: sidecar_record_def sidecar_encode_def Let_def used_events_def)
  then show "sendable c" using n assms(1,3) by (simp add: sendable_def sidecar_wf_def)
qed

lemma block_result_inv:
  assumes l: "live fixed s es new" and new: "length new \<le> 8" and block: "first < block_end"
    and run: "maybe_complete s block_end answer = (0, s1)" and ps: "rc_profile (snd answer) \<in> ps" "PROFILE_NONE \<in> ps"
    and c: "c = \<lparr>sidecar_flags = hop_flags (hs_status s1),
      sidecar_session_id = request_session_id (hs_request s1), buffer_sequence = seq,
      block_first_sample = first, block_end_sample = block_end, sidecar_state = hop_state (hs_status s1),
      sidecar_reason = hop_reason (hs_status s1), sidecar_error = hop_error (hs_status s1),
      event_count = of_nat (length new), events = new @ replicate (8 - length new) zero_event\<rparr>"
    and s2: "s2 = s1\<lparr>hs_status := (hs_status s1)\<lparr>events_emitted :=
      events_emitted (hs_status s1) + of_nat (length new)\<rparr>\<rparr>"
  shows "hop_inv fixed ps s2 (es @ new)" and "used_events c = new" and "sendable c"
proof -
  have cases: "s1 = s \<or> ended s s1 answer \<and> hop_state (hs_status s1) = HOP_COMPLETED \<and>
      completed s1 (es @ new)"
    by (rule maybe_complete_cases(2) [OF l run ps(1) refl])
  have req: "hs_request s1 = hs_request s" using cases by (auto simp: ended_def)
  have ok: "session_ok s1" and acc: "accepted fixed s1 (es @ new)"
    using cases ended_ok [OF l] l unfolding live_def by blast+
  have emitted: "events_emitted (hs_status s1) = of_nat (length es)"
    using cases l unfolding ended_def live_def keeps_def by auto
  show "hop_inv fixed ps s2 (es @ new)"
  proof -
    have "session_ok s2" "accepted fixed s2 (es @ new)" "hop_terminal s2 = hop_terminal s1"
      using ok acc unfolding s2 session_ok_def accepted_def hop_terminal_def state_ok_def settled_def Let_def by simp_all
    moreover have "restored_profile (hs_status s1) \<in> ps"
      using cases l ps by (auto simp: ended_def live_def session_ok_def Let_def)
    moreover have "hop_state (hs_status s1) = HOP_COMPLETED \<longrightarrow> completed s1 (es @ new)"
      using cases live_fields(5) [OF l] by (auto simp: hop_terminal_def)
    ultimately show ?thesis
      using emitted by (auto simp: hop_inv_def s2 completed_def Let_def intro: exI [of _ "[]"])
  qed
  have "timeline (hs_request s1) fixed (es @ new)" using acc by (simp add: accepted_def Let_def)
  then have v: "\<forall>e \<in> set new. validate_event e = 0" using timeline_valid by fastforce
  have id: "request_session_id (hs_request s1) \<noteq> 0"
    using live_fields(2) [OF l] by (auto simp: req validate_request_def split: if_splits)
  have st: "validate_state (hop_state (hs_status s1)) (hop_reason (hs_status s1))
      (hop_error (hs_status s1)) (hop_flags (hs_status s1)) = 0"
    using ok by (simp add: session_ok_def state_ok_def Let_def)
  show "used_events c = new" "sendable c"
    using emitted_sidecar [OF new v, of c] st id block by (simp_all add: c)
qed

text \<open>One block of an invariant session, whatever the device answers.\<close>

definition block_ok :: "bool \<Rightarrow> u8 set \<Rightarrow> hop_event list \<Rightarrow> (i32 + hop_sidecar) \<Rightarrow> hop_session \<Rightarrow> bool" where
  "block_ok fixed ps es res s \<longleftrightarrow> (case res of Inl e \<Rightarrow> hop_inv fixed ps s es
     | Inr c \<Rightarrow> hop_inv fixed ps s (es @ used_events c) \<and> sendable c)"

lemma finish_block_ok:
  assumes l: "live fixed s es new" and new: "length new \<le> 8" and block: "first < block_end"
    and ps: "rc_profile (snd answer) \<in> ps" "PROFILE_NONE \<in> ps"
    and run: "finish_block s seq first block_end answer new = (res, s')"
  shows "block_ok fixed ps es res s'"
proof -
  define s0 where "s0 = s\<lparr>hs_have_block := True, hs_status := (hs_status s)\<lparr>
    last_block_sequence := seq, last_block_end := block_end\<rparr>\<rparr>"
  have l0: "live fixed s0 es new"
    using l unfolding live_def session_ok_def accepted_def hop_terminal_def state_ok_def settled_def s0_def Let_def
    by auto
  obtain ret s1 where m: "maybe_complete s0 block_end answer = (ret, s1)" by fastforce
  show ?thesis
  proof (cases "ret = 0")
    case True
    note b = block_result_inv [OF l0 new block m [unfolded True] ps refl refl]
    show ?thesis using run m True b(1) b(2,3) [of seq]
      by (auto simp: finish_block_def Let_def s0_def [symmetric] block_ok_def)
  next
    case False
    then have "res = Inl ret" "s' = s1"
      using run m by (auto simp: finish_block_def Let_def s0_def [symmetric])
    then show ?thesis using maybe_complete_cases(1) [OF l0 m ps(1) False] by (simp add: block_ok_def)
  qed
qed

lemma fail_block_ok:
  assumes "live fixed s es us" and "fail_reason reason" "sint err < 0" "rc_profile (snd answer) \<in> ps"
    and "(case hop_fail s reason err answer of (e, s) \<Rightarrow> (Inl e, s, cs)) = (res, s', cs')"
  shows "block_ok fixed ps es res s'"
  using fail_inv(1) [OF assms(1-4)] assms(5) by (auto simp: block_ok_def split: prod.splits)

text \<open>The ways a block can go.\<close>

lemma block_cases:
  assumes run: "session_on_block s sequence first block_end (ret0, ds, dropped) answer p cs = (res, s', cs')"
  defines "fail \<equiv> \<lambda>s reason err cs. case hop_fail s reason err answer of
      (e, s) \<Rightarrow> (Inl e :: i32 + hop_sidecar, s, cs :: hop_choice list)"
    and "s1 \<equiv> s\<lparr>hs_status := (hs_status s)\<lparr>device_dropped_events := dropped\<rparr>\<rparr>"
  obtains (idle) "hop_state (hs_status s) \<noteq> HOP_RUNNING \<or> block_end \<le> first"
      "res = Inl (- EINVAL)" "s' = s" "cs' = cs"
    | (discontinuous) "hop_state (hs_status s) = HOP_RUNNING" "first < block_end"
      "fail s HOP_REASON_COUNTER_DISCONTINUITY (- EILSEQ) cs = (res, s', cs')"
    | (device) "hop_state (hs_status s) = HOP_RUNNING" "first < block_end" "normalize_error ret0 \<noteq> 0"
      "fail s HOP_REASON_DEVICE_ERROR (normalize_error ret0) cs = (res, s', cs')"
    | (many) "hop_state (hs_status s) = HOP_RUNNING" "first < block_end"
      "fail s HOP_REASON_PROTOCOL_ERROR (- EOVERFLOW) cs = (res, s', cs')"
    | (dropped) "hop_state (hs_status s) = HOP_RUNNING" "first < block_end"
      "fail s1 HOP_REASON_EVENT_OVERFLOW (- EOVERFLOW) cs = (res, s', cs')"
    | (events) "hop_state (hs_status s) = HOP_RUNNING" "first < block_end" "length ds \<le> 8"
      "(case session_events s1 first p ds cs of
          (Inl e, s, cs) \<Rightarrow> fail s (if e = - EILSEQ then HOP_REASON_EVENT_SEQUENCE
            else HOP_REASON_PROTOCOL_ERROR) e cs
        | (Inr es, s, cs) \<Rightarrow> (case finish_block s sequence first block_end answer es of
            (r, s) \<Rightarrow> (r, s, cs))) = (res, s', cs')"
proof -
  have f: "(case x of (e, s) \<Rightarrow> \<lambda>cs. (Inl e, s, cs)) cs = (case x of (e, s) \<Rightarrow> (Inl e, s, cs))"
    for x :: "i32 \<times> hop_session" and cs :: "hop_choice list"
    by (cases x) simp
  show thesis
    using run that
    unfolding session_on_block_def Let_def prod.case s1_def [symmetric] f fail_def
    by (auto simp: not_less not_le split: if_splits)
qed

lemma block_inv:
  assumes inv: "hop_inv fixed ps s es" and fixed: "fixed \<Longrightarrow> p = None"
    and ps: "rc_profile (snd answer) \<in> ps" "PROFILE_NONE \<in> ps"
    and run: "session_on_block s sequence first block_end drained answer p cs = (res, s', cs')"
  shows "block_ok fixed ps es res s'"
proof -
  obtain ret0 ds dropped where dr: "drained = (ret0, ds, dropped)" by (metis prod_cases3)
  have l: "live fixed s es []" if "hop_state (hs_status s) = HOP_RUNNING"
    using inv_live [OF inv] that by (simp add: hop_terminal_def word_le_nat_alt)
  define s1 where "s1 = s\<lparr>hs_status := (hs_status s)\<lparr>device_dropped_events := dropped\<rparr>\<rparr>"
  have l1: "live fixed s1 es []" if r: "hop_state (hs_status s) = HOP_RUNNING"
  proof (rule live_same [OF l [OF r]])
    show "same_life s s1" by (simp add: s1_def same_life_def)
    show "accepted fixed s1 (es @ [])"
      using live_fields(3) [OF l [OF r]] by (simp add: s1_def accepted_def Let_def)
  qed
  from run [unfolded dr] show ?thesis
  proof (cases rule: block_cases)
    case idle
    then show ?thesis using inv by (simp add: block_ok_def)
  next
    case discontinuous
    show ?thesis by (rule fail_block_ok [OF l [OF discontinuous(1)] _ _ ps(1) discontinuous(3)])
      (simp_all add: fail_reason_def)
  next
    case device
    show ?thesis by (rule fail_block_ok [OF l [OF device(1)] _ normalize_error_neg [OF device(3)] ps(1) device(4)])
      (simp add: fail_reason_def)
  next
    case many
    show ?thesis by (rule fail_block_ok [OF l [OF many(1)] _ _ ps(1) many(3)]) (simp_all add: fail_reason_def)
  next
    case dropped
    show ?thesis
      by (rule fail_block_ok [OF l1 [OF dropped(1)] _ _ ps(1) dropped(3) [folded s1_def]])
        (simp_all add: fail_reason_def)
  next
    case events
    note l1 = l1 [OF events(1)]
    obtain r s2 cs2 where ev: "session_events s1 first p ds cs = (r, s2, cs2)" by (metis prod_cases3)
    have "accepted fixed s1 es" using live_fields(3) [OF l1] by simp
    from session_events_accepted [OF ev live_fields(1,2) [OF l1] this fixed] obtain new
      where same: "same_life s1 s2" and acc: "accepted fixed s2 (es @ new)"
        and r: "case r of Inl e \<Rightarrow> sint e < 0 | Inr xs \<Rightarrow> xs = new \<and> length xs = length ds" by blast
    have l2: "live fixed s2 es new" by (rule live_same [OF l1 same acc])
    show ?thesis
    proof (cases r)
      case (Inl e)
      then show ?thesis
        using fail_block_ok [OF l2 _ _ ps(1), of "if e = - EILSEQ then HOP_REASON_EVENT_SEQUENCE
          else HOP_REASON_PROTOCOL_ERROR" e cs2 res s' cs'] r events(4) ev
        by (simp add: fail_reason_def s1_def [symmetric])
    next
      case (Inr xs)
      then show ?thesis
        using finish_block_ok [OF l2 _ events(2) ps, of sequence res s'] r events(3,4) ev
        by (auto simp: s1_def [symmetric] split: prod.splits)
    qed
  qed
qed

end
