(* ===== verification/Hop_Session_Runs.thy ===== *)
theory Hop_Session_Runs
  imports Hop_Session_Timeline
begin

unbundle bit_operations_syntax

text \<open>
  Sequences of calls of a hop session, with arbitrary answers of the device: what is reported can
  always be sent and forms a timeline, and the radio is restored exactly once.
\<close>

subsection \<open>Calls\<close>

text \<open>A call of the session with the answers of the device's ports; \<open>'d\<close> is what a drain returns.\<close>

datatype 'd hop_call = Arm
  | Start i32 restore_answer
  | Block u64 u64 u64 'd restore_answer
  | Cancel u16 restore_answer

fun call_profiles :: "'d hop_call \<Rightarrow> u8 set" where
  "call_profiles Arm = {}"
| "call_profiles (Start _ answer) = {rc_profile (snd answer)}"
| "call_profiles (Block _ _ _ _ answer) = {rc_profile (snd answer)}"
| "call_profiles (Cancel _ answer) = {rc_profile (snd answer)}"

definition emitted :: "('e + 'a) \<Rightarrow> 'a list" where
  "emitted r = (case r of Inl _ \<Rightarrow> [] | Inr x \<Rightarrow> [x])"

fun hop_call_v1 :: "hop_session \<Rightarrow> drain_answer hop_call \<Rightarrow> hop_sidecar list \<times> hop_session" where
  "hop_call_v1 s Arm = ([], snd (hop_session_arm s))"
| "hop_call_v1 s (Start submitted answer) = ([], snd (hop_session_start s submitted answer))"
| "hop_call_v1 s (Block sequence first block_end drained answer) =
     (case hop_session_on_block s sequence first block_end drained answer of (r, s) \<Rightarrow> (emitted r, s))"
| "hop_call_v1 s (Cancel reason answer) = ([], snd (hop_session_cancel s reason answer))"

type_synonym drain_answer_v2 = "i32 \<times> (hop_device_event \<times> hop_choice) list \<times> u64"

fun hop_call_v2 :: "hop_session_v2 \<Rightarrow> drain_answer_v2 hop_call \<Rightarrow> adaptive_sidecar list \<times> hop_session_v2" where
  "hop_call_v2 s Arm = ([], snd (hop_session_v2_arm s))"
| "hop_call_v2 s (Start submitted answer) = ([], snd (hop_session_v2_start s submitted answer))"
| "hop_call_v2 s (Block sequence first block_end drained answer) =
     (case hop_session_v2_on_block s sequence first block_end drained answer of (r, s) \<Rightarrow> (emitted r, s))"
| "hop_call_v2 s (Cancel reason answer) = ([], snd (hop_session_v2_cancel s reason answer))"

text \<open>Any sequence of calls: the sidecars, in order, and the last state.\<close>

fun run_calls :: "('s \<Rightarrow> 'c \<Rightarrow> 'o list \<times> 's) \<Rightarrow> 's \<Rightarrow> 'c list \<Rightarrow> 'o list \<times> 's" where
  "run_calls f s [] = ([], s)"
| "run_calls f s (c # cs) =
     (let (os, s) = f s c; (os', s) = run_calls f s cs in (os @ os', s))"

text \<open>An invariant over the outputs so far, kept by every call, holds after any run.\<close>

lemma run_calls_inv:
  assumes "\<And>s os c os' s'. I s os \<Longrightarrow> c \<in> C \<Longrightarrow> f s c = (os', s') \<Longrightarrow> I s' (os @ os')"
    and "I s os" and "set cs \<subseteq> C" and "run_calls f s cs = (os', s')"
  shows "I s' (os @ os')"
  using assms(2-4)
proof (induction cs arbitrary: s os os')
  case (Cons c cs)
  obtain o1 s1 where 1: "f s c = (o1, s1)" by fastforce
  obtain o2 s2 where 2: "run_calls f s1 cs = (o2, s2)" by fastforce
  have "I s1 (os @ o1)" using assms(1) [OF Cons.prems(1) _ 1] Cons.prems(2) by simp
  then show ?case using Cons.IH [of s1 "os @ o1" o2] Cons.prems(2,3) 1 2 by simp
qed simp

subsection \<open>Single calls\<close>

lemma init_inv:
  assumes "hop_session_init r = Inr s" and "request_wf r" and "PROFILE_NONE \<in> ps"
  shows "hop_inv fixed ps s []"
proof -
  have "validate_request r = 0"
    using assms(1) by (auto simp: hop_session_init_def request_encode_def Let_def split: sum.splits if_splits)
  moreover have "s = \<lparr>hs_request = r, hs_status = zero_status\<lparr>hop_state := HOP_IDLE,
      hop_flags := STATUS_RESTORE_REQUIRED, hop_session_id := request_session_id r,
      planned_dwells := dwell_count r, active_profile := PROFILE_NONE, restored_profile := PROFILE_NONE\<rparr>,
      hs_last_event = zero_event, hs_last_device_id = 0, hs_terminal_error = 0,
      hs_have_event = False, hs_have_block = False, hs_restore_called = False\<rparr>"
    using assms(1) by (auto simp: hop_session_init_def split: sum.splits)
  ultimately show ?thesis using assms(2,3)
    by (simp add: hop_inv_def session_ok_def accepted_def hop_terminal_def state_ok_def
        validate_state_def zero_status_def)
qed

lemma state_change_live:
  assumes "live fixed s es us" and "st < HOP_COMPLETED"
  shows "live fixed (s\<lparr>hs_status := (hs_status s)\<lparr>hop_state := st\<rparr>\<rparr>) es us"
proof -
  have "validate_state st 0 0 0x20 = 0" "\<not> HOP_COMPLETED \<le> st"
    using assms(2) by (auto simp: validate_state_def word_less_nat_alt word_le_nat_alt)
  then show ?thesis
    using assms(1) unfolding live_def session_ok_def accepted_def hop_terminal_def state_ok_def Let_def
    by simp
qed

lemma arm_inv: "hop_inv fixed ps s es \<Longrightarrow> PROFILE_NONE \<in> ps \<Longrightarrow> hop_inv fixed ps (snd (hop_session_arm s)) es"
  using live_inv [OF state_change_live [OF inv_live]]
  by (auto simp: hop_session_arm_def hop_terminal_def word_le_nat_alt)

lemma start_inv:
  assumes inv: "hop_inv fixed ps s es" and ps: "PROFILE_NONE \<in> ps" "rc_profile (snd answer) \<in> ps"
  shows "hop_inv fixed ps (snd (hop_session_start s submitted answer)) es"
proof (cases "hop_state (hs_status s) \<noteq> HOP_IDLE \<and> hop_state (hs_status s) \<noteq> HOP_ARMED")
  case True
  then show ?thesis using inv by (simp add: hop_session_start_def)
next
  case False
  then have "live fixed s es []" using inv_live [OF inv] by (auto simp: hop_terminal_def word_le_nat_alt)
  then have l: "live fixed (s\<lparr>hs_status := (hs_status s)\<lparr>hop_state := st\<rparr>\<rparr>) es []" if "st < 3" for st
    using state_change_live that by blast
  let ?s = "s\<lparr>hs_status := (hs_status s)\<lparr>hop_state := HOP_ARMED\<rparr>\<rparr>"
  show ?thesis
  proof (cases "normalize_error submitted = 0")
    case True
    then show ?thesis using False live_inv [OF l ps(1), of HOP_RUNNING] by (auto simp: hop_session_start_def Let_def)
  next
    case err: False
    obtain ret s' where f: "hop_fail ?s HOP_REASON_DEVICE_ERROR (normalize_error submitted) answer = (ret, s')"
      by fastforce
    have "hop_inv fixed ps s' es"
      by (rule fail_inv(1) [OF l _ normalize_error_neg [OF err] ps(2) f]) (simp_all add: fail_reason_def)
    with f show ?thesis using False err by (auto simp: hop_session_start_def Let_def)
  qed
qed

lemma cancel_inv:
  assumes inv: "hop_inv fixed ps s es" and ps: "rc_profile (snd answer) \<in> ps"
  shows "hop_inv fixed ps (snd (hop_session_cancel s reason answer)) es"
proof (cases "hop_terminal s \<or> reason \<noteq> HOP_REASON_CLIENT_CLOSE \<and> reason \<noteq> HOP_REASON_CLIENT_DISCONNECT")
  case True
  then show ?thesis using inv by (auto simp: hop_session_cancel_def)
next
  case False
  then have l: "live fixed s es []" using inv_live [OF inv] by simp
  obtain ret s' where r: "hop_restore s reason HOP_CANCELLED 0 answer = (ret, s')" by fastforce
  note e = hop_restore_ended [OF live_fields(4,6,7) [OF l] _ r]
  have "hop_inv fixed ps s' es"
    using ended_inv [OF l e(1) ps] e(2,3) False by (cases "ret = 0") auto
  then show ?thesis using False r by (auto simp: hop_session_cancel_def)
qed

subsection \<open>Runs of plain sessions\<close>

text \<open>What a run may show: an invariant session, and sidecars that can be sent.\<close>

definition run_ok :: "u8 set \<Rightarrow> hop_session \<Rightarrow> hop_sidecar list \<Rightarrow> bool" where
  "run_ok ps s os \<longleftrightarrow> hop_inv True ps s (concat (map used_events os)) \<and> list_all sendable os"

lemma call_v1_ok:
  assumes ok: "run_ok ps s os" and ps: "call_profiles c \<subseteq> ps" "PROFILE_NONE \<in> ps"
    and run: "hop_call_v1 s c = (os', s')"
  shows "run_ok ps s' (os @ os')"
proof -
  have inv: "hop_inv True ps s (concat (map used_events os))" using ok by (simp add: run_ok_def)
  show ?thesis
  proof (cases c)
    case Arm
    then show ?thesis using arm_inv [OF inv ps(2)] ok run by (auto simp: run_ok_def)
  next
    case (Start x answer)
    then show ?thesis using start_inv [OF inv ps(2), of answer x] ok run ps(1) by (auto simp: run_ok_def)
  next
    case (Cancel reason answer)
    then show ?thesis using cancel_inv [OF inv, of answer reason] ok run ps(1) by (auto simp: run_ok_def)
  next
    case (Block sequence first block_end drained answer)
    obtain res s1 cs1 where b: "session_on_block s sequence first block_end drained answer None [] = (res, s1, cs1)"
      by (metis prod_cases3)
    have "rc_profile (snd answer) \<in> ps" using ps(1) Block by simp
    from block_inv [OF inv refl this ps(2) b]
    have "block_ok True ps (concat (map used_events os)) res s1" .
    moreover have "os' = emitted res" "s' = s1"
      using run b by (simp_all add: Block hop_session_on_block_def)
    ultimately show ?thesis using ok by (auto simp: run_ok_def block_ok_def emitted_def split: sum.splits)
  qed
qed

lemma run_v1_ok:
  assumes "hop_session_init r = Inr s0" "request_wf r" and "\<forall>c \<in> set calls. call_profiles c \<subseteq> ps" "PROFILE_NONE \<in> ps"
    and "run_calls hop_call_v1 s0 calls = (os, s)"
  shows "run_ok ps s os"
proof -
  have "run_ok ps s ([] @ os)"
  proof (rule run_calls_inv [where C = "{c. call_profiles c \<subseteq> ps}", OF _ _ _ assms(5)])
    show "run_ok ps s0 []" using init_inv [OF assms(1,2,4)] by (simp add: run_ok_def)
  qed (use assms(3,4) call_v1_ok in auto)
  then show ?thesis by simp
qed

subsection \<open>Runs of adaptive sessions\<close>

definition sendable_v2 :: "adaptive_sidecar \<Rightarrow> bool" where
  "sendable_v2 c \<longleftrightarrow> sidecar_v2_wf c \<and> (\<exists>w. sidecar_v2_encode 1216 c = Inr w)"

lemma sidecar_v2_encodes:
  assumes "sidecar_record (as_geometry c) = Inr r" and "event_count (as_geometry c) \<le> 8" and "choices_ok c"
  shows "\<exists>w. sidecar_v2_encode 1216 c = Inr w"
proof -
  have size: "\<not> 1216 < 64 + unat (event_count (as_geometry c)) * 144"
    using assms(2) by (simp add: word_le_nat_alt)
  obtain n old where "sidecar_encode (replicate 704 0) (as_geometry c) = Inr (n, old)"
    using sidecar_encode_max [OF assms(2)] assms(1) by blast
  then show ?thesis
    using assms(2,3) size
    by (simp add: sidecar_v2_encode_def Let_def choices_ok_def list_ex_iff list_all_iff not_less
        del: put_fields.simps)
qed

definition run_ok_v2 :: "u8 set \<Rightarrow> hop_session_v2 \<Rightarrow> adaptive_sidecar list \<Rightarrow> bool" where
  "run_ok_v2 ps s os \<longleftrightarrow> hop_inv False ps (h2_core s) (concat (map (used_events \<circ> as_geometry) os)) \<and>
     list_all sendable_v2 os \<and> length (h2_pending s) = 8"

lemma finish_block_sidecar:
  "finish_block s sequence first block_end answer es = (Inr g, s') \<Longrightarrow>
   event_count g = of_nat (length es) \<and> events g = es @ replicate (8 - length es) zero_event"
  by (auto simp: finish_block_def Let_def split: prod.splits if_splits)

lemma block_choices:
  assumes run: "session_on_block s sequence first block_end (ret0, ds, dropped) answer (Some q) cs = (res, s', cs')"
    and len: "length ds \<le> length cs"
  shows "length cs' = length cs" and "res = Inr g \<Longrightarrow> event_count g = of_nat (length ds) \<and> length ds \<le> 8 \<and>
    (\<forall>i < length ds. choice_validate (cs' ! i) (events g ! i) = 0)"
proof -
  from run have "length cs' = length cs \<and> (\<forall>g. res = Inr g \<longrightarrow> event_count g = of_nat (length ds) \<and>
    length ds \<le> 8 \<and> (\<forall>i < length ds. choice_validate (cs' ! i) (events g ! i) = 0))"
  proof (cases rule: block_cases)
    case events
    define s1 where "s1 = s\<lparr>hs_status := (hs_status s)\<lparr>device_dropped_events := dropped\<rparr>\<rparr>"
    obtain r s2 cs2 where ev: "session_events s1 first (Some q) ds cs = (r, s2, cs2)" by (metis prod_cases3)
    note l = session_events_length [OF ev len]
    show ?thesis
    proof (cases r)
      case (Inl e)
      then show ?thesis using events(4) ev l by (auto simp: s1_def [symmetric] split: prod.splits)
    next
      case (Inr es)
      note c = session_events_choices [OF ev [unfolded Inr] len]
      obtain r3 s3 where f: "finish_block s2 sequence first block_end answer es = (r3, s3)" by fastforce
      have "res = r3" "cs' = cs2" using events(4) ev Inr f by (simp_all add: s1_def [symmetric])
      then show ?thesis
        using c l events(3) finish_block_sidecar [of s2 sequence first block_end answer es _ s3] f
        by (auto simp: nth_append)
    qed
  qed (auto split: prod.splits)
  then show "length cs' = length cs" and "res = Inr g \<Longrightarrow> event_count g = of_nat (length ds) \<and> length ds \<le> 8 \<and>
    (\<forall>i < length ds. choice_validate (cs' ! i) (events g ! i) = 0)" by blast+
qed

lemma sendable_v2I:
  assumes "sendable g" and "event_count g = of_nat n" "n \<le> 8" and "length cs = 8"
    and "\<forall>i < n. choice_validate (cs ! i) (events g ! i) = 0"
  shows "sendable_v2 \<lparr>as_geometry = g, as_choices = take (unat (event_count g)) cs
    @ replicate (8 - unat (event_count g)) zero_hop_choice\<rparr>" (is "sendable_v2 ?c")
proof -
  have n: "unat (event_count g) = n" using assms(2,3) by (simp add: unat_of_nat take_bit_nat_eq_self)
  have "sidecar_v2_wf ?c" using assms(1,3,4) n by (simp add: sidecar_v2_wf_def sendable_def)
  moreover have "choices_ok ?c" using assms(3-5) n by (simp add: choices_ok_def list_all_iff nth_append)
  moreover have "event_count g \<le> 8" using n assms(3) by (simp add: word_le_nat_alt)
  ultimately show ?thesis
    using sidecar_v2_encodes [of ?c] assms(1) by (auto simp: sendable_v2_def sendable_def)
qed

lemma call_v2_ok:
  assumes ok: "run_ok_v2 ps s os" and ps: "call_profiles c \<subseteq> ps" "PROFILE_NONE \<in> ps"
    and run: "hop_call_v2 s c = (os', s')"
  shows "run_ok_v2 ps s' (os @ os')"
proof -
  let ?es = "concat (map (used_events \<circ> as_geometry) os)"
  have inv: "hop_inv False ps (h2_core s) ?es" and len: "length (h2_pending s) = 8"
    and all: "list_all sendable_v2 os"
    using ok by (simp_all add: run_ok_v2_def)
  show ?thesis
  proof (cases c)
    case Arm
    then show ?thesis using arm_inv [OF inv ps(2)] len all run
      by (auto simp: run_ok_v2_def hop_session_v2_arm_def)
  next
    case (Start x answer)
    then show ?thesis using start_inv [OF inv ps(2), of answer x] len all run ps(1)
      by (auto simp: run_ok_v2_def hop_session_v2_start_def)
  next
    case (Cancel reason answer)
    then show ?thesis using cancel_inv [OF inv, of answer reason] len all run ps(1)
      by (auto simp: run_ok_v2_def hop_session_v2_cancel_def)
  next
    case (Block sequence first block_end drained answer)
    let ?c = "h2_core s"
    define pending where "pending = (if hop_state (hs_status ?c) = HOP_RUNNING \<and> first < block_end \<and>
      \<not> block_discontinuous ?c sequence first block_end then snd (adaptive_drain s drained) else h2_pending s)"
    obtain ret0 ds dropped where d: "fst (adaptive_drain s drained) = (ret0, ds, dropped)"
      by (metis prod_cases3)
    have "length (snd (adaptive_drain s drained)) = 8 \<and> length ds \<le> 8"
      using len d by (auto simp: adaptive_drain_def Let_def split: prod.splits if_splits)
    then have lp: "length pending = 8" "length ds \<le> length pending" using len by (simp_all add: pending_def)
    obtain res c1 cs1 where b: "session_on_block ?c sequence first block_end (ret0, ds, dropped) answer
        (Some (policy (h2_request s))) pending = (res, c1, cs1)" by (metis prod_cases3)
    have "rc_profile (snd answer) \<in> ps" using ps(1) Block by simp
    from block_inv [OF inv _ this ps(2) b] have bo: "block_ok False ps ?es res c1" by simp
    note ch = block_choices [OF b lp(2)]
    have st: "hop_call_v2 s c = (emitted (map_sum id (\<lambda>g. \<lparr>as_geometry = g, as_choices =
            take (unat (event_count g)) cs1 @ replicate (8 - unat (event_count g)) zero_hop_choice\<rparr>) res),
        s\<lparr>h2_core := c1, h2_pending := cs1\<rparr>)"
    proof -
      have ad: "adaptive_drain s drained = ((ret0, ds, dropped), snd (adaptive_drain s drained))"
        using d by (metis prod.collapse)
      show ?thesis
        unfolding Block hop_call_v2.simps hop_session_v2_on_block_def Let_def
        by (subst ad) (simp add: pending_def [symmetric] b)
    qed
    show ?thesis
    proof (cases res)
      case (Inl e)
      then show ?thesis using run st bo all ch(1) lp(1) by (auto simp: run_ok_v2_def block_ok_def emitted_def)
    next
      case (Inr g)
      then have "sendable g" using bo by (simp add: block_ok_def)
      from sendable_v2I [OF this _ _ _, of "length ds" cs1] ch(1) ch(2) [OF Inr] lp(1)
      show ?thesis using run st bo all Inr by (auto simp: run_ok_v2_def block_ok_def emitted_def)
    qed
  qed
qed

lemma run_v2_ok:
  assumes "hop_session_v2_init r = Inr s0" "request_wf (geometry r)"
    and "\<forall>c \<in> set calls. call_profiles c \<subseteq> ps" "PROFILE_NONE \<in> ps"
    and "run_calls hop_call_v2 s0 calls = (os, s)"
  shows "run_ok_v2 ps s os"
proof -
  obtain c where c: "hop_session_init (geometry r) = Inr c"
    and s0: "s0 = \<lparr>h2_core = c, h2_request = r, h2_pending = replicate 8 zero_hop_choice\<rparr>"
    using assms(1) by (auto simp: hop_session_v2_init_def split: sum.splits)
  have "run_ok_v2 ps s ([] @ os)"
  proof (rule run_calls_inv [where C = "{c. call_profiles c \<subseteq> ps}", OF _ _ _ assms(5)])
    show "run_ok_v2 ps s0 []" using init_inv [OF c assms(2,4)] by (simp add: run_ok_v2_def s0)
  qed (use assms(3,4) call_v2_ok in auto)
  then show ?thesis by simp
qed

subsection \<open>What a run does not change\<close>

lemma restore_request [simp]: "hs_request (snd (hop_restore s reason final needed answer)) = hs_request s"
  by (simp add: hop_restore_def Let_def)

lemma fail_request [simp]: "hs_request (snd (hop_fail s reason err answer)) = hs_request s"
  by (simp add: hop_fail_def Let_def case_prod_beta)

lemma events_request [simp]: "hs_request (fst (snd (session_events s first p ds cs))) = hs_request s"
  by (cases p; induction ds arbitrary: s cs) (simp_all add: Let_def case_prod_beta split: sum.split)

lemma maybe_complete_request [simp]: "hs_request (snd (maybe_complete s block_end answer)) = hs_request s"
  by (simp add: maybe_complete_def Let_def)

lemma finish_request [simp]:
  "hs_request (snd (finish_block s sequence first block_end answer es)) = hs_request s"
  by (simp add: finish_block_def Let_def case_prod_beta)

lemma block_request:
  assumes "session_on_block s sequence first block_end drained answer p cs = (res, s', cs')"
  shows "hs_request s' = hs_request s"
proof -
  obtain ret0 ds dropped where dr: "drained = (ret0, ds, dropped)" by (metis prod_cases3)
  have f: "hop_fail t reason e answer = (x, u) \<Longrightarrow> hs_request u = hs_request t"
    "finish_block t sequence first block_end answer es = (y, u) \<Longrightarrow> hs_request u = hs_request t"
    for t reason e x u es y
    using fail_request [of t reason e answer] finish_request [of t sequence first block_end answer es]
    by simp_all
  from assms [unfolded dr] show ?thesis
  proof (cases rule: block_cases)
    case events
    define s1 where "s1 = s\<lparr>hs_status := (hs_status s)\<lparr>device_dropped_events := dropped\<rparr>\<rparr>"
    obtain r s2 cs2 where ev: "session_events s1 first p ds cs = (r, s2, cs2)" by (metis prod_cases3)
    then have "hs_request s2 = hs_request s" using events_request [of s1 first p ds cs] by (simp add: s1_def)
    then show ?thesis
      using events(4) ev by (cases r) (auto simp: s1_def [symmetric] split: prod.splits dest: f)
  qed (auto split: prod.splits dest: f)
qed

lemma call_v1_request: "hop_call_v1 s c = (os, s') \<Longrightarrow> hs_request s' = hs_request s"
  by (cases c) (auto simp: hop_session_arm_def hop_session_start_def hop_session_cancel_def
      hop_session_on_block_def Let_def dest: block_request split: prod.splits if_splits)

lemma run_v1_request: "run_calls hop_call_v1 s calls = (os, s') \<Longrightarrow> hs_request s' = hs_request s"
  using run_calls_inv [of "\<lambda>t _. hs_request t = hs_request s" UNIV hop_call_v1 s "[]" calls os s']
    call_v1_request by fastforce

text \<open>The radio's report names one of the plan's profiles or none.\<close>

definition known_profile :: "u8 \<Rightarrow> bool" where
  "known_profile x \<longleftrightarrow> x = PROFILE_NONE \<or> x < HOP_PROFILE_COUNT"

lemma inv_status_sendable:
  assumes "hop_inv fixed ps s es"
  shows "(\<exists>w. hop_status_encode (replicate 160 0) (hs_status s) = Inr w \<and> hop_status_decode w = Inr (hs_status s))
      \<longleftrightarrow> known_profile (restored_profile (hs_status s))"
    and "(\<exists>w. status_v2_encode 160 (hs_status s) = Inr w \<and> status_v2_decode w = Inr (hs_status s))
      \<longleftrightarrow> known_profile (restored_profile (hs_status s))"
proof -
  have ok: "session_ok s" using assms by (simp add: hop_inv_def)
  moreover have "request_session_id (hs_request s) \<noteq> 0" "dwell_count (hs_request s) \<noteq> 0"
    using ok by (auto simp: session_ok_def validate_request_def Let_def split: if_splits)
  ultimately have "status_values_ok (hs_status s) = 0 \<longleftrightarrow> known_profile (restored_profile (hs_status s))"
    by (auto simp: status_values_ok_def session_ok_def state_ok_def known_profile_def Let_def not_le)
  then have e: "(\<exists>w. hop_status_encode (replicate 160 0) (hs_status s) = Inr w)
      \<longleftrightarrow> known_profile (restored_profile (hs_status s))"
    by (simp add: hop_status_encode_def Let_def)
  moreover have "(\<exists>w. status_v2_encode 160 (hs_status s) = Inr w)
      \<longleftrightarrow> (\<exists>w. hop_status_encode (replicate 160 0) (hs_status s) = Inr w)"
    by (auto simp: status_v2_encode_def simp del: put_fields.simps split: sum.split)
  ultimately show "(\<exists>w. hop_status_encode (replicate 160 0) (hs_status s) = Inr w \<and> hop_status_decode w = Inr (hs_status s))
      \<longleftrightarrow> known_profile (restored_profile (hs_status s))"
    and "(\<exists>w. status_v2_encode 160 (hs_status s) = Inr w \<and> status_v2_decode w = Inr (hs_status s))
      \<longleftrightarrow> known_profile (restored_profile (hs_status s))"
    using hop_status_decode_encode [where p = "replicate 160 0" and s = "hs_status s"] status_v2_exact by auto
qed

subsection \<open>Properties\<close>

text \<open>C15: What a hop session reports can be sent. Whatever a device answers, over any sequence of calls:
every sidecar of a plain session has an encoding that decodes to the same sidecar, and every sidecar of
an adaptive session has one in the format of version 2, with its choices. The status of each, after any
calls, has an encoding that decodes to the same status exactly if the restored profile in it is known, one of
the plan or none; that is so as long as the radio itself reports no unknown profile.\<close>

theorem hop_session_sendable:
  assumes "request_wf r" and "hop_session_init r = Inr s0"
    and "run_calls hop_call_v1 s0 calls = (os, s)"
    and "request_wf (geometry q)" and "hop_session_v2_init q = Inr t0"
    and "run_calls hop_call_v2 t0 calls2 = (os2, t)"
  shows "(\<forall>c \<in> set os. \<exists>w. sidecar_record c = Inr w \<and> sidecar_decode w = Inr c) \<and>
    (\<forall>c \<in> set os2. \<exists>w. sidecar_v2_encode 1216 c = Inr w \<and> sidecar_v2_decode w = Inr c) \<and>
    ((\<exists>w. hop_status_encode (replicate 160 0) (hs_status s) = Inr w \<and> hop_status_decode w = Inr (hs_status s))
       \<longleftrightarrow> known_profile (restored_profile (hs_status s))) \<and>
    ((\<exists>w. status_v2_encode 160 (hs_status (h2_core t)) = Inr w \<and> status_v2_decode w = Inr (hs_status (h2_core t)))
       \<longleftrightarrow> known_profile (restored_profile (hs_status (h2_core t)))) \<and>
    ((\<forall>c \<in> set calls. call_profiles c \<subseteq> Collect known_profile) \<longrightarrow> known_profile (restored_profile (hs_status s))) \<and>
    ((\<forall>c \<in> set calls2. call_profiles c \<subseteq> Collect known_profile) \<longrightarrow>
       known_profile (restored_profile (hs_status (h2_core t))))"
proof -
  have run: "run_ok ps s os" if "\<forall>c \<in> set calls. call_profiles c \<subseteq> ps" "PROFILE_NONE \<in> ps" for ps
    by (rule run_v1_ok [OF assms(2,1) that assms(3)])
  have run2: "run_ok_v2 ps t os2" if "\<forall>c \<in> set calls2. call_profiles c \<subseteq> ps" "PROFILE_NONE \<in> ps" for ps
    by (rule run_v2_ok [OF assms(5,4) that assms(6)])
  have v1: "run_ok UNIV s os" and v2: "run_ok_v2 UNIV t os2" by (rule run run2; simp)+
  have "\<exists>w. sidecar_record c = Inr w \<and> sidecar_decode w = Inr c" if "c \<in> set os" for c
    using v1 that sidecar_decode_encode unfolding run_ok_def list_all_iff sendable_def by blast
  moreover have "\<exists>w. sidecar_v2_encode 1216 c = Inr w \<and> sidecar_v2_decode w = Inr c" if "c \<in> set os2" for c
    using v2 that sidecar_v2_exact unfolding run_ok_v2_def list_all_iff sendable_v2_def by blast
  moreover have none: "PROFILE_NONE \<in> Collect known_profile" by (simp add: known_profile_def)
  have "known_profile (restored_profile (hs_status s))"
    if "\<forall>c \<in> set calls. call_profiles c \<subseteq> Collect known_profile"
    using run [OF that none] by (simp add: run_ok_def hop_inv_def)
  moreover have "known_profile (restored_profile (hs_status (h2_core t)))"
    if "\<forall>c \<in> set calls2. call_profiles c \<subseteq> Collect known_profile"
    using run2 [OF that none] by (simp add: run_ok_v2_def hop_inv_def)
  moreover have "hop_inv True UNIV s (concat (map used_events os))"
    "hop_inv False UNIV (h2_core t) (concat (map (used_events \<circ> as_geometry) os2))"
    using v1 v2 unfolding run_ok_def run_ok_v2_def by blast+
  note inv_status_sendable(1) [OF this(1)] inv_status_sendable(2) [OF this(2)]
  ultimately show ?thesis by blast
qed

text \<open>C14: What a session emits is a timeline. Over any sequence of calls, the events of all sidecars
together are numbered from zero without gaps, follow the plan's profiles in turn at their
frequencies, and stay below the planned number of dwells; between the end of one invalid span and
the start of the next lies exactly one dwell (over the integers), and no visit starts after the
capture span is covered. A completed session ends one dwell after its last event and has covered
the capture span.\<close>

theorem hop_session_timeline:
  assumes "request_wf r" and "hop_session_init r = Inr s0" and "run_calls hop_call_v1 s0 calls = (os, s)"
    and "es = concat (map used_events os)"
  shows "events_emitted (hs_status s) = of_nat (length es) \<and> length es \<le> unat (dwell_count r) \<and>
    (\<forall>i < length es. let d = device (es ! i) in unat (event_sequence d) = i \<and> unat (dwell_index d) = i \<and>
       unat (to_profile d) = i mod 8 \<and> actual_lo_frequency_hz d = lo_frequency_hz (profiles r ! (i mod 8))) \<and>
    (\<forall>i. Suc i < length es \<longrightarrow>
       unat (invalid_start (es ! Suc i)) = unat (invalid_end (es ! i)) + unat (dwell_samples r) \<and>
       unat (invalid_start (es ! Suc i)) < unat (invalid_start (es ! 0)) + unat (capture_span_samples r)) \<and>
    (hop_state (hs_status s) = HOP_COMPLETED \<longrightarrow> es \<noteq> [] \<and>
       unat (final_counter (hs_status s)) = unat (invalid_end (last es)) + unat (dwell_samples r) \<and>
       unat (invalid_start (hd es)) + unat (capture_span_samples r) \<le> unat (final_counter (hs_status s)))"
proof -
  have "run_ok UNIV s os" by (rule run_v1_ok [OF assms(2,1) _ _ assms(3)]) simp_all
  then have inv: "hop_inv True UNIV s es" by (simp add: run_ok_def assms(4))
  have "hs_request s = r"
    using run_v1_request [OF assms(3)] assms(2) by (auto simp: hop_session_init_def split: sum.splits)
  note r = this
  have "\<exists>us. accepted True s (es @ us)"
    using inv unfolding hop_inv_def by (metis append_Nil2)
  then have tl: "timeline r True es"
    using timeline_prefix r unfolding accepted_def Let_def by blast
  have ev: "on_time r True es i" if "i < length es" for i using tl that by (simp add: timeline_def)
  have "\<forall>i < length es. let d = device (es ! i) in unat (event_sequence d) = i \<and> unat (dwell_index d) = i \<and>
       unat (to_profile d) = i mod 8 \<and> actual_lo_frequency_hz d = lo_frequency_hz (profiles r ! (i mod 8))"
    using ev unfolding on_time_def Let_def by metis
  moreover have "\<forall>i. Suc i < length es \<longrightarrow>
       unat (invalid_start (es ! Suc i)) = unat (invalid_end (es ! i)) + unat (dwell_samples r) \<and>
       unat (invalid_start (es ! Suc i)) < unat (invalid_start (es ! 0)) + unat (capture_span_samples r)"
    using ev unfolding on_time_def Let_def by (metis diff_Suc_1 nat.distinct(1))
  moreover have "hop_state (hs_status s) = HOP_COMPLETED \<longrightarrow> completed s es"
    using inv unfolding hop_inv_def hop_terminal_def by auto
  ultimately show ?thesis
    using inv timeline_length [OF tl] r unfolding hop_inv_def completed_def Let_def by blast
qed

text \<open>C13: A session ends once, and always with the radio restored or the failure to restore it
reported. Over any sequence of calls: the restore port has been called exactly if the session is
terminal; a terminal session is never changed by a further call and emits nothing; a terminal
session has the restored flag, or it is failed with the restore error as its reason and a negative
error code; and a client's cancellation ends the session in every state.\<close>

theorem hop_session_restores_once:
  assumes "request_wf r" and "hop_session_init r = Inr s0" and "run_calls hop_call_v1 s0 calls = (os, s)"
  shows "(hs_restore_called s \<longleftrightarrow> hop_terminal s) \<and>
    (hop_terminal s \<longrightarrow> (\<forall>c. hop_call_v1 s c = ([], s))) \<and>
    (hop_terminal s \<longrightarrow> hop_flags (hs_status s) AND STATUS_RESTORE_SUCCEEDED \<noteq> 0 \<or>
       hop_state (hs_status s) = HOP_FAILED \<and> hop_reason (hs_status s) = HOP_REASON_RESTORE_ERROR \<and>
       sint (hop_error (hs_status s)) < 0) \<and>
    (reason = HOP_REASON_CLIENT_CLOSE \<or> reason = HOP_REASON_CLIENT_DISCONNECT \<longrightarrow>
       hop_terminal (snd (hop_session_cancel s reason answer)))"
proof -
  have "run_ok UNIV s os" by (rule run_v1_ok [OF assms(2,1) _ _ assms(3)]) simp_all
  then obtain es where inv: "hop_inv True UNIV s es" by (auto simp: run_ok_def)
  have ok: "session_ok s" using inv by (simp add: hop_inv_def)
  have frozen: "hop_call_v1 s c = ([], s)" if "hop_terminal s" for c
    using that by (cases c) (auto simp: hop_terminal_def hop_session_arm_def hop_session_start_def
        hop_session_cancel_def hop_session_on_block_def session_on_block_def emitted_def Let_def
        word_le_nat_alt split: prod.splits)
  have cancel: "hop_terminal (snd (hop_session_cancel s reason answer))"
    if c: "reason = HOP_REASON_CLIENT_CLOSE \<or> reason = HOP_REASON_CLIENT_DISCONNECT"
  proof (cases "hop_terminal s")
    case True
    then show ?thesis using frozen [of "Cancel reason answer"] by simp
  next
    case False
    note l = inv_live [OF inv False]
    obtain ret s' where x: "hop_restore s reason HOP_CANCELLED 0 answer = (ret, s')" by fastforce
    have "ended s s' answer" by (rule hop_restore_ended(1) [OF live_fields(4,6,7) [OF l] _ x]) (use c in simp)
    then show ?thesis using False c x by (auto simp: hop_session_cancel_def ended_def)
  qed
  have "hop_flags (hs_status s) AND STATUS_RESTORE_SUCCEEDED \<noteq> 0 \<or>
       hop_state (hs_status s) = HOP_FAILED \<and> hop_reason (hs_status s) = HOP_REASON_RESTORE_ERROR \<and>
       sint (hop_error (hs_status s)) < 0" if "hop_terminal s"
    using ok that by (auto simp: session_ok_def settled_def state_ok_def validate_state_def Let_def
        split: if_splits)
  then show ?thesis using ok frozen cancel by (auto simp: session_ok_def Let_def)
qed

subsection \<open>A session of two visits\<close>

definition demo_event :: "u64 \<Rightarrow> u8 \<Rightarrow> u64 \<Rightarrow> hop_device_event" where
  "demo_event i from before = \<lparr>event_sequence = i, dwell_index = i, transition_before = before,
     transition_after = before + 5, actual_lo_frequency_hz = 100 + i, actual_if_offset_hz = - 5,
     device_event_id = i + 1, from_profile = from, to_profile = ucast i,
     event_kind = (if i = 0 then 1 else 2), event_flags = 3, event_fastlock_slot = 7 - ucast i\<rparr>"

definition demo_answer :: restore_answer where
  "demo_answer = (0, \<lparr>rc_before = 1235, rc_after = 1240, rc_lo_frequency_hz = 100, rc_error = 0,
     rc_profile = PROFILE_NONE, rc_flags = 3\<rparr>)"

definition demo_calls :: "drain_answer hop_call list" where
  "demo_calls = [Start 0 demo_answer,
     Block 0 900 1050 (0, [demo_event 0 PROFILE_NONE 1000], 0) demo_answer,
     Block 1 1050 1300 (0, [demo_event 1 0 1116], 0) demo_answer]"

definition demo_session :: hop_session where
  "demo_session = \<lparr>hs_request = demo_plan 150, hs_status = zero_status\<lparr>hop_state := HOP_IDLE,
     hop_flags := STATUS_RESTORE_REQUIRED, hop_session_id := 9, planned_dwells := 16,
     active_profile := PROFILE_NONE, restored_profile := PROFILE_NONE\<rparr>,
     hs_last_event = zero_event, hs_last_device_id = 0, hs_terminal_error = 0,
     hs_have_event = False, hs_have_block = False, hs_restore_called = False\<rparr>"

lemma demo_init: "hop_session_init (demo_plan 150) = Inr demo_session"
proof -
  have "validate_request (demo_plan 150) = 0" by code_simp
  then show ?thesis
    by (simp add: hop_session_init_def request_encode_def demo_session_def Let_def demo_plan_def)
qed


text \<open>What the run shows: the events, the state, and that the radio was restored.\<close>

definition demo_run :: "nat \<times> u16 \<times> bool" where
  "demo_run = (case run_calls hop_call_v1 demo_session demo_calls of (os, s) \<Rightarrow>
     (length (concat (map used_events os)), hop_state (hs_status s), hs_restore_called s))"
lemma demo_run: "demo_run = (2, HOP_COMPLETED, True)"
  by code_simp

text \<open>An adaptive session that hops to the profile of its choice, and ends.\<close>

definition demo_policy :: hop_policy where
  "demo_policy = \<lparr>hp_generation = 1, hp_mode = 2, hp_warmup_visits = 1, hp_missed_dwells = 1,
     hp_active_weight = 1, hp_quiet_weight = 1, hp_cooldown_ms = 1, hp_maximum_revisit_ms = 8000,
     hp_hop_budget_ms = 1000, hp_maximum_result_age_ms = 1, hp_unhealthy_limit = 1\<rparr>"

definition demo_adaptive :: adaptive_request where
  "demo_adaptive = \<lparr>geometry = (demo_plan 400000)\<lparr>sample_rate_hz := 2500000, dwell_samples := 300000\<rparr>,
     policy = demo_policy, host = zero_host\<rparr>"

definition demo_adaptive_session :: hop_session_v2 where
  "demo_adaptive_session = \<lparr>h2_core = demo_session\<lparr>hs_request := geometry demo_adaptive\<rparr>,
     h2_request = demo_adaptive, h2_pending = replicate 8 zero_hop_choice\<rparr>"

lemma demo_adaptive_init: "hop_session_v2_init demo_adaptive = Inr demo_adaptive_session"
proof -
  have "\<not> isl (hop_session_v2_init demo_adaptive)" by code_simp
  then show ?thesis
    by (simp add: hop_session_v2_init_def hop_session_init_def demo_adaptive_session_def demo_session_def
        demo_adaptive_def demo_plan_def split: sum.splits)
qed

definition demo_choice :: "u64 \<Rightarrow> u32 \<Rightarrow> hop_choice" where
  "demo_choice counter to_p = \<lparr>hc_decision_counter = counter, hc_basis_visit = UINT64_MAX,
     hc_cooldown_remaining = 0, hc_generation = 1, hc_proposed_target = to_p, hc_reason = 0,
     hc_active_mask = 8, hc_quiet_mask = 1, hc_consecutive_misses = 0, hc_mode = 2\<rparr>"

definition demo_adaptive_calls :: "drain_answer_v2 hop_call list" where
  "demo_adaptive_calls = [Start 0 demo_answer,
     Block 0 900 2000 (0, [(demo_event 0 PROFILE_NONE 1000, demo_choice 1000 0)], 0) demo_answer,
     Block 1 2000 310000 (0, [((demo_event 1 0 301020)\<lparr>to_profile := 3, actual_lo_frequency_hz := 103,
       event_fastlock_slot := 4\<rparr>, demo_choice 301016 3)], 0) demo_answer,
     Block 2 310000 602000 (0, [], 0)
       (0, (snd demo_answer)\<lparr>rc_before := 601040, rc_after := 601050\<rparr>)]"

definition demo_adaptive_run :: "u16 list \<times> (u8 \<times> u32) list \<times> u16" where
  "demo_adaptive_run = (case run_calls hop_call_v2 demo_adaptive_session demo_adaptive_calls of (os, s) \<Rightarrow>
     (map (\<lambda>c. event_count (as_geometry c)) os,
      map (\<lambda>c. (to_profile (device (events (as_geometry c) ! 0)), hc_proposed_target (as_choices c ! 0))) os,
      hop_state (hs_status (h2_core s))))"

lemma demo_adaptive_run: "demo_adaptive_run = ([1, 1, 0], [(0, 0), (3, 3), (0, 0)], HOP_COMPLETED)"
  by code_simp

lemma demo_calls_profiles: "\<forall>c \<in> set demo_calls. call_profiles c \<subseteq> Collect known_profile"
    "\<forall>c \<in> set demo_adaptive_calls. call_profiles c \<subseteq> Collect known_profile"
  by (simp_all add: demo_calls_def demo_adaptive_calls_def demo_answer_def known_profile_def)

theorem hop_session_sendable_witness:
  "\<exists>os s os2 t. run_calls hop_call_v1 demo_session demo_calls = (os, s) \<and> hop_state (hs_status s) = HOP_COMPLETED \<and>
    run_calls hop_call_v2 demo_adaptive_session demo_adaptive_calls = (os2, t) \<and> length os2 = 3 \<and>
    (\<forall>c \<in> set os. \<exists>w. sidecar_record c = Inr w \<and> sidecar_decode w = Inr c) \<and>
    (\<forall>c \<in> set os2. \<exists>w. sidecar_v2_encode 1216 c = Inr w \<and> sidecar_v2_decode w = Inr c) \<and>
    (\<exists>w. hop_status_encode (replicate 160 0) (hs_status s) = Inr w \<and> hop_status_decode w = Inr (hs_status s)) \<and>
    (\<exists>w. status_v2_encode 160 (hs_status (h2_core t)) = Inr w \<and> status_v2_decode w = Inr (hs_status (h2_core t)))"
proof -
  obtain os s where run: "run_calls hop_call_v1 demo_session demo_calls = (os, s)" by fastforce
  obtain os2 t where run2: "run_calls hop_call_v2 demo_adaptive_session demo_adaptive_calls = (os2, t)" by fastforce
  have "hop_state (hs_status s) = HOP_COMPLETED" using run demo_run by (simp add: demo_run_def)
  moreover have "length os2 = 3"
    using run2 arg_cong [OF demo_adaptive_run, of "\<lambda>x. length (fst x)"] by (simp add: demo_adaptive_run_def)
  moreover have "request_wf (geometry demo_adaptive)"
    by (simp add: request_wf_def demo_adaptive_def demo_plan_def)
  ultimately show ?thesis
    using hop_session_sendable [OF demo_plan_wf demo_init run _ demo_adaptive_init run2]
      demo_calls_profiles run run2 by blast
qed

theorem hop_session_timeline_witness:
  "\<exists>os s es. run_calls hop_call_v1 demo_session demo_calls = (os, s) \<and>
    es = concat (map used_events os) \<and> length es = 2 \<and>
    unat (invalid_start (es ! 1)) = unat (invalid_end (es ! 0)) + 100 \<and>
    unat (final_counter (hs_status s)) = unat (invalid_end (last es)) + 100"
proof -
  obtain os s where run: "run_calls hop_call_v1 demo_session demo_calls = (os, s)" by fastforce
  then have "hop_state (hs_status s) = HOP_COMPLETED" "length (concat (map used_events os)) = 2"
    using demo_run by (simp_all add: demo_run_def)
  moreover have "dwell_samples (demo_plan 150) = 100" by (simp add: demo_plan_def)
  ultimately show ?thesis
    using hop_session_timeline [OF demo_plan_wf demo_init run refl] run by auto
qed

theorem hop_session_restores_once_witness:
  "\<exists>os s. run_calls hop_call_v1 demo_session demo_calls = (os, s) \<and> hs_restore_called s \<and>
    hop_terminal s \<and> hop_call_v1 s (Start 0 demo_answer) = ([], s)"
proof -
  obtain os s where run: "run_calls hop_call_v1 demo_session demo_calls = (os, s)" by fastforce
  then have "hs_restore_called s" using demo_run by (simp add: demo_run_def)
  then show ?thesis
    using hop_session_restores_once [OF demo_plan_wf demo_init run, of HOP_REASON_CLIENT_CLOSE demo_answer]
      run by blast
qed

end
