(* ===== verification/Counter_Metadata.thy ===== *)
theory Counter_Metadata
  imports Wire_Records
begin

unbundle bit_operations_syntax

text \<open>
  Counter metadata (\<open>iiod/spf-counter-metadata.c\<close>): the request of a client for it, and the frame
  of 80 bytes that precedes each block: its first sample, the samples missing before it, a CRC. The
  server builds a frame when a block is filled and rebases it when an earlier block was dropped.

  A frame is built into a buffer of \<open>capacity\<close> bytes; the result is the bytes written there. The
  readers \<open>spf_counter_read32/64\<close> and \<open>put32/64\<close> are the accessors of \<open>Le_Codec\<close>.
\<close>

abbreviation (input) COUNTER_REQUEST_MAGIC :: u32 where "COUNTER_REQUEST_MAGIC \<equiv> 0x43465053"
abbreviation (input) COUNTER_FRAME_MAGIC :: u32 where "COUNTER_FRAME_MAGIC \<equiv> 0x31435053"
abbreviation (input) COUNTER_FEATURES :: u32 where "COUNTER_FEATURES \<equiv> 7"
abbreviation (input) COUNTER_VALID_FLAGS :: u32 where "COUNTER_VALID_FLAGS \<equiv> 0x200010"
abbreviation (input) COUNTER_GAP_FLAGS :: u32 where "COUNTER_GAP_FLAGS \<equiv> 0x800800"
abbreviation (input) COUNTER_MAX_RATE :: u32 where "COUNTER_MAX_RATE \<equiv> 61440000"

record counter_request =
  cr_sample_rate_hz :: u32
  cr_samples_per_channel :: u32

record frame_info =
  first_sample_sequence :: u64
  frame_end :: u64
  missing_samples_before :: u64

definition counter_request_decode :: "u8 list \<Rightarrow> nat \<Rightarrow> u32 \<Rightarrow> counter_request res" where
  "counter_request_decode p samples scan_mask =
     (if length p \<noteq> 32 then Inl (- EINVAL)
      else if get_le32 p 0 \<noteq> COUNTER_REQUEST_MAGIC \<or> get_le32 p 4 \<noteq> 0x200001
      then Inl (- EPROTONOSUPPORT)
      else if get_le32 p 8 \<noteq> COUNTER_FEATURES \<or> get_le32 p 12 \<noteq> 3 \<or> scan_mask \<noteq> 3 \<or>
          get_le32 p 24 \<noteq> 0 \<or> get_le32 p 28 \<noteq> 0 then Inl (- EINVAL)
      else let rate = get_le32 p 16; n = get_le32 p 20 in
      if rate = 0 \<or> COUNTER_MAX_RATE < rate \<or> samples = 0 \<or> 0x3fffffff < samples \<or>
         odd samples \<or> unat n \<noteq> samples then Inl (- EINVAL)
      else Inr \<lparr>cr_sample_rate_hz = rate, cr_samples_per_channel = n\<rparr>)"

definition counter_flags :: "u64 \<Rightarrow> u32" where
  "counter_flags missing = COUNTER_VALID_FLAGS OR (if missing \<noteq> 0 then COUNTER_GAP_FLAGS else 0)"

definition counter_frame_fields ::
  "u64 \<Rightarrow> u64 \<Rightarrow> u64 \<Rightarrow> u64 \<Rightarrow> u32 \<Rightarrow> u32 \<Rightarrow> (nat \<times> wire_field) list" where
  "counter_frame_fields stream sequence first missing samples rate =
     [(0, F32 COUNTER_FRAME_MAGIC), (4, F32 0x500001), (8, F32 COUNTER_FEATURES),
      (12, F32 (counter_flags missing)), (16, F64 stream), (24, F64 sequence), (32, F64 first),
      (40, F64 missing), (48, F32 samples), (52, F32 (samples * 4)), (56, F32 3), (60, F32 rate),
      (64, F32 2)]"

definition counter_frame_build ::
  "nat \<Rightarrow> u64 \<Rightarrow> u64 \<Rightarrow> u64 \<Rightarrow> u64 \<Rightarrow> u32 \<Rightarrow> u32 \<Rightarrow> u8 list res" where
  "counter_frame_build capacity stream sequence first missing samples rate =
     (if capacity < 80 then Inl (- ENOSPC)
      else if stream = 0 \<or> samples = 0 \<or> odd samples \<or> 0x3fffffff < samples \<or> rate = 0 \<or>
          COUNTER_MAX_RATE < rate \<or> UINT64_MAX - ucast samples < first \<or> first < missing
      then Inl (- EINVAL)
      else let p = put_fields (replicate 80 0)
            (counter_frame_fields stream sequence first missing samples rate)
        in Inr (put_le32 p 76 (crc32 p 76)))"

definition counter_frame_describe :: "u8 list \<Rightarrow> frame_info res" where
  "counter_frame_describe p =
     (if length p \<noteq> 80 then Inl (- EBADMSG)
      else let samples = get_le32 p 48; rate = get_le32 p 60; first = get_le64 p 32;
        missing = get_le64 p 40
      in if get_le32 p 0 \<noteq> COUNTER_FRAME_MAGIC \<or> get_le32 p 4 \<noteq> 0x500001 \<or>
          get_le32 p 8 \<noteq> COUNTER_FEATURES \<or> get_le32 p 12 \<noteq> counter_flags missing \<or>
          get_le64 p 16 = 0 \<or> samples = 0 \<or> odd samples \<or> 0x3fffffff < samples \<or>
          UINT64_MAX - ucast samples < first \<or> first < missing \<or>
          get_le32 p 52 \<noteq> samples * 4 \<or> get_le32 p 56 \<noteq> 3 \<or> rate = 0 \<or>
          COUNTER_MAX_RATE < rate \<or> get_le32 p 64 \<noteq> 2 \<or> get_le32 p 68 \<noteq> 0 \<or>
          get_le32 p 72 \<noteq> 0 \<or> get_le32 p 76 \<noteq> crc32 p 76 then Inl (- EBADMSG)
      else Inr \<lparr>first_sample_sequence = first, frame_end = first + ucast samples,
        missing_samples_before = missing\<rparr>)"

definition counter_frame_rebase :: "u8 list \<Rightarrow> u64 \<Rightarrow> u8 list res" where
  "counter_frame_rebase p previous_end =
     (case counter_frame_describe p of
        Inl e \<Rightarrow> Inl e
      | Inr info \<Rightarrow> if first_sample_sequence info < previous_end then Inl (- ERANGE)
        else let missing = first_sample_sequence info - previous_end;
          p = put_le64 p 40 missing;
          p = put_le32 p 12 (COUNTER_VALID_FLAGS OR
            (if first_sample_sequence info \<noteq> previous_end then COUNTER_GAP_FLAGS else 0))
        in Inr (put_le32 p 76 (crc32 p 76)))"

subsection \<open>Frames\<close>

lemma frame_fields_ascending:
  "ascending 0 (counter_frame_fields stream sequence first missing samples rate) 76"
  by (simp add: counter_frame_fields_def)

text \<open>What a message must contain to be a built frame.\<close>

lemma frame_build_iff:
  assumes "length w = 80"
  shows "counter_frame_build 80 stream sequence first missing samples rate = Inr w \<longleftrightarrow>
    \<not> isl (counter_frame_describe w) \<and> get_le64 w 16 = stream \<and> get_le64 w 24 = sequence \<and>
    get_le64 w 32 = first \<and> get_le64 w 40 = missing \<and> get_le32 w 48 = samples \<and> get_le32 w 60 = rate"
proof -
  let ?fs = "counter_frame_fields stream sequence first missing samples rate"
  have "fields_ok 0 ?fs 76 w \<longleftrightarrow> get_le32 w 0 = COUNTER_FRAME_MAGIC \<and> get_le32 w 4 = 0x500001 \<and>
      get_le32 w 8 = COUNTER_FEATURES \<and> get_le32 w 12 = counter_flags missing \<and> get_le64 w 16 = stream \<and>
      get_le64 w 24 = sequence \<and> get_le64 w 32 = first \<and> get_le64 w 40 = missing \<and>
      get_le32 w 48 = samples \<and> get_le32 w 52 = samples * 4 \<and> get_le32 w 56 = 3 \<and>
      get_le32 w 60 = rate \<and> get_le32 w 64 = 2 \<and> get_le32 w 68 = 0 \<and> get_le32 w 72 = 0"
    using assms all_zero_add [of 68 4 4 w] by (simp add: counter_frame_fields_def get_zero_iff)
  then show ?thesis
    using sealed_iff [OF frame_fields_ascending _ assms, of stream sequence first missing samples rate] assms
    by (auto simp: counter_frame_build_def counter_frame_describe_def Let_def
        simp del: put_fields.simps)
qed

lemma frame_build_length:
  "counter_frame_build c stream sequence first missing samples rate = Inr w \<Longrightarrow> length w = 80"
  using length_put_fields [of _ 80] frame_fields_ascending [THEN ascending_mono, of 80]
  by (auto simp: counter_frame_build_def Let_def split: if_splits)

text \<open>Rebasing writes the two fields and the CRC of the frame with the other gap.\<close>

lemma rebase_build:
  assumes b: "counter_frame_build 80 stream sequence first missing samples rate = Inr w"
  shows "counter_frame_rebase w previous_end = (if first < previous_end then Inl (- ERANGE)
    else counter_frame_build 80 stream sequence first (first - previous_end) samples rate)"
proof -
  have len: "length w = 80" by (rule frame_build_length [OF b])
  obtain info where info: "counter_frame_describe w = Inr info" and "first_sample_sequence info = first"
    using b frame_build_iff [OF len, of stream sequence first missing samples rate]
    by (cases "counter_frame_describe w") (auto simp: counter_frame_describe_def Let_def split: if_splits)
  define m where "m = first - previous_end"
  define p where "p = put_le32 (put_le64 w 40 m) 12 (counter_flags m)"
  define v where "v = put_le32 p 76 (crc32 p 76)"
  have crc: "crc32 v 76 = crc32 p 76"
    by (rule crc32_cong) (simp add: v_def put_le32_def)
  show ?thesis
  proof (cases "first < previous_end")
    case False
    then have le: "m \<le> first" using word_sub_le [of previous_end first] by (simp add: m_def)
    have "length v = 80" using len by (simp add: v_def p_def)
    moreover have "\<not> isl (counter_frame_describe v)"
      using info len le crc \<open>first_sample_sequence info = first\<close>
      by (auto simp: counter_frame_describe_def Let_def v_def p_def get_put_disjoint split: if_splits)
    moreover have "get_le64 v 16 = stream \<and> get_le64 v 24 = sequence \<and> get_le64 v 32 = first \<and>
        get_le64 v 40 = m \<and> get_le32 v 48 = samples \<and> get_le32 v 60 = rate"
      using b frame_build_iff [OF len, of stream sequence first missing samples rate] len
      by (simp add: v_def p_def get_put_disjoint)
    ultimately have "counter_frame_build 80 stream sequence first m samples rate = Inr v"
      by (subst frame_build_iff) auto
    moreover have "counter_frame_rebase w previous_end = Inr v"
      using info False \<open>first_sample_sequence info = first\<close>
      by (simp add: counter_frame_rebase_def Let_def v_def p_def m_def counter_flags_def)
    ultimately show ?thesis using False m_def by simp
  qed (use info \<open>first_sample_sequence info = first\<close> in \<open>simp add: counter_frame_rebase_def\<close>)
qed

text \<open>C40: Counter frames are exact. A message is accepted exactly if it is the frame that the server
builds from some parameters, and the description gives its first sample, its end (without
wrap-around) and its gap. Rebasing a frame to another end of the previous block is refused exactly
when the frame starts before that end; else it gives the frame that the server would have built with
the gap from that end, so rebasing twice is the same as rebasing once to the last end.\<close>

theorem counter_frame_exact:
  "((\<exists>info. counter_frame_describe w = Inr info) \<longleftrightarrow>
      (\<exists>stream sequence first missing samples rate.
        counter_frame_build 80 stream sequence first missing samples rate = Inr w)) \<and>
   (counter_frame_build 80 stream sequence first missing samples rate = Inr w \<longrightarrow>
     (\<exists>info. counter_frame_describe w = Inr info \<and> first_sample_sequence info = first \<and>
       unat (frame_end info) = unat first + unat samples \<and> missing_samples_before info = missing) \<and>
     counter_frame_rebase w previous_end = (if first < previous_end then Inl (- ERANGE)
       else counter_frame_build 80 stream sequence first (first - previous_end) samples rate)) \<and>
   (counter_frame_rebase w e1 = Inr v \<longrightarrow> counter_frame_rebase v e2 = counter_frame_rebase w e2)"
proof -
  have accepted: "\<exists>stream sequence first missing samples rate.
      counter_frame_build 80 stream sequence first missing samples rate = Inr w"
    if "counter_frame_describe w = Inr info" for w info
  proof -
    have "length w = 80" using that by (auto simp: counter_frame_describe_def split: if_splits)
    then show ?thesis using frame_build_iff [of w] that by simp
  qed
  have info: "\<exists>info. counter_frame_describe w = Inr info \<and> first_sample_sequence info = first \<and>
      unat (frame_end info) = unat first + unat samples \<and> missing_samples_before info = missing"
    if b: "counter_frame_build 80 stream sequence first missing samples rate = Inr w"
    for w stream sequence first missing samples rate
  proof -
    obtain i where i: "counter_frame_describe w = Inr i" "first_sample_sequence i = first"
        "missing_samples_before i = missing" "frame_end i = first + ucast samples"
      using b frame_build_iff [OF frame_build_length [OF b], of stream sequence first missing samples rate]
      by (cases "counter_frame_describe w") (auto simp: counter_frame_describe_def Let_def split: if_splits)
    have "first \<le> UINT64_MAX - ucast samples"
      using b by (auto simp: counter_frame_build_def Let_def not_less split: if_splits)
    then have "unat (first + ucast samples) = unat first + unat samples"
      by (simp add: le_max_minus_iff unat_add_small)
    then show ?thesis using i by simp
  qed
  have "counter_frame_rebase v e2 = counter_frame_rebase w e2" if r: "counter_frame_rebase w e1 = Inr v"
  proof -
    obtain info where "counter_frame_describe w = Inr info"
      using r by (auto simp: counter_frame_rebase_def split: sum.splits)
    then obtain stream sequence first missing samples rate
      where b: "counter_frame_build 80 stream sequence first missing samples rate = Inr w"
      using accepted by blast
    then have "counter_frame_build 80 stream sequence first (first - e1) samples rate = Inr v"
      using rebase_build [OF b, of e1] r by (simp split: if_splits)
    from rebase_build [OF this, of e2] rebase_build [OF b, of e2] show ?thesis by simp
  qed
  moreover have "(\<exists>info. counter_frame_describe w = Inr info) \<longleftrightarrow>
      (\<exists>stream sequence first missing samples rate.
        counter_frame_build 80 stream sequence first missing samples rate = Inr w)"
    using accepted info by blast
  ultimately show ?thesis using info rebase_build by blast
qed

subsection \<open>An example\<close>

lemma demo_frame:
  "\<exists>w. counter_frame_build 80 5 1 1000 40 512 2500000 = Inr w"
  by (simp add: counter_frame_build_def Let_def del: put_fields.simps)

theorem counter_frame_exact_witness:
  "\<exists>w v info. counter_frame_build 80 5 1 1000 40 512 2500000 = Inr w \<and>
    counter_frame_describe w = Inr info \<and> unat (frame_end info) = 1512 \<and>
    counter_frame_rebase w 1001 = Inl (- ERANGE) \<and>
    counter_frame_build 80 5 1 1000 100 512 2500000 = Inr v \<and> counter_frame_rebase w 900 = Inr v"
proof -
  obtain w where w: "counter_frame_build 80 5 1 1000 40 512 2500000 = Inr w" using demo_frame by blast
  obtain v where v: "counter_frame_build 80 5 1 1000 100 512 2500000 = Inr v"
    by (simp add: counter_frame_build_def Let_def del: put_fields.simps)
  show ?thesis
    using counter_frame_exact [of w 5 1 1000 40 512 2500000 1001]
      counter_frame_exact [of w 5 1 1000 40 512 2500000 900] w v by auto
qed

end
