(* ===== verification/Scan_Radio.thy ===== *)
theory Scan_Radio
  imports Iiod_Prelude
begin

unbundle bit_operations_syntax

text \<open>
  The radio of a scan session (\<open>iiod/spf-scan-radio.c\<close>): the driver's lease, the Fast Lock profiles,
  recalls, counter snapshots and the release. The driver counts samples in 32 bits; every answer is
  extended to 64 bits after an anchor, so the extended counters never go backwards.

  An \<open>ioctl\<close> of the driver is an argument: \<open>Inl e\<close> when it fails with \<open>errno = e\<close> (a positive
  number), else \<open>Inr\<close> what it writes into its structure (\<open>adi-rx-counter.h\<close>). The requests that are
  sent to the driver have no effect on the model and are left out; the diagnostics are text for a
  person.
\<close>

abbreviation (input) EPROTO :: "'a::numeral" where "EPROTO \<equiv> 71"
abbreviation (input) ENOTTY :: "'a::numeral" where "ENOTTY \<equiv> 25"
abbreviation (input) COUNTER_MAGIC :: u32 where "COUNTER_MAGIC \<equiv> 0x43465053"
abbreviation (input) COUNTER_SCAN_FEATURES :: u32 where "COUNTER_SCAN_FEATURES \<equiv> 0x1f"
abbreviation (input) RADIO_MAX_PROFILES :: "'a::numeral" where "RADIO_MAX_PROFILES \<equiv> 8"
abbreviation (input) RADIO_CAPS_BYTES :: u16 where "RADIO_CAPS_BYTES \<equiv> 32"

type_synonym 'a ioctl = "int + 'a"

record radio_caps =
  rk_magic :: u32
  rk_version :: u16
  rk_size :: u16
  rk_features :: u32
  rk_maximum_profiles :: u32
  rk_counter_bits :: u32
  rk_resolution_hz :: u32
  rk_reserved :: "u32 \<times> u32"

record radio_profile =
  rp_profile :: u32
  rp_frequency_hz :: u64
  rp_crc32 :: u32

text \<open>What the driver reports for a recall and for the release.\<close>

record recall_report =
  ry_frequency_hz :: u64
  ry_profile_crc32 :: u32
  ry_counter_before :: u32
  ry_counter_after :: u32

record radio_receipt =
  rr_profile :: u32
  rr_frequency_hz :: u64
  rr_profile_crc32 :: u32
  rr_counter_before :: u64
  rr_counter_after :: u64

record release_report =
  rz_frequency_hz :: u64
  rz_counter_before :: u32
  rz_counter_after :: u32

record release_receipt =
  rl_frequency_hz :: u64
  rl_counter_before :: u64
  rl_counter_after :: u64

record scan_radio =
  sr_profile_mask :: u32
  sr_frequency_hz :: "u64 list"
  sr_profile_crc32 :: "u32 list"
  sr_features :: u32
  sr_scan_mask :: u32
  sr_acquired :: bool
  sr_configured :: bool
  sr_faulted :: bool
  sr_released :: bool
  sr_diagnostics_unavailable :: bool

subsection \<open>Operations\<close>

definition frequency_matches :: "u64 \<Rightarrow> u64 \<Rightarrow> bool" where
  "frequency_matches actual expected =
     (if expected \<le> actual then actual - expected \<le> 2 else expected - actual \<le> 2)"

definition extend_counter :: "u64 \<Rightarrow> u32 \<Rightarrow> u64 res" where
  "extend_counter anchor low =
     (let candidate = (anchor AND NOT 0xffffffff) OR ucast low in
      if candidate < anchor \<and> UINT64_MAX - 0x100000000 < candidate then Inl (- ERANGE)
      else let candidate = (if candidate < anchor then candidate + 0x100000000 else candidate) in
      if 0xffffffff < candidate - anchor then Inl (- ERANGE) else Inr candidate)"

definition radio_init :: "radio_caps ioctl \<Rightarrow> scan_radio res" where
  "radio_init answer =
     (case answer of Inl e \<Rightarrow> Inl (- e)
      | Inr c \<Rightarrow> if rk_magic c \<noteq> COUNTER_MAGIC \<or> rk_version c \<noteq> 1 \<or> rk_size c \<noteq> RADIO_CAPS_BYTES \<or>
            rk_features c \<noteq> COUNTER_SCAN_FEATURES \<or> rk_maximum_profiles c \<noteq> RADIO_MAX_PROFILES \<or>
            rk_counter_bits c \<noteq> 32 \<or> rk_resolution_hz c \<noteq> 2 \<or> rk_reserved c \<noteq> (0, 0)
          then Inl (- EPROTO)
          else Inr \<lparr>sr_profile_mask = 0, sr_frequency_hz = replicate 8 0,
            sr_profile_crc32 = replicate 8 0, sr_features = rk_features c, sr_scan_mask = 0,
            sr_acquired = False, sr_configured = False, sr_faulted = False, sr_released = False,
            sr_diagnostics_unavailable = False\<rparr>)"

text \<open>The loop over the profiles: the mask, frequencies and checksums so far.\<close>

fun radio_profiles :: "u32 \<Rightarrow> u64 list \<Rightarrow> u32 list \<Rightarrow> radio_profile list \<Rightarrow>
    (u32 \<times> u64 list \<times> u32 list) option" where
  "radio_profiles used fs cs [] = Some (used, fs, cs)"
| "radio_profiles used fs cs (p # ps) =
     (let k = unat (rp_profile p) in
      if RADIO_MAX_PROFILES \<le> rp_profile p \<or> rp_frequency_hz p = 0 \<or> used AND push_bit k 1 \<noteq> 0
      then None
      else radio_profiles (used OR push_bit k 1) (fs[k := rp_frequency_hz p]) (cs[k := rp_crc32 p]) ps)"

definition radio_configure :: "scan_radio \<Rightarrow> radio_profile list \<Rightarrow> unit ioctl \<Rightarrow> int \<times> scan_radio" where
  "radio_configure r ps answer =
     (if ps = [] \<or> \<not> sr_acquired r \<or> RADIO_MAX_PROFILES < length ps \<or> sr_configured r \<or>
         sr_faulted r then (- EINVAL, r)
      else case radio_profiles 0 (replicate 8 0) (replicate 8 0) ps of
        None \<Rightarrow> (- EINVAL, r)
      | Some (used, fs, cs) \<Rightarrow> (case answer of Inl e \<Rightarrow> (- e, r)
        | Inr _ \<Rightarrow> (0, r\<lparr>sr_frequency_hz := fs, sr_profile_crc32 := cs, sr_profile_mask := used,
            sr_configured := True\<rparr>)))"

definition radio_acquire :: "scan_radio \<Rightarrow> u32 \<Rightarrow> u32 \<Rightarrow> u32 \<Rightarrow> unit ioctl \<Rightarrow> int \<times> scan_radio" where
  "radio_acquire r rate samples_per_block scan_mask answer =
     (if sr_acquired r \<or> sr_released r \<or> rate = 0 \<or> samples_per_block = 0 \<or>
         samples_per_block AND 1 \<noteq> 0 \<or> (scan_mask \<noteq> 0x03 \<and> scan_mask \<noteq> 0x0f) then (- EINVAL, r)
      else case answer of Inl e \<Rightarrow> (- e, r)
      | Inr _ \<Rightarrow> (0, r\<lparr>sr_acquired := True, sr_scan_mask := scan_mask\<rparr>))"

definition radio_diag_context :: "scan_radio \<Rightarrow> unit ioctl \<Rightarrow> int \<times> scan_radio" where
  "radio_diag_context r answer =
     (if sr_diagnostics_unavailable r then (0, r)
      else case answer of Inr _ \<Rightarrow> (0, r)
      | Inl e \<Rightarrow> if e = ENOTTY then (0, r\<lparr>sr_diagnostics_unavailable := True\<rparr>) else (- e, r))"

text \<open>Two counter readings, the second not before the first.\<close>

definition extend_pair :: "u64 \<Rightarrow> u32 \<Rightarrow> u32 \<Rightarrow> (u64 \<times> u64) res" where
  "extend_pair anchor low_before low_after =
     (case extend_counter anchor low_before of Inl e \<Rightarrow> Inl e
      | Inr before \<Rightarrow> (case extend_counter before low_after of Inl e \<Rightarrow> Inl e
        | Inr after \<Rightarrow> Inr (before, after)))"

definition radio_recall ::
  "scan_radio \<Rightarrow> u32 \<Rightarrow> u64 \<Rightarrow> recall_report ioctl \<Rightarrow> radio_receipt res \<times> scan_radio" where
  "radio_recall r profile anchor answer =
     (let k = unat profile in
      if \<not> sr_configured r \<or> sr_faulted r \<or> sr_released r \<or> RADIO_MAX_PROFILES \<le> profile \<or>
         sr_profile_mask r AND push_bit k 1 = 0 then (Inl (- EINVAL), r)
      else case answer of Inl e \<Rightarrow> (Inl (- e), r\<lparr>sr_faulted := True\<rparr>)
      | Inr y \<Rightarrow>
        if \<not> frequency_matches (ry_frequency_hz y) (sr_frequency_hz r ! k)
        then (Inl (- EPROTO), r\<lparr>sr_faulted := True\<rparr>)
        else (case extend_pair anchor (ry_counter_before y) (ry_counter_after y) of
          Inl e \<Rightarrow> (Inl e, r\<lparr>sr_faulted := True\<rparr>)
        | Inr (before, after) \<Rightarrow>
            (Inr \<lparr>rr_profile = profile, rr_frequency_hz = ry_frequency_hz y,
                rr_profile_crc32 = ry_profile_crc32 y, rr_counter_before = before,
                rr_counter_after = after\<rparr>,
             r\<lparr>sr_profile_crc32 := (sr_profile_crc32 r)[k := ry_profile_crc32 y]\<rparr>)))"

definition radio_release ::
  "scan_radio \<Rightarrow> u64 \<Rightarrow> release_report ioctl \<Rightarrow> release_receipt res \<times> scan_radio" where
  "radio_release r anchor answer =
     (if \<not> sr_acquired r \<or> sr_released r then (Inl (- EINVAL), r)
      else case answer of Inl e \<Rightarrow> (Inl (- e), r\<lparr>sr_faulted := True\<rparr>)
      | Inr z \<Rightarrow> (case extend_pair anchor (rz_counter_before z) (rz_counter_after z) of
          Inl e \<Rightarrow> (Inl e, r\<lparr>sr_faulted := True\<rparr>)
        | Inr (before, after) \<Rightarrow>
            if rz_frequency_hz z = 0 then (Inl (- EPROTO), r\<lparr>sr_faulted := True\<rparr>)
            else (Inr \<lparr>rl_frequency_hz = rz_frequency_hz z, rl_counter_before = before,
                rl_counter_after = after\<rparr>,
              r\<lparr>sr_released := True, sr_acquired := False\<rparr>)))"

definition radio_snapshot :: "scan_radio \<Rightarrow> u64 \<Rightarrow> u32 ioctl \<Rightarrow> u64 res \<times> scan_radio" where
  "radio_snapshot r anchor answer =
     (if \<not> sr_configured r \<or> sr_faulted r \<or> sr_released r then (Inl (- EINVAL), r)
      else case answer of Inl e \<Rightarrow> (Inl (- e), r\<lparr>sr_faulted := True\<rparr>)
      | Inr low \<Rightarrow> (case extend_counter anchor low of
          Inl e \<Rightarrow> (Inl e, r\<lparr>sr_faulted := True\<rparr>)
        | Inr counter \<Rightarrow> (Inr counter, r)))"

subsection \<open>Counters\<close>

text \<open>The extension is the first counter from the anchor on that has the given low bits.\<close>

lemma high_part: "unat ((x::u64) AND NOT 0xffffffff) = unat x div 2 ^ 32 * 2 ^ 32"
proof -
  have "x AND NOT 0xffffffff = push_bit 32 (drop_bit 32 x)"
    unfolding mask_eq_exp_minus_1 [of 32, where 'a = u64, simplified, symmetric]
    by (rule bit_word_eqI) (auto simp: bit_simps)
  moreover have "unat x div 2 ^ 32 * 2 ^ 32 < 2 ^ 64" "unat x div 2 ^ 32 < 2 ^ 32"
    using unat_u64_less [of x] by (simp_all add: less_mult_imp_div_less)
  ultimately show ?thesis
    unfolding \<open>_ AND _ = _\<close> unsigned_push_bit_eq unsigned_drop_bit_eq
    by (simp add: push_bit_eq_mult drop_bit_eq_div take_bit_nat_eq_self)
qed

lemma low_split:
  "unat ((x::u64) AND NOT 0xffffffff OR ucast (low::u32)) = unat x div 2 ^ 32 * 2 ^ 32 + unat low"
proof -
  let ?h = "x AND NOT 0xffffffff" and ?l = "ucast low :: u64"
  have "?h AND ?l = 0"
    unfolding mask_eq_exp_minus_1 [of 32, where 'a = u64, simplified, symmetric]
    by (rule bit_word_eqI) (auto simp: bit_simps dest: bit_imp_le_length)
  then have "?h OR ?l = ?h + ?l" by (simp add: disjunctive_add_eq_or)
  moreover have "unat x div 2 ^ 32 * 2 ^ 32 + unat low < 2 ^ 64"
  proof -
    have "unat x div 2 ^ 32 < 2 ^ 32" using unat_u64_less [of x] by (simp add: less_mult_imp_div_less)
    moreover have "unat low < 2 ^ 32" using unsigned_less [of low] by simp
    ultimately show ?thesis by simp
  qed
  ultimately show ?thesis using high_part [of x] by (simp add: unat_add_small)
qed

text \<open>The extension is a counter from the anchor on that has the given low bits.\<close>

lemma extend_counter_spec:
  assumes "extend_counter anchor low = Inr c"
  shows "anchor \<le> c" and "unat c mod 2 ^ 32 = unat low"
proof -
  let ?c = "anchor AND NOT 0xffffffff OR ucast low" and ?q = "unat anchor div 2 ^ 32 * 2 ^ 32"
  have l: "unat low < 2 ^ 32" using unsigned_less [of low] by simp
  have c: "unat ?c = ?q + unat low" by (rule low_split)
  have q: "unat anchor = ?q + unat anchor mod 2 ^ 32" by (metis div_mult_mod_eq)
  have "anchor \<le> c \<and> unat c mod 2 ^ 32 = unat low"
  proof (cases "?c < anchor")
    case False
    then show ?thesis using assms c l by (auto simp: extend_counter_def Let_def split: if_splits)
  next
    case True
    then have "\<not> UINT64_MAX - 0x100000000 < ?c" and e: "c = ?c + 0x100000000"
      using assms by (auto simp: extend_counter_def Let_def split: if_splits)
    then have "unat ?c + 2 ^ 32 < 2 ^ 64"
      by (simp add: word_less_nat_alt)
    then have "unat c = ?q + unat low + 2 ^ 32" using e c by (simp add: unat_add_small)
    then show ?thesis using q l by (simp add: word_le_nat_alt)
  qed
  then show "anchor \<le> c" and "unat c mod 2 ^ 32 = unat low" by blast+
qed

lemma extend_pair_spec: "extend_pair anchor l1 l2 = Inr (b, a) \<Longrightarrow> anchor \<le> b \<and> b \<le> a"
  by (auto simp: extend_pair_def split: sum.splits dest: extend_counter_spec(1))

subsection \<open>The radio's operations\<close>

lemma radio_recall_receipt:
  "radio_recall r profile anchor answer = (Inr c, r') \<Longrightarrow> rr_profile c = profile \<and>
     anchor \<le> rr_counter_before c \<and> rr_counter_before c \<le> rr_counter_after c"
  by (auto simp: radio_recall_def Let_def split: if_splits sum.splits dest: extend_pair_spec)

lemma radio_release_receipt:
  "radio_release r anchor answer = (Inr c, r') \<Longrightarrow>
     anchor \<le> rl_counter_before c \<and> rl_counter_before c \<le> rl_counter_after c \<and> sr_released r'"
  by (auto simp: radio_release_def split: if_splits sum.splits dest!: extend_pair_spec)

lemma radio_snapshot_counter: "radio_snapshot r anchor answer = (Inr c, r') \<Longrightarrow> anchor \<le> c"
  by (auto simp: radio_snapshot_def split: if_splits sum.splits dest: extend_counter_spec(1))

text \<open>The errors of the radio are negative numbers.\<close>

definition ioctl_ok :: "'a ioctl \<Rightarrow> bool" where
  "ioctl_ok a \<longleftrightarrow> (case a of Inl e \<Rightarrow> 0 < e \<and> e < 4096 | Inr _ \<Rightarrow> True)"

definition errno_code :: "int \<Rightarrow> bool" where
  "errno_code e \<longleftrightarrow> - 4096 < e \<and> e < 0"

lemma extend_errors:
  "extend_counter anchor low = Inl e \<Longrightarrow> errno_code e" "extend_pair anchor l1 l2 = Inl e \<Longrightarrow> errno_code e"
  by (auto simp: extend_counter_def extend_pair_def errno_code_def Let_def split: if_splits sum.splits)

lemma radio_errors:
  "ioctl_ok y \<Longrightarrow> radio_recall r profile anchor y = (Inl e, r') \<Longrightarrow> errno_code e"
  "ioctl_ok z \<Longrightarrow> radio_release r anchor z = (Inl e, r') \<Longrightarrow> errno_code e"
  "ioctl_ok n \<Longrightarrow> radio_snapshot r anchor n = (Inl e, r') \<Longrightarrow> errno_code e"
  "ioctl_ok d \<Longrightarrow> radio_diag_context r d = (e, r') \<Longrightarrow> e \<noteq> 0 \<Longrightarrow> errno_code e"
  by (auto simp: radio_recall_def radio_release_def radio_snapshot_def radio_diag_context_def Let_def
      ioctl_ok_def dest: extend_errors split: if_splits sum.splits) (auto simp: errno_code_def)

end
