(* ===== verification/Scan_Session.thy ===== *)
theory Scan_Session
  imports Scan_Messages Visit_Runs Scan_Radio
begin

unbundle bit_operations_syntax

text \<open>
  The scan session (\<open>iiod/spf-scan-session.c\<close>): it owns a scan policy, a visit queue and the radio.
  Each visit that the policy selects gets an entry in a ledger, a ring of the visits whose records
  the client has not received; a visit the queue admits is captured and sent with its samples. A
  session that ends, in whatever way, waits for the captured visits and then releases the radio.

  What the environment answers during one call (the driver, the clock) is a record \<open>scan_env\<close>. The
  queue's release callback and its context are the arguments \<open>release\<close> and \<open>ctx\<close> of the calls that
  return blocks. A status code and the error the session keeps are integers. A selection may not
  end (see \<open>policy_select\<close>), so \<open>session_schedule\<close> is partial. The diagnostics, text for a person,
  are left out.
\<close>

abbreviation (input) NO_ACTIVE :: u64 where "NO_ACTIVE \<equiv> UINT64_MAX"
abbreviation (input) REASON_COMPLETE :: u32 where "REASON_COMPLETE \<equiv> 1"
abbreviation (input) REASON_CANCELLED :: u32 where "REASON_CANCELLED \<equiv> 2"
abbreviation (input) REASON_INTERNAL :: u32 where "REASON_INTERNAL \<equiv> 3"
abbreviation (input) REASON_POLICY_SELECT :: u32 where "REASON_POLICY_SELECT \<equiv> 4"
abbreviation (input) REASON_RECALL_LATE :: u32 where "REASON_RECALL_LATE \<equiv> 5"
abbreviation (input) REASON_POLICY_COMMIT :: u32 where "REASON_POLICY_COMMIT \<equiv> 6"
abbreviation (input) STAGE_RECALL :: u32 where "STAGE_RECALL \<equiv> 1"
abbreviation (input) STAGE_RESTORE :: u32 where "STAGE_RESTORE \<equiv> 3"
abbreviation (input) STAGE_SESSION :: u32 where "STAGE_SESSION \<equiv> 6"
abbreviation (input) TERMINAL_CANCELLED :: u32 where "TERMINAL_CANCELLED \<equiv> 2"

record gain_observation =
  go_counter :: u64
  go_duration_ns :: u32
  go_rx1 :: u8
  go_rx2 :: u8
  go_valid :: bool

record ledger_entry =
  le_choice :: scan_choice
  le_recall :: radio_receipt
  le_valid_start :: u64
  le_valid_end :: u64
  le_admission :: visit_result
  le_gain :: gain_observation
  le_closed :: bool
  le_queued :: bool

record session_runtime =
  rt_block_count :: nat
  rt_headroom_blocks :: nat
  rt_block_samples :: u32
  rt_bytes_per_sample :: u32
  rt_drain_bytes_per_second :: u64

record scan_env =
  en_diag :: "unit ioctl"
  en_recall :: "recall_report ioctl"
  en_release :: "release_report ioctl"
  en_snapshot :: "u32 ioctl"
  en_clock_ns :: "u64 option"

record scan_session =
  sn_setup :: scan_setup
  sn_policy :: scan_policy
  sn_queue :: visit_queue
  sn_radio :: scan_radio
  sn_bytes_per_sample :: u32
  sn_ledger :: "ledger_entry list"
  sn_ledger_count :: u64
  sn_active :: u64
  sn_output_index :: u64
  sn_latest_counter :: u64
  sn_final_counter :: u64
  sn_current_profile :: u32
  sn_delivered :: u64
  sn_skipped :: u64
  sn_invalid :: u64
  sn_cancelled :: u64
  sn_iq_bytes :: u64
  sn_inflight_bytes :: u64
  sn_restoration :: release_receipt
  sn_inflight_result :: visit_result
  sn_error :: int
  sn_restoration_error :: int
  sn_failure_stage :: u32
  sn_failure_counter :: u64
  sn_failure_ns :: u64
  sn_failure_visit :: u64
  sn_failure_reason :: u32
  sn_stopping :: bool
  sn_failed :: bool
  sn_cancelled_session :: bool
  sn_released :: bool
  sn_output_inflight :: bool
  sn_current_profile_valid :: bool
  sn_terminal_taken :: bool

definition zero_receipt :: radio_receipt where
  "zero_receipt = \<lparr>rr_profile = 0, rr_frequency_hz = 0, rr_profile_crc32 = 0,
     rr_counter_before = 0, rr_counter_after = 0\<rparr>"

definition zero_gain :: gain_observation where
  "zero_gain = \<lparr>go_counter = 0, go_duration_ns = 0, go_rx1 = 0, go_rx2 = 0, go_valid = False\<rparr>"

definition zero_entry :: ledger_entry where
  "zero_entry = \<lparr>le_choice = zero_choice, le_recall = zero_receipt, le_valid_start = 0,
     le_valid_end = 0, le_admission = VISIT_ADMITTED, le_gain = zero_gain, le_closed = False,
     le_queued = False\<rparr>"

definition session_ticks :: "scan_session \<Rightarrow> u32 \<Rightarrow> u64" where
  "session_ticks s ms = scan_ticks (su_source_rate_hz (sn_setup s)) ms"

definition continuous :: "scan_session \<Rightarrow> bool" where
  "continuous s \<longleftrightarrow> su_version (sn_setup s) = CONTINUOUS_VERSION"

text \<open>The entry of a visit, at its number modulo the capacity.\<close>

definition ledger_slot :: "scan_session \<Rightarrow> u64 \<Rightarrow> nat" where
  "ledger_slot s i = unat i mod length (sn_ledger s)"

definition ledger_at :: "scan_session \<Rightarrow> u64 \<Rightarrow> ledger_entry" where
  "ledger_at s i = sn_ledger s ! ledger_slot s i"

definition ledger_set :: "scan_session \<Rightarrow> u64 \<Rightarrow> ledger_entry \<Rightarrow> scan_session" where
  "ledger_set s i e = s\<lparr>sn_ledger := (sn_ledger s)[ledger_slot s i := e]\<rparr>"

definition later_counter :: "scan_session \<Rightarrow> u64 \<Rightarrow> scan_session" where
  "later_counter s counter =
     s\<lparr>sn_latest_counter := (if sn_latest_counter s < counter then counter else sn_latest_counter s)\<rparr>"

subsection \<open>Closing, releasing, failing\<close>

definition close_active :: "scan_session \<Rightarrow> u64 \<Rightarrow> int \<times> scan_session" where
  "close_active s counter =
     (if sn_active s = NO_ACTIVE then (0, s)
      else let e = ledger_at s (sn_active s) in
      if le_closed e then (- EALREADY, s)
      else let (ret, q) = (if le_queued e
          then vq_close_window (sn_queue s) (choice_visit (le_choice e)) counter
          else (0, sn_queue s));
        s = s\<lparr>sn_queue := q\<rparr>
      in if ret \<noteq> 0 then (ret, s)
      else (0, (ledger_set s (sn_active s) (e\<lparr>le_closed := True\<rparr>))\<lparr>sn_active := NO_ACTIVE\<rparr>))"

definition maybe_release :: "scan_env \<Rightarrow> scan_session \<Rightarrow> int \<times> scan_session" where
  "maybe_release env s =
     (if \<not> sn_stopping s \<or> sn_released s \<or> \<not> vq_capture_complete (sn_queue s) then (0, s)
      else case radio_release (sn_radio s) (sn_latest_counter s) (en_release env) of
        (Inl e, r) \<Rightarrow>
          (let s = s\<lparr>sn_radio := r, sn_restoration_error :=
                 (if sn_restoration_error s = 0 then e else sn_restoration_error s)\<rparr>;
               s = (if sn_failed s then s else s\<lparr>sn_error := e, sn_failure_stage := STAGE_RESTORE\<rparr>)
           in (e, s\<lparr>sn_failed := True\<rparr>))
      | (Inr c, r) \<Rightarrow> (0, later_counter
          (s\<lparr>sn_radio := r, sn_restoration := c, sn_released := True\<rparr>) (rl_counter_after c)))"

definition close_from_output :: "scan_session \<Rightarrow> scan_session" where
  "close_from_output s = fold (\<lambda>i s. ledger_set s (of_nat i)
       ((ledger_at s (of_nat i))\<lparr>le_closed := True\<rparr>))
     [unat (sn_output_index s)..<unat (sn_ledger_count s)] s"

definition fail_session_reason ::
  "scan_env \<Rightarrow> scan_session \<Rightarrow> int \<Rightarrow> u64 \<Rightarrow> u32 \<Rightarrow> int \<times> scan_session" where
  "fail_session_reason env s err counter reason =
     (let s = (if sn_stopping s then s
        else let s = snd (close_active s counter);
          s = s\<lparr>sn_policy := policy_stop (sn_policy s) counter\<rparr>
        in (close_from_output s)\<lparr>sn_stopping := True, sn_final_counter := counter\<rparr>);
        s = s\<lparr>sn_queue := snd (vq_cancel (sn_queue s))\<rparr>;
        s = (if sn_failed s then s
        else s\<lparr>sn_error := (if err < 0 then err else - EIO), sn_failure_counter := counter,
          sn_failure_visit := (if sn_ledger_count s \<noteq> 0 then sn_ledger_count s - 1 else UINT64_MAX),
          sn_failure_ns := (case en_clock_ns env of None \<Rightarrow> sn_failure_ns s | Some ns \<Rightarrow> ns),
          sn_failure_stage := (if sn_failure_stage s = 0 then STAGE_SESSION else sn_failure_stage s),
          sn_failure_reason := (if reason \<noteq> 0 then reason else sn_failure_reason s)\<rparr>);
        s = snd (maybe_release env (later_counter (s\<lparr>sn_failed := True\<rparr>) counter))
      in (sn_error s, s))"

definition fail_session :: "scan_env \<Rightarrow> scan_session \<Rightarrow> int \<Rightarrow> u64 \<Rightarrow> int \<times> scan_session" where
  "fail_session env s err counter = fail_session_reason env s err counter 0"

definition session_fail :: "scan_env \<Rightarrow> scan_session \<Rightarrow> u64 \<Rightarrow> int \<Rightarrow> int \<times> scan_session" where
  "session_fail env s final_counter err =
     (if sn_released s \<or> err = 0 then (- EINVAL, s) else fail_session env s err final_counter)"

definition session_fail_stage ::
  "scan_env \<Rightarrow> scan_session \<Rightarrow> u64 \<Rightarrow> int \<Rightarrow> u32 \<Rightarrow> int \<times> scan_session" where
  "session_fail_stage env s counter err stage =
     session_fail env (if sn_failed s then s else s\<lparr>sn_failure_stage := stage\<rparr>) counter err"

subsection \<open>Creation\<close>

text \<open>The minimum of blocks and bytes that the versions with a fixed dwell need.\<close>

definition session_fits :: "scan_setup \<Rightarrow> session_runtime \<Rightarrow> int" where
  "session_fits u rt =
     (if su_version u \<noteq> RANDOM_DWELL_VERSION \<and> su_version u \<noteq> FIXED_DWELL_VERSION \<and>
         su_version u \<noteq> CONTINUOUS_VERSION then 0
      else if rt_block_samples rt = 0 \<or> rt_block_count rt < 4 \<or> rt_headroom_blocks rt = 0 \<or>
         rt_block_count rt \<le> rt_headroom_blocks rt then - EINVAL
      else let visit_samples = scan_ticks (su_source_rate_hz u) (su_dwell_ms u);
        visit_bytes = visit_samples * ucast (rt_bytes_per_sample rt);
        required = (visit_samples + ucast (rt_block_samples rt) - 1) div ucast (rt_block_samples rt) + 1
      in if su_maximum_queue_bytes u < visit_bytes \<or>
          rt_block_count rt - rt_headroom_blocks rt < unat required then - ENOSPC else 0)"

definition session_capacity :: "scan_setup \<Rightarrow> u32" where
  "session_capacity u =
     (if su_version u = CONTINUOUS_VERSION then su_maximum_queue_visits u + 2
      else su_duration_ms u div
        (if su_version u = RANDOM_DWELL_VERSION then 120 else su_dwell_ms u) + 1)"

definition session_queue_config :: "scan_setup \<Rightarrow> session_runtime \<Rightarrow> vq_config" where
  "session_queue_config u rt = \<lparr>block_count = rt_block_count rt,
     headroom_blocks = rt_headroom_blocks rt, maximum_visits = unat (su_maximum_queue_visits u),
     block_samples = rt_block_samples rt, vq_rate_hz = su_source_rate_hz u,
     maximum_bytes = su_maximum_queue_bytes u,
     maximum_age_ticks = ucast (su_source_rate_hz u) * ucast (su_maximum_queue_age_ms u) div 1000,
     drain_bytes_per_second = rt_drain_bytes_per_second rt,
     bytes_per_sample = rt_bytes_per_sample rt,
     maximum_visit_ms = (if su_version u = CONTINUOUS_VERSION then 20
       else if su_version u = RANDOM_DWELL_VERSION \<or> su_version u = FIXED_DWELL_VERSION then 360
       else 240),
     preserve_partial = (su_version u = CONTINUOUS_VERSION)\<rparr>"

text \<open>What the driver answers to \<open>acquire\<close> and \<open>configure\<close>, and which allocations succeed.\<close>

record create_env =
  ce_env :: scan_env
  ce_acquire :: "unit ioctl"
  ce_configure :: "unit ioctl"
  ce_session_memory :: bool
  ce_ledger_memory :: bool
  ce_policy_memory :: bool
  ce_visits_memory :: bool
  ce_queue_memory :: bool

text \<open>The parts of a session in the order they are made, or the error at which that stops; the
  radio and the latest counter come back in both cases.\<close>

definition session_parts :: "create_env \<Rightarrow> scan_setup \<Rightarrow> session_runtime \<Rightarrow> scan_radio \<Rightarrow> u64 \<Rightarrow>
    (scan_policy \<times> visit_queue) res \<times> scan_radio \<times> u64" where
  "session_parts ce u rt r start =
     (let profiles = map (\<lambda>t. \<lparr>rp_profile = tg_profile t, rp_frequency_hz = tg_frequency_hz t,
          rp_crc32 = tg_profile_crc32 t\<rparr>) (take (unat (su_target_count u)) (su_targets u));
        (ret, r) = radio_acquire r (su_source_rate_hz u) (rt_block_samples rt)
          (if su_rx_mask u = SCAN_RX1_RX2 then 0x0f else 0x03) (ce_acquire ce)
      in if ret \<noteq> 0 then (Inl ret, r, start)
      else let (ret, r) = radio_diag_context r (en_diag (ce_env ce)) in
      if ret \<noteq> 0 then (Inl ret, r, start)
      else let (ret, r) = radio_configure r profiles (ce_configure ce) in
      if ret \<noteq> 0 then (Inl ret, r, start)
      else case radio_snapshot r start (en_snapshot (ce_env ce)) of
        (Inl e, r) \<Rightarrow> (Inl e, r, start)
      | (Inr actual, r) \<Rightarrow>
          (case policy_create (ce_policy_memory ce) (ce_visits_memory ce) (setup_policy u) actual of
            Inl e \<Rightarrow> (Inl e, r, actual)
          | Inr p \<Rightarrow> (case vq_create (ce_queue_memory ce) (session_queue_config u rt) of
              Inl e \<Rightarrow> (Inl e, r, actual)
            | Inr q \<Rightarrow> (Inr (p, q), r, actual))))"

definition session_create :: "create_env \<Rightarrow> scan_setup \<Rightarrow> session_runtime \<Rightarrow> scan_radio \<Rightarrow> u64 \<Rightarrow>
    scan_session res \<times> scan_radio" where
  "session_create ce u rt r start =
     (if rt_bytes_per_sample rt \<noteq> 4 \<and> rt_bytes_per_sample rt \<noteq> 8 then (Inl (- EINVAL), r)
      else let ret = setup_validate u in
      if ret \<noteq> 0 then (Inl ret, r)
      else let ret = session_fits u rt in
      if ret \<noteq> 0 then (Inl ret, r)
      else let capacity = session_capacity u in
      if SCAN_MAX_VISITS < capacity then (Inl (- E2BIG), r)
      else if \<not> ce_session_memory ce \<or> \<not> ce_ledger_memory ce then (Inl (- ENOMEM), r)
      else case session_parts ce u rt r start of
        (Inl e, r, counter) \<Rightarrow> (Inl e, snd (radio_release r counter (en_release (ce_env ce))))
      | (Inr (p, q), r, counter) \<Rightarrow> (Inr \<lparr>sn_setup = u, sn_policy = p, sn_queue = q, sn_radio = r,
          sn_bytes_per_sample = rt_bytes_per_sample rt,
          sn_ledger = replicate (unat capacity) zero_entry, sn_ledger_count = 0,
          sn_active = NO_ACTIVE, sn_output_index = 0, sn_latest_counter = counter,
          sn_final_counter = 0, sn_current_profile = 0, sn_delivered = 0, sn_skipped = 0,
          sn_invalid = 0, sn_cancelled = 0, sn_iq_bytes = 0, sn_inflight_bytes = 0,
          sn_restoration = \<lparr>rl_frequency_hz = 0, rl_counter_before = 0, rl_counter_after = 0\<rparr>,
          sn_inflight_result = VISIT_ADMITTED, sn_error = 0, sn_restoration_error = 0,
          sn_failure_stage = 0, sn_failure_counter = 0, sn_failure_ns = 0, sn_failure_visit = 0,
          sn_failure_reason = 0, sn_stopping = False, sn_failed = False,
          sn_cancelled_session = False, sn_released = False, sn_output_inflight = False,
          sn_current_profile_valid = False, sn_terminal_taken = False\<rparr>, r))"

text \<open>The policy starts again at a counter that is anchored in the captured data.\<close>

definition session_rebase ::
  "scan_env \<Rightarrow> bool \<Rightarrow> bool \<Rightarrow> scan_session \<Rightarrow> u64 \<Rightarrow> int \<times> scan_session" where
  "session_rebase env mem visits_mem s anchor =
     (if sn_stopping s \<or> sn_released s \<or> sn_ledger_count s \<noteq> 0 \<or> sn_active s \<noteq> NO_ACTIVE \<or>
         sn_output_index s \<noteq> 0 \<or> sn_output_inflight s then (- EBUSY, s)
      else case radio_snapshot (sn_radio s) anchor (en_snapshot env) of
        (Inl e, r) \<Rightarrow> fail_session env (s\<lparr>sn_radio := r\<rparr>) e anchor
      | (Inr actual, r) \<Rightarrow> let s = s\<lparr>sn_radio := r\<rparr> in
          (case policy_create mem visits_mem (setup_policy (sn_setup s)) actual of
            Inl e \<Rightarrow> fail_session env s e actual
          | Inr p \<Rightarrow> (0, s\<lparr>sn_policy := p, sn_latest_counter := actual\<rparr>)))"

subsection \<open>Scheduling a visit\<close>

definition make_failed_entry :: "scan_session \<Rightarrow> u64 \<Rightarrow> u64 \<Rightarrow> bool \<Rightarrow> scan_session" where
  "make_failed_entry s i counter queued =
     (let e = ledger_at s i; t = su_targets (sn_setup s) ! choice_target (le_choice e)
      in ledger_set s i (e\<lparr>
        le_admission := (if queued then le_admission e else VISIT_CANCELLED), le_queued := queued,
        le_recall := \<lparr>rr_profile = tg_profile t, rr_frequency_hz = tg_frequency_hz t,
          rr_profile_crc32 = tg_profile_crc32 t, rr_counter_before = counter,
          rr_counter_after = counter\<rparr>,
        le_valid_start := counter, le_valid_end := counter\<rparr>))"

definition failed_choice :: "int \<times> scan_session \<Rightarrow> scan_choice res \<times> scan_session" where
  "failed_choice = map_prod Inl id"

text \<open>The window of the visit is known and fits the policy: admission to the queue.\<close>

definition schedule_admit ::
  "scan_env \<Rightarrow> scan_session \<Rightarrow> scan_choice \<Rightarrow> u64 \<Rightarrow> u64 \<Rightarrow> u64 \<Rightarrow> scan_choice res \<times> scan_session" where
  "schedule_admit env s c now recalled valid_start =
     (let i = sn_ledger_count s - 1; samples = ucast (session_ticks s (choice_dwell_ms c)) :: u32 in
      if UINT64_MAX - ucast samples < valid_start
      then failed_choice (fail_session env
        (make_failed_entry s i now (le_queued (ledger_at s i))) (- EOVERFLOW) recalled)
      else case vq_reserve (sn_queue s) (choice_visit c) samples now of
        (Inl e, q) \<Rightarrow> failed_choice (fail_session env
          (make_failed_entry (s\<lparr>sn_queue := q\<rparr>) i now False) e now)
      | (Inr admission, q) \<Rightarrow>
          (let queued = (admission = VISIT_ADMITTED);
             s = ledger_set (s\<lparr>sn_queue := q\<rparr>) i ((ledger_at s i)\<lparr>le_admission := admission,
               le_queued := queued, le_valid_start := valid_start,
               le_valid_end := valid_start + ucast samples\<rparr>)
           in if \<not> queued \<and> continuous s
           then failed_choice (fail_session env
             (ledger_set s i ((ledger_at s i)\<lparr>le_closed := True\<rparr>)) (- ENOSPC) recalled)
           else let (ret, q) = (if queued then vq_bind (sn_queue s) (choice_visit c) valid_start
               else (0, sn_queue s)); s = s\<lparr>sn_queue := q\<rparr>
           in if ret \<noteq> 0
           then failed_choice (fail_session env (make_failed_entry s i now True) ret recalled)
           else (Inr c, later_counter (s\<lparr>sn_active := choice_visit c\<rparr>) recalled)))"

definition schedule_commit ::
  "scan_env \<Rightarrow> scan_session \<Rightarrow> scan_choice \<Rightarrow> u64 \<Rightarrow> u64 \<Rightarrow> u64 \<Rightarrow> scan_choice res \<times> scan_session" where
  "schedule_commit env s c now recalled valid_start =
     (let (ret, p) = policy_commit (sn_policy s) valid_start; s = s\<lparr>sn_policy := p\<rparr>;
        i = sn_ledger_count s - 1
      in if ret = - ENODATA \<and> 1 < sn_ledger_count s \<and> \<not> continuous s
      then (Inl (- ENODATA), later_counter (s\<lparr>sn_ledger_count := i\<rparr>) recalled)
      else let ret = (if ret = - ENODATA then - ETIME else ret) in
      if ret \<noteq> 0
      then failed_choice (fail_session_reason env
        (make_failed_entry s i now (le_queued (ledger_at s i))) ret recalled
        (if ret = - ETIME then REASON_POLICY_COMMIT else 0))
      else schedule_admit env s c now recalled valid_start)"

text \<open>The radio is tuned: the first valid sample.\<close>

definition schedule_window ::
  "scan_env \<Rightarrow> scan_session \<Rightarrow> scan_choice \<Rightarrow> u64 \<Rightarrow> radio_receipt \<Rightarrow> scan_choice res \<times> scan_session" where
  "schedule_window env s c now recall =
     (let i = sn_ledger_count s - 1; before = rr_counter_before recall;
        after = rr_counter_after recall;
        s = ledger_set s i ((ledger_at s i)\<lparr>le_recall := recall\<rparr>);
        budget = session_ticks s (su_transition_budget_ms (sn_setup s));
        guard = (if sn_current_profile_valid s \<and> sn_current_profile s =
            tg_profile (su_targets (sn_setup s) ! choice_target c) \<and> before = after
          then 0 else budget);
        guard = (if continuous s then budget else guard);
        failed = make_failed_entry s i now (le_queued (ledger_at s i));
        valid_start = selection_counter c + guard
      in if UINT64_MAX - guard < selection_counter c
      then failed_choice (fail_session env failed (- EOVERFLOW) after)
      else if after < before
      then failed_choice (fail_session_reason env failed (- ETIME) after REASON_RECALL_LATE)
      else if (continuous s \<or> valid_start < after) \<and> UINT64_MAX - guard < after
      then failed_choice (fail_session env failed (- EOVERFLOW) after)
      else schedule_commit env s c now after
        (if (continuous s \<or> valid_start < after) \<and> valid_start < after + guard
         then after + guard else valid_start))"

definition schedule_recall ::
  "scan_env \<Rightarrow> scan_session \<Rightarrow> scan_choice \<Rightarrow> u64 \<Rightarrow> u64 \<Rightarrow> scan_choice res \<times> scan_session" where
  "schedule_recall env s c now anchor =
     (let i = sn_ledger_count s - 1; t = su_targets (sn_setup s) ! choice_target c;
        failed = (\<lambda>s e. failed_choice (session_fail_stage env
          (make_failed_entry s i now (le_queued (ledger_at s i))) now e STAGE_RECALL))
      in if sn_current_profile_valid s \<and> sn_current_profile s = tg_profile t
      then schedule_window env s c now \<lparr>rr_profile = sn_current_profile s,
        rr_frequency_hz = tg_frequency_hz t, rr_profile_crc32 = tg_profile_crc32 t,
        rr_counter_before = anchor, rr_counter_after = anchor\<rparr>
      else let (ret, r) = radio_diag_context (sn_radio s) (en_diag env); s = s\<lparr>sn_radio := r\<rparr> in
      if ret \<noteq> 0 then failed s ret
      else case radio_recall r (tg_profile t) anchor (en_recall env) of
        (Inl e, r) \<Rightarrow> failed (s\<lparr>sn_radio := r\<rparr>) e
      | (Inr recall, r) \<Rightarrow> schedule_window env (s\<lparr>sn_radio := r,
          sn_current_profile := rr_profile recall, sn_current_profile_valid := True\<rparr>) c now recall)"

definition session_schedule ::
  "scan_env \<Rightarrow> scan_session \<Rightarrow> u64 \<Rightarrow> u64 \<Rightarrow> (scan_choice res \<times> scan_session) option" where
  "session_schedule env s now anchor =
     (if sn_stopping s \<or> sn_failed s then Some (Inl (- EINVAL), s)
      else let (ret, s) = close_active s now in
      if ret \<noteq> 0 then Some (failed_choice (fail_session env s ret now))
      else case policy_select (sn_policy s) now of
        None \<Rightarrow> None
      | Some (Inl e, p) \<Rightarrow> let s = s\<lparr>sn_policy := p\<rparr> in
          if e = - ETIME \<or> continuous s
          then Some (failed_choice (fail_session_reason env s e now REASON_POLICY_SELECT))
          else Some (Inl e, s)
      | Some (Inr c, p) \<Rightarrow> let s = s\<lparr>sn_policy := p\<rparr>; i = sn_ledger_count s in
          if choice_visit c \<noteq> i \<or> length (sn_ledger s) \<le> unat (i - sn_output_index s)
          then Some (failed_choice (fail_session env s (- EOVERFLOW) now))
          else Some (schedule_recall env ((ledger_set s i (zero_entry\<lparr>le_choice := c\<rparr>))
            \<lparr>sn_ledger_count := i + 1\<rparr>) c now anchor))"

subsection \<open>Observing and feeding\<close>

definition session_next_boundary :: "scan_session \<Rightarrow> u64 res" where
  "session_next_boundary s =
     (if sn_stopping s then Inl (- ESHUTDOWN)
      else if sn_active s = NO_ACTIVE then Inl (- EAGAIN)
      else Inr (le_valid_end (ledger_at s (sn_active s))))"

definition session_observe_gain :: "scan_session \<Rightarrow> u64 \<Rightarrow> gain_observation \<Rightarrow> int \<times> scan_session" where
  "session_observe_gain s visit g =
     (let e = ledger_at s visit in
      if sn_ledger_count s \<le> visit \<or> visit \<noteq> sn_active s then (- EINVAL, s)
      else if su_version (sn_setup s) \<noteq> RANDOM_DWELL_VERSION then (0, s)
      else if length (sn_ledger s) < unat (sn_ledger_count s - visit) then (- ESTALE, s)
      else if go_counter g < le_valid_end e \<or>
          go_valid g \<and> (0x7f < go_rx1 g \<or> 0x7f < go_rx2 g) then (- ERANGE, s)
      else (0, ledger_set s visit (e\<lparr>le_gain := g\<rparr>)))"

definition session_feed :: "('c \<Rightarrow> u64 \<Rightarrow> int \<times> 'c) \<Rightarrow> 'c \<Rightarrow> scan_env \<Rightarrow> scan_session \<Rightarrow>
    u64 \<Rightarrow> u64 \<Rightarrow> u64 \<Rightarrow> u32 \<Rightarrow> int \<times> 'c \<times> scan_session" where
  "session_feed release ctx env s token data first samples =
     (if sn_released s \<or> UINT64_MAX - ucast samples < first then (- EINVAL, ctx, s)
      else let (ret, q) = vq_feed (sn_queue s) token data first samples; s = s\<lparr>sn_queue := q\<rparr>;
        stop = first + ucast samples
      in if ret \<noteq> 0 then (case fail_session env s ret first of (e, s) \<Rightarrow> (e, ctx, s))
      else let s = later_counter s stop; (ret, ctx, q) = vq_reap release ctx (sn_queue s);
        s = s\<lparr>sn_queue := q\<rparr>
      in if ret \<noteq> 0 then (case fail_session env s ret stop of (e, s) \<Rightarrow> (e, ctx, s))
      else if continuous s \<and> \<not> sn_stopping s \<and> missing_samples (stats (sn_queue s)) \<noteq> 0
      then (0, ctx, snd (fail_session env s (- ENODATA) stop))
      else (case maybe_release env s of (e, s) \<Rightarrow> (e, ctx, s)))"

definition session_feedback :: "scan_session \<Rightarrow> scan_feedback \<Rightarrow> u64 \<Rightarrow> feedback_result \<times> scan_session" where
  "session_feedback s f received =
     (if sn_stopping s \<or> sn_failed s then (FB_REJECTED, s)
      else map_prod id (\<lambda>p. s\<lparr>sn_policy := p\<rparr>) (policy_feedback (sn_policy s) f received))"

definition session_take_ack :: "scan_session \<Rightarrow> scan_ack res \<times> scan_session" where
  "session_take_ack s = map_prod id (\<lambda>p. s\<lparr>sn_policy := p\<rparr>) (policy_take_ack (sn_policy s))"

subsection \<open>Output\<close>

fun visit_result_code :: "visit_result \<Rightarrow> u32" where
  "visit_result_code VISIT_ADMITTED = 0"
| "visit_result_code VISIT_COMPLETE = 1"
| "visit_result_code VISIT_SKIP_CAPACITY = 2"
| "visit_result_code VISIT_SKIP_AGE = 3"
| "visit_result_code VISIT_INVALID_GAP = 4"
| "visit_result_code VISIT_CANCELLED = 5"

definition make_record :: "scan_session \<Rightarrow> ledger_entry \<Rightarrow> visit_result \<Rightarrow> visit_record" where
  "make_record s e result =
     (let u = sn_setup s; c = le_choice e; t = su_targets u ! choice_target c; g = le_gain e in
      \<lparr>vr_version = su_version u, vr_session = su_session u, vr_generation = su_generation u,
       vr_visit = choice_visit c, vr_selection_counter = selection_counter c,
       vr_transition_before = rr_counter_before (le_recall e),
       vr_transition_after = rr_counter_after (le_recall e), vr_valid_start = le_valid_start e,
       vr_valid_end = le_valid_end e, vr_frequency_hz = tg_frequency_hz t,
       vr_iq_bytes = (if result = VISIT_COMPLETE
         then (le_valid_end e - le_valid_start e) * ucast (sn_bytes_per_sample s) else 0),
       vr_missing_before = 0, vr_bandwidth_hz = su_bandwidth_hz u,
       vr_source_rate_hz = su_source_rate_hz u, vr_target = of_nat (choice_target c),
       vr_profile = tg_profile t, vr_result = visit_result_code result,
       vr_eligible_mask = eligible_mask c, vr_effective_weight = effective_weight c,
       vr_profile_crc32 = rr_profile_crc32 (le_recall e),
       vr_flags = VISIT_FLAGS OR (if deadline_forced c then 2 else 0),
       vr_gain_counter = (if go_valid g then go_counter g else 0),
       vr_gain_duration_ns = (if go_valid g then go_duration_ns g else 0),
       vr_rx1_gain = (if go_valid g then go_rx1 g else 0),
       vr_rx2_gain = (if go_valid g then go_rx2 g else 0),
       vr_gain_valid = (if go_valid g then 1 else 0)\<rparr>)"

definition session_take_output ::
  "scan_env \<Rightarrow> scan_session \<Rightarrow> (visit_record \<times> vq_slice list) res \<times> scan_session" where
  "session_take_output env s =
     (let e = ledger_at s (sn_output_index s);
        sent = (\<lambda>r result slices s. (Inr (r, slices), s\<lparr>sn_inflight_result := result,
          sn_output_inflight := True, sn_inflight_bytes := vr_iq_bytes r\<rparr>))
      in if sn_output_inflight s then (Inl (- EBUSY), s)
      else if sn_ledger_count s \<le> sn_output_index s \<or> \<not> le_closed e then (Inl (- EAGAIN), s)
      else if \<not> le_queued e then
        (let r = make_record s e (le_admission e);
           r = (if continuous s then r\<lparr>vr_valid_end := vr_valid_start r\<rparr> else r)
         in sent r (le_admission e) [] s)
      else case vq_take (sn_queue s) of
        (Inl err, q) \<Rightarrow> (Inl err, s\<lparr>sn_queue := q\<rparr>)
      | (Inr v, q) \<Rightarrow> let s = s\<lparr>sn_queue := q\<rparr> in
          if view_id v \<noteq> choice_visit (le_choice e)
          then map_prod Inl id (fail_session env s (- EILSEQ) (sn_latest_counter s))
          else let r = make_record s e (view_result v);
            r = (if continuous s then r\<lparr>vr_valid_end := view_end v,
                vr_iq_bytes := (view_end v - view_start v) * ucast (sn_bytes_per_sample s)\<rparr> else r)
          in sent r (view_result v) (view_slices v) s)"

text \<open>The counters that the result of an output adds to.\<close>

definition count_output :: "scan_session \<Rightarrow> ledger_entry \<Rightarrow> visit_result \<Rightarrow> scan_session" where
  "count_output s e result =
     (if result = VISIT_COMPLETE then s\<lparr>sn_delivered := sn_delivered s + 1,
        sn_iq_bytes := (if continuous s then sn_iq_bytes s else sn_iq_bytes s +
          (le_valid_end e - le_valid_start e) * ucast (sn_bytes_per_sample s))\<rparr>
      else if result = VISIT_SKIP_CAPACITY \<or> result = VISIT_SKIP_AGE
      then s\<lparr>sn_skipped := sn_skipped s + 1\<rparr>
      else if result = VISIT_INVALID_GAP then s\<lparr>sn_invalid := sn_invalid s + 1\<rparr>
      else s\<lparr>sn_cancelled := sn_cancelled s + 1\<rparr>)"

text \<open>After the queue has taken the view back: policy, counters, and the next output.\<close>

definition settle_output :: "scan_env \<Rightarrow> scan_session \<Rightarrow> u64 \<Rightarrow> bool \<Rightarrow> int \<Rightarrow> int \<times> scan_session" where
  "settle_output env s visit transported transport_error =
     (let e = ledger_at s (sn_output_index s);
        result = (if transported then sn_inflight_result s else VISIT_CANCELLED);
        (ret, p) = (if le_valid_start e < le_valid_end e
          then policy_finish_visit (sn_policy s) visit (result = VISIT_COMPLETE)
          else (0, sn_policy s));
        s = s\<lparr>sn_policy := p\<rparr>
      in if ret \<noteq> 0 then fail_session env s ret (sn_latest_counter s)
      else let s = count_output s e result;
        next = (\<lambda>s. s\<lparr>sn_output_inflight := False, sn_output_index := sn_output_index s + 1\<rparr>)
      in if transported \<and> continuous s \<and> UINT64_MAX - sn_iq_bytes s < sn_inflight_bytes s
      then fail_session env (next s) (- EOVERFLOW) (sn_latest_counter s)
      else let s = next (if transported \<and> continuous s
          then s\<lparr>sn_iq_bytes := sn_iq_bytes s + sn_inflight_bytes s\<rparr> else s)
      in if \<not> transported
      then fail_session env s (if transport_error < 0 then transport_error else - EIO)
        (sn_latest_counter s)
      else maybe_release env s)"

definition finish_output :: "('c \<Rightarrow> u64 \<Rightarrow> int \<times> 'c) \<Rightarrow> 'c \<Rightarrow> scan_env \<Rightarrow> scan_session \<Rightarrow>
    u64 \<Rightarrow> bool \<Rightarrow> int \<Rightarrow> int \<times> 'c \<times> scan_session" where
  "finish_output release ctx env s visit transported transport_error =
     (let e = ledger_at s (sn_output_index s)
      in if \<not> sn_output_inflight s \<or> sn_ledger_count s \<le> sn_output_index s then (- EINVAL, ctx, s)
      else if choice_visit (le_choice e) \<noteq> visit then (- EINVAL, ctx, s)
      else if \<not> le_queued e
      then map_prod id (Pair ctx) (settle_output env s visit transported transport_error)
      else case vq_take (sn_queue s) of (taken, q) \<Rightarrow> let s = s\<lparr>sn_queue := q\<rparr> in
        (case taken of Inr v \<Rightarrow> (- EIO, ctx, s)
        | Inl ret \<Rightarrow>
          if ret \<noteq> - EBUSY then (ret, ctx, s)
          else let (ret, q) = vq_complete_send (sn_queue s) visit; s = s\<lparr>sn_queue := q\<rparr> in
          if ret \<noteq> 0 then map_prod id (Pair ctx) (fail_session env s ret (sn_latest_counter s))
          else let (ret, ctx, q) = vq_reap release ctx (sn_queue s); s = s\<lparr>sn_queue := q\<rparr> in
          if ret \<noteq> 0 then map_prod id (Pair ctx) (fail_session env s ret (sn_latest_counter s))
          else map_prod id (Pair ctx) (settle_output env s visit transported transport_error)))"

subsection \<open>The end of a session\<close>

definition session_stop :: "scan_env \<Rightarrow> scan_session \<Rightarrow> u64 \<Rightarrow> int \<times> scan_session" where
  "session_stop env s counter =
     (if sn_stopping s then (if continuous s then maybe_release env s else (- EINVAL, s))
      else let counter = (if counter < sn_latest_counter s then sn_latest_counter s else counter);
        (ret, s) = close_active s counter
      in if ret \<noteq> 0 then fail_session env s ret counter
      else maybe_release env (later_counter (s\<lparr>sn_policy := policy_stop (sn_policy s) counter,
        sn_stopping := True, sn_final_counter := counter\<rparr>) counter))"

definition session_cancel :: "scan_env \<Rightarrow> scan_session \<Rightarrow> u64 \<Rightarrow> int \<times> scan_session" where
  "session_cancel env s counter =
     (if sn_stopping s then
        (if \<not> continuous s then (- EINVAL, s)
         else if sn_released s then (0, s)
         else let s = s\<lparr>sn_queue := snd (vq_cancel (sn_queue s)), sn_cancelled_session := True\<rparr>
           in maybe_release env (if sn_failed s then s else s\<lparr>sn_error := - ECANCELED\<rparr>))
      else let (ret, s) = close_active s counter in
      if ret \<noteq> 0 then fail_session env s ret counter
      else let s = s\<lparr>sn_policy := policy_stop (sn_policy s) counter\<rparr>;
        (ret, q) = vq_cancel (sn_queue s); s = s\<lparr>sn_queue := q\<rparr>
      in if ret \<noteq> 0 \<and> ret \<noteq> - EBUSY then fail_session env s ret counter
      else maybe_release env (later_counter (s\<lparr>sn_stopping := True, sn_cancelled_session := True,
        sn_error := - ECANCELED, sn_final_counter := counter\<rparr>) counter))"

definition session_terminal :: "scan_session \<Rightarrow> scan_terminal res \<times> scan_session" where
  "session_terminal s =
     (let st = stats (sn_queue s) in
      if \<not> sn_stopping s \<or> \<not> sn_released s \<or> sn_output_inflight s \<or>
         sn_output_index s \<noteq> sn_ledger_count s then (Inl (- EAGAIN), s)
      else if visit_total st \<noteq> 0 \<or> leased_blocks st \<noteq> 0 \<or> reserved_blocks st \<noteq> 0 \<or>
         reserved_bytes st \<noteq> 0 then (Inl (- EAGAIN), s)
      else if sn_terminal_taken s then (Inl (- EALREADY), s)
      else (Inr \<lparr>te_session = su_session (sn_setup s), te_generation = su_generation (sn_setup s),
          te_final_counter = sn_final_counter s,
          te_restore_before = rl_counter_before (sn_restoration s),
          te_restore_after = rl_counter_after (sn_restoration s),
          te_planned = sn_ledger_count s, te_delivered = sn_delivered s,
          te_skipped = sn_skipped s, te_invalid = sn_invalid s, te_cancelled = sn_cancelled s,
          te_iq_bytes = sn_iq_bytes s,
          te_state = (if sn_failed s then TERMINAL_FAILED
            else if sn_cancelled_session s then TERMINAL_CANCELLED else TERMINAL_COMPLETED),
          te_reason = (if sn_failed s
            then (if sn_failure_reason s \<noteq> 0 then sn_failure_reason s else REASON_INTERNAL)
            else if sn_cancelled_session s \<or> continuous s then REASON_CANCELLED else REASON_COMPLETE),
          te_error = (if sn_failed s \<or> sn_cancelled_session s then of_int (sn_error s) else 0),
          te_flags = TERMINAL_FLAGS\<rparr>,
        s\<lparr>sn_terminal_taken := True\<rparr>))"

definition session_status :: "scan_session \<Rightarrow> scan_control \<Rightarrow> scan_status res" where
  "session_status s q =
     (let e = ledger_at s (sn_active s); idle = (sn_active s = NO_ACTIVE) in
      if \<not> continuous s then Inl (- EOPNOTSUPP)
      else if co_session q \<noteq> su_session (sn_setup s) \<or> co_generation q \<noteq> su_generation (sn_setup s)
      then Inl (- ESTALE)
      else Inr \<lparr>ss_identity = q, ss_planned = sn_ledger_count s, ss_delivered = sn_delivered s,
        ss_counter = sn_latest_counter s,
        ss_valid_start = (if idle then 0 else le_valid_start e),
        ss_valid_end = (if idle then 0 else le_valid_end e),
        ss_sweep = sn_ledger_count s div SCAN_TARGETS,
        ss_state = (if sn_failed s then 4 else if sn_released s then 3 else if sn_stopping s then 2 else 1),
        ss_target = (if idle then UINT32_MAX else of_nat (choice_target (le_choice e))),
        ss_queued_visits = ucast (sn_ledger_count s - sn_output_index s),
        ss_error = of_int (sn_error s),
        ss_terminal_state = (if \<not> sn_stopping s then 0 else if sn_failed s then TERMINAL_FAILED
          else if sn_cancelled_session s then TERMINAL_CANCELLED else TERMINAL_COMPLETED),
        ss_terminal_reason = (if \<not> sn_stopping s then 0
          else if sn_failed s then (if sn_failure_reason s \<noteq> 0 then sn_failure_reason s else REASON_INTERNAL)
          else 2),
        ss_restore_after = rl_counter_after (sn_restoration s),
        ss_restored_flags = (if sn_released s then TERMINAL_FLAGS else 0)\<rparr>)"

definition session_destroy :: "scan_session \<Rightarrow> int" where
  "session_destroy s =
     (if \<not> sn_released s \<or> sn_output_inflight s \<or> sn_output_index s \<noteq> sn_ledger_count s then - EBUSY
      else vq_destroy (sn_queue s))"

end
