(* ===== verification/Session_Books.thy ===== *)
theory Session_Books
  imports Scan_Session
begin

text \<open>
  The books of a scan session: the ledger entries that are not yet settled, in order, and how the
  visits of the queue belong to them. The core invariant \<open>session_core\<close> says that the outstanding
  entries have the visit numbers from the output index on, that every visit of the queue belongs to
  a queued entry, in the same order and with the same window, and that the four result counters
  add up to the number of settled visits.
\<close>

subsection \<open>The visits of the queue\<close>

text \<open>The queue keeps its configuration; \<open>fed\<close> is the configuration and the blocks it has accepted.\<close>

type_synonym vq_history = "vq_config \<times> (u64 \<times> u64) list"

definition held :: "visit_queue \<Rightarrow> vq_history \<Rightarrow> bool" where
  "held q fed \<longleftrightarrow> vq_ok q (snd fed) \<and> vq_cfg q = fst fed"

lemma held_ok: "held q fed \<Longrightarrow> vq_ok q (snd fed)"
  by (simp add: held_def)

lemma held_call:
  assumes "held q fed" and "vq_call release op (ctx, q, snd fed) = (ctx', q', fed')"
  shows "held q' (fst fed, fed')"
  using assms call_vq_ok call_cfg by (fastforce simp: held_def)

lemma held_steps:
  assumes q: "held q fed"
  shows "held (snd (vq_reserve q vid samples now)) fed" "held (snd (vq_bind q vid start)) fed"
    "held (snd (vq_complete_send q vid)) fed" "held (snd (vq_close_window q vid invalid)) fed"
    "held (snd (vq_take q)) fed" "held (snd (vq_cancel q)) fed"
    "held (snd (snd (vq_reap release ctx q))) fed"
    "held (snd (vq_feed q token data first samples))
       (fst fed, if fst (vq_feed q token data first samples) = 0 then (token, first) # snd fed else snd fed)"
  using held_call [OF q, where op = "Reserve vid samples now"] held_call [OF q, where op = "Bind vid start"]
    held_call [OF q, where op = "Complete_Send vid"] held_call [OF q, where op = "Close_Window vid invalid"]
    held_call [OF q, where op = Take_View] held_call [OF q, where op = Cancel]
    held_call [OF q, where op = Reap and release = release and ctx = ctx]
    held_call [OF q, where op = "Feed token data first samples"]
  by (simp_all add: case_prod_beta)

definition idents :: "visit_queue \<Rightarrow> (u64 \<times> u32 \<times> u64 \<times> u64 \<times> bool) list" where
  "idents q = map ident (active q)"

lemma reserve_idents:
  assumes q: "held q fed" and run: "vq_reserve q vid samples now = (r, q')"
  shows "held q' fed"
    and "idents q' = (if r = Inr VISIT_ADMITTED then idents q @ [(vid, samples, now, 0, False)] else idents q)"
proof -
  show "held q' fed" using held_steps(1) [OF q, of vid samples now] run by simp
  show "idents q' = (if r = Inr VISIT_ADMITTED then idents q @ [(vid, samples, now, 0, False)] else idents q)"
    by (rule reserve_cases [OF vq_okD(1) [OF held_ok [OF q]], of vid samples now])
      (use run in \<open>auto simp: idents_def fresh_visit_def zero_vq_visit_def ident_def\<close>)
qed

lemma bind_idents:
  assumes q: "held q fed" and run: "vq_bind q vid start = (ret, q')"
    and idents: "idents q = vs @ [(vid, samples, now, 0, False)]"
  shows "held q' fed" and "ret \<noteq> 0 \<Longrightarrow> idents q' = idents q"
    and "ret = 0 \<Longrightarrow> idents q' = vs @ [(vid, samples, now, start, True)] \<and> start \<le> UINT64_MAX - ucast samples"
proof -
  let ?n = "visit_total (stats q) - 1"
  let ?v = "vq_at q ?n"
  let ?w = "?v\<lparr>v_start := start, v_next := start, v_end := start + ucast (v_samples ?v), bound := True\<rparr>"
  note sh = vq_booksD(1) [OF vq_okD(1) [OF held_ok [OF q]]]
  show "held q' fed" using held_steps(2) [OF q, of vid start] run by simp
  show "ret \<noteq> 0 \<Longrightarrow> idents q' = idents q"
    using run by (auto simp: vq_bind_def Let_def split: if_splits)
  have n: "visit_total (stats q) = length vs + 1"
    using arg_cong [OF idents, of length] by (simp add: idents_def)
  then have i: "?n < visit_total (stats q)" by simp
  have at: "ident ?v = (vid, samples, now, 0, False)"
    using arg_cong [OF idents, of "\<lambda>l. l ! length vs"] vq_at_active [OF sh i] n by (simp add: idents_def)
  assume "ret = 0"
  then have q': "q' = (vq_set q ?n ?w)\<lparr>last_valid_end := start + ucast (v_samples ?v)\<rparr>"
    and le: "start \<le> UINT64_MAX - ucast (v_samples ?v)"
    using run by (auto simp: vq_bind_def Let_def split: if_splits)
  have "map ident ((active q)[?n := ?w]) = (map ident (active q))[?n := (vid, samples, now, start, True)]"
    using at by (simp add: map_update ident_def)
  also have "\<dots> = vs @ [(vid, samples, now, start, True)]"
    using idents n by (simp add: idents_def list_update_append)
  finally show "idents q' = vs @ [(vid, samples, now, start, True)] \<and> start \<le> UINT64_MAX - ucast samples"
    using le at active_vq_set [OF sh i, of ?w] by (simp add: idents_def q' ident_def)
qed

lemma complete_idents:
  assumes q: "held q fed" and run: "vq_complete_send q vid = (ret, q')"
  shows "held q' fed" and "ret \<noteq> 0 \<Longrightarrow> idents q' = idents q"
    and "ret = 0 \<Longrightarrow> idents q \<noteq> [] \<and> fst (hd (idents q)) = vid \<and> idents q' = tl (idents q)"
proof -
  show "held q' fed" using held_steps(3) [OF q, of vid] run by simp
  show "ret \<noteq> 0 \<Longrightarrow> idents q' = idents q"
    and "ret = 0 \<Longrightarrow> idents q \<noteq> [] \<and> fst (hd (idents q)) = vid \<and> idents q' = tl (idents q)"
    by (rule complete_send_cases [OF vq_okD(1) [OF held_ok [OF q]], of vid];
        use run in \<open>auto simp: idents_def ident_def\<close>)+
qed

lemma same_idents:
  assumes q: "held q fed"
  shows "idents (snd (vq_close_window q vid invalid)) = idents q" "idents (snd (vq_take q)) = idents q"
    "idents (snd (vq_cancel q)) = idents q" "idents (snd (snd (vq_reap release ctx q))) = idents q"
    "idents (snd (vq_feed q token data first samples)) = idents q"
proof -
  show "idents (snd (vq_close_window q vid invalid)) = idents q"
    by (rule close_cases [OF vq_okD(1) [OF held_ok [OF q]], of vid invalid]) (auto simp: idents_def map_ident_update)
  show "idents (snd (vq_take q)) = idents q"
    by (rule take_cases [OF held_ok [OF q]]) (auto simp: idents_def)
  have "vq_books (q\<lparr>cancelled := True\<rparr>)" using vq_okD(1) [OF held_ok [OF q]] by simp
  from cancel_loop(3) [OF this refl refl, of 0] show "idents (snd (vq_cancel q)) = idents q"
    by (auto simp: vq_cancel_def idents_def)
  show "idents (snd (snd (vq_reap release ctx q))) = idents q"
    by (simp add: idents_def reap_active [OF held_ok [OF q]])
  show "idents (snd (vq_feed q token data first samples)) = idents q"
    by (simp add: idents_def feed_active [OF held_ok [OF q]])
qed

subsection \<open>The outstanding entries\<close>

text \<open>The entries with the numbers from \<open>a\<close> up to \<open>b\<close>.\<close>

definition window :: "ledger_entry list \<Rightarrow> nat \<Rightarrow> nat \<Rightarrow> ledger_entry list" where
  "window l a b = map (\<lambda>i. l ! (i mod length l)) [a..<b]"

lemma length_window [simp]: "length (window l a b) = b - a"
  by (simp add: window_def)

lemma nth_window: "i < b - a \<Longrightarrow> window l a b ! i = l ! ((a + i) mod length l)"
  by (simp add: window_def)

lemma mod_window_inj:
  assumes "(i::nat) mod n = j mod n" and "a \<le> i" "i < b" "a \<le> j" "j < b" "b - a \<le> n"
  shows "i = j"
proof (rule ccontr)
  assume "i \<noteq> j"
  then consider "i < j" | "j < i" by linarith
  then show False
  proof cases
    case 1
    then have "n dvd j - i" using assms(1) mod_eq_dvd_iff_nat [of i j n] by simp
    then show False using assms 1 by (auto dest: dvd_imp_le)
  next
    case 2
    then have "n dvd i - j" using assms(1) mod_eq_dvd_iff_nat [of j i n] by simp
    then show False using assms 2 by (auto dest: dvd_imp_le)
  qed
qed

lemma window_update:
  assumes "a \<le> i" "i < b" "b - a \<le> length l"
  shows "window (l[i mod length l := e]) a b = (window l a b)[i - a := e]"
proof (rule nth_equalityI)
  fix j assume "j < length (window (l[i mod length l := e]) a b)"
  then have j: "j < b - a" by simp
  have "(a + j) mod length l = i mod length l \<longleftrightarrow> j = i - a"
    using mod_window_inj [of "a + j" "length l" i a b] assms j by auto
  moreover have "i mod length l < length l" using assms by (intro mod_less_divisor) linarith
  ultimately show "window (l[i mod length l := e]) a b ! j = (window l a b)[i - a := e] ! j"
    using assms j by (auto simp: nth_window nth_list_update)
qed simp

lemma window_snoc:
  assumes "a \<le> b" "b - a < length l"
  shows "window (l[b mod length l := e]) a (b + 1) = window l a b @ [e]"
proof (rule nth_equalityI)
  fix j assume "j < length (window (l[b mod length l := e]) a (b + 1))"
  then have j: "j < b + 1 - a" by simp
  have "(a + j) mod length l = b mod length l \<longleftrightarrow> a + j = b"
    using mod_window_inj [of "a + j" "length l" b a "b + 1"] assms j by auto
  then have "(a + j) mod length l = b mod length l \<longleftrightarrow> j = b - a" using assms by auto
  moreover have "b mod length l < length l" using assms by (intro mod_less_divisor) linarith
  ultimately show "window (l[b mod length l := e]) a (b + 1) ! j = (window l a b @ [e]) ! j"
    using assms j by (auto simp: nth_window nth_list_update nth_append)
qed (use assms in simp)

lemma window_Cons: "a < b \<Longrightarrow> window l a b = l ! (a mod length l) # window l (a + 1) b"
  by (simp add: window_def upt_conv_Cons)

lemma window_butlast: "window l a (b - 1) = butlast (window l a b)"
  by (cases "a < b") (auto simp: window_def butlast_conv_take take_map)

definition entries :: "scan_session \<Rightarrow> ledger_entry list" where
  "entries s = window (sn_ledger s) (unat (sn_output_index s)) (unat (sn_ledger_count s))"

text \<open>What the books say of an entry, and the visits of the queue that fit it.\<close>

definition key :: "ledger_entry \<Rightarrow> bool \<times> u64 \<times> u64 \<times> u64 \<times> bool" where
  "key e = (le_queued e, choice_visit (le_choice e), le_valid_start e, le_valid_end e,
     le_admission e \<noteq> VISIT_COMPLETE)"

lemma key_simps [simp]: "fst (key e) = le_queued e" "fst (snd (key e)) = choice_visit (le_choice e)"
  "snd (snd (snd (snd (key e)))) \<longleftrightarrow> le_admission e \<noteq> VISIT_COMPLETE"
  by (simp_all add: key_def)

fun fits :: "u64 \<times> u32 \<times> u64 \<times> u64 \<times> bool \<Rightarrow> bool \<times> u64 \<times> u64 \<times> u64 \<times> bool \<Rightarrow> bool" where
  "fits (vid, samples, _, start, bnd) (_, visit, valid_start, valid_end, _) \<longleftrightarrow> vid = visit \<and>
     (bnd \<longrightarrow> start = valid_start \<and> unat valid_end = unat start + unat samples)"

definition queued_keys :: "ledger_entry list \<Rightarrow> (bool \<times> u64 \<times> u64 \<times> u64 \<times> bool) list" where
  "queued_keys es = filter fst (map key es)"

lemma queued_keys_simps [simp]:
  "queued_keys [] = []"
  "queued_keys (e # es) = (if le_queued e then key e # queued_keys es else queued_keys es)"
  "queued_keys (es @ fs) = queued_keys es @ queued_keys fs"
  by (simp_all add: queued_keys_def)

text \<open>A session that failed while it returned a visit to the queue has lost the head: \<open>lost\<close>.\<close>

definition agree :: "bool \<Rightarrow> (u64 \<times> u32 \<times> u64 \<times> u64 \<times> bool) list \<Rightarrow> ledger_entry list \<Rightarrow> bool" where
  "agree lost vs es \<longleftrightarrow> list_all2 fits vs (queued_keys es) \<or>
     lost \<and> es \<noteq> [] \<and> le_queued (hd es) \<and> list_all2 fits vs (tl (queued_keys es))"

lemma agree_keys: "map key fs = map key es \<Longrightarrow> agree lost vs fs = agree lost vs es"
proof -
  assume k: "map key fs = map key es"
  have "es \<noteq> [] \<and> le_queued (hd es) \<longleftrightarrow> fs \<noteq> [] \<and> le_queued (hd fs)"
    using k by (cases es; cases fs) (auto dest: arg_cong [where f = fst])
  then show ?thesis using k by (auto simp: agree_def queued_keys_def)
qed

lemma agree_idle: "\<not> le_queued e \<Longrightarrow> (lost \<Longrightarrow> es \<noteq> []) \<Longrightarrow> agree lost vs (es @ [e]) = agree lost vs es"
  by (auto simp: agree_def)

lemma agree_snoc:
  assumes "agree lost vs es" and "lost \<Longrightarrow> es \<noteq> []" and "fits v (key e)" and "le_queued e"
  shows "agree lost (vs @ [v]) (es @ [e])"
proof (cases "list_all2 fits vs (queued_keys es)")
  case True
  then show ?thesis using assms by (simp add: agree_def list_all2_appendI)
next
  case False
  then have l: "lost" "es \<noteq> []" "le_queued (hd es)" "list_all2 fits vs (tl (queued_keys es))"
    using assms(1) by (auto simp: agree_def)
  then have "queued_keys es \<noteq> []" by (cases es) auto
  then show ?thesis using l assms(3,4) by (simp add: agree_def list_all2_appendI)
qed

definition session_core :: "bool \<Rightarrow> nat \<Rightarrow> vq_history \<Rightarrow> scan_session \<Rightarrow> bool" where
  "session_core lost n fed s \<longleftrightarrow> 0 < length (sn_ledger s) \<and> held (sn_queue s) fed \<and>
     unat (sn_output_index s) \<le> unat (sn_ledger_count s) \<and> unat (sn_ledger_count s) \<le> n \<and>
     unat (sn_ledger_count s) - unat (sn_output_index s) \<le> length (sn_ledger s) \<and>
     map (fst \<circ> snd) (map key (entries s)) =
       map of_nat [unat (sn_output_index s)..<unat (sn_ledger_count s)] \<and>
     list_all (snd \<circ> snd \<circ> snd \<circ> snd) (map key (entries s)) \<and>
     unat (sn_delivered s) + unat (sn_skipped s) + unat (sn_invalid s) + unat (sn_cancelled s)
       = unat (sn_output_index s) \<and>
     (sn_output_inflight s \<longrightarrow> sn_output_index s < sn_ledger_count s) \<and>
     agree lost (idents (sn_queue s)) (entries s)"

lemma core_simps [simp]:
  "session_core lost n fed (s\<lparr>sn_policy := p\<rparr>) = session_core lost n fed s"
  "session_core lost n fed (s\<lparr>sn_radio := r\<rparr>) = session_core lost n fed s"
  "session_core lost n fed (s\<lparr>sn_active := a\<rparr>) = session_core lost n fed s"
  "session_core lost n fed (s\<lparr>sn_latest_counter := c\<rparr>) = session_core lost n fed s"
  "session_core lost n fed (s\<lparr>sn_final_counter := c\<rparr>) = session_core lost n fed s"
  "session_core lost n fed (s\<lparr>sn_current_profile := k\<rparr>) = session_core lost n fed s"
  "session_core lost n fed (s\<lparr>sn_current_profile_valid := b\<rparr>) = session_core lost n fed s"
  "session_core lost n fed (s\<lparr>sn_iq_bytes := c\<rparr>) = session_core lost n fed s"
  "session_core lost n fed (s\<lparr>sn_inflight_bytes := c\<rparr>) = session_core lost n fed s"
  "session_core lost n fed (s\<lparr>sn_inflight_result := vr\<rparr>) = session_core lost n fed s"
  "session_core lost n fed (s\<lparr>sn_restoration := rl\<rparr>) = session_core lost n fed s"
  "session_core lost n fed (s\<lparr>sn_error := e\<rparr>) = session_core lost n fed s"
  "session_core lost n fed (s\<lparr>sn_restoration_error := e\<rparr>) = session_core lost n fed s"
  "session_core lost n fed (s\<lparr>sn_failure_stage := k\<rparr>) = session_core lost n fed s"
  "session_core lost n fed (s\<lparr>sn_failure_counter := c\<rparr>) = session_core lost n fed s"
  "session_core lost n fed (s\<lparr>sn_failure_ns := c\<rparr>) = session_core lost n fed s"
  "session_core lost n fed (s\<lparr>sn_failure_visit := c\<rparr>) = session_core lost n fed s"
  "session_core lost n fed (s\<lparr>sn_failure_reason := k\<rparr>) = session_core lost n fed s"
  "session_core lost n fed (s\<lparr>sn_stopping := b\<rparr>) = session_core lost n fed s"
  "session_core lost n fed (s\<lparr>sn_failed := b\<rparr>) = session_core lost n fed s"
  "session_core lost n fed (s\<lparr>sn_cancelled_session := b\<rparr>) = session_core lost n fed s"
  "session_core lost n fed (s\<lparr>sn_released := b\<rparr>) = session_core lost n fed s"
  "session_core lost n fed (s\<lparr>sn_terminal_taken := b\<rparr>) = session_core lost n fed s"
  "session_core lost n fed (later_counter s c) = session_core lost n fed s"
  by (simp_all add: session_core_def entries_def later_counter_def)

lemma core_weaken: "session_core lost n fed s \<Longrightarrow> (lost \<Longrightarrow> lost') \<Longrightarrow> n \<le> m \<Longrightarrow> session_core lost' m fed s"
  by (auto simp: session_core_def agree_def)

lemma core_queue:
  "session_core lost n fed s \<Longrightarrow> held q fed' \<Longrightarrow> idents q = idents (sn_queue s) \<Longrightarrow>
     session_core lost n fed' (s\<lparr>sn_queue := q\<rparr>)"
  by (simp add: session_core_def entries_def)

lemma core_queueD: "session_core lost n fed s \<Longrightarrow> held (sn_queue s) fed"
  by (simp add: session_core_def)

lemma entries_keys:
  assumes "map key l = map key (sn_ledger s)"
  shows "map key (entries (s\<lparr>sn_ledger := l\<rparr>)) = map key (entries s)"
proof -
  have w: "map key (window m a b) = map (\<lambda>i. map key m ! (i mod length (map key m))) [a..<b]"
    if "0 < length m" for m a b
    using that by (simp add: window_def)
  show ?thesis
  proof (cases "sn_ledger s = []")
    case False
    then have "0 < length (sn_ledger s)" "0 < length l" using arg_cong [OF assms, of length] by auto
    then show ?thesis by (simp add: entries_def w assms)
  qed (use assms in \<open>simp add: entries_def\<close>)
qed

lemma core_ledger:
  assumes "session_core lost n fed s" and "map key l = map key (sn_ledger s)"
  shows "session_core lost n fed (s\<lparr>sn_ledger := l\<rparr>)"
  using assms(1) arg_cong [OF assms(2), of length] agree_keys [OF entries_keys [OF assms(2)]]
  unfolding session_core_def by (simp add: entries_keys [OF assms(2)] del: map_map)

lemma keys_update: "(k < length l \<Longrightarrow> key e = key (l ! k)) \<Longrightarrow> map key (l[k := e]) = map key l"
  by (cases "k < length l") (simp_all add: map_update list_update_same_conv list_update_beyond)

lemma core_set_same:
  "session_core lost n fed s \<Longrightarrow> key e = key (ledger_at s i) \<Longrightarrow> session_core lost n fed (ledger_set s i e)"
  unfolding ledger_set_def by (rule core_ledger) (simp_all add: ledger_at_def keys_update)

subsection \<open>Closing, releasing and failing\<close>

lemma close_active_frame:
  obtains q l a where "snd (close_active s c) = s\<lparr>sn_queue := q, sn_ledger := l, sn_active := a\<rparr>"
proof -
  have "snd (close_active s c) = s\<lparr>sn_queue := sn_queue (snd (close_active s c)),
      sn_ledger := sn_ledger (snd (close_active s c)), sn_active := sn_active (snd (close_active s c))\<rparr>"
    by (auto simp: close_active_def ledger_set_def Let_def split: if_splits prod.splits)
  then show thesis by (rule that)
qed

lemma close_active_core:
  assumes "session_core lost n fed s"
  shows "session_core lost n fed (snd (close_active s c))"
proof -
  let ?e = "ledger_at s (sn_active s)"
  have q: "session_core lost n fed (s\<lparr>sn_queue := q\<rparr>)" if "vq_close_window (sn_queue s) k c = (r, q)" for k r q
    using core_queue [OF assms held_steps(4) [OF core_queueD [OF assms], of k c]]
      same_idents(1) [OF core_queueD [OF assms], of k c] that by simp
  have e: "session_core lost n fed (ledger_set t (sn_active s) (?e\<lparr>le_closed := True\<rparr>))"
    if "session_core lost n fed t" "sn_ledger t = sn_ledger s" for t
    using that by (intro core_set_same) (simp_all add: key_def ledger_at_def ledger_slot_def)
  show ?thesis
    using assms q e [of s] e [of "s\<lparr>sn_queue := _\<rparr>"]
    by (auto simp: close_active_def Let_def split: prod.splits if_splits)
qed

lemma close_from_output_frame:
  obtains l where "close_from_output s = s\<lparr>sn_ledger := l\<rparr>" and "map key l = map key (sn_ledger s)"
proof -
  have "\<exists>l. fold (\<lambda>i s. ledger_set s (of_nat i) ((ledger_at s (of_nat i))\<lparr>le_closed := True\<rparr>)) is t
      = s\<lparr>sn_ledger := l\<rparr> \<and> map key l = map key (sn_ledger s)"
    if "t = s\<lparr>sn_ledger := m\<rparr>" "map key m = map key (sn_ledger s)" for "is" t m
    using that
  proof (induction "is" arbitrary: t m)
    case (Cons i "is")
    let ?e = "(ledger_at t (of_nat i))\<lparr>le_closed := True\<rparr>"
    have e: "key ?e = key (ledger_at t (of_nat i))" by (simp add: key_def)
    have "map key (m[ledger_slot t (of_nat i) := ?e]) = map key (sn_ledger s)"
      using e by (subst keys_update) (simp_all add: Cons.prems ledger_at_def)
    moreover have "ledger_set t (of_nat i) ?e = s\<lparr>sn_ledger := m[ledger_slot t (of_nat i) := ?e]\<rparr>"
      by (simp add: ledger_set_def Cons.prems(1))
    ultimately show ?case using Cons.IH [OF _ _] by simp
  qed auto
  from this [of s "sn_ledger s"] show thesis using that unfolding close_from_output_def by auto
qed

lemma maybe_release_core:
  "session_core lost n fed s \<Longrightarrow> session_core lost n fed (snd (maybe_release env s))"
  by (auto simp: maybe_release_def Let_def split: prod.splits sum.splits)

text \<open>What a step may not touch unless it deals with an output.\<close>

definition same_output :: "scan_session \<Rightarrow> scan_session \<Rightarrow> bool" where
  "same_output s s' \<longleftrightarrow> sn_setup s' = sn_setup s \<and> sn_bytes_per_sample s' = sn_bytes_per_sample s \<and>
     sn_output_index s' = sn_output_index s \<and> sn_output_inflight s' = sn_output_inflight s \<and>
     sn_ledger_count s' = sn_ledger_count s \<and> sn_terminal_taken s' = sn_terminal_taken s \<and>
     (sn_stopping s \<longrightarrow> sn_stopping s') \<and> (sn_failed s \<longrightarrow> sn_failed s')"

lemma same_output_refl [simp]: "same_output s s"
  by (simp add: same_output_def)

lemma same_output_trans: "same_output s t \<Longrightarrow> same_output t u \<Longrightarrow> same_output s u"
  by (simp add: same_output_def)

lemma later_counter_simps [simp]:
  "same_output s (later_counter t c) = same_output s t" "sn_failed (later_counter t c) = sn_failed t"
  "sn_stopping (later_counter t c) = sn_stopping t" "sn_setup (later_counter t c) = sn_setup t"
  "sn_output_inflight (later_counter t c) = sn_output_inflight t"
  "sn_queue (later_counter t c) = sn_queue t" "entries (later_counter t c) = entries t"
  "sn_error (later_counter t c) = sn_error t" "sn_released (later_counter t c) = sn_released t"
  "sn_ledger_count (later_counter t c) = sn_ledger_count t"
  "sn_output_index (later_counter t c) = sn_output_index t"
  "sn_terminal_taken (later_counter t c) = sn_terminal_taken t"
  by (simp_all add: same_output_def later_counter_def entries_def)

lemma close_active_same: "same_output s (snd (close_active s c))"
  by (rule close_active_frame [of s c]) (simp add: same_output_def)

lemma maybe_release_same: "same_output s (snd (maybe_release env s))"
  by (auto simp: maybe_release_def same_output_def later_counter_def Let_def split: prod.splits sum.splits)

text \<open>The times and the error: the radio is released after the final counter, a failure is an
  error code.\<close>

definition c_int :: "int \<Rightarrow> bool" where
  "c_int e \<longleftrightarrow> - (2 ^ 31) \<le> e \<and> e < 2 ^ 31"

lemma errno_c_int: "errno_code e \<Longrightarrow> c_int e"
  by (simp add: errno_code_def c_int_def)

definition session_timed :: "scan_session \<Rightarrow> bool" where
  "session_timed s \<longleftrightarrow> (sn_stopping s \<longrightarrow> sn_final_counter s \<le> sn_latest_counter s) \<and>
     (sn_released s \<longrightarrow> sn_stopping s \<and> sn_final_counter s \<le> rl_counter_before (sn_restoration s) \<and>
        rl_counter_before (sn_restoration s) \<le> rl_counter_after (sn_restoration s)) \<and>
     (sn_failed s \<longrightarrow> sn_stopping s \<and> c_int (sn_error s) \<and> sn_error s < 0)"

lemma maybe_release_timed:
  assumes "session_timed s" and "ioctl_ok (en_release env)"
  shows "session_timed (snd (maybe_release env s))"
proof (cases "\<not> sn_stopping s \<or> sn_released s \<or> \<not> vq_capture_complete (sn_queue s)")
  case True
  then show ?thesis using assms(1) by (auto simp: maybe_release_def)
next
  case False
  obtain x r where run: "radio_release (sn_radio s) (sn_latest_counter s) (en_release env) = (x, r)"
    by (metis prod.collapse)
  show ?thesis
  proof (cases x)
    case (Inl e)
    then have "errno_code e" using radio_errors(2) [OF assms(2)] run by blast
    then show ?thesis
      using False assms(1) errno_c_int [of e]
      by (auto simp: maybe_release_def run Inl session_timed_def errno_code_def Let_def)
  next
    case (Inr c)
    then show ?thesis
      using radio_release_receipt [of "sn_radio s" "sn_latest_counter s" "en_release env" c r] run False assms(1)
      by (auto simp: maybe_release_def session_timed_def later_counter_def)
  qed
qed

lemma close_active_timed: "session_timed s \<Longrightarrow> session_timed (snd (close_active s c))"
  by (rule close_active_frame [of s c]) (simp add: session_timed_def)

text \<open>A failure in three steps: stop, record the error, release.\<close>

definition stop_failed :: "scan_session \<Rightarrow> u64 \<Rightarrow> scan_session" where
  "stop_failed s counter =
     (let s = (if sn_stopping s then s
        else let s = snd (close_active s counter);
          s = s\<lparr>sn_policy := policy_stop (sn_policy s) counter\<rparr>
        in (close_from_output s)\<lparr>sn_stopping := True, sn_final_counter := counter\<rparr>)
      in s\<lparr>sn_queue := snd (vq_cancel (sn_queue s))\<rparr>)"

lemma stop_failed_core:
  assumes "session_core lost n fed s"
  shows "session_core lost n fed (stop_failed s c)"
proof -
  have q: "session_core lost n fed (t\<lparr>sn_queue := snd (vq_cancel (sn_queue t))\<rparr>)"
    if "session_core lost n fed t" for t
    using core_queue [OF that held_steps(6) [OF core_queueD [OF that]]] same_idents(3) [OF core_queueD [OF that]]
    by simp
  have "session_core lost n fed (close_from_output t)" if "session_core lost n fed t" for t
    using that by (rule_tac close_from_output_frame [of t]) (simp add: core_ledger)
  then show ?thesis
    using assms by (simp add: stop_failed_def Let_def q close_active_core)
qed

lemma close_from_output_fields [simp]:
  "sn_setup (close_from_output s) = sn_setup s" "sn_failed (close_from_output s) = sn_failed s"
  "sn_bytes_per_sample (close_from_output s) = sn_bytes_per_sample s"
  "sn_output_index (close_from_output s) = sn_output_index s"
  "sn_output_inflight (close_from_output s) = sn_output_inflight s"
  "sn_ledger_count (close_from_output s) = sn_ledger_count s"
  "sn_terminal_taken (close_from_output s) = sn_terminal_taken s"
  "sn_released (close_from_output s) = sn_released s" "sn_error (close_from_output s) = sn_error s"
  by (rule close_from_output_frame [of s]; simp)+

lemma stop_failed_fields:
  "same_output s (stop_failed s c)" "sn_stopping (stop_failed s c)"
  "sn_failed (stop_failed s c) = sn_failed s" "sn_error (stop_failed s c) = sn_error s"
  "sn_released (stop_failed s c) = sn_released s"
  "sn_latest_counter (stop_failed s c) = sn_latest_counter s"
  "sn_restoration (stop_failed s c) = sn_restoration s"
  "sn_final_counter (stop_failed s c) = (if sn_stopping s then sn_final_counter s else c)"
  by (rule close_active_frame [of s c], rule close_from_output_frame [of "(snd (close_active s c))
        \<lparr>sn_policy := policy_stop (sn_policy (snd (close_active s c))) c\<rparr>"];
      simp add: stop_failed_def Let_def same_output_def)+

lemma fail_session_split:
  "\<exists>s'. snd (fail_session_reason env s err counter reason) = snd (maybe_release env (later_counter s' counter)) \<and>
     (\<forall>lost n fed. session_core lost n fed (stop_failed s counter) \<longrightarrow> session_core lost n fed s') \<and>
     same_output s s' \<and> sn_stopping s' \<and> sn_failed s' \<and>
     sn_error s' = (if sn_failed s then sn_error s else if err < 0 then err else - EIO) \<and>
     sn_released s' = sn_released s \<and> sn_restoration s' = sn_restoration s \<and>
     sn_final_counter s' = (if sn_stopping s then sn_final_counter s else counter) \<and>
     sn_latest_counter s' = sn_latest_counter s"
proof -
  define t where "t = stop_failed s counter"
  define u where "u = (if sn_failed t then t
        else t\<lparr>sn_error := (if err < 0 then err else - EIO), sn_failure_counter := counter,
          sn_failure_visit := (if sn_ledger_count t \<noteq> 0 then sn_ledger_count t - 1 else UINT64_MAX),
          sn_failure_ns := (case en_clock_ns env of None \<Rightarrow> sn_failure_ns t | Some ns \<Rightarrow> ns),
          sn_failure_stage := (if sn_failure_stage t = 0 then STAGE_SESSION else sn_failure_stage t),
          sn_failure_reason := (if reason \<noteq> 0 then reason else sn_failure_reason t)\<rparr>)"
  have "snd (fail_session_reason env s err counter reason) =
      snd (maybe_release env (later_counter (u\<lparr>sn_failed := True\<rparr>) counter))"
    by (simp only: fail_session_reason_def Let_def u_def t_def stop_failed_def snd_conv)
  then show ?thesis
    using stop_failed_fields [of s counter]
    by (intro exI [of _ "u\<lparr>sn_failed := True\<rparr>"]) (simp add: u_def t_def same_output_def)
qed

definition session_inv :: "nat \<Rightarrow> vq_history \<Rightarrow> scan_session \<Rightarrow> bool" where
  "session_inv n fed s \<longleftrightarrow> session_timed s \<and>
     session_core (sn_output_inflight s \<and> sn_failed s) n fed s"

lemma session_invD:
  assumes "session_inv n fed s"
  shows "session_timed s" and "session_core (sn_output_inflight s) n fed s"
    and "\<not> sn_failed s \<Longrightarrow> session_core False n fed s"
  using assms core_weaken [of "sn_output_inflight s \<and> sn_failed s" n fed s "sn_output_inflight s" n]
    core_weaken [of "sn_output_inflight s \<and> sn_failed s" n fed s False n]
  by (auto simp: session_inv_def)

lemma session_inv_release:
  assumes "session_timed s" "session_core (sn_output_inflight s \<and> sn_failed s) n fed s" "ioctl_ok (en_release env)"
  shows "session_inv n fed (snd (maybe_release env s))"
  using maybe_release_timed [OF assms(1,3)] maybe_release_core [OF assms(2), of env]
    maybe_release_same [of s env] core_weaken [OF maybe_release_core [OF assms(2), of env] _ order_refl]
  by (auto simp: session_inv_def same_output_def)

lemma fail_session_inv:
  assumes "session_core (sn_output_inflight s) n fed s" and "session_timed s"
    and "ioctl_ok (en_release env)" and "c_int err"
  shows "session_inv n fed (snd (fail_session_reason env s err counter reason))"
    and "same_output s (snd (fail_session_reason env s err counter reason))"
    and "sn_failed (snd (fail_session_reason env s err counter reason))"
proof -
  obtain s' where run: "snd (fail_session_reason env s err counter reason)
        = snd (maybe_release env (later_counter s' counter))"
    and core: "session_core (sn_output_inflight s) n fed s'"
    and s': "same_output s s'" "sn_stopping s'" "sn_failed s'"
      "sn_error s' = (if sn_failed s then sn_error s else if err < 0 then err else - EIO)"
      "sn_released s' = sn_released s" "sn_restoration s' = sn_restoration s"
      "sn_final_counter s' = (if sn_stopping s then sn_final_counter s else counter)"
      "sn_latest_counter s' = sn_latest_counter s"
    using fail_session_split [of env s err counter reason] stop_failed_core [OF assms(1), of counter] by blast
  have "session_timed (later_counter s' counter)"
    using assms(2,4) s'(2-) by (auto simp: session_timed_def later_counter_def c_int_def)
  moreover have same: "same_output s (later_counter s' counter)" "sn_failed (later_counter s' counter)"
    using s'(1-3) by simp_all
  moreover have "session_core (sn_output_inflight (later_counter s' counter) \<and> sn_failed (later_counter s' counter))
      n fed (later_counter s' counter)"
    using core same by (simp add: same_output_def)
  ultimately show "session_inv n fed (snd (fail_session_reason env s err counter reason))"
    unfolding run by (intro session_inv_release assms(3))
  show "same_output s (snd (fail_session_reason env s err counter reason))"
    "sn_failed (snd (fail_session_reason env s err counter reason))"
    unfolding run using same maybe_release_same [of "later_counter s' counter" env]
    by (auto intro: same_output_trans simp: same_output_def)
qed

lemma fail_session_error:
  assumes "session_timed s" and "ioctl_ok (en_release env)" and "c_int err"
  shows "fst (fail_session_reason env s err counter reason) < 0"
proof -
  obtain s' where run: "snd (fail_session_reason env s err counter reason)
        = snd (maybe_release env (later_counter s' counter))"
    and s': "sn_failed s'" "sn_error s' = (if sn_failed s then sn_error s else if err < 0 then err else - EIO)"
    using fail_session_split [of env s err counter reason] by blast
  have "fst (fail_session_reason env s err counter reason) = sn_error (snd (fail_session_reason env s err counter reason))"
    by (simp only: fail_session_reason_def Let_def fst_conv snd_conv)
  also have "\<dots> = sn_error s'"
    unfolding run using s'(1) by (auto simp: maybe_release_def later_counter_def Let_def split: prod.splits sum.splits)
  finally show ?thesis using s'(2) assms(1) by (auto simp: session_timed_def)
qed

end
