(* ===== verification/Session_Steps.thy ===== *)
theory Session_Steps
  imports Session_Books
begin

text \<open>
  Every operation of a scan session keeps the invariant \<open>session_inv\<close>, whatever the driver, the clock
  and the release callback answer.
\<close>

definition env_ok :: "scan_env \<Rightarrow> bool" where
  "env_ok env \<longleftrightarrow> ioctl_ok (en_diag env) \<and> ioctl_ok (en_recall env) \<and> ioctl_ok (en_release env) \<and>
     ioctl_ok (en_snapshot env)"

text \<open>What a call other than \<open>schedule\<close>, \<open>take_output\<close> and \<open>finish_output\<close> leaves as it is.\<close>

definition keeps :: "nat \<Rightarrow> vq_history \<Rightarrow> scan_session \<Rightarrow> scan_session \<Rightarrow> bool" where
  "keeps n fed s s' \<longleftrightarrow> session_inv n fed s' \<and> same_output s s'"

lemma keepsI: "session_inv n fed s' \<Longrightarrow> same_output s s' \<Longrightarrow> keeps n fed s s'"
  by (simp add: keeps_def)

lemma keeps_fail:
  assumes "session_core (sn_output_inflight t) n fed t" "session_timed t" "env_ok env" "c_int err"
    and "same_output s t"
  shows "keeps n fed s (snd (fail_session_reason env t err counter reason))"
  using fail_session_inv [OF assms(1,2) _ assms(4)] assms(3,5)
  by (auto simp: keeps_def env_ok_def intro: same_output_trans)

lemma keeps_release:
  assumes "session_inv n fed t" "env_ok env" and "same_output s t"
  shows "keeps n fed s (snd (maybe_release env t))"
  using session_inv_release [of t n fed env] assms maybe_release_same [of t env]
  by (auto simp: keeps_def session_inv_def env_ok_def intro: same_output_trans)

subsection \<open>Scheduling\<close>

text \<open>The visit that is being scheduled has an entry, the last one, that is not queued yet.\<close>

definition pending_entry :: "nat \<Rightarrow> vq_history \<Rightarrow> scan_session \<Rightarrow> ledger_entry list \<Rightarrow> ledger_entry \<Rightarrow> bool" where
  "pending_entry n fed s es e \<longleftrightarrow> session_core False n fed s \<and> session_timed s \<and> \<not> sn_failed s \<and>
     entries s = es @ [e] \<and> \<not> le_queued e \<and> (sn_output_inflight s \<longrightarrow> es \<noteq> [])"

lemma pending_range:
  assumes "session_core lost n fed s" and "entries s = es @ [e]"
  shows "unat (sn_ledger_count s - 1) = unat (sn_ledger_count s) - 1"
    and "unat (sn_output_index s) \<le> unat (sn_ledger_count s - 1)"
    and "unat (sn_ledger_count s - 1) < unat (sn_ledger_count s)"
    and "unat (sn_ledger_count s - 1) - unat (sn_output_index s) = length es"
    and "length es + 1 \<le> length (sn_ledger s)"
proof -
  have l: "unat (sn_ledger_count s) - unat (sn_output_index s) = length es + 1"
    using arg_cong [OF assms(2), of length] by (simp add: entries_def)
  then have "sn_ledger_count s \<noteq> 0" by auto
  then show u: "unat (sn_ledger_count s - 1) = unat (sn_ledger_count s) - 1" by (simp add: unat_minus_one)
  show "unat (sn_output_index s) \<le> unat (sn_ledger_count s - 1)"
    "unat (sn_ledger_count s - 1) < unat (sn_ledger_count s)"
    "unat (sn_ledger_count s - 1) - unat (sn_output_index s) = length es"
    "length es + 1 \<le> length (sn_ledger s)"
    using l assms(1) unfolding u by (auto simp: session_core_def)
qed

lemma last_entry:
  assumes "session_core lost n fed s" and "entries s = es @ [e]"
  shows "ledger_at s (sn_ledger_count s - 1) = e"
    and "entries (ledger_set s (sn_ledger_count s - 1) e') = es @ [e']"
proof -
  note r = pending_range [OF assms]
  let ?a = "unat (sn_output_index s)" and ?b = "unat (sn_ledger_count s)" and ?i = "unat (sn_ledger_count s - 1)"
  have "?b - ?a \<le> length (sn_ledger s)" using r by linarith
  from window_update [OF r(2,3) this, of e']
  show "entries (ledger_set s (sn_ledger_count s - 1) e') = es @ [e']"
    using assms(2) r(4) by (simp add: entries_def ledger_set_def ledger_slot_def)
  have "entries s ! length es = e" using assms(2) by simp
  moreover have "length es < ?b - ?a" using r by linarith
  moreover have "?a + length es = ?i" using r by linarith
  ultimately show "ledger_at s (sn_ledger_count s - 1) = e"
    by (simp add: entries_def nth_window ledger_at_def ledger_slot_def)
qed

lemma put_last:
  assumes core: "session_core lost n fed s" and es: "entries s = es @ [e]"
    and q: "held q fed" and ag: "agree lost (idents q) (es @ [e'])"
    and visit: "choice_visit (le_choice e') = choice_visit (le_choice e)" "le_admission e' \<noteq> VISIT_COMPLETE"
  shows "session_core lost n fed (ledger_set (s\<lparr>sn_queue := q\<rparr>) (sn_ledger_count s - 1) e')"
proof -
  let ?s = "ledger_set (s\<lparr>sn_queue := q\<rparr>) (sn_ledger_count s - 1) e'"
  have "entries ?s = entries (ledger_set s (sn_ledger_count s - 1) e')"
    by (simp add: entries_def ledger_set_def ledger_slot_def)
  then have "entries ?s = es @ [e']" using last_entry(2) [OF core es] by simp
  moreover have "map (fst \<circ> snd) (map key (es @ [e'])) = map (fst \<circ> snd) (map key (es @ [e]))"
    using visit by simp
  moreover have "list_all (snd \<circ> snd \<circ> snd \<circ> snd) (map key (es @ [e']))"
    using core visit(2) by (simp add: session_core_def es)
  ultimately show ?thesis
    using core q ag unfolding session_core_def es [symmetric]
    by (simp add: ledger_set_def del: map_map)
qed

lemma same_output_ledger [simp]:
  "same_output s (ledger_set t i e) = same_output s t"
  "same_output s (t\<lparr>sn_queue := q\<rparr>) = same_output s t"
  "same_output s (t\<lparr>sn_radio := r\<rparr>) = same_output s t"
  "same_output s (t\<lparr>sn_policy := p\<rparr>) = same_output s t"
  "same_output s (t\<lparr>sn_active := a\<rparr>) = same_output s t"
  "same_output s (t\<lparr>sn_failure_stage := k\<rparr>) = same_output s t"
  by (simp_all add: same_output_def ledger_set_def)

lemma session_timed_simps [simp]:
  "session_timed (ledger_set t i e) = session_timed t"
  "session_timed (t\<lparr>sn_queue := q\<rparr>) = session_timed t"
  "session_timed (t\<lparr>sn_ledger := l\<rparr>) = session_timed t"
  "session_timed (t\<lparr>sn_ledger_count := c\<rparr>) = session_timed t"
  "session_timed (t\<lparr>sn_radio := r\<rparr>) = session_timed t"
  "session_timed (t\<lparr>sn_policy := p\<rparr>) = session_timed t"
  "session_timed (t\<lparr>sn_active := a\<rparr>) = session_timed t"
  "session_timed (t\<lparr>sn_current_profile := k\<rparr>) = session_timed t"
  "session_timed (t\<lparr>sn_current_profile_valid := b\<rparr>) = session_timed t"
  "session_timed (t\<lparr>sn_failure_stage := k\<rparr>) = session_timed t"
  by (simp_all add: session_timed_def ledger_set_def)

lemma session_timed_later [simp]: "session_timed s \<Longrightarrow> session_timed (later_counter s c)"
  by (auto simp: session_timed_def later_counter_def)

lemma ledger_set_fields [simp]:
  "sn_failed (ledger_set s i e) = sn_failed s" "sn_output_inflight (ledger_set s i e) = sn_output_inflight s"
  "sn_ledger_count (ledger_set s i e) = sn_ledger_count s" "sn_queue (ledger_set s i e) = sn_queue s"
  "sn_stopping (ledger_set s i e) = sn_stopping s" "sn_setup (ledger_set s i e) = sn_setup s"
  "length (sn_ledger (ledger_set s i e)) = length (sn_ledger s)"
  by (simp_all add: ledger_set_def)

lemma pending_set:
  assumes p: "pending_entry n fed s es e" and "\<not> le_queued e'"
    and "choice_visit (le_choice e') = choice_visit (le_choice e)" "le_admission e' \<noteq> VISIT_COMPLETE"
    and q: "held q fed" "idents q = idents (sn_queue s)"
  shows "pending_entry n fed (ledger_set (s\<lparr>sn_queue := q\<rparr>) (sn_ledger_count s - 1) e') es e'"
proof -
  have core: "session_core False n fed s" "entries s = es @ [e]" "\<not> le_queued e"
    using p by (simp_all add: pending_entry_def)
  have "agree False (idents q) (es @ [e'])"
    using core assms(2) q(2) by (simp add: session_core_def agree_idle)
  from put_last [OF core(1,2) q(1) this assms(3,4)] show ?thesis
    using p last_entry(2) [OF core(1,2), of e'] assms(2)
    by (simp add: pending_entry_def entries_def ledger_set_def ledger_slot_def)
qed

lemma pending_fields [simp]:
  "pending_entry n fed (s\<lparr>sn_policy := p\<rparr>) es e = pending_entry n fed s es e"
  "pending_entry n fed (s\<lparr>sn_radio := r\<rparr>) es e = pending_entry n fed s es e"
  "pending_entry n fed (s\<lparr>sn_current_profile := k\<rparr>) es e = pending_entry n fed s es e"
  "pending_entry n fed (s\<lparr>sn_current_profile_valid := b\<rparr>) es e = pending_entry n fed s es e"
  "pending_entry n fed (s\<lparr>sn_failure_stage := k\<rparr>) es e = pending_entry n fed s es e"
  by (simp_all add: pending_entry_def entries_def)

lemma pendingD:
  assumes "pending_entry n fed s es e"
  shows "session_core False n fed s" "session_core (sn_output_inflight s) n fed s" "session_timed s"
    "entries s = es @ [e]" "\<not> le_queued e" "ledger_at s (sn_ledger_count s - 1) = e"
    "held (sn_queue s) fed" "agree False (idents (sn_queue s)) es" "le_admission e \<noteq> VISIT_COMPLETE"
proof -
  show c: "session_core False n fed s" "session_timed s" "entries s = es @ [e]" "\<not> le_queued e"
    using assms by (simp_all add: pending_entry_def)
  show "session_core (sn_output_inflight s) n fed s" by (rule core_weaken [OF c(1)]) simp_all
  show "ledger_at s (sn_ledger_count s - 1) = e" by (rule last_entry(1) [OF c(1,3)])
  show "held (sn_queue s) fed" "agree False (idents (sn_queue s)) es" "le_admission e \<noteq> VISIT_COMPLETE"
    using c by (simp_all add: session_core_def agree_idle)
qed

text \<open>A failure while a visit is scheduled.\<close>

lemma make_failed_entry_cases:
  obtains e' where "make_failed_entry s i c b = ledger_set s i e'" and "le_queued e' = b"
    and "le_choice e' = le_choice (ledger_at s i)"
    and "le_admission e' = (if b then le_admission (ledger_at s i) else VISIT_CANCELLED)"
proof -
  have "\<exists>e'. make_failed_entry s i c b = ledger_set s i e' \<and> le_queued e' = b \<and>
      le_choice e' = le_choice (ledger_at s i) \<and>
      le_admission e' = (if b then le_admission (ledger_at s i) else VISIT_CANCELLED)"
    unfolding make_failed_entry_def Let_def by (rule exI, rule conjI, rule refl) simp
  then show thesis using that by blast
qed

lemma pending_failed:
  assumes p: "pending_entry n fed s es e"
  shows "\<exists>e'. pending_entry n fed (make_failed_entry s (sn_ledger_count s - 1) c
     (le_queued (ledger_at s (sn_ledger_count s - 1)))) es e'"
    and "\<exists>e'. pending_entry n fed (make_failed_entry s (sn_ledger_count s - 1) c False) es e'"
proof -
  note d = pendingD [OF p]
  obtain e' where "make_failed_entry s (sn_ledger_count s - 1) c False = ledger_set s (sn_ledger_count s - 1) e'"
    and "le_queued e' = False" "le_choice e' = le_choice e" "le_admission e' = VISIT_CANCELLED"
    using make_failed_entry_cases [of s "sn_ledger_count s - 1" c False] d(6) by metis
  then show "\<exists>e'. pending_entry n fed (make_failed_entry s (sn_ledger_count s - 1) c False) es e'"
    using pending_set [OF p _ _ _ d(7) refl, of e'] by auto
  then show "\<exists>e'. pending_entry n fed (make_failed_entry s (sn_ledger_count s - 1) c
       (le_queued (ledger_at s (sn_ledger_count s - 1)))) es e'"
    using d(5,6) by simp
qed

lemma same_output_failed [simp]: "same_output s (make_failed_entry t i c b) = same_output s t"
  by (simp add: make_failed_entry_def Let_def)

lemma pending_fail:
  assumes "pending_entry n fed t es e" and "env_ok env" and "c_int err" and "same_output s t"
  shows "keeps n fed s (snd (fail_session_reason env t err counter reason))"
  by (rule keeps_fail [OF pendingD(2,3) [OF assms(1)] assms(2-4)])

text \<open>A failed schedule may have added an entry.\<close>

definition same_session :: "scan_session \<Rightarrow> scan_session \<Rightarrow> bool" where
  "same_session s s' \<longleftrightarrow> sn_setup s' = sn_setup s \<and> sn_bytes_per_sample s' = sn_bytes_per_sample s \<and>
     sn_output_index s' = sn_output_index s \<and> sn_output_inflight s' = sn_output_inflight s \<and>
     sn_terminal_taken s' = sn_terminal_taken s"

lemma same_session_refl [simp]: "same_session s s"
  by (simp add: same_session_def)

lemma same_session_trans: "same_session s t \<Longrightarrow> same_session t u \<Longrightarrow> same_session s u"
  by (simp add: same_session_def)

lemma same_session_simps [simp]:
  "same_session s (ledger_set t i e) = same_session s t"
  "same_session s (make_failed_entry t i c b) = same_session s t"
  "same_session s (later_counter t c) = same_session s t"
  "same_session s (t\<lparr>sn_queue := q\<rparr>) = same_session s t"
  "same_session s (t\<lparr>sn_radio := r\<rparr>) = same_session s t"
  "same_session s (t\<lparr>sn_policy := p\<rparr>) = same_session s t"
  "same_session s (t\<lparr>sn_active := a\<rparr>) = same_session s t"
  "same_session s (t\<lparr>sn_ledger_count := c\<rparr>) = same_session s t"
  "same_session s (t\<lparr>sn_current_profile := k\<rparr>) = same_session s t"
  "same_session s (t\<lparr>sn_current_profile_valid := b\<rparr>) = same_session s t"
  "same_session s (t\<lparr>sn_failure_stage := k\<rparr>) = same_session s t"
  by (simp_all add: same_session_def ledger_set_def later_counter_def make_failed_entry_def Let_def)

definition advances :: "nat \<Rightarrow> vq_history \<Rightarrow> scan_session \<Rightarrow> scan_session \<Rightarrow> bool" where
  "advances n fed s s' \<longleftrightarrow> session_inv n fed s' \<and> same_session s s'"

lemma advances_keeps: "keeps n fed t u \<Longrightarrow> same_session s t \<Longrightarrow> advances n fed s u"
  by (auto simp: keeps_def advances_def same_output_def same_session_def)

lemma advances_core_fail:
  assumes "session_core False n fed t" "session_timed t" "env_ok env" "c_int err" and "same_session s t"
  shows "advances n fed s (snd (fail_session_reason env t err counter reason))"
  by (rule advances_keeps [OF keeps_fail [OF _ assms(2-4) same_output_refl] assms(5)])
    (rule core_weaken [OF assms(1)], simp_all)

lemma advances_fail:
  assumes "\<exists>e. pending_entry n fed t es e" and "env_ok env" and "c_int err" and "same_session s t"
  shows "advances n fed s (snd (fail_session_reason env t err counter reason))"
  using assms advances_core_fail pendingD(1,3) by blast

lemma bind_c_int: "c_int (fst (vq_bind q vid start))"
  by (auto simp: vq_bind_def c_int_def Let_def)

lemma reserve_result: "vq_reserve q vid samples now = (Inr a, q') \<Longrightarrow> a \<noteq> VISIT_COMPLETE"
  by (auto simp: vq_reserve_def Let_def split: if_splits)

lemma reserve_c_int: "vq_reserve q vid samples now = (Inl e, q') \<Longrightarrow> c_int e"
  by (auto simp: vq_reserve_def c_int_def Let_def split: if_splits)

lemma pending_queue:
  assumes "pending_entry n fed s es e" and "held q fed" "idents q = idents (sn_queue s)"
  shows "pending_entry n fed (s\<lparr>sn_queue := q\<rparr>) es e"
  using assms by (auto simp: pending_entry_def entries_def intro: core_queue)

lemma pending_put:
  assumes "pending_entry n fed s es e" and "\<not> le_queued e'" "choice_visit (le_choice e') = choice_visit (le_choice e)"
    and "le_admission e' \<noteq> VISIT_COMPLETE"
  shows "pending_entry n fed (ledger_set s (sn_ledger_count s - 1) e') es e'"
  using pending_set [OF assms pendingD(7) [OF assms(1)] refl] by simp

lemma pending_inv: "pending_entry n fed s es e \<Longrightarrow> session_inv n fed s"
  by (auto simp: pending_entry_def session_inv_def)

lemma advances_done:
  "session_core False n fed t \<Longrightarrow> session_timed t \<Longrightarrow> same_session s t \<Longrightarrow> advances n fed s (later_counter t c)"
  using core_weaken [of False n fed t "sn_output_inflight t \<and> sn_failed t" n]
  by (simp add: advances_def session_inv_def)

lemma ledger_set_twice: "ledger_set (ledger_set s i e) i e' = ledger_set s i e'"
  by (simp add: ledger_set_def ledger_slot_def)

lemma ledger_set_queue:
  "(ledger_set (s\<lparr>sn_queue := q\<rparr>) i e)\<lparr>sn_queue := q'\<rparr> = ledger_set (s\<lparr>sn_queue := q'\<rparr>) i e"
  by (cases s) (simp add: ledger_set_def ledger_slot_def)

lemma admit_inv:
  assumes p: "pending_entry n fed s es e" and env: "env_ok env"
    and visit: "choice_visit c = choice_visit (le_choice e)"
  shows "advances n fed s (snd (schedule_admit env s c now recalled valid_start))"
proof -
  note d = pendingD [OF p]
  let ?i = "sn_ledger_count s - 1"
  let ?samples = "ucast (session_ticks s (choice_dwell_ms c)) :: u32"
  have nf: "\<not> sn_failed s" using p by (simp add: pending_entry_def)
  show ?thesis
  proof (cases "UINT64_MAX - ucast ?samples < valid_start")
    case True
    then show ?thesis
      by (simp add: schedule_admit_def Let_def failed_choice_def fail_session_def)
        (rule advances_fail [OF pending_failed(1) [OF p] env]; simp add: c_int_def)
  next
    case fit: False
    obtain r q where r: "vq_reserve (sn_queue s) (choice_visit c) ?samples now = (r, q)" by (cases rule: prod.exhaust)
    note ok = reserve_idents [OF d(7) r]
    define e1 where "e1 = e\<lparr>le_admission := projr r, le_queued := (r = Inr VISIT_ADMITTED),
        le_valid_start := valid_start, le_valid_end := valid_start + ucast ?samples\<rparr>"
    define t where "t = ledger_set (s\<lparr>sn_queue := q\<rparr>) ?i e1"
    have sound: "le_admission e1 \<noteq> VISIT_COMPLETE" if "r = Inr a" for a
      using reserve_result r that by (simp add: e1_def)
    have e1: "choice_visit (le_choice e1) = choice_visit (le_choice e)" by (simp add: e1_def)
    show ?thesis
    proof (cases r)
      case (Inl err)
      have "pending_entry n fed (s\<lparr>sn_queue := q\<rparr>) es e" using pending_queue [OF p ok(1)] ok(2) Inl by simp
      then show ?thesis
        using fit by (simp add: schedule_admit_def Let_def r Inl failed_choice_def fail_session_def)
          (rule advances_fail [OF pending_failed(2) [of n fed "s\<lparr>sn_queue := q\<rparr>", simplified] env];
           use reserve_c_int r Inl in auto)
    next
      case a: (Inr a)
      show ?thesis
      proof (cases "a = VISIT_ADMITTED")
        case False
        then have t: "pending_entry n fed t es e1"
          using pending_set [OF p _ e1 sound [OF a] ok(1)] ok(2) by (simp add: t_def a e1_def)
        have "pending_entry n fed (ledger_set t ?i (e1\<lparr>le_closed := True\<rparr>)) es (e1\<lparr>le_closed := True\<rparr>)"
          using pending_put [OF t, of "e1\<lparr>le_closed := True\<rparr>"] pendingD(5,9) [OF t] by (simp add: t_def)
        moreover have "ledger_at t ?i = e1" using pendingD(6) [OF t] by (simp add: t_def)
        moreover have "advances n fed s (later_counter (t\<lparr>sn_active := choice_visit c\<rparr>) recalled)"
          using pendingD(1,3) [OF t] by (intro advances_done) (simp_all add: t_def)
        moreover have "schedule_admit env s c now recalled valid_start =
            (if continuous t
             then failed_choice (fail_session env (ledger_set t ?i ((ledger_at t ?i)\<lparr>le_closed := True\<rparr>)) (- ENOSPC) recalled)
             else (Inr c, later_counter (t\<lparr>sn_active := choice_visit c\<rparr>) recalled))"
          using fit False
          by (simp add: schedule_admit_def Let_def r a t_def e1_def d(6) ledger_set_queue continuous_def)
        ultimately show ?thesis
          using advances_fail [OF exI env, of n fed _ es _ "- ENOSPC" s recalled 0]
          by (simp add: failed_choice_def fail_session_def c_int_def t_def)
      next
        case adm: True
        have vs: "idents q = idents (sn_queue s) @ [(choice_visit c, ?samples, now, 0, False)]"
          using ok(2) by (simp add: a adm)
        obtain ret q' where b: "vq_bind q (choice_visit c) valid_start = (ret, q')" by (cases rule: prod.exhaust)
        note bound = bind_idents [OF ok(1) b vs]
        have at: "ledger_at (t\<lparr>sn_queue := q'\<rparr>) ?i = e1"
          using d(1) by (simp add: t_def ledger_at_def ledger_set_def ledger_slot_def session_core_def)
        have run: "schedule_admit env s c now recalled valid_start =
            (if ret \<noteq> 0
             then failed_choice (fail_session env (make_failed_entry (t\<lparr>sn_queue := q'\<rparr>) ?i now True) ret recalled)
             else (Inr c, later_counter (t\<lparr>sn_queue := q', sn_active := choice_visit c\<rparr>) recalled))"
          using fit b by (simp add: schedule_admit_def Let_def r a adm t_def e1_def d(6))
        have core: "session_core False n fed (ledger_set (s\<lparr>sn_queue := q'\<rparr>) ?i e')"
          if "idents q' = idents (sn_queue s) @ [v]" "fits v (key e')" "le_queued e'"
            "choice_visit (le_choice e') = choice_visit (le_choice e)" "le_admission e' \<noteq> VISIT_COMPLETE" for v e'
          using that d(8) by (intro put_last [OF d(1,4) bound(1)]) (auto intro: agree_snoc)
        show ?thesis
        proof (cases "ret = 0")
          case True
          have "unat (valid_start + ucast ?samples) = unat valid_start + unat (ucast ?samples :: u64)"
            using fit by (simp add: not_less le_max_minus_iff unat_add_small)
          then have "session_core False n fed (t\<lparr>sn_queue := q'\<rparr>)"
            using core [of _ e1] bound(3) [OF True] visit sound [OF a]
            unfolding t_def ledger_set_queue by (simp add: e1_def key_def a adm)
          then have "advances n fed s (later_counter (t\<lparr>sn_queue := q', sn_active := choice_visit c\<rparr>) recalled)"
            using d(3) by (intro advances_done) (simp_all add: t_def)
          then show ?thesis by (simp add: run True)
        next
          case False
          obtain e2 where e2: "make_failed_entry (t\<lparr>sn_queue := q'\<rparr>) ?i now True = ledger_set (t\<lparr>sn_queue := q'\<rparr>) ?i e2"
            "le_queued e2 = True" "le_choice e2 = le_choice (ledger_at (t\<lparr>sn_queue := q'\<rparr>) ?i)"
            "le_admission e2 = (if True then le_admission (ledger_at (t\<lparr>sn_queue := q'\<rparr>) ?i) else VISIT_CANCELLED)"
            by (rule make_failed_entry_cases)
          then have ch: "le_choice e2 = le_choice e" "le_admission e2 \<noteq> VISIT_COMPLETE"
            using sound [OF a] unfolding at by (simp_all add: e1_def)
          have "ledger_set (t\<lparr>sn_queue := q'\<rparr>) ?i e2 = ledger_set (s\<lparr>sn_queue := q'\<rparr>) ?i e2"
            unfolding t_def ledger_set_queue by (rule ledger_set_twice)
          moreover have "session_core False n fed (ledger_set (s\<lparr>sn_queue := q'\<rparr>) ?i e2)"
            using core [of _ e2] bound(2) [OF False] vs visit e2(2) ch by (simp add: key_def)
          ultimately show ?thesis
            using False advances_core_fail [of n fed _ env ret s recalled 0, OF _ _ env] d(3) e2(1)
              bind_c_int [of q "choice_visit c" valid_start] b
            by (simp add: run failed_choice_def fail_session_def)
        qed
      qed
    qed
  qed
qed

lemma c_int_numeral [simp]: "c_int (- numeral k) \<longleftrightarrow> numeral k \<le> (2 ^ 31 :: int)"
  by (simp add: c_int_def)

lemma commit_c_int: "c_int (fst (policy_commit p start))"
  by (auto simp: policy_commit_def c_int_def Let_def)

lemma select_c_int: "policy_select p now = Some (Inl e, p') \<Longrightarrow> c_int e"
  by (auto simp: policy_select_def select_ordered_def select_drawn_def c_int_def Let_def
      split: if_splits option.splits prod.splits)

text \<open>The entry of an uncommitted choice is dropped again.\<close>

lemma pending_drop:
  assumes p: "pending_entry n fed s es e"
  shows "advances n fed s (later_counter (s\<lparr>sn_ledger_count := sn_ledger_count s - 1\<rparr>) c)"
proof -
  note d = pendingD [OF p] and r = pending_range [OF pendingD(1,4) [OF p]]
  have e: "entries (s\<lparr>sn_ledger_count := sn_ledger_count s - 1\<rparr>) = es"
    using d(4) r(1) window_butlast [of "sn_ledger s" "unat (sn_output_index s)" "unat (sn_ledger_count s)"]
    by (simp add: entries_def)
  have "sn_output_inflight s \<Longrightarrow> sn_output_index s < sn_ledger_count s - 1"
    using r(2,4) p by (cases es) (auto simp: pending_entry_def word_less_nat_alt)
  moreover have "map (fst \<circ> snd) (map key es) = map of_nat [unat (sn_output_index s)..<unat (sn_ledger_count s) - 1]"
  proof -
    have "butlast [a..<b] = [a..<b - 1]" if "a < b" for a b
      using that by (cases b) simp_all
    moreover have "map (fst \<circ> snd) (map key es @ [key e]) =
        map of_nat [unat (sn_output_index s)..<unat (sn_ledger_count s)]"
      using d(1) by (simp add: session_core_def d(4))
    from arg_cong [where f = butlast, OF this]
    have "map (fst \<circ> snd) (map key es) = map of_nat (butlast [unat (sn_output_index s)..<unat (sn_ledger_count s)])"
      by (simp add: map_butlast)
    moreover have "unat (sn_output_index s) < unat (sn_ledger_count s)" using r by linarith
    ultimately show ?thesis by simp
  qed
  ultimately have "session_core False n fed (s\<lparr>sn_ledger_count := sn_ledger_count s - 1\<rparr>)"
    using d(1,8) r unfolding session_core_def e d(4) by (simp del: map_map)
  then show ?thesis using d(3) by (intro advances_done) simp_all
qed

lemma commit_inv:
  assumes p: "pending_entry n fed s es e" and env: "env_ok env"
    and visit: "choice_visit c = choice_visit (le_choice e)"
  shows "advances n fed s (snd (schedule_commit env s c now recalled valid_start))"
proof -
  obtain ret q where b: "policy_commit (sn_policy s) valid_start = (ret, q)" by (cases rule: prod.exhaust)
  let ?s = "s\<lparr>sn_policy := q\<rparr>"
  have p': "pending_entry n fed ?s es e" using p by simp
  have "advances n fed s (snd (schedule_admit env ?s c now recalled valid_start))"
    using admit_inv [OF p' env visit, of now recalled valid_start]
    by (auto simp: advances_def intro: same_session_trans [of s ?s])
  moreover have "advances n fed s (later_counter (?s\<lparr>sn_ledger_count := sn_ledger_count ?s - 1\<rparr>) recalled)"
    using pending_drop [OF p', of recalled] by (auto simp: advances_def intro: same_session_trans [of s ?s])
  moreover have "advances n fed s (snd (fail_session_reason env (make_failed_entry ?s (sn_ledger_count ?s - 1) now
      (le_queued (ledger_at ?s (sn_ledger_count ?s - 1)))) ret' recalled reason))" if "c_int ret'" for ret' reason
    by (rule advances_fail [OF pending_failed(1) [OF p'] env that]) simp
  moreover have "c_int ret" using commit_c_int [of "sn_policy s" valid_start] b by simp
  ultimately show ?thesis
    by (simp add: schedule_commit_def b Let_def failed_choice_def)
qed

lemma window_inv:
  assumes p: "pending_entry n fed s es e" and env: "env_ok env"
    and visit: "choice_visit c = choice_visit (le_choice e)"
  shows "advances n fed s (snd (schedule_window env s c now recall))"
proof -
  let ?i = "sn_ledger_count s - 1" and ?e = "e\<lparr>le_recall := recall\<rparr>"
  define t where "t = ledger_set s ?i ?e"
  have p': "pending_entry n fed t es ?e"
    unfolding t_def using pendingD(5,9) [OF p] by (intro pending_put [OF p]) simp_all
  have i: "ledger_set s ?i ((ledger_at s ?i)\<lparr>le_recall := recall\<rparr>) = t"
    by (simp add: t_def pendingD(6) [OF p])
  have lc: "sn_ledger_count t = sn_ledger_count s" by (simp add: t_def)
  have st: "same_session s t" by (simp add: t_def)
  have commit: "advances n fed s (snd (schedule_commit env t c now r v))" for r v
    using commit_inv [OF p' env, of c now r v] visit st by (auto simp: advances_def intro: same_session_trans)
  have fail: "advances n fed s (snd (fail_session_reason env (make_failed_entry t (sn_ledger_count t - 1) now
      (le_queued (ledger_at t (sn_ledger_count t - 1)))) ret r reason))" if "c_int ret" for ret r reason
    by (rule advances_fail [OF pending_failed(1) [OF p'] env that]) (simp add: st)
  show ?thesis
    unfolding schedule_window_def Let_def i
    using commit fail [unfolded lc] by (simp add: failed_choice_def fail_session_def)
qed

lemma fail_stage_inv:
  assumes p: "\<exists>e. pending_entry n fed t es e" and env: "env_ok env" and err: "c_int err"
    and "same_session s t"
  shows "advances n fed s (snd (session_fail_stage env t counter err stage))"
proof -
  let ?t = "if sn_failed t then t else t\<lparr>sn_failure_stage := stage\<rparr>"
  have p': "\<exists>e. pending_entry n fed ?t es e" and st: "same_session s ?t"
    using p assms(4) by simp_all
  have "session_inv n fed ?t" using p' pending_inv by blast
  then show ?thesis
    using advances_fail [OF p' env err st] st
    by (simp add: session_fail_stage_def session_fail_def fail_session_def advances_def)
qed

lemma recall_inv:
  assumes p: "pending_entry n fed s es e" and env: "env_ok env"
    and visit: "choice_visit c = choice_visit (le_choice e)"
  shows "advances n fed s (snd (schedule_recall env s c now anchor))"
proof -
  obtain ret r where d: "radio_diag_context (sn_radio s) (en_diag env) = (ret, r)" by (cases rule: prod.exhaust)
  have window: "advances n fed s (snd (schedule_window env t c now x))"
    if "pending_entry n fed t es e" "same_session s t" for t x
    using window_inv [OF that(1) env visit] that(2) by (auto simp: advances_def intro: same_session_trans)
  have fail: "advances n fed s (snd (session_fail_stage env (make_failed_entry t (sn_ledger_count s - 1) now
      (le_queued (ledger_at t (sn_ledger_count s - 1)))) now x STAGE_RECALL))"
    if "pending_entry n fed t es e" "same_session s t" "c_int x" "sn_ledger_count t = sn_ledger_count s" for t x
    using fail_stage_inv [OF pending_failed(1) [OF that(1)] env that(3)] that(2,4) by simp
  show ?thesis
  proof (cases "sn_current_profile_valid s \<and> sn_current_profile s = tg_profile (su_targets (sn_setup s) ! choice_target c)")
    case True
    then show ?thesis using window [OF p] by (simp add: schedule_recall_def Let_def)
  next
    case no: False
    show ?thesis
    proof (cases "ret = 0")
      case False
      then have "c_int ret" using radio_errors(4) [OF _ d] env errno_c_int by (auto simp: env_ok_def)
      then show ?thesis
        using False fail [of "s\<lparr>sn_radio := r\<rparr>" ret] p
        unfolding schedule_recall_def Let_def if_not_P [OF no] by (simp add: d failed_choice_def)
    next
      case True
      obtain x r' where y: "radio_recall r (tg_profile (su_targets (sn_setup s) ! choice_target c)) anchor
          (en_recall env) = (x, r')" by (cases rule: prod.exhaust)
      show ?thesis
      proof (cases x)
        case (Inl err)
        then have "c_int err" using radio_errors(1) y env errno_c_int by (auto simp: env_ok_def)
        then show ?thesis
          using True fail [of "s\<lparr>sn_radio := r'\<rparr>" err] p
          unfolding schedule_recall_def Let_def if_not_P [OF no] by (simp add: d y Inl failed_choice_def)
      next
        case (Inr rc)
        then show ?thesis
          using True window p
          unfolding schedule_recall_def Let_def if_not_P [OF no] by (simp add: d y)
      qed
    qed
  qed
qed

lemma snoc_pending:
  assumes s: "session_core False n fed s" "session_timed s" "\<not> sn_failed s"
    and n: "n < 2 ^ 64 - 1" and v: "choice_visit c = sn_ledger_count s"
    and room: "unat (sn_ledger_count s - sn_output_index s) < length (sn_ledger s)"
  shows "pending_entry (n + 1) fed ((ledger_set s (sn_ledger_count s) (zero_entry\<lparr>le_choice := c\<rparr>))
      \<lparr>sn_ledger_count := sn_ledger_count s + 1\<rparr>) (entries s) (zero_entry\<lparr>le_choice := c\<rparr>)"
proof -
  let ?e = "zero_entry\<lparr>le_choice := c\<rparr>" and ?a = "unat (sn_output_index s)" and ?b = "unat (sn_ledger_count s)"
  have ab: "?a \<le> ?b" "?b \<le> n" using s(1) by (simp_all add: session_core_def)
  have b1: "unat (sn_ledger_count s + 1) = ?b + 1" using ab n by (intro unat_Suc_small) simp
  have room': "?b - ?a < length (sn_ledger s)" using room ab by (simp add: unat_sub word_le_nat_alt)
  have e: "entries ((ledger_set s (sn_ledger_count s) ?e)\<lparr>sn_ledger_count := sn_ledger_count s + 1\<rparr>) = entries s @ [?e]"
    using window_snoc [OF ab(1) room', of ?e] by (simp add: entries_def ledger_set_def ledger_slot_def b1)
  have inflight: "sn_output_inflight s \<Longrightarrow> ?a < ?b" using s(1) by (simp add: session_core_def word_less_nat_alt)
  have keys: "map (fst \<circ> snd) (map key (entries s @ [?e])) = map of_nat [?a..<?b + 1]"
    using s(1) ab v by (simp add: session_core_def)
  have "agree False (idents (sn_queue s)) (entries s @ [?e])"
    using s(1) by (simp add: session_core_def agree_idle zero_entry_def)
  then have "session_core False (n + 1) fed ((ledger_set s (sn_ledger_count s) ?e)
      \<lparr>sn_ledger_count := sn_ledger_count s + 1\<rparr>)"
    using s(1) ab room' keys b1 inflight unfolding session_core_def e
    by (simp add: ledger_set_def word_less_nat_alt zero_entry_def del: map_map upt_Suc)
  moreover have "sn_output_inflight s \<longrightarrow> entries s \<noteq> []"
    using inflight by (auto simp: entries_def window_def)
  ultimately show ?thesis using s e by (simp add: pending_entry_def zero_entry_def)
qed

lemma close_c_int: "c_int (fst (close_active s c))"
proof -
  have "c_int (fst (vq_close_from q vid invalid is))" for q vid invalid "is"
    by (induction "is") (simp_all add: Let_def c_int_def)
  then have "vq_close_window q vid invalid = (r, q') \<Longrightarrow> c_int r" for q vid invalid r q'
    unfolding vq_close_window_def by (metis fst_conv)
  then show ?thesis by (auto simp: close_active_def Let_def c_int_def split: prod.splits)
qed

lemma close_active_failed: "sn_failed (snd (close_active s c)) = sn_failed s"
  by (rule close_active_frame [of s c]) simp

lemma same_output_session: "same_output s t \<Longrightarrow> same_session s t"
  by (simp add: same_output_def same_session_def)

lemma failed_choiceD: "failed_choice x = (r, t) \<Longrightarrow> t = snd x"
  by (cases x) (auto simp: failed_choice_def)

lemma schedule_inv:
  assumes s: "session_inv n fed s" and n: "n < 2 ^ 64 - 1" and env: "env_ok env"
    and run: "session_schedule env s now anchor = Some (r, s')"
  shows "advances (n + 1) fed s s'"
proof (cases "sn_stopping s \<or> sn_failed s")
  case True
  have "session_inv (n + 1) fed s"
    using s core_weaken [of _ n fed s _ "n + 1"] by (auto simp: session_inv_def)
  then show ?thesis using True run by (simp add: session_schedule_def advances_def)
next
  case go: False
  note inv = session_invD [OF s]
  obtain ret t where c: "close_active s now = (ret, t)" by (cases rule: prod.exhaust)
  have t: "session_core False n fed t" "session_timed t" "\<not> sn_failed t" "same_output s t"
    using close_active_core [OF inv(3), of now] close_active_timed [OF inv(1), of now]
      close_active_failed [of s now] close_active_same [of s now] go c by simp_all
  have st: "same_session s t" by (rule same_output_session [OF t(4)])
  have up: "session_core False (n + 1) fed t" by (rule core_weaken [OF t(1)]) simp_all
  have fail: "advances (n + 1) fed s (snd (fail_session_reason env (t\<lparr>sn_policy := p\<rparr>) err now reason))"
    "advances (n + 1) fed s (snd (fail_session_reason env t err now reason))" if "c_int err" for p err reason
    using that t(2) up st by (auto intro!: advances_core_fail env)
  have keep: "advances (n + 1) fed s (t\<lparr>sn_policy := p\<rparr>)" for p
    using up t(2,3) st by (simp add: advances_def session_inv_def session_timed_def)
  have added: "advances (n + 1) fed s (snd (schedule_recall env ((ledger_set (t\<lparr>sn_policy := p\<rparr>) (sn_ledger_count t)
      (zero_entry\<lparr>le_choice := c\<rparr>))\<lparr>sn_ledger_count := sn_ledger_count t + 1\<rparr>) c now anchor))"
    if "choice_visit c = sn_ledger_count t"
      "unat (sn_ledger_count t - sn_output_index t) < length (sn_ledger t)" for p c
  proof -
    have "pending_entry (n + 1) fed ((ledger_set (t\<lparr>sn_policy := p\<rparr>) (sn_ledger_count t) (zero_entry\<lparr>le_choice := c\<rparr>))
        \<lparr>sn_ledger_count := sn_ledger_count t + 1\<rparr>) (entries (t\<lparr>sn_policy := p\<rparr>)) (zero_entry\<lparr>le_choice := c\<rparr>)"
      using snoc_pending [of n fed "t\<lparr>sn_policy := p\<rparr>" c] t(1-3) n that by simp
    moreover have "same_session s ((ledger_set (t\<lparr>sn_policy := p\<rparr>) (sn_ledger_count t) (zero_entry\<lparr>le_choice := c\<rparr>))
        \<lparr>sn_ledger_count := sn_ledger_count t + 1\<rparr>)" using st by simp
    ultimately show ?thesis
      using recall_inv [OF _ env, of "n + 1" fed _ _ _ c now anchor] same_session_trans
      unfolding advances_def by fastforce
  qed
  have "c_int ret" using close_c_int [of s now] c by simp
  show ?thesis
  proof (cases "ret = 0")
    case False
    then show ?thesis
      using run go c fail(2) [OF \<open>c_int ret\<close>]
      by (auto simp: session_schedule_def fail_session_def dest!: failed_choiceD)
  next
    case True
    obtain x p where sel: "policy_select (sn_policy t) now = Some (x, p)"
      using run go c True by (auto simp: session_schedule_def split: option.splits)
    show ?thesis
    proof (cases x)
      case (Inl err)
      then have "c_int err" using select_c_int sel by blast
      then show ?thesis
        using run go c True sel Inl fail(1) keep
        by (auto simp: session_schedule_def Let_def split: if_splits dest!: failed_choiceD)
    next
      case (Inr c')
      then show ?thesis
        using run go c True sel fail(1) [of "- EOVERFLOW" p 0] added [of c' p]
        by (auto simp: session_schedule_def fail_session_def Let_def not_le split: if_splits dest!: failed_choiceD)
    qed
  qed
qed

end
