(* ===== verification/Session_Output.thy ===== *)
theory Session_Output
  imports Session_Steps
begin

text \<open>
  The calls of a scan session other than \<open>schedule\<close>: feeding blocks, taking and returning outputs,
  stopping, cancelling and failing. Each keeps the invariant; an output that is returned either
  leaves the session where it was or moves the output index by one.
\<close>

lemma session_inv_mono: "session_inv n fed s \<Longrightarrow> n \<le> m \<Longrightarrow> session_inv m fed s"
  using core_weaken [of _ n fed s _ m] by (auto simp: session_inv_def)

lemma inv_fail:
  assumes "session_inv n fed t" "env_ok env" "c_int err" "same_output s t"
  shows "keeps n fed s (snd (fail_session_reason env t err counter reason))"
  using session_invD(1,2) [OF assms(1)] assms(2-4) by (intro keeps_fail) simp_all

lemma inv_queue:
  assumes "session_inv n fed s" and "held q fed'" "idents q = idents (sn_queue s)"
  shows "session_inv n fed' (s\<lparr>sn_queue := q\<rparr>)"
  using assms core_queue [of _ n fed s q fed'] by (simp add: session_inv_def)

lemma inv_vq: "session_inv n fed s \<Longrightarrow> held (sn_queue s) fed"
  by (auto simp: session_inv_def session_core_def)

lemma inv_later: "session_inv n fed s \<Longrightarrow> session_inv n fed (later_counter s c)"
  by (simp add: session_inv_def)

lemma inv_fields [simp]:
  "session_inv n fed (s\<lparr>sn_policy := p\<rparr>) = session_inv n fed s"
  "session_inv n fed (s\<lparr>sn_radio := r\<rparr>) = session_inv n fed s"
  "session_inv n fed (s\<lparr>sn_failure_stage := k\<rparr>) = session_inv n fed s"
  by (simp_all add: session_inv_def)

subsection \<open>Feeding\<close>

text \<open>The blocks the queue has accepted, after a call of \<open>session_feed\<close>.\<close>

definition fed_after :: "scan_session \<Rightarrow> u64 \<Rightarrow> u64 \<Rightarrow> u64 \<Rightarrow> u32 \<Rightarrow> vq_history \<Rightarrow> vq_history" where
  "fed_after s token data first samples fed =
     (if \<not> sn_released s \<and> \<not> UINT64_MAX - ucast samples < first \<and>
         fst (vq_feed (sn_queue s) token data first samples) = 0
      then (fst fed, (token, first) # snd fed) else fed)"

lemma find_slot_c_int: "vq_find_slot bs token is slot = Inl e \<Longrightarrow> c_int e"
  by (induction "is" arbitrary: slot) (auto split: if_splits)

lemma c_int_0 [simp]: "c_int 0"
  by (simp add: c_int_def)

lemma feed_c_int: "c_int (fst (vq_feed q token data first samples))"
  by (auto simp: vq_feed_def Let_def split: sum.splits option.splits dest: find_slot_c_int)

definition release_ok :: "('c \<Rightarrow> u64 \<Rightarrow> int \<times> 'c) \<Rightarrow> bool" where
  "release_ok release \<longleftrightarrow> (\<forall>ctx token. c_int (fst (release ctx token)))"

lemma reap_c_int:
  assumes "release_ok release"
  shows "c_int (fst (vq_reap release ctx q))"
proof -
  have "c_int (fst (fold (vq_reap_block release) is x))" if "c_int (fst x)" for "is" x
    using that
  proof (induction "is" arbitrary: x)
    case (Cons i "is")
    obtain err c r where x: "x = (err, c, r)" by (cases x)
    have "c_int (fst (vq_reap_block release i x))"
      using Cons.prems assms by (auto simp: x Let_def release_ok_def split: prod.splits) (metis fst_conv)
    then show ?case using Cons.IH by simp
  qed simp
  then show ?thesis by (simp add: vq_reap_def)
qed

lemma feed_inv:
  assumes s: "session_inv n fed s" and env: "env_ok env" and rel: "release_ok release"
    and run: "session_feed release ctx env s token data first samples = (r, ctx', s')"
  shows "keeps n (fed_after s token data first samples fed) s s'"
proof (cases "sn_released s \<or> UINT64_MAX - ucast samples < first")
  case True
  then show ?thesis using s run by (auto simp: session_feed_def fed_after_def keeps_def)
next
  case go: False
  obtain ret q where f: "vq_feed (sn_queue s) token data first samples = (ret, q)" by (cases rule: prod.exhaust)
  let ?fed = "fed_after s token data first samples fed" and ?s = "s\<lparr>sn_queue := q\<rparr>"
  have fed: "?fed = (if ret = 0 then (fst fed, (token, first) # snd fed) else fed)" using go by (simp add: fed_after_def f)
  have q: "held q ?fed"
    using held_steps(8) [OF inv_vq [OF s], of token data first samples] f by (simp add: fed split: if_splits)
  have t: "session_inv n ?fed ?s"
    using inv_queue [OF s q] same_idents(5) [OF inv_vq [OF s], of token data first samples] f by simp
  have "c_int ret" using feed_c_int [of "sn_queue s" token data first samples] f by simp
  obtain ret2 c q2 where p: "vq_reap release ctx q = (ret2, c, q2)" by (metis prod_cases3)
  have q2: "held q2 ?fed" "idents q2 = idents q"
    using held_steps(7) [OF q, of release ctx] same_idents(4) [OF q, of release ctx] p by simp_all
  let ?u = "(later_counter ?s (first + ucast samples))\<lparr>sn_queue := q2\<rparr>"
  have u: "session_inv n ?fed ?u" using inv_queue [OF inv_later [OF t] q2(1)] q2(2) by simp
  have "c_int ret2" using reap_c_int [OF rel, of ctx q] p by simp
  have su: "same_output s ?u" by simp
  have fail: "keeps n ?fed s (snd (fail_session_reason env ?s ret c1 0))"
    "keeps n ?fed s (snd (fail_session_reason env ?u ret2 c1 0))"
    "keeps n ?fed s (snd (fail_session_reason env ?u (- ENODATA) c1 0))"
    "keeps n ?fed s (snd (maybe_release env ?u))" for c1
    using inv_fail [OF t env \<open>c_int ret\<close>] inv_fail [OF u env \<open>c_int ret2\<close> su] inv_fail [OF u env _ su]
      keeps_release [OF u env su] by simp_all
  have "s' = snd (snd (session_feed release ctx env s token data first samples))" using run by simp
  then show ?thesis
    using fail unfolding session_feed_def if_not_P [OF go]
    by (simp add: f p Let_def fail_session_def case_prod_beta)
qed

subsection \<open>Rebasing\<close>

lemma validate_ladder:
  "c_int (if a then - EINVAL else if b then - EOPNOTSUPP else if c then - EINVAL else if d then - EINVAL
    else if e then - ERANGE else 0)"
  by simp

lemma policy_create_c_int: "policy_create mem visits_mem c start = Inl e \<Longrightarrow> c_int e"
proof -
  have "c_int (policy_validate c)" unfolding policy_validate_def Let_def by (rule validate_ladder)
  then show "policy_create mem visits_mem c start = Inl e \<Longrightarrow> c_int e"
    by (auto simp: policy_create_def Let_def split: if_splits)
qed

lemma rebase_inv:
  assumes s: "session_inv n fed s" and env: "env_ok env"
    and run: "session_rebase env mem visits_mem s anchor = (r, s')"
  shows "keeps n fed s s'"
proof (cases "sn_stopping s \<or> sn_released s \<or> sn_ledger_count s \<noteq> 0 \<or> sn_active s \<noteq> NO_ACTIVE \<or>
    sn_output_index s \<noteq> 0 \<or> sn_output_inflight s")
  case True
  then show ?thesis using s run unfolding session_rebase_def by (auto simp: keeps_def)
next
  case go: False
  obtain x r where n: "radio_snapshot (sn_radio s) anchor (en_snapshot env) = (x, r)" by (cases rule: prod.exhaust)
  have fail: "keeps n fed s (snd (fail_session_reason env (s\<lparr>sn_radio := r\<rparr>) err c 0))" if "c_int err" for err c
    using s env that by (intro inv_fail) simp_all
  have "c_int err" if "x = Inl err" for err
    using radio_errors(3) n that env errno_c_int by (auto simp: env_ok_def)
  moreover have "keeps n fed s (s\<lparr>sn_radio := r, sn_policy := p, sn_latest_counter := c\<rparr>)" for p c
    using s go by (simp add: keeps_def session_inv_def session_timed_def same_output_def)
  moreover have "s' = snd (session_rebase env mem visits_mem s anchor)" using run by simp
  ultimately show ?thesis
    using fail policy_create_c_int unfolding session_rebase_def if_not_P [OF go]
    by (simp add: n Let_def fail_session_def split: sum.split)
qed

subsection \<open>Stopping, cancelling and failing\<close>

lemma gain_inv:
  assumes s: "session_inv n fed s" and run: "session_observe_gain s visit g = (r, s')"
  shows "keeps n fed s s'"
proof -
  have "session_inv n fed (ledger_set s visit ((ledger_at s visit)\<lparr>le_gain := g\<rparr>))"
    using s core_set_same [of _ n fed s "(ledger_at s visit)\<lparr>le_gain := g\<rparr>" visit]
    by (simp add: session_inv_def key_def)
  then show ?thesis
    using s run by (auto simp: session_observe_gain_def keeps_def Let_def split: if_splits)
qed

lemma close_active_run:
  assumes "session_inv n fed s" "\<not> sn_stopping s" and ct: "close_active s c = (ret, t)"
  shows "session_core False n fed t" "\<not> sn_stopping t" "\<not> sn_failed t" "\<not> sn_released t"
    "same_output s t" "sn_latest_counter t = sn_latest_counter s" "c_int ret"
proof -
  note inv = session_invD [OF assms(1)]
  have nf: "\<not> sn_failed s" "\<not> sn_released s" using inv(1) assms(2) by (simp_all add: session_timed_def)
  show "session_core False n fed t" "same_output s t" "c_int ret"
    using close_active_core [OF inv(3) [OF nf(1)], of c] close_active_same [of s c] close_c_int [of s c]
    by (simp_all add: ct)
  show "\<not> sn_stopping t" "\<not> sn_failed t" "\<not> sn_released t" "sn_latest_counter t = sn_latest_counter s"
    by (rule close_active_frame [of s c]; use ct nf assms(2) in simp)+
qed

text \<open>The session stops: its final counter is not later than the latest one.\<close>

lemma stopped_keeps:
  assumes t: "session_core False n fed t" "\<not> sn_failed t" "\<not> sn_released t" "same_output s t" and env: "env_ok env"
    and u: "u = later_counter (t\<lparr>sn_stopping := True, sn_cancelled_session := b, sn_error := e,
      sn_final_counter := c\<rparr>) c"
  shows "keeps n fed s (snd (maybe_release env u))"
proof -
  have "session_core (sn_output_inflight u \<and> sn_failed u) n fed u"
    using t(1,2) by (simp add: u)
  moreover have "session_timed u" using t(2,3) by (simp add: u session_timed_def later_counter_def not_less)
  moreover have "same_output s u" using t(4) by (auto simp: u same_output_def later_counter_def)
  ultimately show ?thesis by (intro keeps_release env) (simp_all add: session_inv_def)
qed

lemma stop_inv:
  assumes s: "session_inv n fed s" and env: "env_ok env" and run: "session_stop env s c = (r, s')"
  shows "keeps n fed s s'"
proof -
  have s': "s' = snd (session_stop env s c)" using run by simp
  show ?thesis
  proof (cases "sn_stopping s")
    case True
    then show ?thesis
      using keeps_release [OF s env same_output_refl] s by (simp add: s' session_stop_def keeps_def)
  next
    case go: False
    define k where "k = (if c < sn_latest_counter s then sn_latest_counter s else c)"
    obtain ret t where ct: "close_active s k = (ret, t)" by (cases rule: prod.exhaust)
    note t = close_active_run [OF s go ct]
    have "session_timed t" using t(2-4) by (simp add: session_timed_def)
    then have "keeps n fed s (snd (fail_session_reason env t ret k 0))"
      using t by (intro inv_fail env) (simp_all add: session_inv_def)
    moreover have "keeps n fed s (snd (maybe_release env (later_counter (t\<lparr>sn_policy := policy_stop (sn_policy t) k,
        sn_stopping := True, sn_final_counter := k\<rparr>) k)))"
      using stopped_keeps [where t = "t\<lparr>sn_policy := policy_stop (sn_policy t) k\<rparr>" and s = s and n = n and fed = fed
          and c = k and b = "sn_cancelled_session t" and e = "sn_error t"] t env by simp
    ultimately show ?thesis
      unfolding s' session_stop_def Let_def if_not_P [OF go] k_def [symmetric]
      by (simp add: ct fail_session_def)
  qed
qed

lemma session_cancel_inv:
  assumes s: "session_inv n fed s" and env: "env_ok env" and run: "session_cancel env s c = (r, s')"
  shows "keeps n fed s s'"
proof -
  have s': "s' = snd (session_cancel env s c)" using run by simp
  have drop: "held (snd (vq_cancel q)) fed \<and> idents (snd (vq_cancel q)) = idents q" if "held q fed" for q
    using held_steps(6) [OF that] same_idents(3) [OF that] by simp
  show ?thesis
  proof (cases "sn_stopping s")
    case True
    let ?q = "snd (vq_cancel (sn_queue s))"
    let ?t = "s\<lparr>sn_queue := ?q, sn_cancelled_session := True\<rparr>"
    have "session_inv n fed (s\<lparr>sn_queue := ?q\<rparr>)"
      using inv_queue [OF s] drop [OF inv_vq [OF s]] by simp
    then have "session_inv n fed (if sn_failed ?t then ?t else ?t\<lparr>sn_error := - ECANCELED\<rparr>)"
      by (cases "sn_failed s") (simp_all add: session_inv_def session_timed_def)
    then have "keeps n fed s (snd (maybe_release env (if sn_failed ?t then ?t else ?t\<lparr>sn_error := - ECANCELED\<rparr>)))"
      by (rule keeps_release [OF _ env]) (simp add: same_output_def)
    then show ?thesis
      using True s unfolding s' session_cancel_def Let_def if_P [OF True] by (simp add: keeps_def)
  next
    case go: False
    obtain ret t where ct: "close_active s c = (ret, t)" by (cases rule: prod.exhaust)
    note t = close_active_run [OF s go ct]
    obtain e q where q: "vq_cancel (sn_queue t) = (e, q)" by (cases rule: prod.exhaust)
    let ?u = "t\<lparr>sn_policy := policy_stop (sn_policy t) c, sn_queue := q\<rparr>"
    have u: "session_core False n fed ?u"
      using core_queue [of False n fed "t\<lparr>sn_policy := policy_stop (sn_policy t) c\<rparr>" q fed] t(1)
        drop [OF core_queueD [OF t(1)]] q by simp
    have tm: "session_timed t" "session_timed ?u" using t(2-4) by (simp_all add: session_timed_def)
    have e: "c_int e"
    proof -
      have "c_int (fst (fold vq_cancel_visit is x))" if "c_int (fst x)" for "is" x
        using that
      proof (induction "is" arbitrary: x)
        case (Cons i "is")
        have "c_int (fst (vq_cancel_visit i x))" using Cons.prems by (cases x) (simp add: Let_def)
        then show ?case using Cons.IH by simp
      qed simp
      then have "c_int (fst (vq_cancel (sn_queue t)))" unfolding vq_cancel_def by simp
      then show ?thesis by (simp add: q)
    qed
    have "keeps n fed s (snd (fail_session_reason env t ret c 0))"
      using t tm(1) by (intro inv_fail env) (simp_all add: session_inv_def)
    moreover have "keeps n fed s (snd (fail_session_reason env ?u e c 0))"
      using t u tm(2) e by (intro inv_fail env) (simp_all add: session_inv_def)
    moreover have "keeps n fed s (snd (maybe_release env (later_counter (?u\<lparr>sn_stopping := True,
        sn_cancelled_session := True, sn_error := - ECANCELED, sn_final_counter := c\<rparr>) c)))"
      using stopped_keeps [OF u _ _ _ env, where s = s and c = c and b = True and e = "- ECANCELED"] t
      by simp
    ultimately show ?thesis
      unfolding s' session_cancel_def Let_def if_not_P [OF go]
      by (simp add: ct q fail_session_def)
  qed
qed

lemma session_fail_inv:
  assumes s: "session_inv n fed s" and env: "env_ok env" and "c_int err"
  shows "keeps n fed s (snd (session_fail env s c err))"
    and "keeps n fed s (snd (session_fail_stage env s c err stage))"
proof -
  have *: "keeps n fed s (snd (session_fail env t c err))" if "session_inv n fed t" "same_output s t" for t
    using inv_fail [OF that(1) env assms(3) that(2)] that
    by (simp add: session_fail_def fail_session_def keeps_def)
  show "keeps n fed s (snd (session_fail env s c err))" by (rule * [OF s same_output_refl])
  show "keeps n fed s (snd (session_fail_stage env s c err stage))"
    unfolding session_fail_stage_def using s by (intro *) simp_all
qed

lemma feedback_inv:
  "session_inv n fed s \<Longrightarrow> keeps n fed s (snd (session_feedback s f received))"
  "session_inv n fed s \<Longrightarrow> keeps n fed s (snd (session_take_ack s))"
  by (auto simp: session_feedback_def session_take_ack_def keeps_def)

subsection \<open>Outputs\<close>

text \<open>The entry that is sent next.\<close>

lemma head_entry:
  assumes c: "session_core lost n fed s" and lt: "sn_output_index s < sn_ledger_count s" and n: "n < 2 ^ 64"
  obtains es where "entries s = ledger_at s (sn_output_index s) # es"
    and "entries (s\<lparr>sn_output_index := sn_output_index s + 1\<rparr>) = es"
    and "unat (sn_output_index s + 1) = unat (sn_output_index s) + 1"
    and "choice_visit (le_choice (ledger_at s (sn_output_index s))) = sn_output_index s"
    and "\<And>e. e \<in> set es \<Longrightarrow> choice_visit (le_choice e) \<noteq> sn_output_index s"
proof -
  let ?a = "unat (sn_output_index s)" and ?b = "unat (sn_ledger_count s)"
  have ab: "?a < ?b" "?b \<le> n" using c lt by (simp_all add: session_core_def word_less_nat_alt)
  have a1: "unat (sn_output_index s + 1) = ?a + 1" using ab n by (intro unat_Suc_small) simp
  let ?es = "window (sn_ledger s) (?a + 1) ?b"
  have es: "entries s = ledger_at s (sn_output_index s) # ?es"
    using window_Cons [OF ab(1)] by (simp add: entries_def ledger_at_def ledger_slot_def)
  have k: "map (choice_visit \<circ> le_choice) (entries s) = map of_nat [?a..<?b]"
    using c by (simp add: session_core_def comp_def)
  have "[?a..<?b] = ?a # [?a + 1..<?b]" using ab by (simp add: upt_conv_Cons)
  then have h: "choice_visit (le_choice (ledger_at s (sn_output_index s))) = sn_output_index s"
    "map (choice_visit \<circ> le_choice) ?es = map of_nat [?a + 1..<?b]"
    using k by (simp_all add: es)
  have "choice_visit (le_choice e) \<noteq> sn_output_index s" if "e \<in> set ?es" for e
  proof
    assume e: "choice_visit (le_choice e) = sn_output_index s"
    have "choice_visit (le_choice e) \<in> set (map (choice_visit \<circ> le_choice) ?es)" using that by auto
    then obtain j where j: "?a < j" "j < ?b" "sn_output_index s = of_nat j" unfolding h(2) e by (auto simp: Suc_le_eq)
    then have "unat (of_nat j :: u64) = j" using ab n by (simp add: unat_of_nat take_bit_nat_eq_self)
    then show False using j(1) by (simp add: j(3))
  qed
  then show thesis using that [of ?es] es h(1) a1 by (simp add: entries_def)
qed

lemma inflight_less: "session_inv n fed s \<Longrightarrow> sn_output_inflight s \<Longrightarrow> sn_output_index s < sn_ledger_count s"
  by (simp add: session_inv_def session_core_def)

text \<open>A successful \<open>take_output\<close>.\<close>

definition takes :: "nat \<Rightarrow> vq_history \<Rightarrow> scan_session \<Rightarrow> scan_session \<Rightarrow> visit_record \<Rightarrow> bool" where
  "takes n fed s s' r \<longleftrightarrow> session_inv n fed s' \<and> sn_setup s' = sn_setup s \<and>
     sn_bytes_per_sample s' = sn_bytes_per_sample s \<and> sn_output_index s' = sn_output_index s \<and>
     sn_ledger_count s' = sn_ledger_count s \<and> sn_terminal_taken s' = sn_terminal_taken s \<and>
     (sn_stopping s \<longrightarrow> sn_stopping s') \<and> \<not> sn_output_inflight s \<and> sn_output_inflight s' \<and>
     vr_visit r = sn_output_index s"

lemma take_inv:
  assumes s: "session_inv n fed s" and n: "n < 2 ^ 64" and env: "env_ok env"
    and run: "session_take_output env s = (x, s')"
  shows "case x of Inl e \<Rightarrow> keeps n fed s s' | Inr (r, slices) \<Rightarrow> takes n fed s s' r"
proof -
  let ?e = "ledger_at s (sn_output_index s)"
  show ?thesis
  proof (cases "sn_output_inflight s \<or> sn_ledger_count s \<le> sn_output_index s \<or> \<not> le_closed ?e")
    case True
    then show ?thesis using s run by (auto simp: session_take_output_def Let_def keeps_def split: if_splits)
  next
    case go: False
    note inv = session_invD [OF s]
    have core: "session_core False n fed s" using s go by (simp add: session_inv_def)
    have lt: "sn_output_index s < sn_ledger_count s" using go by (simp add: not_le)
    have nle: "\<not> sn_ledger_count s \<le> sn_output_index s" "\<not> sn_output_inflight s" "le_closed ?e" using go by simp_all
    have sent: "takes n fed s (t\<lparr>sn_inflight_result := result, sn_output_inflight := True, sn_inflight_bytes := b\<rparr>) r"
      if t: "t = s\<lparr>sn_queue := q\<rparr>" and "held q fed" "idents q = idents (sn_queue s)"
        and "vr_visit r = choice_visit (le_choice ?e)" for t q result b r
    proof -
      have "session_core False n fed t" unfolding t by (rule core_queue [OF core that(2,3)])
      then have "session_core False n fed (t\<lparr>sn_output_inflight := True\<rparr>)"
        using lt by (simp add: session_core_def entries_def t)
      then have "session_core (sn_failed s) n fed (t\<lparr>sn_output_inflight := True\<rparr>)"
        by (rule core_weaken) simp_all
      then have "session_core (sn_failed s) n fed (t\<lparr>sn_inflight_result := result, sn_output_inflight := True, sn_inflight_bytes := b\<rparr>)"
        by (simp add: session_core_def entries_def)
      moreover have "vr_visit r = sn_output_index s"
        using head_entry [OF core lt n] that(4) by metis
      ultimately show ?thesis
        using inv(1) go by (simp add: takes_def session_inv_def t session_timed_def)
    qed
    have visit: "vr_visit (make_record s ?e res) = choice_visit (le_choice ?e)" for res
      by (simp add: make_record_def Let_def)
    show ?thesis
    proof (cases "le_queued ?e")
      case False
      have "takes n fed s (s\<lparr>sn_inflight_result := result, sn_output_inflight := True, sn_inflight_bytes := b\<rparr>) r"
        if "vr_visit r = choice_visit (le_choice ?e)" for result b r
        using sent [of s "sn_queue s"] inv_vq [OF s] that by simp
      then show ?thesis
        using nle False run visit by (auto simp: session_take_output_def Let_def)
    next
      case q: True
      obtain y p where y: "vq_take (sn_queue s) = (y, p)" by (cases rule: prod.exhaust)
      have p: "held p fed" "idents p = idents (sn_queue s)"
        using held_steps(5) [OF inv_vq [OF s]] same_idents(2) [OF inv_vq [OF s]] y by simp_all
      let ?t = "s\<lparr>sn_queue := p\<rparr>"
      have t: "session_inv n fed ?t" by (rule inv_queue [OF s p])
      show ?thesis
      proof (cases y)
        case (Inl err)
        then show ?thesis
          using nle q run y t by (auto simp: session_take_output_def Let_def keeps_def)
      next
        case (Inr v)
        have rec: "make_record ?t e res = make_record s e res" for e res
          by (simp add: make_record_def Let_def)
        have f: "keeps n fed s (snd (fail_session env ?t (- EILSEQ) (sn_latest_counter ?t)))"
          unfolding fail_session_def by (rule inv_fail [OF t env]) simp_all
        show ?thesis
        proof (cases "view_id v = choice_visit (le_choice ?e)")
          case False
          then show ?thesis
            using nle q run y Inr f by (auto simp: session_take_output_def Let_def map_prod_def split: prod.splits)
        next
          case True
          then show ?thesis
            using nle q run y Inr sent [OF refl p] visit
            by (auto simp: session_take_output_def Let_def rec)
        qed
      qed
    qed
  qed
qed

subsection \<open>Returned outputs\<close>

definition settles :: "nat \<Rightarrow> vq_history \<Rightarrow> scan_session \<Rightarrow> scan_session \<Rightarrow> bool" where
  "settles n fed s s' \<longleftrightarrow> session_inv n fed s' \<and> sn_setup s' = sn_setup s \<and>
     sn_bytes_per_sample s' = sn_bytes_per_sample s \<and> sn_output_index s' = sn_output_index s + 1 \<and>
     sn_ledger_count s' = sn_ledger_count s \<and> sn_terminal_taken s' = sn_terminal_taken s \<and>
     (sn_stopping s \<longrightarrow> sn_stopping s') \<and> sn_output_inflight s \<and> \<not> sn_output_inflight s'"

lemma settles_keeps: "settles n fed s t \<Longrightarrow> keeps n fed t u \<Longrightarrow> settles n fed s u"
  by (auto simp: settles_def keeps_def same_output_def)

lemma finish_visit_c_int: "c_int (fst (policy_finish_visit p visit ok))"
  by (simp add: policy_finish_visit_def Let_def)

text \<open>The visit has left the queue.\<close>

definition returned :: "nat \<Rightarrow> vq_history \<Rightarrow> scan_session \<Rightarrow> bool" where
  "returned n fed s \<longleftrightarrow> session_core True n fed s \<and> session_timed s \<and> sn_output_inflight s \<and>
     list_all2 fits (idents (sn_queue s)) (queued_keys (tl (entries s)))"

lemma count_output_fields [simp]:
  "sn_setup (count_output s e r) = sn_setup s" "sn_ledger (count_output s e r) = sn_ledger s"
  "sn_queue (count_output s e r) = sn_queue s" "sn_ledger_count (count_output s e r) = sn_ledger_count s"
  "sn_output_index (count_output s e r) = sn_output_index s" "sn_stopping (count_output s e r) = sn_stopping s"
  "sn_bytes_per_sample (count_output s e r) = sn_bytes_per_sample s"
  "sn_terminal_taken (count_output s e r) = sn_terminal_taken s" "sn_failed (count_output s e r) = sn_failed s"
  "sn_released (count_output s e r) = sn_released s" "sn_restoration (count_output s e r) = sn_restoration s"
  "sn_final_counter (count_output s e r) = sn_final_counter s" "sn_error (count_output s e r) = sn_error s"
  "sn_latest_counter (count_output s e r) = sn_latest_counter s"
  "sn_inflight_bytes (count_output s e r) = sn_inflight_bytes s"
  by (simp_all add: count_output_def)

definition outcome_sum :: "scan_session \<Rightarrow> nat" where
  "outcome_sum s = unat (sn_delivered s) + unat (sn_skipped s) + unat (sn_invalid s) + unat (sn_cancelled s)"

lemma count_output_sum:
  assumes "outcome_sum s < 2 ^ 64 - 1"
  shows "outcome_sum (count_output s e r) = outcome_sum s + 1"
proof -
  have "unat (x + 1 :: u64) = unat x + 1" if "unat x \<le> outcome_sum s" for x
    using that assms by (intro unat_Suc_small) simp
  then show ?thesis by (simp add: count_output_def outcome_sum_def)
qed

lemma count_settles:
  assumes r: "returned n fed s" and n: "n < 2 ^ 64"
  shows "settles n fed s ((count_output s e result)\<lparr>sn_iq_bytes := b, sn_output_inflight := False,
     sn_output_index := sn_output_index s + 1\<rparr>)" (is "settles n fed s ?t")
proof -
  have core: "session_core True n fed s" and lt: "sn_output_index s < sn_ledger_count s"
    and tm: "session_timed s" and infl: "sn_output_inflight s"
    and l: "list_all2 fits (idents (sn_queue s)) (queued_keys (tl (entries s)))"
    using r by (auto simp: returned_def session_core_def)
  obtain es where h: "entries s = ledger_at s (sn_output_index s) # es"
    "entries (s\<lparr>sn_output_index := sn_output_index s + 1\<rparr>) = es"
    "unat (sn_output_index s + 1) = unat (sn_output_index s) + 1"
    using head_entry [OF core lt n] by metis
  let ?a = "unat (sn_output_index s)" and ?b = "unat (sn_ledger_count s)"
  have ab: "?a < ?b" "?b \<le> n" "?b - ?a \<le> length (sn_ledger s)" "0 < length (sn_ledger s)" "held (sn_queue s) fed"
    and sum: "outcome_sum s = ?a" and ids: "map (fst \<circ> snd) (map key (entries s)) = map of_nat [?a..<?b]"
    using core lt by (simp_all add: session_core_def word_less_nat_alt outcome_sum_def)
  have "[?a..<?b] = ?a # [?a + 1..<?b]" using ab by (simp add: upt_conv_Cons)
  then have ids': "map (fst \<circ> snd) (map key es) = map of_nat [?a + 1..<?b]"
    using ids by (simp add: h(1))
  have sound: "list_all (snd \<circ> snd \<circ> snd \<circ> snd) (map key es)" using core by (simp add: session_core_def h(1))
  have "outcome_sum (count_output s e result) = ?a + 1"
    using count_output_sum [of s e result] sum ab(1,2) n by simp
  moreover have "entries ?t = es" using h(2) by (simp add: entries_def)
  ultimately have "session_core False n fed ?t"
    using ab ids' l sound unfolding session_core_def
    by (simp add: h(1,3) agree_def outcome_sum_def del: map_map)
  moreover have "session_timed ?t" using tm by (simp add: session_timed_def)
  ultimately show ?thesis using infl by (simp add: settles_def session_inv_def)
qed

lemma iq_same: "s\<lparr>sn_iq_bytes := sn_iq_bytes s\<rparr> = s"
  by (cases s) simp

lemma settle_inv:
  assumes r: "returned n fed s" and n: "n < 2 ^ 64" and env: "env_ok env" and err: "c_int err"
  shows "keeps n fed s (snd (settle_output env s visit transported err)) \<or>
    settles n fed s (snd (settle_output env s visit transported err))"
proof -
  let ?e = "ledger_at s (sn_output_index s)"
  define res where "res = (if transported then sn_inflight_result s else VISIT_CANCELLED)"
  obtain ret p where p: "(if le_valid_start ?e < le_valid_end ?e
      then policy_finish_visit (sn_policy s) visit (res = VISIT_COMPLETE) else (0, sn_policy s)) = (ret, p)"
    by (cases rule: prod.exhaust)
  have ret: "c_int ret"
    using p finish_visit_c_int [of "sn_policy s" visit "res = VISIT_COMPLETE"] by (auto split: if_splits)
  let ?s = "s\<lparr>sn_policy := p\<rparr>"
  have r': "returned n fed ?s" using r by (simp add: returned_def entries_def)
  have lost: "keeps n fed s (snd (fail_session_reason env ?s ret c 0))" for c
    using r' by (intro keeps_fail env ret) (simp_all add: returned_def)
  define c where "c = count_output ?s ?e res"
  let ?next = "\<lambda>s. s\<lparr>sn_output_inflight := False, sn_output_index := sn_output_index s + 1\<rparr>"
  define f where "f = ?next c"
  define d where "d = ?next (if transported \<and> continuous c
    then c\<lparr>sn_iq_bytes := sn_iq_bytes c + sn_inflight_bytes c\<rparr> else c)"
  have st: "settles n fed s (?next (c\<lparr>sn_iq_bytes := b\<rparr>))" for b
    using count_settles [OF r' n, where e = ?e and result = res and b = b] by (simp add: settles_def c_def)
  have f: "settles n fed s f" using st [of "sn_iq_bytes c"] unfolding iq_same f_def .
  have d: "settles n fed s d" unfolding d_def using f [unfolded f_def] st by (cases "transported \<and> continuous c") simp_all
  have fail: "settles n fed s (snd (fail_session_reason env t k x 0))" if "settles n fed s t" "c_int k" for t k x
    by (rule settles_keeps [OF that(1) inv_fail [OF _ env that(2) same_output_refl]])
      (use that(1) in \<open>simp add: settles_def\<close>)
  have rel: "settles n fed s (snd (maybe_release env d))"
    by (rule settles_keeps [OF d keeps_release [OF _ env same_output_refl]])
      (use d in \<open>simp add: settles_def\<close>)
  have err': "c_int (if err < 0 then err else - EIO)" using err by simp
  have over: "settles n fed s (snd (fail_session_reason env f (- EOVERFLOW) x 0))" for x
    by (rule fail [OF f]) simp
  have eq: "settle_output env s visit transported err =
      (if ret \<noteq> 0 then fail_session env ?s ret (sn_latest_counter ?s)
       else if transported \<and> continuous c \<and> UINT64_MAX - sn_iq_bytes c < sn_inflight_bytes c
       then fail_session env f (- EOVERFLOW) (sn_latest_counter c)
       else if \<not> transported then fail_session env d (if err < 0 then err else - EIO) (sn_latest_counter d)
       else maybe_release env d)"
    unfolding d_def f_def c_def by (simp only: settle_output_def Let_def res_def [symmetric] p prod.case)
  show ?thesis
    unfolding eq fail_session_def
    using lost over fail [OF d err'] rel by (simp split: if_split)
qed

lemma finish_inv:
  assumes s: "session_inv n fed s" and n: "n < 2 ^ 64" and env: "env_ok env" and err: "c_int err"
    and rel: "release_ok release"
    and run: "finish_output release ctx env s visit transported err = (x, ctx', s')"
  shows "keeps n fed s s' \<or> settles n fed s s'"
proof -
  let ?e = "ledger_at s (sn_output_index s)"
  show ?thesis
  proof (cases "\<not> sn_output_inflight s \<or> sn_ledger_count s \<le> sn_output_index s \<or> choice_visit (le_choice ?e) \<noteq> visit")
    case True
    then show ?thesis using s run by (auto simp: finish_output_def Let_def keeps_def split: if_splits)
  next
    case go: False
    note inv = session_invD [OF s]
    have lt: "sn_output_index s < sn_ledger_count s" and infl: "sn_output_inflight s"
      and vis: "choice_visit (le_choice ?e) = visit" using go by (simp_all add: not_le)
    have go': "\<not> (\<not> sn_output_inflight s \<or> sn_ledger_count s \<le> sn_output_index s)" "\<not> choice_visit (le_choice ?e) \<noteq> visit"
      using go by simp_all
    have core: "session_core True n fed s" using inv(2) infl by simp
    obtain es where h: "entries s = ?e # es" "\<And>e. e \<in> set es \<Longrightarrow> choice_visit (le_choice e) \<noteq> sn_output_index s"
      and oi: "visit = sn_output_index s"
      using head_entry [OF core lt n] vis by metis
    have s': "s' = snd (snd (finish_output release ctx env s visit transported err))" using run by simp
    show ?thesis
    proof (cases "le_queued ?e")
      case False
      have "returned n fed s"
        using s infl core False by (auto simp: returned_def session_inv_def session_core_def h(1) agree_def)
      from settle_inv [OF this n env err, of visit transported] show ?thesis
        unfolding s' finish_output_def Let_def if_not_P [OF go'(1)] if_not_P [OF go'(2)]
        using False by (simp add: case_prod_beta)
    next
      case q: True
      obtain y p where y: "vq_take (sn_queue s) = (y, p)" by (cases rule: prod.exhaust)
      have p: "held p fed" "idents p = idents (sn_queue s)"
        using held_steps(5) [OF inv_vq [OF s]] same_idents(2) [OF inv_vq [OF s]] y by simp_all
      have t: "session_inv n fed (s\<lparr>sn_queue := p\<rparr>)" by (rule inv_queue [OF s p])
      obtain ret p2 where c: "vq_complete_send p visit = (ret, p2)" by (cases rule: prod.exhaust)
      note sent = complete_idents [OF p(1) c]
      obtain ret2 cx p3 where z: "vq_reap release ctx p2 = (ret2, cx, p3)" by (metis prod_cases3)
      have p3: "held p3 fed" "idents p3 = idents p2"
        using held_steps(7) [OF sent(1), of release ctx] same_idents(4) [OF sent(1), of release ctx] z by simp_all
      let ?u = "s\<lparr>sn_queue := p2\<rparr>" and ?v = "s\<lparr>sn_queue := p3\<rparr>"
      have restored: "returned n fed (s\<lparr>sn_queue := w\<rparr>)" if "ret = 0" "held w fed" "idents w = idents p2" for w
      proof -
        have i: "idents (sn_queue s) \<noteq> []" "fst (hd (idents (sn_queue s))) = visit" "idents p2 = tl (idents (sn_queue s))"
          using sent(3) [OF that(1)] p(2) by simp_all
        have "list_all2 fits (idents (sn_queue s)) (queued_keys (ledger_at s (sn_output_index s) # es))"
        proof (rule ccontr)
          assume "\<not> ?thesis"
          then have l: "list_all2 fits (idents (sn_queue s)) (queued_keys es)"
            using core q by (simp add: session_core_def h(1) agree_def)
          obtain v vs k ks where v: "idents (sn_queue s) = v # vs" "queued_keys es = k # ks" "fits v k"
            using l i(1) by (cases "idents (sn_queue s)"; cases "queued_keys es") auto
          then obtain e where e: "e \<in> set es" "k = key e"
            by (metis filter_is_subset imageE list.set_intros(1) list.set_map queued_keys_def subsetD)
          have "fst v = choice_visit (le_choice e)" using v(3) by (cases v) (simp add: e(2) key_def)
          then show False using h(2) [OF e(1)] i(2) v(1) oi by simp
        qed
        then have l: "list_all2 fits (tl (idents (sn_queue s))) (queued_keys es)"
          using q i(1) by (cases "idents (sn_queue s)") auto
        have e: "entries (s\<lparr>sn_queue := w\<rparr>) = entries s" by (simp add: entries_def)
        have "session_core True n fed (s\<lparr>sn_queue := w\<rparr>)"
          using core that(2) l q unfolding session_core_def e
          by (simp add: that(3) i(3) h(1) agree_def)
        then show ?thesis
          using inv(1) infl l unfolding returned_def e by (simp add: that(3) i(3) h(1))
      qed
      have ret: "c_int ret" using arg_cong [OF c, of fst] by (auto simp: vq_complete_send_def Let_def split: if_splits)
      have ret2: "c_int ret2" using reap_c_int [OF rel, of ctx p2] z by simp
      have refused: "keeps n fed s (snd (fail_session_reason env ?u ret k 0))" if "ret \<noteq> 0" for k
        using inv_queue [OF s sent(1)] sent(2) [OF that] p(2) by (intro inv_fail env ret) simp_all
      have lost: "keeps n fed s (snd (fail_session_reason env ?v ret2 k 0))" if "ret = 0" for k
        using restored [OF that p3] by (intro keeps_fail env ret2) (simp_all add: returned_def)
      have same: "same_output s ?v" by simp
      have settled: "keeps n fed s (snd (settle_output env ?v visit transported err)) \<or>
          settles n fed s (snd (settle_output env ?v visit transported err))" if "ret = 0"
        using settle_inv [OF restored [OF that p3] n env err, of visit transported]
        by (auto simp: keeps_def settles_def same_output_def)
      show ?thesis
        unfolding s' finish_output_def Let_def if_not_P [OF go'(1)] if_not_P [OF go'(2)]
        using q t refused lost settled
        by (simp add: case_prod_beta y c z fail_session_def keeps_def split: sum.split)
    qed
  qed
qed

end
