(* ===== verification/Session_Runs.thy ===== *)
theory Session_Runs
  imports Session_Output Scan_Exact
begin

text \<open>
  Arbitrary sequences of calls on a scan session, with arbitrary answers of the driver, the clock
  and the release callback: the outputs come in the order of the visits, a complete output has
  exactly the samples of its window, and the terminal record that ends a session accounts for
  every visit and can be sent.
\<close>

subsection \<open>Runs\<close>

text \<open>The calls, with what the environment answers during each.\<close>

datatype session_op =
    Op_Rebase scan_env bool bool u64
  | Op_Schedule scan_env u64 u64
  | Op_Gain u64 gain_observation
  | Op_Feed scan_env u64 u64 u64 u32
  | Op_Feedback scan_feedback u64
  | Op_Ack
  | Op_Take scan_env
  | Op_Complete scan_env u64
  | Op_Abort scan_env u64 int
  | Op_Stop scan_env u64
  | Op_Cancel scan_env u64
  | Op_Fail scan_env u64 int
  | Op_Fail_Stage scan_env u64 int u32
  | Op_Terminal

text \<open>What the calls gave so far: the queue's configuration and accepted blocks, the outputs, and the
  terminal records.\<close>

record session_history =
  hs_fed :: vq_history
  hs_outs :: "(visit_record \<times> vq_slice list) list"
  hs_terminals :: "scan_terminal list"

fun session_step :: "('c \<Rightarrow> u64 \<Rightarrow> int \<times> 'c) \<Rightarrow> session_op \<Rightarrow> 'c \<times> scan_session \<times> session_history
    \<Rightarrow> ('c \<times> scan_session \<times> session_history) option" where
  "session_step release (Op_Rebase env mem visits_mem anchor) (ctx, s, h) =
     Some (ctx, snd (session_rebase env mem visits_mem s anchor), h)"
| "session_step release (Op_Schedule env now anchor) (ctx, s, h) =
     (case session_schedule env s now anchor of None \<Rightarrow> None | Some (_, s) \<Rightarrow> Some (ctx, s, h))"
| "session_step release (Op_Gain visit g) (ctx, s, h) = Some (ctx, snd (session_observe_gain s visit g), h)"
| "session_step release (Op_Feed env token data first samples) (ctx, s, h) =
     (case session_feed release ctx env s token data first samples of (_, ctx, s') \<Rightarrow>
        Some (ctx, s', h\<lparr>hs_fed := fed_after s token data first samples (hs_fed h)\<rparr>))"
| "session_step release (Op_Feedback f received) (ctx, s, h) = Some (ctx, snd (session_feedback s f received), h)"
| "session_step release Op_Ack (ctx, s, h) = Some (ctx, snd (session_take_ack s), h)"
| "session_step release (Op_Take env) (ctx, s, h) =
     (case session_take_output env s of
        (Inl _, s) \<Rightarrow> Some (ctx, s, h)
      | (Inr out, s) \<Rightarrow> Some (ctx, s, h\<lparr>hs_outs := hs_outs h @ [out]\<rparr>))"
| "session_step release (Op_Complete env visit) (ctx, s, h) =
     (case finish_output release ctx env s visit True 0 of (_, ctx, s) \<Rightarrow> Some (ctx, s, h))"
| "session_step release (Op_Abort env visit err) (ctx, s, h) =
     (case finish_output release ctx env s visit False err of (_, ctx, s) \<Rightarrow> Some (ctx, s, h))"
| "session_step release (Op_Stop env counter) (ctx, s, h) = Some (ctx, snd (session_stop env s counter), h)"
| "session_step release (Op_Cancel env counter) (ctx, s, h) = Some (ctx, snd (session_cancel env s counter), h)"
| "session_step release (Op_Fail env counter err) (ctx, s, h) = Some (ctx, snd (session_fail env s counter err), h)"
| "session_step release (Op_Fail_Stage env counter err stage) (ctx, s, h) =
     Some (ctx, snd (session_fail_stage env s counter err stage), h)"
| "session_step release Op_Terminal (ctx, s, h) =
     (case session_terminal s of
        (Inl _, s) \<Rightarrow> Some (ctx, s, h)
      | (Inr t, s) \<Rightarrow> Some (ctx, s, h\<lparr>hs_terminals := hs_terminals h @ [t]\<rparr>))"

fun session_run :: "('c \<Rightarrow> u64 \<Rightarrow> int \<times> 'c) \<Rightarrow> session_op list \<Rightarrow> 'c \<times> scan_session \<times> session_history
    \<Rightarrow> ('c \<times> scan_session \<times> session_history) option" where
  "session_run release [] x = Some x"
| "session_run release (op # ops) x =
     (case session_step release op x of None \<Rightarrow> None | Some y \<Rightarrow> session_run release ops y)"

text \<open>The driver fails with an \<open>errno\<close>, and the callers' error codes are of type \<open>int\<close>.\<close>

fun op_ok :: "session_op \<Rightarrow> bool" where
  "op_ok (Op_Rebase env _ _ _) = env_ok env"
| "op_ok (Op_Schedule env _ _) = env_ok env"
| "op_ok (Op_Feed env _ _ _ _) = env_ok env"
| "op_ok (Op_Take env) = env_ok env"
| "op_ok (Op_Complete env _) = env_ok env"
| "op_ok (Op_Abort env _ err) \<longleftrightarrow> env_ok env \<and> c_int err"
| "op_ok (Op_Stop env _) = env_ok env"
| "op_ok (Op_Cancel env _) = env_ok env"
| "op_ok (Op_Fail env _ err) \<longleftrightarrow> env_ok env \<and> c_int err"
| "op_ok (Op_Fail_Stage env _ err _) \<longleftrightarrow> env_ok env \<and> c_int err"
| "op_ok _ = True"

subsection \<open>The terminal record\<close>

lemma sint_negative: "- (2 ^ 31) \<le> e \<Longrightarrow> e < 0 \<Longrightarrow> sint (of_int e :: u32) < 0"
  by (simp add: sint_sbintrunc' signed_take_bit_int_eq_self)

lemma terminal_valid:
  assumes s: "session_inv n fed s" and u: "su_session (sn_setup s) \<noteq> 0" "su_generation (sn_setup s) \<noteq> 0"
    and run: "session_terminal s = (Inr t, s')"
  shows "terminal_validate t = 0" and "te_planned t = sn_ledger_count s"
    and "sn_stopping s" "\<not> sn_output_inflight s" "sn_output_index s = sn_ledger_count s" "\<not> sn_terminal_taken s"
    and "s' = s\<lparr>sn_terminal_taken := True\<rparr>"
proof -
  show g: "te_planned t = sn_ledger_count s" "sn_stopping s" "\<not> sn_output_inflight s"
    "sn_output_index s = sn_ledger_count s" "\<not> sn_terminal_taken s" "s' = s\<lparr>sn_terminal_taken := True\<rparr>"
    using run by (auto simp: session_terminal_def Let_def split: if_splits)
  have sum: "unat (sn_delivered s) + unat (sn_skipped s) + unat (sn_invalid s) + unat (sn_cancelled s)
      = unat (sn_ledger_count s)"
    using s g(4) by (auto simp: session_inv_def session_core_def)
  have rel: "sn_released s" using run by (auto simp: session_terminal_def Let_def split: if_splits)
  have tm: "sn_final_counter s \<le> rl_counter_before (sn_restoration s)"
    "rl_counter_before (sn_restoration s) \<le> rl_counter_after (sn_restoration s)"
    "sn_failed s \<Longrightarrow> sint (of_int (sn_error s) :: u32) < 0"
    using session_invD(1) [OF s] rel sint_negative by (auto simp: session_timed_def c_int_def)
  have d: "\<not> sn_ledger_count s < sn_delivered s" using sum by (simp add: word_less_nat_alt)
  have r1: "unat (sn_ledger_count s - sn_delivered s) = unat (sn_skipped s) + unat (sn_invalid s) + unat (sn_cancelled s)"
    using sum by (subst unat_sub) (simp_all add: word_le_nat_alt)
  then have d1: "\<not> sn_ledger_count s - sn_delivered s < sn_skipped s" by (simp add: word_less_nat_alt)
  have r2: "unat (sn_ledger_count s - sn_delivered s - sn_skipped s) = unat (sn_invalid s) + unat (sn_cancelled s)"
    using r1 by (subst unat_sub) (simp_all add: word_le_nat_alt)
  then have d2: "\<not> sn_ledger_count s - sn_delivered s - sn_skipped s < sn_invalid s" by (simp add: word_less_nat_alt)
  have "unat (sn_ledger_count s - sn_delivered s - sn_skipped s - sn_invalid s) = unat (sn_cancelled s)"
    using r2 by (subst unat_sub) (simp_all add: word_le_nat_alt)
  then have d3: "sn_cancelled s = sn_ledger_count s - sn_delivered s - sn_skipped s - sn_invalid s"
    by (simp add: word_unat_eq_iff)
  have f: "te_session t = su_session (sn_setup s)" "te_generation t = su_generation (sn_setup s)"
    "te_final_counter t = sn_final_counter s" "te_restore_before t = rl_counter_before (sn_restoration s)"
    "te_restore_after t = rl_counter_after (sn_restoration s)" "te_delivered t = sn_delivered s"
    "te_skipped t = sn_skipped s" "te_invalid t = sn_invalid s" "te_cancelled t = sn_cancelled s"
    "te_flags t = TERMINAL_FLAGS"
    and e: "te_state t = (if sn_failed s then TERMINAL_FAILED
      else if sn_cancelled_session s then TERMINAL_CANCELLED else TERMINAL_COMPLETED)"
    "te_error t = (if sn_failed s \<or> sn_cancelled_session s then of_int (sn_error s) else 0)"
    using run by (auto simp: session_terminal_def Let_def split: if_splits)
  have "\<not> (te_session t = 0 \<or> te_generation t = 0 \<or> te_restore_after t < te_restore_before t \<or>
      te_state t < TERMINAL_COMPLETED \<or> TERMINAL_FAILED < te_state t \<or>
      (te_state t = TERMINAL_COMPLETED \<and> te_error t \<noteq> 0) \<or>
      (te_state t = TERMINAL_COMPLETED \<and> te_restore_before t < te_final_counter t) \<or>
      (te_state t = TERMINAL_FAILED \<and> 0 \<le> sint (te_error t)) \<or>
      te_flags t \<noteq> TERMINAL_FLAGS \<or> te_planned t < te_delivered t)"
    using u tm d g(1) unfolding f e by (auto simp: not_less not_le)
  then show "terminal_validate t = 0"
    using d1 d2 d3 unfolding terminal_validate_def Let_def by (simp add: f g(1))
qed

subsection \<open>The invariant of a run\<close>

definition outs_ok :: "scan_session \<Rightarrow> session_history \<Rightarrow> bool" where
  "outs_ok s h \<longleftrightarrow> map (vr_visit \<circ> fst) (hs_outs h) = map of_nat [0..<length (hs_outs h)] \<and>
     length (hs_outs h) = unat (sn_output_index s) + (if sn_output_inflight s then 1 else 0)"

text \<open>Once the terminal record was given, the session rests.\<close>

definition ended :: "scan_session \<Rightarrow> bool" where
  "ended s \<longleftrightarrow> sn_stopping s \<and> \<not> sn_output_inflight s \<and> sn_output_index s = sn_ledger_count s"

definition terminals_ok :: "scan_session \<Rightarrow> session_history \<Rightarrow> bool" where
  "terminals_ok s h \<longleftrightarrow> (if sn_terminal_taken s
     then ended s \<and> (\<exists>t. hs_terminals h = [t] \<and> terminal_validate t = 0 \<and>
       unat (te_planned t) = length (hs_outs h))
     else hs_terminals h = [])"

definition run_inv :: "nat \<Rightarrow> scan_session \<Rightarrow> session_history \<Rightarrow> bool" where
  "run_inv n s h \<longleftrightarrow> session_inv n (hs_fed h) s \<and> su_session (sn_setup s) \<noteq> 0 \<and>
     su_generation (sn_setup s) \<noteq> 0 \<and>
     sn_bytes_per_sample s = bytes_per_sample (fst (hs_fed h)) \<and> outs_ok s h \<and> terminals_ok s h"

lemma run_inv_keeps:
  assumes "run_inv n s h" and k: "keeps n fed s s'" and "fst fed = fst (hs_fed h)"
  shows "run_inv (n + 1) s' (h\<lparr>hs_fed := fed\<rparr>)"
  using assms session_inv_mono [of n fed s' "n + 1"]
  by (auto simp: run_inv_def keeps_def same_output_def outs_ok_def terminals_ok_def ended_def split: if_splits)

lemma run_inv_settles:
  assumes r: "run_inv n s h" and k: "settles n (hs_fed h) s s'" and n: "n < 2 ^ 64 - 1"
  shows "run_inv (n + 1) s' h"
proof -
  have "unat (sn_output_index s) < n"
    using inflight_less [of n "hs_fed h" s] r k
    by (auto simp: run_inv_def settles_def session_inv_def session_core_def word_less_nat_alt)
  then have "unat (sn_output_index s + 1) = unat (sn_output_index s) + 1"
    using n by (intro unat_Suc_small) simp
  moreover have "\<not> sn_terminal_taken s"
    using r k by (auto simp: run_inv_def settles_def terminals_ok_def ended_def split: if_splits)
  ultimately show ?thesis
    using r k session_inv_mono [of n "hs_fed h" s' "n + 1"]
    by (auto simp: run_inv_def settles_def outs_ok_def terminals_ok_def)
qed

lemma run_inv_takes:
  assumes r: "run_inv n s h" and k: "takes n (hs_fed h) s s' rec"
  shows "run_inv (n + 1) s' (h\<lparr>hs_outs := hs_outs h @ [(rec, slices)]\<rparr>)"
proof -
  have "\<not> sn_terminal_taken s"
    using r k inflight_less [of n "hs_fed h" s']
    by (auto simp: run_inv_def takes_def terminals_ok_def ended_def split: if_splits)
  then show ?thesis
    using r k session_inv_mono [of n "hs_fed h" s' "n + 1"]
    by (auto simp: run_inv_def takes_def outs_ok_def terminals_ok_def)
qed

lemma run_inv_advances:
  assumes r: "run_inv n s h" and k: "advances (n + 1) (hs_fed h) s s'"
    and "sn_stopping s \<longrightarrow> s' = s"
  shows "run_inv (n + 1) s' h"
  using assms
  by (auto simp: run_inv_def advances_def same_session_def outs_ok_def terminals_ok_def ended_def)

lemma run_inv_terminal:
  assumes r: "run_inv n s h" and run: "session_terminal s = (Inr t, s')"
  shows "run_inv (n + 1) s' (h\<lparr>hs_terminals := hs_terminals h @ [t]\<rparr>)"
proof -
  have s: "session_inv n (hs_fed h) s" "su_session (sn_setup s) \<noteq> 0" "su_generation (sn_setup s) \<noteq> 0"
    using r by (simp_all add: run_inv_def)
  note t = terminal_valid [OF s run]
  have "session_inv (n + 1) (hs_fed h) s'"
    using session_inv_mono [OF s(1), of "n + 1"] by (simp add: t(7) session_inv_def session_timed_def)
  then show ?thesis
    using r t by (simp add: run_inv_def outs_ok_def terminals_ok_def ended_def)
qed

lemma step_inv:
  assumes r: "run_inv n s h" and ok: "op_ok op" "release_ok release" and n: "n < 2 ^ 64 - 1"
    and step: "session_step release op (ctx, s, h) = Some (ctx', s', h')"
  shows "run_inv (n + 1) s' h'"
proof -
  have s: "session_inv n (hs_fed h) s" using r by (simp add: run_inv_def)
  have n': "n < 2 ^ 64" using n by simp
  have kept: "run_inv (n + 1) s' h" if "keeps n (hs_fed h) s s'" for s'
    using run_inv_keeps [OF r that refl] by simp
  have returned: "run_inv (n + 1) s' h"
    if "keeps n (hs_fed h) s s' \<or> settles n (hs_fed h) s s'" for s'
    using that kept run_inv_settles [OF r _ n] by blast
  show ?thesis
  proof (cases op)
    case (Op_Rebase env mem visits_mem anchor)
    then show ?thesis
      using step ok kept rebase_inv [OF s] by (auto simp: prod_eq_iff)
  next
    case (Op_Schedule env now anchor)
    then obtain x where f: "session_schedule env s now anchor = Some (x, s')" and h: "h' = h"
      using step by (auto split: option.splits)
    have "sn_stopping s \<longrightarrow> s' = s" using f by (auto simp: session_schedule_def)
    then show ?thesis
      using ok Op_Schedule h run_inv_advances [OF r schedule_inv [OF s n _ f]] by simp
  next
    case (Op_Gain visit g)
    then show ?thesis using step kept gain_inv [OF s] by (auto simp: prod_eq_iff)
  next
    case (Op_Feed env token data first samples)
    obtain x c t where f: "session_feed release ctx env s token data first samples = (x, c, t)" by (metis prod_cases3)
    have "keeps n (fed_after s token data first samples (hs_fed h)) s t"
      using ok Op_Feed by (intro feed_inv [OF s _ _ f]) simp_all
    from run_inv_keeps [OF r this] show ?thesis using step by (simp add: Op_Feed f fed_after_def)
  next
    case (Op_Feedback f received)
    then show ?thesis using step kept feedback_inv(1) [OF s] by auto
  next
    case Op_Ack
    then show ?thesis using step kept feedback_inv(2) [OF s] by auto
  next
    case (Op_Take env)
    obtain x t where f: "session_take_output env s = (x, t)" by (cases rule: prod.exhaust)
    have k: "case x of Inl e \<Rightarrow> keeps n (hs_fed h) s t | Inr (r, slices) \<Rightarrow> takes n (hs_fed h) s t r"
      using ok Op_Take by (intro take_inv [OF s n' _ f]) simp
    show ?thesis
      using step k kept run_inv_takes [OF r] by (auto simp: Op_Take f split: sum.splits)
  next
    case (Op_Complete env visit)
    obtain r c t where f: "finish_output release ctx env s visit True 0 = (r, c, t)" by (metis prod_cases3)
    show ?thesis
      using step ok returned [OF finish_inv [OF s n' _ _ _ f]] by (simp add: Op_Complete f)
  next
    case (Op_Abort env visit err)
    obtain r c t where f: "finish_output release ctx env s visit False err = (r, c, t)" by (metis prod_cases3)
    show ?thesis
      using step ok returned [OF finish_inv [OF s n' _ _ _ f]] by (simp add: Op_Abort f)
  next
    case (Op_Stop env counter)
    then show ?thesis using step ok kept stop_inv [OF s] by (auto simp: prod_eq_iff)
  next
    case (Op_Cancel env counter)
    then show ?thesis using step ok kept session_cancel_inv [OF s] by (auto simp: prod_eq_iff)
  next
    case (Op_Fail env counter err)
    then show ?thesis using step ok kept session_fail_inv(1) [OF s] by auto
  next
    case (Op_Fail_Stage env counter err stage)
    then show ?thesis using step ok kept session_fail_inv(2) [OF s] by auto
  next
    case Op_Terminal
    then show ?thesis
      using step run_inv_terminal [OF r] kept s
      by (auto simp: keeps_def session_terminal_def Let_def split: prod.splits sum.splits if_splits)
  qed
qed

subsection \<open>New sessions\<close>

definition new_history :: "vq_config \<Rightarrow> session_history" where
  "new_history c = \<lparr>hs_fed = (c, []), hs_outs = [], hs_terminals = []\<rparr>"

lemma setup_policy_valid: "setup_validate u = 0 \<Longrightarrow> policy_validate (setup_policy u) = 0"
  by (simp add: setup_validate_def Let_def split: if_splits)

lemma setup_identity: "setup_validate u = 0 \<Longrightarrow> su_session u \<noteq> 0 \<and> su_generation u \<noteq> 0"
  by (drule setup_policy_valid) (auto simp: policy_validate_def setup_policy_def Let_def)

lemma unat_u32_small: "unat a + unat b < 2 ^ 32 \<Longrightarrow> unat (a + b :: u32) = unat a + unat b"
  by (simp add: unat_word_ariths)

lemma capacity_pos:
  assumes u: "setup_validate u = 0"
  shows "session_capacity u \<noteq> 0"
proof -
  note v = policy_validate_early [OF setup_policy_valid [OF u], unfolded setup_policy_def policy_config.simps]
  show ?thesis
  proof (cases "su_version u = CONTINUOUS_VERSION")
    case True
    have "\<not> 64 < su_maximum_queue_visits u"
      using u unfolding setup_validate_def Let_def by (simp split: if_splits)
    then have "unat (su_maximum_queue_visits u + 2) = unat (su_maximum_queue_visits u) + unat (2::u32)"
      by (intro unat_u32_small) (simp add: word_less_nat_alt)
    then show ?thesis using True by (auto simp: session_capacity_def)
  next
    case False
    then have d: "unat (su_duration_ms u) \<le> 300000" using v(3) by (simp add: word_less_nat_alt)
    have "x div y + 1 \<noteq> 0" if "x = su_duration_ms u" for x y :: u32
    proof -
      have "unat (x div y) \<le> 300000"
        by (simp add: unat_div that order_trans [OF div_le_dividend d])
      then have "unat (x div y + 1) = unat (x div y) + unat (1::u32)" by (intro unat_u32_small) simp
      then show ?thesis by auto
    qed
    then show ?thesis using False by (simp add: session_capacity_def)
  qed
qed

lemma create_inv:
  assumes c: "session_create ce u rt r start = (Inr s, r')"
  shows "run_inv 0 s (new_history (session_queue_config u rt))" and "setup_validate u = 0"
proof -
  show u: "setup_validate u = 0"
    using c by (auto simp: session_create_def Let_def split: if_splits)
  obtain p q where parts: "fst (session_parts ce u rt r start) = Inr (p, q)"
    and s: "sn_setup s = u" "sn_queue s = q" "sn_ledger s = replicate (unat (session_capacity u)) zero_entry"
      "sn_ledger_count s = 0" "sn_output_index s = 0" "sn_delivered s = 0" "sn_skipped s = 0" "sn_invalid s = 0"
      "sn_cancelled s = 0" "\<not> sn_stopping s" "\<not> sn_failed s" "\<not> sn_released s" "\<not> sn_output_inflight s"
      "\<not> sn_terminal_taken s" "sn_bytes_per_sample s = rt_bytes_per_sample rt"
    using c by (auto simp: session_create_def Let_def split: if_splits prod.splits sum.splits)
  have "vq_create (ce_queue_memory ce) (session_queue_config u rt) = Inr q"
    using parts by (auto simp: session_parts_def Let_def split: if_splits prod.splits sum.splits)
  then have q: "held q (session_queue_config u rt, [])" "idents q = []"
    using create_vq_ok create_books(2,3) by (auto simp: held_def idents_def)
  have "0 < unat (session_capacity u)" using capacity_pos [OF u] by (simp add: unat_gt_0)
  then have "session_core False 0 (session_queue_config u rt, []) s"
    using q by (simp add: session_core_def s entries_def window_def agree_def)
  then show "run_inv 0 s (new_history (session_queue_config u rt))"
    using setup_identity [OF u]
    by (simp add: run_inv_def session_inv_def session_timed_def outs_ok_def terminals_ok_def new_history_def s
        session_queue_config_def)
qed

lemma run_run_inv:
  assumes "run_inv n s h" and "list_all op_ok ops" "release_ok release" "n + length ops < 2 ^ 64"
    and "session_run release ops (ctx, s, h) = Some (ctx', s', h')"
  shows "run_inv (n + length ops) s' h'"
  using assms
proof (induction ops arbitrary: n ctx s h)
  case (Cons op ops)
  then obtain c t k where st: "session_step release op (ctx, s, h) = Some (c, t, k)"
    and rest: "session_run release ops (c, t, k) = Some (ctx', s', h')"
    by (auto split: option.splits)
  have "run_inv (n + 1) t k" using Cons.prems by (intro step_inv [OF _ _ _ _ st]) simp_all
  from Cons.IH [OF this _ _ _ rest] Cons.prems show ?case by simp
qed simp

text \<open>A session that was created and the calls made since.\<close>

definition session_reached ::
  "create_env \<Rightarrow> scan_setup \<Rightarrow> session_runtime \<Rightarrow> scan_radio \<Rightarrow> u64 \<Rightarrow> ('c \<Rightarrow> u64 \<Rightarrow> int \<times> 'c) \<Rightarrow> 'c \<Rightarrow>
     session_op list \<Rightarrow> ('c \<times> scan_session \<times> session_history) option" where
  "session_reached ce u rt r start release ctx ops =
     (case session_create ce u rt r start of
        (Inl _, _) \<Rightarrow> None
      | (Inr s, _) \<Rightarrow> session_run release ops (ctx, s, new_history (session_queue_config u rt)))"

lemma reached_inv:
  assumes "session_reached ce u rt r start release ctx ops = Some (ctx', s, h)"
    and "list_all op_ok ops" "release_ok release" "length ops < 2 ^ 64"
  shows "run_inv (length ops) s h"
  using assms run_run_inv [OF create_inv(1), of ce u rt r start _ _ ops release ctx ctx' s h]
  by (auto simp: session_reached_def split: prod.splits sum.splits)

lemma terminal_counts:
  assumes "terminal_validate t = 0"
  shows "unat (te_delivered t) + unat (te_skipped t) + unat (te_invalid t) + unat (te_cancelled t)
    = unat (te_planned t)"
proof -
  have d: "te_delivered t \<le> te_planned t" "te_skipped t \<le> te_planned t - te_delivered t"
    "te_invalid t \<le> te_planned t - te_delivered t - te_skipped t"
    "te_cancelled t = te_planned t - te_delivered t - te_skipped t - te_invalid t"
    using assms unfolding terminal_validate_def Let_def by (auto simp: not_less split: if_splits)
  then show ?thesis
    by (simp add: unat_sub word_le_nat_alt)
qed

text \<open>C4: Whatever calls are made on a scan session, in whatever order and with whatever answers of the
  driver, the clock and the release callback: the outputs come one at a time in the order of the
  visits; a terminal record is given at most once; and it can be sent and is read back as it is,
  and accounts for every output: delivered, skipped, invalid and cancelled ones add up to the
  outputs given, which are all the planned visits.\<close>

theorem session_terminal_accounts:
  assumes "session_reached ce u rt r start release ctx ops = Some (ctx', s, h)"
    and "list_all op_ok ops" "release_ok release" "length ops < 2 ^ 64"
  shows "map (vr_visit \<circ> fst) (hs_outs h) = map of_nat [0..<length (hs_outs h)] \<and>
    length (hs_terminals h) \<le> 1 \<and>
    (\<forall>t \<in> set (hs_terminals h). \<exists>w. terminal_encode 128 t = Inr w \<and> terminal_decode w = Inr t \<and>
       unat (te_planned t) = length (hs_outs h) \<and>
       unat (te_delivered t) + unat (te_skipped t) + unat (te_invalid t) + unat (te_cancelled t)
         = length (hs_outs h))"
proof -
  note inv = reached_inv [OF assms]
  show ?thesis
  proof (cases "sn_terminal_taken s")
    case False
    then show ?thesis using inv by (simp add: run_inv_def outs_ok_def terminals_ok_def)
  next
    case True
    then obtain t where t: "hs_terminals h = [t]" "terminal_validate t = 0" "unat (te_planned t) = length (hs_outs h)"
      using inv by (auto simp: run_inv_def terminals_ok_def)
    then obtain w where "terminal_encode 128 t = Inr w" by (simp add: terminal_encode_def Let_def)
    then show ?thesis
      using inv t terminal_counts [OF t(2)] by (simp add: run_inv_def outs_ok_def terminal_exact)
  qed
qed

subsection \<open>Samples\<close>

lemma step_config: "session_step release op (ctx, s, h) = Some (ctx', s', h') \<Longrightarrow> fst (hs_fed h') = fst (hs_fed h)"
  by (cases op) (auto simp: fed_after_def split: option.splits prod.splits sum.splits)

lemma reached_config:
  assumes "session_reached ce u rt r start release ctx ops = Some (ctx', s, h)"
  shows "fst (hs_fed h) = session_queue_config u rt"
proof -
  have "session_run release ops (c, t, k) = Some (ctx', s, h) \<Longrightarrow> fst (hs_fed h) = fst (hs_fed k)" for c t k
  proof (induction ops arbitrary: c t k)
    case (Cons op ops)
    then obtain c' t' k' where "session_step release op (c, t, k) = Some (c', t', k')"
      "session_run release ops (c', t', k') = Some (ctx', s, h)" by (auto split: option.splits)
    then show ?case using Cons.IH step_config by fastforce
  qed simp
  then show ?thesis
    using assms by (auto simp: session_reached_def new_history_def split: prod.splits sum.splits)
qed

lemma visit_result_code_1 [simp]: "visit_result_code r = 1 \<longleftrightarrow> r = VISIT_COMPLETE"
  by (cases r) simp_all

text \<open>A complete visit at the head of the queue.\<close>

lemma take_complete:
  assumes q: "vq_ok q fed" and run: "vq_take q = (Inr view, q')" and c: "view_result view = VISIT_COMPLETE"
  shows "\<exists>v vs. active q = v # vs \<and> view_id view = v_id v \<and> bound v \<and>
      view_start view = v_start v \<and> unat (view_end view) = unat (v_start v) + unat (v_samples v) \<and>
      0 < unat (v_samples v)"
    and "tiles (origin fed) (unat (bytes_per_sample (vq_cfg q)))
      (unat (block_samples (vq_cfg q)) * unat (bytes_per_sample (vq_cfg q)))
      (unat (view_start view) * unat (bytes_per_sample (vq_cfg q))) (view_slices view)
      (unat (view_end view) * unat (bytes_per_sample (vq_cfg q)))"
    and "\<forall>sl \<in> set (view_slices view). \<exists>s \<in> owned_slots (blocks q').
      blk_token (blocks q' ! s) = slice_token sl \<and> blk_data (blocks q' ! s) = slice_data sl"
proof -
  obtain v vs where taken: "active q = v # vs"
    "vq_take q = (Inr \<lparr>view_id = v_id v, view_start = v_start v, view_end = v_end v,
       view_result = v_result v, view_slices = v_slices v\<rparr>, vq_set q 0 (v\<lparr>sending := True\<rparr>))"
    by (rule take_cases [OF q]) (use run in simp_all)
  have v: "v \<in> set (active q)" by (simp add: taken(1))
  have view: "view = \<lparr>view_id = v_id v, view_start = v_start v, view_end = v_end v,
      view_result = v_result v, view_slices = v_slices v\<rparr>" and q': "blocks q' = blocks q"
    using taken(2) run by auto
  have "v_result v = VISIT_COMPLETE" using c by (simp add: view)
  then have ok: "v_bytes v \<noteq> 0" "bound v" "v_next v = v_end v" "unat (v_end v) = unat (v_start v) + unat (v_samples v)"
    "0 < v_samples v" "tiles (origin fed) (unat (bytes_per_sample (vq_cfg q)))
      (unat (block_samples (vq_cfg q)) * unat (bytes_per_sample (vq_cfg q)))
      (unat (v_start v) * unat (bytes_per_sample (vq_cfg q))) (v_slices v)
      (unat (v_end v) * unat (bytes_per_sample (vq_cfg q)))"
    using vq_okD(4) [OF q v, unfolded visit_ok_def Let_def] by (auto split: if_splits)
  have l: "\<exists>s \<in> owned_slots (blocks q'). blk_token (blocks q' ! s) = slice_token sl \<and>
      blk_data (blocks q' ! s) = slice_data sl" if "sl \<in> set (view_slices view)" for sl
  proof -
    have "sl \<in> set (v_slices v)" using that by (simp add: view)
    from slices_leasedD [OF vq_okD(5) [OF q v] this] show ?thesis
      unfolding q' using books_pinned_owned(1,2) [OF vq_okD(1) [OF q] v] vq_booksD(2) [OF vq_okD(1) [OF q]]
      by (metis (no_types, lifting) mem_Collect_eq owned_slots_def)
  qed
  show "\<exists>v vs. active q = v # vs \<and> view_id view = v_id v \<and> bound v \<and>
      view_start view = v_start v \<and> unat (view_end view) = unat (v_start v) + unat (v_samples v) \<and>
      0 < unat (v_samples v)"
    using taken(1) ok by (simp add: view word_less_nat_alt)
  show "tiles (origin fed) (unat (bytes_per_sample (vq_cfg q)))
      (unat (block_samples (vq_cfg q)) * unat (bytes_per_sample (vq_cfg q)))
      (unat (view_start view) * unat (bytes_per_sample (vq_cfg q))) (view_slices view)
      (unat (view_end view) * unat (bytes_per_sample (vq_cfg q)))"
    using ok(6) by (simp add: view)
  show "\<forall>sl \<in> set (view_slices view). \<exists>s \<in> owned_slots (blocks q').
      blk_token (blocks q' ! s) = slice_token sl \<and> blk_data (blocks q' ! s) = slice_data sl"
    using l by blast
qed

lemma complete_output:
  assumes r: "run_inv n s h" and n: "n < 2 ^ 64"
    and run: "session_take_output env s = (Inr (rec, slices), s')" and c: "vr_result rec = RESULT_COMPLETE"
  obtains view q where "vq_take (sn_queue s) = (Inr view, q)" and "view_result view = VISIT_COMPLETE"
    and "slices = view_slices view" and "sn_queue s' = q"
    and "vr_valid_start rec = view_start view"
    and "unat (vr_valid_end rec) = unat (view_end view)"
    and "vr_iq_bytes rec = (view_end view - view_start view) * ucast (sn_bytes_per_sample s)"
proof -
  let ?e = "ledger_at s (sn_output_index s)"
  have s: "session_inv n (hs_fed h) s" using r by (simp add: run_inv_def)
  have go: "\<not> sn_output_inflight s" "\<not> sn_ledger_count s \<le> sn_output_index s" "le_closed ?e"
    using run by (auto simp: session_take_output_def Let_def split: if_splits)
  have core: "session_core False n (hs_fed h) s" using s go by (simp add: session_inv_def)
  have lt: "sn_output_index s < sn_ledger_count s" using go by (simp add: not_le)
  obtain es where h: "entries s = ?e # es" using head_entry [OF core lt n] by metis
  have adm: "le_admission ?e \<noteq> VISIT_COMPLETE" and ag: "list_all2 fits (idents (sn_queue s)) (queued_keys (?e # es))"
    and ok: "vq_ok (sn_queue s) (snd (hs_fed h))"
    using core by (simp_all add: session_core_def h agree_def held_def)
  have q: "le_queued ?e"
  proof (rule ccontr)
    assume "\<not> le_queued ?e"
    then have "vr_result rec = visit_result_code (le_admission ?e)"
      using run go by (auto simp: session_take_output_def Let_def make_record_def)
    then show False using adm c by simp
  qed
  obtain y p where y: "vq_take (sn_queue s) = (y, p)" by (cases rule: prod.exhaust)
  obtain view where v: "y = Inr view"
    using run go q y by (cases y) (auto simp: session_take_output_def Let_def)
  have vid: "view_id view = choice_visit (le_choice ?e)"
    using run go q y v by (auto simp: session_take_output_def Let_def map_prod_def split: if_splits prod.splits)
  have sl: "slices = view_slices view" "sn_queue s' = p" "vr_result rec = visit_result_code (view_result view)"
    "vr_valid_start rec = le_valid_start ?e"
    using run go q y v vid by (auto simp: session_take_output_def Let_def make_record_def)
  then have cv: "view_result view = VISIT_COMPLETE" using c by simp
  obtain v0 vs where a: "active (sn_queue s) = v0 # vs" "bound v0" "view_start view = v_start v0"
    "unat (view_end view) = unat (v_start v0) + unat (v_samples v0)"
    using take_complete(1) [OF ok y [unfolded v] cv] by blast
  have "fits (ident v0) (key ?e)" using ag q by (simp add: idents_def a(1))
  then have w: "le_valid_start ?e = view_start view" "unat (le_valid_end ?e) = unat (view_end view)"
    using a(2-4) by (simp_all add: ident_def key_def)
  then have we: "le_valid_end ?e = view_end view" by (simp add: word_unat_eq_iff)
  have e: "vr_valid_end rec = view_end view"
    "vr_iq_bytes rec = (view_end view - view_start view) * ucast (sn_bytes_per_sample s)"
    using run go q y v vid cv w(1) we by (auto simp: session_take_output_def Let_def make_record_def continuous_def)
  show thesis
    by (rule that [OF y [unfolded v] cv sl(1,2)]) (simp_all add: sl(4) w(1) e)
qed

text \<open>C3: When a scan session gives an output whose visit is complete, after whatever calls: its slices
  lie end to end in the stream of fed samples, from the first to the last sample of the window that
  the record names, each within the block it points to, and that block is still leased; the window
  is not empty, and the byte count of the record is that of its samples and of its slices.\<close>

theorem session_output_exact:
  assumes "session_reached ce u rt r start release ctx ops = Some (ctx', s, h)"
    and "list_all op_ok ops" "release_ok release" "length ops < 2 ^ 64"
    and "session_take_output env s = (Inr (rec, slices), s')" and "vr_result rec = RESULT_COMPLETE"
    and "bps = unat (rt_bytes_per_sample rt)"
  shows "unat (vr_valid_start rec) < unat (vr_valid_end rec) \<and>
    unat (vr_iq_bytes rec) = (unat (vr_valid_end rec) - unat (vr_valid_start rec)) * bps \<and>
    tiles (origin (snd (hs_fed h))) bps (unat (rt_block_samples rt) * bps)
      (unat (vr_valid_start rec) * bps) slices (unat (vr_valid_end rec) * bps) \<and>
    sum_list (map slice_bytes slices) = unat (vr_iq_bytes rec) \<and>
    (\<forall>sl \<in> set slices. \<exists>k \<in> owned_slots (blocks (sn_queue s')).
      blk_token (blocks (sn_queue s') ! k) = slice_token sl \<and>
      blk_data (blocks (sn_queue s') ! k) = slice_data sl)"
proof -
  note inv = reached_inv [OF assms(1-4)]
  let ?c = "session_queue_config u rt"
  have cfg: "fst (hs_fed h) = ?c" by (rule reached_config [OF assms(1)])
  have bs: "bytes_per_sample ?c = rt_bytes_per_sample rt" "block_samples ?c = rt_block_samples rt"
    by (simp_all add: session_queue_config_def)
  have ok: "vq_ok (sn_queue s) (snd (hs_fed h))" and c: "vq_cfg (sn_queue s) = ?c"
    and b: "sn_bytes_per_sample s = rt_bytes_per_sample rt"
    using inv by (simp_all add: run_inv_def session_inv_def session_core_def held_def cfg bs)
  have lim: "vq_limits ?c" using vq_okD(2) [OF ok] by (simp add: c)
  obtain view q where v: "vq_take (sn_queue s) = (Inr view, q)" "view_result view = VISIT_COMPLETE"
    and f: "slices = view_slices view" "sn_queue s' = q" "vr_valid_start rec = view_start view"
      "unat (vr_valid_end rec) = unat (view_end view)"
      "vr_iq_bytes rec = (view_end view - view_start view) * ucast (sn_bytes_per_sample s)"
    by (rule complete_output [OF inv assms(4,5,6)])
  obtain v0 :: vq_visit where t: "view_start view = v_start v0" "unat (view_end view) = unat (v_start v0) + unat (v_samples v0)"
    "0 < unat (v_samples v0)"
    using take_complete(1) [OF ok v] by blast
  note tl = take_complete(2,3) [OF ok v, unfolded c bs]
  have "unat (view_end view - view_start view) = unat (v_samples v0)"
    using t(1,2) by (subst unat_sub) (simp_all add: word_le_nat_alt)
  moreover have "unat (v_samples v0) < 2 ^ 32" "bps \<le> 8"
    using unsigned_less [of "v_samples v0"] lim by (auto simp: vq_limits_def bs assms(7))
  then have "unat (v_samples v0) * bps < 2 ^ 32 * 9" by (intro mult_strict_mono) auto
  ultimately have iq: "unat (vr_iq_bytes rec) = unat (v_samples v0) * bps"
    by (simp add: f(5) b assms(7) unat_word_ariths)
  show ?thesis
    using t f iq tl tiles_sum [OF tl(1)] by (simp add: assms(7) add_mult_distrib)
qed

subsection \<open>A run\<close>

text \<open>A session over two targets of which one visit is captured from two blocks, sent, and ended.\<close>

definition session_demo_setup :: scan_setup where
  "session_demo_setup = demo_setup\<lparr>su_version := 2, su_source_rate_hz := 520834,
     su_bandwidth_hz := 500000, su_dwell_ms := 20\<rparr>"

definition session_demo_runtime :: session_runtime where
  "session_demo_runtime = \<lparr>rt_block_count = 8, rt_headroom_blocks = 2, rt_block_samples = 10416,
     rt_bytes_per_sample = 4, rt_drain_bytes_per_second = 10000000\<rparr>"

definition session_demo_env :: "u32 \<Rightarrow> scan_env" where
  "session_demo_env low = \<lparr>en_diag = Inr (),
     en_recall = Inr \<lparr>ry_frequency_hz = 200000000, ry_profile_crc32 = 9, ry_counter_before = low,
       ry_counter_after = low + 500\<rparr>,
     en_release = Inr \<lparr>rz_frequency_hz = 1, rz_counter_before = low, rz_counter_after = low + 500\<rparr>,
     en_snapshot = Inr low, en_clock_ns = None\<rparr>"

definition session_demo_create :: create_env where
  "session_demo_create = \<lparr>ce_env = session_demo_env 1000, ce_acquire = Inr (), ce_configure = Inr (),
     ce_session_memory = True, ce_ledger_memory = True, ce_policy_memory = True,
     ce_visits_memory = True, ce_queue_memory = True\<rparr>"

definition session_demo_radio :: scan_radio where
  "session_demo_radio = projr (radio_init (Inr \<lparr>rk_magic = COUNTER_MAGIC, rk_version = 1, rk_size = 32,
     rk_features = 0x1f, rk_maximum_profiles = 8, rk_counter_bits = 32, rk_resolution_hz = 2,
     rk_reserved = (0, 0)\<rparr>))"

definition session_demo_release :: "u64 list \<Rightarrow> u64 \<Rightarrow> int \<times> u64 list" where
  "session_demo_release ctx token = (0, ctx @ [token])"

definition session_demo_capture :: "session_op list" where
  "session_demo_capture = [Op_Schedule (session_demo_env 1000) 1000 1000,
     Op_Feed (session_demo_env 26000) 11 4096 5000 10416,
     Op_Feed (session_demo_env 26000) 12 8192 15416 10416, Op_Stop (session_demo_env 26000) 26000]"

definition session_demo_calls :: "session_op list" where
  "session_demo_calls = session_demo_capture @ [Op_Take (session_demo_env 26000),
     Op_Complete (session_demo_env 26000) 0, Op_Terminal, Op_Terminal]"

definition session_demo_reached :: "session_op list \<Rightarrow> (u64 list \<times> scan_session \<times> session_history) option" where
  "session_demo_reached = session_reached session_demo_create session_demo_setup session_demo_runtime
     session_demo_radio 900 session_demo_release []"

text \<open>The byte counts of slices are left as they are when a run is evaluated.\<close>

definition byte_count :: "u64 \<Rightarrow> nat \<Rightarrow> nat" where
  "byte_count samples bps = unat samples * bps"

declare byte_count_def [code del]

lemma vq_feed_visit_symbolic [code]:
  "vq_feed_visit token data first stop slot i q =
     (let v = vq_at q i; a = (if v_start v < first then first else v_start v);
          b = (if stop < v_end v then stop else v_end v)
      in
      if v_result v \<noteq> VISIT_ADMITTED then q
      else if v_next v < first \<and> v_next v < v_end v then vq_terminate q i VISIT_INVALID_GAP
      else if b \<le> a then q
      else if a \<noteq> v_next v \<or> remaining_blocks v = 0 \<or> 64 \<le> length (v_slices v)
      then vq_terminate q i VISIT_INVALID_GAP
      else let
        bps = unat (bytes_per_sample (vq_cfg q));
        slice = \<lparr>slice_token = token, slice_data = data, slice_offset = byte_count (a - first) bps,
                  slice_bytes = byte_count (b - a) bps\<rparr>;
        left = uint_dec (remaining_blocks v);
        reserved = uint_dec (reserved_blocks (stats q));
        fin = (b = v_end v);
        v = v\<lparr>v_block := v_block v @ [slot], v_slices := v_slices v @ [slice],
              remaining_blocks := (if fin then 0 else left), v_next := b,
              v_result := (if fin \<and> closed v then VISIT_COMPLETE else v_result v)\<rparr>
      in vq_set (q\<lparr>blocks := (blocks q)[slot := (blocks q ! slot)\<lparr>refs := refs (blocks q ! slot) + 1\<rparr>],
           stats := (stats q)\<lparr>reserved_blocks := (if fin then uint_sub reserved left else reserved)\<rparr>\<rparr>)
         i v)"
  unfolding vq_feed_visit_def byte_count_def ..

lemma session_demo_ok: "list_all op_ok session_demo_calls" "release_ok session_demo_release"
  by (simp_all add: session_demo_calls_def session_demo_capture_def env_ok_def session_demo_env_def
      ioctl_ok_def release_ok_def session_demo_release_def)

definition session_demo_summary :: "session_op list \<Rightarrow> (u64 list \<times> nat \<times> (u64 \<times> u32) list) option" where
  "session_demo_summary ops = map_option (\<lambda>(ctx, s, h). (ctx, length (hs_outs h),
     map (\<lambda>t. (te_delivered t, te_state t)) (hs_terminals h))) (session_demo_reached ops)"

lemma session_demo_value: "session_demo_summary session_demo_calls = Some ([12, 11], 1, [(1, 1)])"
  by code_simp

theorem session_terminal_accounts_witness:
  "\<exists>s h t w. session_demo_reached session_demo_calls = Some ([12, 11], s, h) \<and>
     map (vr_visit \<circ> fst) (hs_outs h) = [0] \<and> hs_terminals h = [t] \<and>
     terminal_encode 128 t = Inr w \<and> terminal_decode w = Inr t \<and> te_delivered t = 1 \<and> te_skipped t = 0"
proof -
  obtain s h t where r: "session_demo_reached session_demo_calls = Some ([12, 11], s, h)"
    and l: "length (hs_outs h) = 1" and t: "hs_terminals h = [t]" "te_delivered t = 1"
    using session_demo_value by (auto simp: session_demo_summary_def)
  have "length session_demo_calls < 2 ^ 64"
    by (simp add: session_demo_calls_def session_demo_capture_def)
  from session_terminal_accounts [OF r [unfolded session_demo_reached_def] session_demo_ok this]
  obtain w where "map (vr_visit \<circ> fst) (hs_outs h) = [0]" "terminal_encode 128 t = Inr w"
    "terminal_decode w = Inr t" "unat (te_skipped t) = 0"
    using l t by auto
  then show ?thesis using r t by (auto simp: unat_eq_0)
qed

definition session_demo_output :: "(u32 \<times> u64 \<times> u64) option" where
  "session_demo_output = (case session_demo_reached session_demo_capture of None \<Rightarrow> None
     | Some (ctx, s, h) \<Rightarrow> (case session_take_output (session_demo_env 26000) s of
         (Inl e, s') \<Rightarrow> None
       | (Inr (r, slices), s') \<Rightarrow> Some (vr_result r, vr_valid_start r, vr_valid_end r)))"

lemma session_demo_output: "session_demo_output = Some (RESULT_COMPLETE, 6208, 16624)"
  by code_simp

theorem session_output_exact_witness:
  "\<exists>s h r slices s'. session_demo_reached session_demo_capture = Some ([], s, h) \<and>
     session_take_output (session_demo_env 26000) s = (Inr (r, slices), s') \<and> unat (vr_iq_bytes r) = 41664 \<and>
     tiles (origin (snd (hs_fed h))) 4 41664 24832 slices 66496 \<and>
     sum_list (map slice_bytes slices) = 41664"
proof -
  obtain ctx s h r slices s' where run: "session_demo_reached session_demo_capture = Some (ctx, s, h)"
    and take: "session_take_output (session_demo_env 26000) s = (Inr (r, slices), s')"
    and r: "vr_result r = RESULT_COMPLETE" "vr_valid_start r = 6208" "vr_valid_end r = 16624"
    using session_demo_output
    by (auto simp: session_demo_output_def split: option.splits prod.splits sum.splits)
  have ok: "list_all op_ok session_demo_capture" "length session_demo_capture < 2 ^ 64"
    using session_demo_ok(1) by (simp_all add: session_demo_calls_def session_demo_capture_def)
  have rt: "rt_bytes_per_sample session_demo_runtime = 4" "rt_block_samples session_demo_runtime = 10416"
    by (simp_all add: session_demo_runtime_def)
  have "session_demo_summary session_demo_capture = Some ([], 0, [])" by code_simp
  then have "ctx = []" using run by (simp add: session_demo_summary_def)
  then show ?thesis
    using session_output_exact [OF run [unfolded session_demo_reached_def] ok(1) session_demo_ok(2) ok(2) take r(1) refl]
      run take r rt by auto
qed

end
