(* ===== verification/Spec2Isabelle.thy ===== *)
theory Spec2Isabelle
  imports Ddr_Wire Hop_Records Scan_Draws Visit_Runs Scan_Delivery Hop_Session_Runs Counter_Metadata
    Session_Runs
begin

text \<open>
  A verification development for the \<open>iiod\<close> server of \<open>libiio\<close>, as extended with the \<open>spf-*\<close>
  components for radio capture: rings of DMA frames, frequency hopping, scanning.

  Parts. The server (\<open>iiod/ops.c\<close>) reads frames from a DMA device into a ring of slots
  (\<open>ddr-ring-core.c\<close>) and sends them to a network client; requests and statuses are little-endian
  records (\<open>spf-ddr-ring-request.c\<close>, \<open>spf-ddr-burst-request.c\<close>, \<open>spf-ddr-ring-status.c\<close>,
  \<open>spf-hop-protocol.c\<close>, \<open>spf-hop-adaptive-protocol.c\<close>). A scan session
  (\<open>spf-scan-session.c\<close>) chooses the frequency of each visit with the scan policy
  (\<open>spf-scan-policy.c\<close>), tunes the radio (\<open>spf-scan-radio.c\<close>), and has a visit queue
  (\<open>spf-visit-queue.c\<close>) turn the captured blocks into views, one for each visit; it keeps a ledger of
  the visits until the client has their records, and ends with a terminal record
  (\<open>spf-scan-protocol.c\<close>). A hop session (\<open>spf-hop-session.c\<close>) submits a plan to a device, checks what the device
  reports with each block and sends it to the client as sidecars.

  Theories, in dependency order.
  \<^item> \<open>Iiod_Prelude\<close>: C integer types as words, errno numbers, circular arrays as lists, the
    interface \<open>bounded_fifo\<close> of a bounded queue with its client lemmas.
  \<^item> \<open>Ddr_Ring\<close>: the ring core, every operation of \<open>ddr-ring-core.c\<close> on the record \<open>ring_core\<close>.
    Safety of every run, refinement of a bounded queue in extension mode (interpretation
    \<open>ring_fifo\<close>), no deadlock, atomic failures, life cycle, draining, continuity.
  \<^item> \<open>Le_Codec\<close>: the byte accessors that every codec defines, their algebra, and the interface
    \<open>wire_codec\<close> of a codec whose decoder accepts exactly the encoder's outputs.
  \<^item> \<open>Ddr_Wire\<close>: request decoders and status codec of the ring, and the status that
    \<open>read_buffer_metadata_status\<close> of \<open>ops.c\<close> builds.
  \<^item> \<open>Hop_Protocol\<close>, \<open>Hop_Records\<close>: hop plans, events, sidecars and statuses.
  \<^item> \<open>Scan_Policy\<close>: the scan policy's state and operations. \<open>Scan_Feedback\<close>: configurations,
    accounting of feedback and acknowledgements. \<open>Scan_Select\<close>: weights and draws.
    \<open>Scan_Deadlines\<close>: earliest-deadline-first feasibility and punctual clients. \<open>Scan_Draws\<close>: the
    generator permutes its states, and selections draw targets in exact proportion to their weights.
  \<^item> \<open>Visit_Queue\<close>: the queue of reserved visits over leased DMA blocks (\<open>spf-visit-queue.c\<close>).
    \<open>Visit_Books\<close>: its accounting invariant. \<open>Visit_Capture\<close>: which samples a visit holds.
    \<open>Visit_Runs\<close>: exact and pinned views, gaps, conservation of leases, and shutdown
    with a release callback that may fail.

  \<^item> \<open>Wire_Records\<close>: records written field by field into zeroed bytes, and the CRC-32.
    \<open>Scan_Wire\<close>, \<open>Scan_Messages\<close>: the ten messages of the scan protocol (\<open>spf-scan-protocol.c\<close>).
    \<open>Scan_Exact\<close>: their codecs are exact (ten interpretations of \<open>wire_codec\<close>), no corrupted
    byte passes, accepted records are consistent. \<open>Scan_Delivery\<close>: the acknowledgements of the
    scan policy can always be sent.
  \<^item> \<open>Scan_Radio\<close>: the lease of the receiver and its counters, extended to 64 bits
    (\<open>spf-scan-radio.c\<close>). \<open>Scan_Session\<close>: every operation of \<open>spf-scan-session.c\<close> on the record
    \<open>scan_session\<close>, which contains the states of the policy, the queue and the radio.
    \<open>Session_Books\<close>: the invariant, which relates the ring of ledger entries to the visits in the
    queue and to the counters of the results. \<open>Session_Steps\<close>: selecting, tuning and admitting a
    visit keep it. \<open>Session_Output\<close>: feeding, ending, and the outputs keep it. \<open>Session_Runs\<close>:
    sequences of calls; the outputs come in the order of the visits, a complete output has exactly
    the samples its record names, and the terminal record accounts for every output.
  \<^item> \<open>Wire_Patch\<close>: formats made from another one by overwriting fixed fields (the interface
    \<open>patched_codec\<close>). \<open>Hop_Adaptive\<close>: the versions 2 to 4 of the hop protocol
    (\<open>spf-hop-adaptive-protocol.c\<close>). \<open>Hop_Adaptive_Exact\<close>, \<open>Hop_Adaptive_Sidecar\<close>,
    \<open>Hop_Adaptive_Records\<close>: their codecs are exact, their versions disjoint, and the canonical
    configuration determines the request.
  \<^item> \<open>Hop_Session\<close>: the plain and the adaptive hop session (\<open>spf-hop-session.c\<close>). The answers of
    the device's ports are arguments, without any hypothesis on them. \<open>Hop_Session_Safe\<close>: every end
    of a session is a consistent status. \<open>Hop_Session_Timeline\<close>: the invariant that relates a
    session to the events it has emitted. \<open>Hop_Session_Runs\<close>: sequences of calls; the radio is
    restored once, the events form a timeline, every sidecar can be sent, and a status exactly if the
    restored profile it names is known.
  \<^item> \<open>Counter_Metadata\<close>: the frames of counter metadata (\<open>spf-counter-metadata.c\<close>), exact and
    stable under rebasing.

  Conventions. A function that returns an \<open>int\<close> status returns the same number; one that also
  fills an output argument returns \<open>Inl\<close> the negative code or \<open>Inr\<close> the output. Structures are
  records, passed and returned explicitly. References are values, so the guards against NULL
  arguments have no counterpart. \<open>uint\<close> types are words of their width; \<open>size_t\<close> and
  \<open>unsigned\<close> values that index or count entries of an array are natural numbers. Memory
  allocation is a boolean argument that says whether it succeeds. The server serialises each
  component with a mutex, so an execution is a sequence of calls.

  Loops. All loops are structural recursions or folds, but the rejection loop of the weighted draw,
  which is a partial function: it returns exactly when the generator produces an accepted draw
  (\<open>Scan_Draws\<close>). What contains it is partial too (\<open>session_schedule\<close>, and a run of a scan
  session): \<open>None\<close> means that the selection does not return, and the theorems on runs speak of the
  states after the calls that returned.

  Not modelled. Sockets, USB, threads and device IO (\<open>iiod.c\<close>, \<open>usbd.c\<close>, \<open>serial.c\<close>,
  \<open>thread-pool.c\<close>, most of \<open>ops.c\<close>, the backends of the library), floating-point signal
  processing (\<open>spf-scanner-glrt.c\<close>), XML parsing and the vendored code under \<open>deps\<close>. The worker
  thread of the hop scheduler (\<open>spf-hop-scheduler.c\<close>), the mailbox in front of the \<open>leo_adaptive\<close>
  library (\<open>spf-hop-adaptive-policy.c\<close>), the gain control device (\<open>spf-tandem-session.c\<close>), the
  provider that wires the sessions to buffers (\<open>spf-buffer-metadata.c\<close>), and the diagnostics of scan
  sessions, text for a person.
\<close>

end
